(* ===== verification/Goken_Prelude.thy ===== *)
theory Goken_Prelude
  imports Main "HOL-Library.Word"
begin

text \<open>
  Shared vocabulary of the development: the C integer types of the repository
  (\<^verbatim>\<open>include/core/types.h\<close> and the per-architecture \<^verbatim>\<open>u.h\<close>), the ways a C
  function can fail to return, the sequencing combinator for code that changes a global
  state and may leave through \<^verbatim>\<open>longjmp\<close>, and the generic facts on machine words
  that the component theories use.
\<close>

unbundle bit_operations_syntax

section \<open>Integer types\<close>

type_synonym u8 = "8 word"
type_synonym u16 = "16 word"
type_synonym u32 = "32 word"
type_synonym u64 = "64 word"

text \<open>
  \<^item> \<open>c_frame\<close>: facts of the shape ``this operation leaves that field alone''.
\<close>

named_theorems c_frame

section \<open>Facts on machine words\<close>

lemma bit_word_ge: "LENGTH('a) \<le> n \<Longrightarrow> \<not> bit (w :: 'a::len word) n"
  using bit_imp_le_length [of w n] by auto

lemma unat_less: "unat w < 2 ^ LENGTH('a)" for w :: "'a::len word"
  by (rule unsigned_less)

lemma u32_int:
  obtains k where "uint (x :: u32) = k" and "0 \<le> k" and "k < 4294967296"
  using uint_lt2p [of x] by simp

lemma uint_u32: "0 \<le> uint (x :: u32)" "uint (x :: u32) < 4294967296"
  using uint_lt2p [of x] by simp_all

lemma sint_u32: "- 2147483648 \<le> sint (a :: u32)" "sint (a :: u32) < 2147483648"
  using sint_ge [of a] sint_lt [of a] by simp_all

lemma sint_eq_uint_bit: "sint w = uint w - (if bit w (LENGTH('a) - 1) then 2 ^ LENGTH('a) else 0)"
  for w :: "'a::len word"
proof -
  obtain k where k: "LENGTH('a) = Suc k" using not0_implies_Suc [of "LENGTH('a)"] by auto
  have "sint w = signed_take_bit k (uint w)" by (simp add: sint_uint k)
  also have "\<dots> = take_bit (Suc k) (uint w) - 2 ^ Suc k * of_bool (bit (uint w) k)"
    by (rule signed_take_bit_eq_take_bit_minus)
  also have "take_bit (Suc k) (uint w) = uint w" using k by (metis take_bit_length_eq unsigned_take_bit_eq)
  finally show ?thesis by (simp add: k bit_uint_iff)
qed

lemma word_sint_eq_iff: "a = b \<longleftrightarrow> sint a = sint b" for a b :: "'a::len word"
proof
  assume "sint a = sint b"
  then have "(of_int (sint a) :: 'a word) = of_int (sint b)" by (rule arg_cong)
  then show "a = b" by simp
qed simp

lemma sint_eq_0 [simp]: "sint w = 0 \<longleftrightarrow> w = 0" for w :: "'a::len word"
  by (metis sint_0 word_sint_eq_iff)

lemma sint_m1: "a = - 1 \<longleftrightarrow> sint a = - 1" for a :: "'a::len word"
  unfolding word_sint_eq_iff [of a] by simp

lemma word_neg_bit: "sint w < 0 \<longleftrightarrow> bit w (LENGTH('a) - 1)" for w :: "'a::len word"
  using sint_eq_uint_bit [of w] uint_lt2p [of w] by (cases "bit w (LENGTH('a) - 1)") simp_all

lemma uint_abs: "uint (if sint w < 0 then - w else w) = \<bar>sint w\<bar>" for w :: "'a::len word"
proof (cases "bit w (LENGTH('a) - 1)")
  case True
  then have s: "sint w = uint w - 2 ^ LENGTH('a)" "sint w < 0"
    using sint_eq_uint_bit [of w] word_neg_bit [of w] by simp_all
  then have "w \<noteq> 0" by auto
  then have "uint (- w) = 2 ^ LENGTH('a) - uint w"
    by (simp add: uint_word_ariths zmod_zminus1_eq_if unsigned_eq_0_iff)
  then have "uint (- w) = \<bar>sint w\<bar>" using s by linarith
  with s(2) show ?thesis by (simp only: if_True)
next
  case False
  then have "sint w = uint w" "\<not> sint w < 0"
    using sint_eq_uint_bit [of w] word_neg_bit [of w] by simp_all
  then show ?thesis by simp
qed

lemma lex_less: "0 \<le> c \<Longrightarrow> c < 4294967296 \<Longrightarrow> 0 \<le> d \<Longrightarrow> d < 4294967296 \<Longrightarrow>
   (a < b \<or> a = b \<and> c < d) \<longleftrightarrow> a * 4294967296 + c < b * 4294967296 + d" for a b c d :: int
  by auto

lemma lex_le: "0 \<le> c \<Longrightarrow> c < 4294967296 \<Longrightarrow> 0 \<le> d \<Longrightarrow> d < 4294967296 \<Longrightarrow>
   (a < b \<or> a = b \<and> c \<le> d) \<longleftrightarrow> a * 4294967296 + c \<le> b * 4294967296 + d" for a b c d :: int
  by auto

lemma bit_sdrop32: "bit (signed_drop_bit k w) n \<longleftrightarrow> n < 32 \<and> bit w (if k + n < 32 then k + n else 31)"
  for w :: u32
  by (auto simp: bit_signed_drop_bit_iff bit_word_ge)

lemma bit_sdrop64: "bit (signed_drop_bit k w) n \<longleftrightarrow> n < 64 \<and> bit w (if k + n < 64 then k + n else 63)"
  for w :: u64
  by (auto simp: bit_signed_drop_bit_iff bit_word_ge)

lemma unat_double: "unat w < 2 ^ 63 \<Longrightarrow> unat (push_bit 1 (w :: u64)) = 2 * unat w"
  by (simp add: push_bit_eq_mult unat_word_ariths)

lemma unat_double_or: 
  assumes "unat (w::u64) < 2 ^ 63" shows "unat (push_bit 1 w OR of_bool b) = 2 * unat w + of_bool b"
proof -
  have "push_bit 1 w OR of_bool b = push_bit 1 w + of_bool b"
    by (rule disjunctive_add [symmetric]) (auto simp add: bit_push_bit_iff bit_of_bool_iff bit_0)
  moreover have "unat (push_bit 1 w) = 2 * unat w" using assms by (rule unat_double)
  ultimately show ?thesis using assms by (cases b) (simp_all add: unat_word_ariths)
qed

lemma unat_div_mod_unique:
  assumes "unat q * unat d + unat r = unat (n :: 'a::len word)" and "unat r < unat d"
  shows "q = n div d" and "r = n mod d"
proof -
  have "unat q = unat n div unat d" "unat r = unat n mod unat d"
    using assms by (metis (no_types) add.commute div_mult_self3 div_less add_0 less_nat_zero_code)
     (metis assms mod_less mod_mult_self3)
  then show "q = n div d" and "r = n mod d"
    by (simp_all add: word_unat_eq_iff unat_div_distrib unat_mod_distrib)
qed

lemma unat_and_le: "unat (a AND b) \<le> unat b" for a b :: "'a::len word"
  using word_and_le1 [of a b] by (simp add: word_le_nat_alt)

lemma ucast_div_mod: 
  "ucast (a div b) = (ucast a div ucast b :: u64)" "ucast (a mod b) = (ucast a mod ucast b :: u64)" for a b :: u32
proof -
  have u: "unat (ucast x :: u64) = unat x" for x :: u32
    using unat_less [of x] by (simp add: unsigned_ucast_eq take_bit_nat_eq_self_iff)
  show "ucast (a div b) = (ucast a div ucast b :: u64)" "ucast (a mod b) = (ucast a mod ucast b :: u64)"
    by (simp_all add: word_unat_eq_iff u unat_div_distrib unat_mod_distrib)
qed

lemma bit_0xff: "bit (0xff :: int) n \<longleftrightarrow> n < 8"
  using bit_mask_iff [of 8 n, where ?'a = int] by (simp add: mask_eq_exp_minus_1)

lemma bit_0x7ff: "bit (0x7ff :: int) n \<longleftrightarrow> n < 11"
  using bit_mask_iff [of 11 n, where ?'a = int] by (simp add: mask_eq_exp_minus_1)

lemma bit_0xffff: "bit (0xffff :: int) n \<longleftrightarrow> n < 16"
  using bit_mask_iff [of 16 n, where ?'a = int] by (simp add: mask_eq_exp_minus_1)

lemma bit_0xfffff: "bit (0xfffff :: int) n \<longleftrightarrow> n < 20"
  using bit_mask_iff [of 20 n, where ?'a = int] by (simp add: mask_eq_exp_minus_1)

lemma bit_0x100000: "bit (0x100000 :: int) n \<longleftrightarrow> n = 20"
  using bit_exp_iff [of 20 n, where ?'a = int] by auto

lemma bit_0x10000000000000: "bit (0x10000000000000 :: int) n \<longleftrightarrow> n = 52"
  using bit_exp_iff [of 52 n, where ?'a = int] by auto

lemmas bit_const = bit_0xff bit_0xffff bit_0xfffff bit_0x7ff bit_0x100000 bit_0x10000000000000

lemma sext16: "signed_drop_bit 16 (push_bit 16 t) = (scast (ucast t :: u16) :: u32)" for t :: u32
proof (rule bit_word_eqI)
  fix n assume "n < LENGTH(32)"
  then show "bit (signed_drop_bit 16 (push_bit 16 t)) n = bit (scast (ucast t :: u16) :: u32) n"
    by (cases "n = 15") (auto simp: bit_sdrop32 bit_push_bit_iff bit_simps min_def)
qed

lemma sext8: "signed_drop_bit 24 (push_bit 24 t) = (scast (ucast t :: u8) :: u32)" for t :: u32
proof (rule bit_word_eqI)
  fix n assume "n < LENGTH(32)"
  then show "bit (signed_drop_bit 24 (push_bit 24 t)) n = bit (scast (ucast t :: u8) :: u32) n"
    by (cases "n = 7") (auto simp: bit_sdrop32 bit_push_bit_iff bit_simps min_def)
qed

lemma and_0xffff: "t AND 0xffff = (ucast (ucast t :: u16) :: u32)" for t :: u32
  by (rule bit_word_eqI) (auto simp: bit_simps bit_0xffff)

lemma and_0xff: "t AND 0xff = (ucast (ucast t :: u8) :: u32)" for t :: u32
  by (rule bit_word_eqI) (auto simp: bit_simps bit_0xff)

lemma scast_scast: "(scast (scast (c :: 'a::len word) :: u32) :: u64) = scast c" if "LENGTH('a) \<le> 32"
  using that by (intro bit_word_eqI) (auto simp: bit_simps min_def)

lemma ucast_ucast32: "(ucast (ucast (c :: 'a::len word) :: u32) :: u64) = ucast c" if "LENGTH('a) \<le> 32"
  using that by (intro bit_word_eqI) (auto simp: bit_simps dest: bit_imp_le_length)

lemma scast_via64: "(scast (c :: 'a::len word) :: u32) = ucast (scast c :: u64)" if "LENGTH('a) \<le> 32"
  using that by (intro bit_word_eqI) (auto simp: bit_simps)

lemma ucast_scast_id: "ucast (scast t :: u64) = (t :: u32)"
  by (rule bit_word_eqI) (simp add: bit_simps)

lemma ucast_ucast_id: "ucast (ucast (c :: 'a::len word) :: u32) = c" if "LENGTH('a) \<le> 32"
  using that by (intro bit_word_eqI) (auto simp: bit_simps)

lemma scast_in_range: 
  assumes "- (2 ^ 31) \<le> x" and "x < 2 ^ 31" shows "(scast (word_of_int x :: u32) :: u64) = word_of_int x"
proof -
  have "sint (word_of_int x :: u32) = x" using assms by (simp add: sint_sbintrunc' signed_take_bit_int_eq_self)
  then show ?thesis by (simp add: scast_eq)
qed

lemma sint_scast64: "sint (scast a :: u64) = sint (a :: u32)"
  using sint_u32 [of a] by (simp add: signed_scast_eq signed_take_bit_int_eq_self)

lemma scast_eq_0: "(scast a :: u64) = 0 \<longleftrightarrow> (a :: u32) = 0"
  using sint_eq_0 [of "scast a :: u64"] by (simp only: sint_scast64 sint_eq_0)

lemma word_eq_0_iff_bits: "w = 0 \<longleftrightarrow> (\<forall>n. \<not> bit w n)" for w :: "'a::len word"
  by (auto intro: bit_word_eqI)

lemma unat_less_exp_iff: "unat w < 2 ^ k \<longleftrightarrow> (\<forall>n\<ge>k. \<not> bit w n)" for w :: "'a::len word"
proof -
  have "unat w < 2 ^ k \<longleftrightarrow> unat (drop_bit k w) = 0" 
    unfolding unat_drop_bit_eq drop_bit_eq_div [of k "unat w"] by (simp add: div_eq_0_iff)
  also have "\<dots> \<longleftrightarrow> (\<forall>n. \<not> bit w (k + n))"
    by (simp add: word_eq_0_iff_bits bit_drop_bit_eq unat_eq_zero)
  finally show ?thesis by (metis le_add1 le_iff_add)
qed

lemma unat_not: "unat (NOT w) = 2 ^ LENGTH('a) - 1 - unat w" for w :: "'a::len word"
proof -
  have "NOT w = - 1 - w" by (simp add: not_eq_complement)
  moreover have "unat (- 1 :: 'a word) = 2 ^ LENGTH('a) - 1"
    by (simp add: unsigned_minus_1_eq_mask mask_eq_exp_minus_1)
  ultimately show ?thesis by (simp add: unat_sub)
qed

lemma ones_le: 
  "2 ^ LENGTH('a) - 2 ^ k \<le> unat x \<longleftrightarrow> (\<forall>n \<in> set [k..<LENGTH('a)]. bit x n)" if "k \<le> LENGTH('a)" for x :: "'a::len word"
proof -
  have "2 ^ LENGTH('a) - 2 ^ k \<le> unat x \<longleftrightarrow> unat (NOT x) < 2 ^ k"
    using unat_less [of x] power_increasing [OF that, of "2::nat"] unfolding unat_not by linarith
  then show ?thesis by (auto simp: unat_less_exp_iff bit_not_iff)
qed

lemma bit_0x80: "bit (0x80 :: int) n \<longleftrightarrow> n = 7"
  using bit_exp_iff [of 7 n, where ?'a = int] by auto

lemma bit_0xC0: "bit (0xC0 :: int) n \<longleftrightarrow> n = 6 \<or> n = 7"
proof -
  have "(0xC0 :: int) = 2 ^ 6 OR 2 ^ 7" by simp
  then show ?thesis by (simp only: bit_or_iff bit_exp_iff) auto
qed

lemma bit_0xE0: "bit (0xE0 :: int) n \<longleftrightarrow> n = 5 \<or> n = 6 \<or> n = 7"
proof -
  have "(0xE0 :: int) = 2 ^ 5 OR 2 ^ 6 OR 2 ^ 7" by simp
  then show ?thesis by (simp only: bit_or_iff bit_exp_iff) auto
qed

lemma bit_0xF0: "bit (0xF0 :: int) n \<longleftrightarrow> n = 4 \<or> n = 5 \<or> n = 6 \<or> n = 7"
proof -
  have "(0xF0 :: int) = 2 ^ 4 OR 2 ^ 5 OR 2 ^ 6 OR 2 ^ 7" by simp
  then show ?thesis by (simp only: bit_or_iff bit_exp_iff) auto
qed

lemma bit_0x3F: "bit (0x3F :: int) n \<longleftrightarrow> n < 6"
  using bit_mask_iff [of 6 n, where ?'a = int] by (simp add: mask_eq_exp_minus_1)

lemma bit_0x7F: "bit (0x7F :: int) n \<longleftrightarrow> n < 7"
  using bit_mask_iff [of 7 n, where ?'a = int] by (simp add: mask_eq_exp_minus_1)

lemma bit_0x1FFFFF: "bit (0x1FFFFF :: int) n \<longleftrightarrow> n < 21"
  using bit_mask_iff [of 21 n, where ?'a = int] by (simp add: mask_eq_exp_minus_1)

section \<open>Ways of not returning\<close>

text \<open>
  \<open>Errjmp\<close> is the \<^verbatim>\<open>longjmp(errjmp, 0)\<close> of the emulator, with the diagnostic that
  was printed before it; \<open>Fatal\<close> is \<^verbatim>\<open>fatal\<close>/\<^verbatim>\<open>exits\<close>; \<open>Trap\<close> is a
  hardware trap (a division by zero, a call of a null function); \<open>Undefined\<close> marks an expression whose value the C
  language leaves undefined (a shift by the width of the type or more, a signed overflow in a
  division).
\<close>

datatype diagnostic =
    AddressError u64
  | UserTlbMiss u64
  | UndefInstr u32
  | CopyTooLong

datatype exn =
    Errjmp diagnostic
  | Fatal string
  | Trap
  | Undefined

type_synonym ('s, 'a) eff = "'s \<Rightarrow> (exn + 'a) \<times> 's"

text \<open>
  A computation keeps the state it reached even when it leaves early: the globals of the
  emulator survive a \<^verbatim>\<open>longjmp\<close>.
\<close>

definition ret :: "'a \<Rightarrow> ('s, 'a) eff" where
  "ret x s = (Inr x, s)"

definition raise :: "exn \<Rightarrow> ('s, 'a) eff" where
  "raise e s = (Inl e, s)"

definition bind :: "('s, 'a) eff \<Rightarrow> ('a \<Rightarrow> ('s, 'b) eff) \<Rightarrow> ('s, 'b) eff" where
  "bind m f s = (case m s of (Inl e, s') \<Rightarrow> (Inl e, s') | (Inr x, s') \<Rightarrow> f x s')"

definition gets :: "('s \<Rightarrow> 'a) \<Rightarrow> ('s, 'a) eff" where
  "gets f s = (Inr (f s), s)"

definition modify :: "('s \<Rightarrow> 's) \<Rightarrow> ('s, unit) eff" where
  "modify f s = (Inr (), f s)"

definition seq :: "('s, 'a) eff \<Rightarrow> ('s, 'b) eff \<Rightarrow> ('s, 'b) eff" where
  "seq m k = bind m (\<lambda>_. k)"

definition guard :: "bool \<Rightarrow> exn \<Rightarrow> ('s, unit) eff" where
  "guard b e = (if b then ret () else raise e)"

definition onlyif :: "bool \<Rightarrow> ('s, unit) eff \<Rightarrow> ('s, unit) eff" where
  "onlyif b m = (if b then m else ret ())"

lemma ret_simp [simp]: "ret x s = (Inr x, s)"
  by (simp add: ret_def)

lemma raise_simp [simp]: "raise e s = (Inl e, s)"
  by (simp add: raise_def)

lemma gets_simp [simp]: "gets f s = (Inr (f s), s)"
  by (simp add: gets_def)

lemma modify_simp [simp]: "modify f s = (Inr (), f s)"
  by (simp add: modify_def)

lemma onlyif_True [simp]: "onlyif True m = m"
  by (simp add: onlyif_def)

lemma onlyif_False [simp]: "onlyif False m = ret ()"
  by (simp add: onlyif_def)

lemma guard_True [simp]: "guard True e = ret ()"
  by (simp add: guard_def)

lemma guard_False [simp]: "guard False e = raise e"
  by (simp add: guard_def)

lemma bind_Inr: "m s = (Inr x, s') \<Longrightarrow> bind m f s = f x s'"
  by (simp add: bind_def)

lemma bind_Inl: "m s = (Inl e, s') \<Longrightarrow> bind m f s = (Inl e, s')"
  by (simp add: bind_def)

lemma bind_ret [simp]: "bind (ret x) f s = f x s"
  by (simp add: bind_def)

lemma bind_raise [simp]: "bind (raise e) f s = (Inl e, s)"
  by (simp add: bind_def)

lemma bind_gets [simp]: "bind (gets g) f s = f (g s) s"
  by (simp add: bind_def)

lemma bind_modify [simp]: "bind (modify g) f s = f () (g s)"
  by (simp add: bind_def)

lemma bind_assoc: "bind (bind m f) g = bind m (\<lambda>x. bind (f x) g)"
  by (rule ext) (simp add: bind_def split: prod.split sum.split)

lemma bind_ret_fun: "bind (ret x) f = f x"
  by (rule ext) simp

lemma bind_modify_fun: "bind (modify g) f = (\<lambda>s. f () (g s))"
  by (rule ext) simp

lemmas bind_norm = bind_assoc bind_ret_fun bind_modify_fun

lemma bind_cases:
  assumes "bind m f s = (r, s')"
  obtains (early) e where "m s = (Inl e, s')" and "r = Inl e"
  | (step) x t where "m s = (Inr x, t)" and "f x t = (r, s')"
  using assms by (auto simp: bind_def split: prod.splits sum.splits)

lemma bindE:
  assumes "bind m f l = (Inr x, l')"
  obtains y l1 where "m l = (Inr y, l1)" "f y l1 = (Inr x, l')"
  using assms by (auto simp: bind_def split: prod.splits sum.splits)

lemma seqE:
  assumes "seq m k l = (Inr x, l')"
  obtains y l1 where "m l = (Inr y, l1)" "k l1 = (Inr x, l')"
  using assms by (auto simp: seq_def elim: bindE)

section \<open>A predicate transformer for what a computation keeps\<close>

text \<open>
  \<open>keeps P m\<close>: whatever the outcome of \<open>m\<close>, the relation \<open>P\<close> holds between the
  state before and the state after. Frame conditions and invariants of the emulator are all of
  this shape, and it composes over \<open>bind\<close> for a preorder \<open>P\<close>.
\<close>

definition keeps :: "('s \<Rightarrow> 's \<Rightarrow> bool) \<Rightarrow> ('s, 'a) eff \<Rightarrow> bool" where
  "keeps P m \<longleftrightarrow> (\<forall>s. P s (snd (m s)))"

lemma keepsI: "(\<And>s. P s (snd (m s))) \<Longrightarrow> keeps P m"
  by (simp add: keeps_def)

lemma keepsD: "keeps P m \<Longrightarrow> m s = (r, s') \<Longrightarrow> P s s'"
  unfolding keeps_def by (metis snd_conv)

locale keeps_rel =
  fixes P :: "'s \<Rightarrow> 's \<Rightarrow> bool"
  assumes refl: "P s s"
    and trans: "P s t \<Longrightarrow> P t u \<Longrightarrow> P s u"
begin

lemma keeps_ret: "keeps P (ret x)"
  by (simp add: keeps_def refl)

lemma keeps_raise: "keeps P (raise e)"
  by (simp add: keeps_def refl)

lemma keeps_gets: "keeps P (gets f)"
  by (simp add: keeps_def refl)

lemma keeps_modify: "(\<And>s. P s (f s)) \<Longrightarrow> keeps P (modify f)"
  by (simp add: keeps_def)

lemma keeps_bind:
  assumes "keeps P m" and "\<And>x. keeps P (f x)"
  shows "keeps P (bind m f)"
proof (rule keepsI)
  fix s
  obtain r t where m: "m s = (r, t)" by (cases "m s")
  with assms(1) have st: "P s t" by (rule keepsD)
  show "P s (snd (bind m f s))"
  proof (cases r)
    case (Inl e)
    with m st show ?thesis by (simp add: bind_Inl)
  next
    case (Inr x)
    have "P t (snd (f x t))" using assms(2) by (simp add: keeps_def)
    with m Inr st show ?thesis by (auto simp: bind_Inr intro: trans)
  qed
qed

lemma keeps_seq: "keeps P m \<Longrightarrow> keeps P k \<Longrightarrow> keeps P (seq m k)"
  by (simp add: seq_def keeps_bind)

lemma keeps_onlyif: "keeps P m \<Longrightarrow> keeps P (onlyif b m)"
  by (simp add: onlyif_def keeps_ret)

lemma keeps_guard: "keeps P (guard b e)"
  by (simp add: guard_def keeps_ret keeps_raise)

lemma keeps_if: "keeps P m \<Longrightarrow> keeps P k \<Longrightarrow> keeps P (if b then m else k)"
  by simp

lemmas keeps_intros =
  keeps_ret keeps_raise keeps_gets keeps_bind keeps_seq keeps_onlyif keeps_guard keeps_if

end

end
