(* ===== verification/Vlrt.thy ===== *)
theory Vlrt
  imports Goken_Prelude "HOL-Library.Signed_Division"
begin

text \<open>
  The very-long run-time of the self-hosted libc, \<^verbatim>\<open>lib_core/libc/port/vlrt.c\<close>: 64-bit
  arithmetic on 32-bit targets as pairs of 32-bit words. The compilers lower every operation
  on \<^verbatim>\<open>vlong\<close> to a call of one of these functions, so each must compute exactly what the
  64-bit operation of C means. The first part translates the file, function by function (a
  leading underscore of the source is dropped); \<open>vval\<close> reads a pair as a 64-bit word, and the
  lemmas show that each function is the 64-bit operation under \<open>vval\<close>.

  \<^verbatim>\<open>long\<close> and \<^verbatim>\<open>ulong\<close> are 32 bits wide here, as the head of the source file says. A result
  parameter (\<^verbatim>\<open>Vlong *r\<close>) is a returned value. A division by zero is \<open>Trap\<close>; the signed
  division overflow of C (\<^verbatim>\<open>LONG_MIN / -1\<close>) is \<open>Undefined\<close>.
\<close>

section \<open>The pair of words\<close>

record vlong =
  vhi :: u32
  vlo :: u32

definition mkv :: "u32 \<Rightarrow> u32 \<Rightarrow> vlong" where
  "mkv h l = \<lparr>vhi = h, vlo = l\<rparr>"

definition SIGN :: u32 where
  "SIGN = push_bit 31 1"

section \<open>Addition, subtraction, negation\<close>

definition addv :: "vlong \<Rightarrow> vlong \<Rightarrow> vlong" where
  "addv a b =
     (let lo = vlo a + vlo b;
          hi = vhi a + vhi b;
          hi = (if lo < vlo a then hi + 1 else hi)
      in mkv hi lo)"

definition subv :: "vlong \<Rightarrow> vlong \<Rightarrow> vlong" where
  "subv a b =
     (let lo = vlo a - vlo b;
          hi = vhi a - vhi b;
          hi = (if lo > vlo a then hi - 1 else hi)
      in mkv hi lo)"

definition vneg :: "vlong \<Rightarrow> vlong" where
  "vneg v =
     (if vlo v = 0 then mkv (- vhi v) (vlo v)
      else mkv (NOT (vhi v)) (- vlo v))"

section \<open>Conversion from a double\<close>

text \<open>
  The double is its IEEE bit pattern. The branch for an exponent that does not fit assigns the
  double to an unsigned long, whose value C leaves to the implementation: \<open>dtoul\<close> stands for it.
\<close>

definition d2v :: "(u64 \<Rightarrow> u32) \<Rightarrow> u64 \<Rightarrow> vlong" where
  "d2v dtoul d =
     (let xh = (ucast (drop_bit 32 d) :: u32);
          xhi = (xh AND 0xfffff) OR 0x100000;
          xlo = (ucast d :: u32);
          sh = 1075 - int (unat (drop_bit 20 xh AND 0x7ff));
          (ylo, yhi) =
            (if sh \<ge> 0 then
               (if sh < 32 then
                  (if sh = 0 then (xlo, xhi)
                   else (drop_bit (nat sh) xlo OR push_bit (nat (32 - sh)) xhi,
                         drop_bit (nat sh) xhi))
                else if sh = 32 then (xhi, 0)
                else if sh < 64 then (drop_bit (nat (sh - 32)) xhi, 0)
                else (0, 0))
             else
               (let sh' = - sh in
                if sh' \<le> 10 then
                  (push_bit (nat sh') xlo,
                   push_bit (nat sh') xhi OR drop_bit (nat (32 - sh')) xlo)
                else (0, dtoul d)))
      in if xh AND SIGN \<noteq> 0 then
           (if ylo \<noteq> 0 then mkv (NOT yhi) (- ylo) else mkv (- yhi) ylo)
         else mkv yhi ylo)"

section \<open>Division\<close>

text \<open>
  \<^verbatim>\<open>dodiv\<close>: shift the divisor left until it reaches the dividend, then subtract and shift it
  back. The first loop would not stop on a zero divisor; the source traps before it. It is a
  partial function whose \<open>None\<close> means that it does not return.
\<close>

partial_function (option) dodiv_norm ::
    "u32 \<Rightarrow> u32 \<Rightarrow> u32 \<Rightarrow> u32 \<Rightarrow> nat \<Rightarrow> (u32 \<times> u32 \<times> nat) option" where
  "dodiv_norm denhi denlo quohi quolo i =
     (if denhi < quohi \<or> (denhi = quohi \<and> denlo < quolo)
      then dodiv_norm (push_bit 1 denhi OR drop_bit 31 denlo) (push_bit 1 denlo)
             quohi quolo (Suc i)
      else Some (denhi, denlo, i))"

record divstate =
  numhi :: u32
  numlo :: u32
  denhi :: u32
  denlo :: u32
  quohi :: u32
  quolo :: u32

definition dodiv_step :: "divstate \<Rightarrow> divstate" where
  "dodiv_step s =
     (let s = s\<lparr>quohi := push_bit 1 (quohi s) OR drop_bit 31 (quolo s),
                quolo := push_bit 1 (quolo s)\<rparr>;
          s = (if numhi s > denhi s \<or> (numhi s = denhi s \<and> numlo s \<ge> denlo s) then
                 let t = numlo s;
                     nl = numlo s - denlo s;
                     nh = (if nl > t then numhi s - 1 else numhi s)
                 in s\<lparr>numlo := nl, numhi := nh - denhi s, quolo := quolo s OR 1\<rparr>
               else s)
      in s\<lparr>denlo := drop_bit 1 (denlo s) OR push_bit 31 (denhi s),
           denhi := drop_bit 1 (denhi s)\<rparr>)"

text \<open>\<^verbatim>\<open>for(; i >= 0; i--)\<close> runs its body \<open>i + 1\<close> times.\<close>

primrec dodiv_loop :: "nat \<Rightarrow> divstate \<Rightarrow> divstate" where
  "dodiv_loop 0 s = s"
| "dodiv_loop (Suc n) s = dodiv_loop n (dodiv_step s)"

definition dodiv :: "vlong \<Rightarrow> vlong \<Rightarrow> (exn + vlong \<times> vlong) option" where
  "dodiv num den =
     (if vlo den = 0 \<and> vhi den = 0 then Some (Inl Trap)
      else
        let (qh, ql) = (if vhi num \<ge> SIGN then (SIGN, 0) else (vhi num, vlo num))
        in case dodiv_norm (vhi den) (vlo den) qh ql 0 of
             None \<Rightarrow> None
           | Some (dh, dl, i) \<Rightarrow>
               (let s = dodiv_loop (Suc i)
                          \<lparr>numhi = vhi num, numlo = vlo num, denhi = dh, denlo = dl,
                           quohi = 0, quolo = 0\<rparr>
                in Some (Inr (mkv (quohi s) (quolo s), mkv (numhi s) (numlo s)))))"

definition divvu :: "vlong \<Rightarrow> vlong \<Rightarrow> (exn + vlong) option" where
  "divvu n d =
     (if vhi n = 0 \<and> vhi d = 0 then
        (if vlo d = 0 then Some (Inl Trap) else Some (Inr (mkv 0 (vlo n div vlo d))))
      else map_option (map_sum id fst) (dodiv n d))"

definition modvu :: "vlong \<Rightarrow> vlong \<Rightarrow> (exn + vlong) option" where
  "modvu n d =
     (if vhi n = 0 \<and> vhi d = 0 then
        (if vlo d = 0 then Some (Inl Trap) else Some (Inr (mkv 0 (vlo n mod vlo d))))
      else map_option (map_sum id snd) (dodiv n d))"

text \<open>The 32-bit signed division and remainder of C.\<close>

definition long_div :: "u32 \<Rightarrow> u32 \<Rightarrow> exn + u32" where
  "long_div a b =
     (if b = 0 then Inl Trap
      else if a = SIGN \<and> b = - 1 then Inl Undefined
      else Inr (word_of_int (sint a sdiv sint b)))"

definition long_mod :: "u32 \<Rightarrow> u32 \<Rightarrow> exn + u32" where
  "long_mod a b =
     (if b = 0 then Inl Trap
      else if a = SIGN \<and> b = - 1 then Inl Undefined
      else Inr (word_of_int (sint a smod sint b)))"

definition fits_long :: "vlong \<Rightarrow> bool" where
  "fits_long v \<longleftrightarrow> vhi v = signed_drop_bit 31 (vlo v)"

definition divv :: "vlong \<Rightarrow> vlong \<Rightarrow> (exn + vlong) option" where
  "divv n d =
     (if fits_long n \<and> fits_long d then
        Some (map_sum id (\<lambda>q. mkv (signed_drop_bit 31 q) q) (long_div (vlo n) (vlo d)))
      else
        let nneg = drop_bit 31 (vhi n);
            n = (if nneg \<noteq> 0 then vneg n else n);
            dneg = drop_bit 31 (vhi d);
            d = (if dneg \<noteq> 0 then vneg d else d)
        in map_option (map_sum id (\<lambda>(q, r). if nneg \<noteq> dneg then vneg q else q)) (dodiv n d))"

definition modv :: "vlong \<Rightarrow> vlong \<Rightarrow> (exn + vlong) option" where
  "modv n d =
     (if fits_long n \<and> fits_long d then
        Some (map_sum id (\<lambda>r. mkv (signed_drop_bit 31 r) r) (long_mod (vlo n) (vlo d)))
      else
        let nneg = drop_bit 31 (vhi n);
            n = (if nneg \<noteq> 0 then vneg n else n);
            dneg = drop_bit 31 (vhi d);
            d = (if dneg \<noteq> 0 then vneg d else d)
        in map_option (map_sum id (\<lambda>(q, r). if nneg \<noteq> 0 then vneg r else r)) (dodiv n d))"

section \<open>Shifts\<close>

definition rshav :: "vlong \<Rightarrow> int \<Rightarrow> vlong" where
  "rshav a b =
     (let t = vhi a in
      if b \<ge> 32 then
        (if b \<ge> 64 then mkv (signed_drop_bit 31 t) (signed_drop_bit 31 t)
         else mkv (signed_drop_bit 31 t) (signed_drop_bit (nat (b - 32)) t))
      else if b \<le> 0 then mkv t (vlo a)
      else mkv (signed_drop_bit (nat b) t)
               (push_bit (nat (32 - b)) t OR drop_bit (nat b) (vlo a)))"

definition rshlv :: "vlong \<Rightarrow> int \<Rightarrow> vlong" where
  "rshlv a b =
     (let t = vhi a in
      if b \<ge> 32 then
        (if b \<ge> 64 then mkv 0 0 else mkv 0 (drop_bit (nat (b - 32)) t))
      else if b \<le> 0 then mkv t (vlo a)
      else mkv (drop_bit (nat b) t)
               (push_bit (nat (32 - b)) t OR drop_bit (nat b) (vlo a)))"

definition lshv :: "vlong \<Rightarrow> int \<Rightarrow> vlong" where
  "lshv a b =
     (let t = vlo a in
      if b \<ge> 32 then
        (if b \<ge> 64 then mkv 0 0 else mkv (push_bit (nat (b - 32)) t) 0)
      else if b \<le> 0 then mkv (vhi a) t
      else mkv (drop_bit (nat (32 - b)) t OR push_bit (nat b) (vhi a))
               (push_bit (nat b) t))"

section \<open>Bitwise operations, increments\<close>

definition andv :: "vlong \<Rightarrow> vlong \<Rightarrow> vlong" where
  "andv a b = mkv (vhi a AND vhi b) (vlo a AND vlo b)"

definition orv :: "vlong \<Rightarrow> vlong \<Rightarrow> vlong" where
  "orv a b = mkv (vhi a OR vhi b) (vlo a OR vlo b)"

definition xorv :: "vlong \<Rightarrow> vlong \<Rightarrow> vlong" where
  "xorv a b = mkv (vhi a XOR vhi b) (vlo a XOR vlo b)"

text \<open>The four increments return the new \<open>*l\<close> and the new \<open>*r\<close>.\<close>

definition vpp :: "vlong \<Rightarrow> vlong \<times> vlong" where
  "vpp r =
     (let l = mkv (vhi r) (vlo r);
          lo = vlo r + 1;
          hi = (if lo = 0 then vhi r + 1 else vhi r)
      in (l, mkv hi lo))"

definition vmm :: "vlong \<Rightarrow> vlong \<times> vlong" where
  "vmm r =
     (let l = mkv (vhi r) (vlo r);
          hi = (if vlo r = 0 then vhi r - 1 else vhi r)
      in (l, mkv hi (vlo r - 1)))"

definition ppv :: "vlong \<Rightarrow> vlong \<times> vlong" where
  "ppv r =
     (let lo = vlo r + 1;
          hi = (if lo = 0 then vhi r + 1 else vhi r)
      in (mkv hi lo, mkv hi lo))"

definition mmv :: "vlong \<Rightarrow> vlong \<times> vlong" where
  "mmv r =
     (let hi = (if vlo r = 0 then vhi r - 1 else vhi r);
          lo = vlo r - 1
      in (mkv hi lo, mkv hi lo))"

section \<open>Assignment operators\<close>

text \<open>
  \<^verbatim>\<open>_vasop\<close> is \<^verbatim>\<open>lv op= rv\<close> for a 64-bit \<^verbatim>\<open>rv\<close>: the object behind \<^verbatim>\<open>void *lv\<close> with
  its type code, one constructor per case of the switch.
\<close>

datatype lval =
    LSchar u8 | LUchar u8 | LShort u16 | LUshort u16 | LInt u32 | LUint u32
  | LLong u32 | LUlong u32 | LVlong vlong | LUvlong vlong | LOther

text \<open>The function argument may trap (a division), so it has the type of \<open>divv\<close>;
  \<open>vtotal\<close> lifts the others.\<close>

type_synonym vop = "vlong \<Rightarrow> vlong \<Rightarrow> (exn + vlong) option"

definition vtotal :: "(vlong \<Rightarrow> vlong \<Rightarrow> vlong) \<Rightarrow> vop" where
  "vtotal f a b = Some (Inr (f a b))"

definition vstore :: "(vlong \<Rightarrow> lval) \<Rightarrow> (exn + vlong) option \<Rightarrow> (exn + vlong \<times> lval) option" where
  "vstore st = map_option (map_sum id (\<lambda>u. (u, st u)))"

fun vasop :: "vop \<Rightarrow> lval \<Rightarrow> vlong \<Rightarrow> (exn + vlong \<times> lval) option" where
  "vasop f LOther rv = Some (Inl (Fatal ''abort''))"
| "vasop f (LSchar c) rv =
     (let t = (scast c :: u32)
      in vstore (\<lambda>u. LSchar (ucast (vlo u))) (f (mkv (drop_bit 31 t) t) rv))"
| "vasop f (LUchar c) rv =
     (let t = (ucast c :: u32) in vstore (\<lambda>u. LUchar (ucast (vlo u))) (f (mkv 0 t) rv))"
| "vasop f (LShort h) rv =
     (let t = (scast h :: u32)
      in vstore (\<lambda>u. LShort (ucast (vlo u))) (f (mkv (drop_bit 31 t) t) rv))"
| "vasop f (LUshort h) rv =
     (let t = (ucast h :: u32) in vstore (\<lambda>u. LUshort (ucast (vlo u))) (f (mkv 0 t) rv))"
| "vasop f (LInt t) rv = vstore (\<lambda>u. LInt (vlo u)) (f (mkv (drop_bit 31 t) t) rv)"
| "vasop f (LUint t) rv = vstore (\<lambda>u. LUint (vlo u)) (f (mkv 0 t) rv)"
| "vasop f (LLong t) rv = vstore (\<lambda>u. LLong (vlo u)) (f (mkv (drop_bit 31 t) t) rv)"
| "vasop f (LUlong t) rv = vstore (\<lambda>u. LUlong (vlo u)) (f (mkv 0 t) rv)"
| "vasop f (LVlong v) rv = vstore LVlong (f v rv)"
| "vasop f (LUvlong v) rv = vstore LUvlong (f v rv)"

section \<open>Conversions and comparisons\<close>

definition p2v :: "u32 \<Rightarrow> vlong" where
  "p2v p = mkv 0 p"

definition sl2v :: "u32 \<Rightarrow> vlong" where
  "sl2v t = mkv (signed_drop_bit 31 t) t"

definition ul2v :: "u32 \<Rightarrow> vlong" where
  "ul2v t = mkv 0 t"

definition si2v :: "u32 \<Rightarrow> vlong" where
  "si2v t = mkv (signed_drop_bit 31 t) t"

definition ui2v :: "u32 \<Rightarrow> vlong" where
  "ui2v t = mkv 0 t"

definition sh2v :: "u32 \<Rightarrow> vlong" where
  "sh2v sh = (let t = signed_drop_bit 16 (push_bit 16 sh) in mkv (signed_drop_bit 31 t) t)"

definition uh2v :: "u32 \<Rightarrow> vlong" where
  "uh2v ul = mkv 0 (ul AND 0xffff)"

definition sc2v :: "u32 \<Rightarrow> vlong" where
  "sc2v uc = (let t = signed_drop_bit 24 (push_bit 24 uc) in mkv (signed_drop_bit 31 t) t)"

definition uc2v :: "u32 \<Rightarrow> vlong" where
  "uc2v ul = mkv 0 (ul AND 0xff)"

definition v2sc :: "vlong \<Rightarrow> u32" where
  "v2sc rv = (let t = vlo rv AND 0xff in signed_drop_bit 24 (push_bit 24 t))"

definition v2uc :: "vlong \<Rightarrow> u32" where
  "v2uc rv = vlo rv AND 0xff"

definition v2sh :: "vlong \<Rightarrow> u32" where
  "v2sh rv = (let t = vlo rv AND 0xffff in signed_drop_bit 16 (push_bit 16 t))"

definition v2uh :: "vlong \<Rightarrow> u32" where
  "v2uh rv = vlo rv AND 0xffff"

definition v2sl :: "vlong \<Rightarrow> u32" where
  "v2sl rv = vlo rv"

definition v2ul :: "vlong \<Rightarrow> u32" where
  "v2ul rv = vlo rv"

definition v2si :: "vlong \<Rightarrow> u32" where
  "v2si rv = vlo rv"

definition v2ui :: "vlong \<Rightarrow> u32" where
  "v2ui rv = vlo rv"

definition testv :: "vlong \<Rightarrow> bool" where
  "testv rv \<longleftrightarrow> vlo rv \<noteq> 0 \<or> vhi rv \<noteq> 0"

definition eqv :: "vlong \<Rightarrow> vlong \<Rightarrow> bool" where
  "eqv lv rv \<longleftrightarrow> vlo lv = vlo rv \<and> vhi lv = vhi rv"

definition nev :: "vlong \<Rightarrow> vlong \<Rightarrow> bool" where
  "nev lv rv \<longleftrightarrow> vlo lv \<noteq> vlo rv \<or> vhi lv \<noteq> vhi rv"

definition ltv :: "vlong \<Rightarrow> vlong \<Rightarrow> bool" where
  "ltv lv rv \<longleftrightarrow> sint (vhi lv) < sint (vhi rv) \<or> (vhi lv = vhi rv \<and> vlo lv < vlo rv)"

definition lev :: "vlong \<Rightarrow> vlong \<Rightarrow> bool" where
  "lev lv rv \<longleftrightarrow> sint (vhi lv) < sint (vhi rv) \<or> (vhi lv = vhi rv \<and> vlo lv \<le> vlo rv)"

definition gtv :: "vlong \<Rightarrow> vlong \<Rightarrow> bool" where
  "gtv lv rv \<longleftrightarrow> sint (vhi lv) > sint (vhi rv) \<or> (vhi lv = vhi rv \<and> vlo lv > vlo rv)"

definition gev :: "vlong \<Rightarrow> vlong \<Rightarrow> bool" where
  "gev lv rv \<longleftrightarrow> sint (vhi lv) > sint (vhi rv) \<or> (vhi lv = vhi rv \<and> vlo lv \<ge> vlo rv)"

definition lov :: "vlong \<Rightarrow> vlong \<Rightarrow> bool" where
  "lov lv rv \<longleftrightarrow> vhi lv < vhi rv \<or> (vhi lv = vhi rv \<and> vlo lv < vlo rv)"

definition lsv :: "vlong \<Rightarrow> vlong \<Rightarrow> bool" where
  "lsv lv rv \<longleftrightarrow> vhi lv < vhi rv \<or> (vhi lv = vhi rv \<and> vlo lv \<le> vlo rv)"

definition hiv :: "vlong \<Rightarrow> vlong \<Rightarrow> bool" where
  "hiv lv rv \<longleftrightarrow> vhi lv > vhi rv \<or> (vhi lv = vhi rv \<and> vlo lv > vlo rv)"

definition hsv :: "vlong \<Rightarrow> vlong \<Rightarrow> bool" where
  "hsv lv rv \<longleftrightarrow> vhi lv > vhi rv \<or> (vhi lv = vhi rv \<and> vlo lv \<ge> vlo rv)"

section \<open>Meaning: 64-bit words\<close>

text \<open>
  \<open>vval\<close> reads a pair as a word and \<open>vlong_of\<close> is its inverse; \<open>s_num\<close>, \<open>s_den\<close>,
  \<open>s_quo\<close> read the state of the division loop; \<open>dbl_trunc\<close> is the truncation of an IEEE
  double; \<open>lread\<close> and \<open>lwrite\<close> are C's conversions of an object to and from 64 bits.
\<close>

definition vval :: "vlong \<Rightarrow> u64" where
  "vval v = word_cat (vhi v) (vlo v)"

definition vlong_of :: "u64 \<Rightarrow> vlong" where
  "vlong_of w = mkv (ucast (drop_bit 32 w)) (ucast w)"

definition s_num :: "divstate \<Rightarrow> u64" where
  "s_num s = vval (mkv (numhi s) (numlo s))"

definition s_den :: "divstate \<Rightarrow> u64" where
  "s_den s = vval (mkv (denhi s) (denlo s))"

definition s_quo :: "divstate \<Rightarrow> u64" where
  "s_quo s = vval (mkv (quohi s) (quolo s))"

definition sdivw :: "u64 \<Rightarrow> u64 \<Rightarrow> u64" where "sdivw n d = word_of_int (sint n sdiv sint d)"

definition smodw :: "u64 \<Rightarrow> u64 \<Rightarrow> u64" where "smodw n d = word_of_int (sint n smod sint d)"

definition small_overflow :: "vlong \<Rightarrow> vlong \<Rightarrow> bool" where
  "small_overflow n d \<longleftrightarrow> sint (vval n) = - (2 ^ 31) \<and> sint (vval d) = - 1"

definition dbl_mag :: "u64 \<Rightarrow> u64" where
  "dbl_mag d = (2 ^ 52) OR (d AND mask 52)"

definition dbl_exp :: "u64 \<Rightarrow> int" where
  "dbl_exp d = int (unat (drop_bit 52 d AND 0x7ff)) - 1075"

definition dbl_trunc :: "u64 \<Rightarrow> u64" where
  "dbl_trunc d = 
     (let m = (if dbl_exp d \<ge> 0 then push_bit (nat (dbl_exp d)) (dbl_mag d) else drop_bit (nat (- dbl_exp d)) (dbl_mag d))
      in if bit d 63 then - m else m)"

fun lread :: "lval \<Rightarrow> u64" where
  "lread (LSchar c) = scast c" | "lread (LUchar c) = ucast c"
| "lread (LShort h) = scast h" | "lread (LUshort h) = ucast h"
| "lread (LInt t) = scast t" | "lread (LUint t) = ucast t"
| "lread (LLong t) = scast t" | "lread (LUlong t) = ucast t"
| "lread (LVlong v) = vval v" | "lread (LUvlong v) = vval v" | "lread LOther = 0"

fun lwrite :: "lval \<Rightarrow> u64 \<Rightarrow> lval" where
  "lwrite (LSchar c) w = LSchar (ucast w)" | "lwrite (LUchar c) w = LUchar (ucast w)"
| "lwrite (LShort h) w = LShort (ucast w)" | "lwrite (LUshort h) w = LUshort (ucast w)"
| "lwrite (LInt t) w = LInt (ucast w)" | "lwrite (LUint t) w = LUint (ucast w)"
| "lwrite (LLong t) w = LLong (ucast w)" | "lwrite (LUlong t) w = LUlong (ucast w)"
| "lwrite (LVlong v) w = LVlong (vlong_of w)" | "lwrite (LUvlong v) w = LUvlong (vlong_of w)" | "lwrite LOther w = LOther"

fun narrow_signed :: "lval \<Rightarrow> bool" where
  "narrow_signed (LSchar c) = True" | "narrow_signed (LShort c) = True"
| "narrow_signed (LInt c) = True" | "narrow_signed (LLong c) = True" | "narrow_signed _ = False"

definition low_only :: "(vlong \<Rightarrow> vlong \<Rightarrow> vlong) \<Rightarrow> bool" where
  "low_only g \<longleftrightarrow> (\<forall>a a' b. vlo a = vlo a' \<longrightarrow> vlo (g a b) = vlo (g a' b))"

section \<open>Lemmas\<close>

lemma vhi_mkv [simp]: "vhi (mkv h l) = h" and vlo_mkv [simp]: "vlo (mkv h l) = l"
  by (simp_all add: mkv_def)

lemma mkv_collapse [simp]: "mkv (vhi v) (vlo v) = v"
  by (simp add: mkv_def)

lemma bit_vval: "bit (vval v) n \<longleftrightarrow> (if n < 32 then bit (vlo v) n else bit (vhi v) (n - 32))"
proof (cases "n < 64")
  case True then show ?thesis by (simp add: vval_def bit_word_cat_iff)
next
  case False
  then have "\<not> bit (vhi v) (n - 32)" using bit_imp_le_length [of "vhi v" "n-32"] by auto
  with False show ?thesis by (simp add: vval_def bit_word_cat_iff)
qed

lemma uint_vval: "uint (vval v) = uint (vhi v) * 4294967296 + uint (vlo v)"
proof -
  obtain h where h: "uint (vhi v) = h" "0 \<le> h" "h < 4294967296" by (rule u32_int)
  obtain l where l: "uint (vlo v) = l" "0 \<le> l" "l < 4294967296" by (rule u32_int)
  show ?thesis
    unfolding vval_def word_cat_eq using h l
    by (simp add: uint_word_arith_bintrs push_bit_eq_mult unsigned_ucast_eq take_bit_int_eq_self)
qed

lemma ucast_vval [simp]: "ucast (vval v) = vlo v"
  by (rule bit_word_eqI) (simp add: bit_simps bit_vval)

lemma ucast_drop_vval [simp]: "ucast (drop_bit 32 (vval v)) = vhi v"
  by (rule bit_word_eqI) (simp add: bit_simps bit_vval)

lemma vval_inj: "vval a = vval b \<longleftrightarrow> a = b"
  by (metis mkv_collapse ucast_drop_vval ucast_vval)

lemma vval_addv: "vval (addv a b) = vval a + vval b"
proof -
  obtain ah where ah: "uint (vhi a) = ah" "0 \<le> ah" "ah < 4294967296" by (rule u32_int)
  obtain al where al: "uint (vlo a) = al" "0 \<le> al" "al < 4294967296" by (rule u32_int)
  obtain bh where bh: "uint (vhi b) = bh" "0 \<le> bh" "bh < 4294967296" by (rule u32_int)
  obtain bl where bl: "uint (vlo b) = bl" "0 \<le> bl" "bl < 4294967296" by (rule u32_int)
  show ?thesis using ah al bh bl
  by (auto simp: addv_def Let_def word_uint_eq_iff uint_vval uint_plus_if' word_less_def split: if_splits)
qed

lemma vval_subv: "vval (subv a b) = vval a - vval b"
proof -
  obtain ah where ah: "uint (vhi a) = ah" "0 \<le> ah" "ah < 4294967296" by (rule u32_int)
  obtain al where al: "uint (vlo a) = al" "0 \<le> al" "al < 4294967296" by (rule u32_int)
  obtain bh where bh: "uint (vhi b) = bh" "0 \<le> bh" "bh < 4294967296" by (rule u32_int)
  obtain bl where bl: "uint (vlo b) = bl" "0 \<le> bl" "bl < 4294967296" by (rule u32_int)
  show ?thesis using ah al bh bl
  by (auto simp: subv_def Let_def word_uint_eq_iff uint_vval uint_sub_if' word_less_def split: if_splits)
qed

lemma vneg_subv: "vneg v = subv (mkv 0 0) v"
  by (simp add: vneg_def subv_def Let_def not_eq_complement word_greater_zero_iff )

lemma vval_0: "vval (mkv 0 0) = 0"
 by (simp add: vval_def)

lemma vval_mkv_0: "vval (mkv 0 l) = ucast l"
 by (rule bit_word_eqI) (auto simp: bit_simps bit_vval bit_word_ge)

lemma vval_sext: "vval (mkv (signed_drop_bit 31 l) l) = scast l"
proof (rule bit_word_eqI)
  fix n :: nat assume "n < LENGTH(64)"
  consider "n < 31" | "n = 31" | "n = 32" | "32 < n" by linarith
  then show "bit (vval (mkv (signed_drop_bit 31 l) l)) n \<longleftrightarrow> bit (scast l :: u64) n"
    using \<open>n < LENGTH(64)\<close> by cases (auto simp: bit_simps bit_vval bit_word_ge min_def)
qed

lemma sint_vval: "sint (vval v) = sint (vhi v) * 4294967296 + uint (vlo v)"
  by (simp add: sint_eq_uint_bit bit_vval uint_vval)

lemma lov_vval: "lov a b \<longleftrightarrow> vval a < vval b"
  by (simp only: lov_def word_less_def uint_vval word_uint_eq_iff [of "vhi a"] lex_less uint_u32)

lemma lsv_vval: "lsv a b \<longleftrightarrow> vval a \<le> vval b" 
  by (simp only: lsv_def word_less_def word_le_def uint_vval word_uint_eq_iff [of "vhi a"] lex_le uint_u32)

lemma ltv_vval: "ltv a b \<longleftrightarrow> sint (vval a) < sint (vval b)"
  by (simp only: ltv_def sint_vval word_less_def word_sint_eq_iff [of "vhi a"] lex_less uint_u32)

lemma lev_vval: "lev a b \<longleftrightarrow> sint (vval a) \<le> sint (vval b)"
  by (simp only: lev_def sint_vval word_le_def word_sint_eq_iff [of "vhi a"] lex_le uint_u32)

lemma gt_flip: "gtv a b = ltv b a" "gev a b = lev b a" "hiv a b = lov b a" "hsv a b = lsv b a"
  by (auto simp: gtv_def ltv_def gev_def lev_def hiv_def lov_def hsv_def lsv_def)

lemma vval_bitops: "vval (andv a b) = vval a AND vval b" "vval (orv a b) = vval a OR vval b" "vval (xorv a b) = vval a XOR vval b"
  by (rule bit_word_eqI, simp add: bit_simps bit_vval andv_def orv_def xorv_def)+

lemma vval_lshv: "vval (lshv a (int k)) = push_bit k (vval a)"
proof (rule bit_word_eqI)
  fix n :: nat assume n: "n < LENGTH(64)"
  consider "k = 0" | "0 < k" "k < 32" | "32 \<le> k" "k < 64" | "64 \<le> k" by linarith
  then show "bit (vval (lshv a (int k))) n \<longleftrightarrow> bit (push_bit k (vval a)) n"
    using n by cases (auto simp: lshv_def Let_def bit_simps bit_vval bit_word_ge nat_diff_distrib add.commute)
qed

lemma vval_rshlv: "vval (rshlv a (int k)) = drop_bit k (vval a)"
proof (rule bit_word_eqI)
  fix n :: nat assume n: "n < LENGTH(64)"
  consider "k = 0" | "0 < k" "k < 32" | "32 \<le> k" "k < 64" | "64 \<le> k" by linarith
  then show "bit (vval (rshlv a (int k))) n \<longleftrightarrow> bit (drop_bit k (vval a)) n"
    using n by cases (auto simp: rshlv_def Let_def bit_simps bit_vval bit_word_ge nat_diff_distrib add.commute)
qed

lemma vval_rshav: "vval (rshav a (int k)) = signed_drop_bit k (vval a)"
proof (rule bit_word_eqI)
  fix n :: nat assume n: "n < LENGTH(64)"
  consider "k = 0" | "0 < k" "k < 32" | "32 \<le> k" "k < 64" | "64 \<le> k" by linarith
  then show "bit (vval (rshav a (int k))) n \<longleftrightarrow> bit (signed_drop_bit k (vval a)) n"
    using n by cases (auto simp add: rshav_def Let_def bit_sdrop32 bit_sdrop64 bit_or_iff bit_push_bit_iff bit_drop_bit_eq bit_vval bit_word_ge nat_diff_distrib add.commute)
qed

lemma dodiv_norm_step:
  "vval (mkv (push_bit 1 h OR drop_bit 31 l) (push_bit 1 l)) = push_bit 1 (vval (mkv h l))"
  using vval_lshv [of "mkv h l" 1] unfolding lshv_def by (simp add: or.commute)

lemma vval_pair_less: "(h < h' \<or> (h = h' \<and> l < l')) \<longleftrightarrow> vval (mkv h l) < vval (mkv h' l')"
  using lov_vval [of "mkv h l" "mkv h' l'"] by (simp add: lov_def)

lemma dodiv_norm_returns:
  assumes "vval (mkv dh dl) \<noteq> 0" and "unat (vval (mkv qh ql)) \<le> 2 ^ 63"
  shows "\<exists>k dh' dl'. dodiv_norm dh dl qh ql i = Some (dh', dl', i + k) \<and>
     unat (vval (mkv dh' dl')) = unat (vval (mkv dh dl)) * 2 ^ k \<and>
     unat (vval (mkv qh ql)) \<le> unat (vval (mkv dh' dl'))"
  using assms
proof (induction "unat (vval (mkv qh ql)) - unat (vval (mkv dh dl))" arbitrary: dh dl i rule: less_induct)
  case less
  let ?d = "vval (mkv dh dl)" and ?q = "vval (mkv qh ql)"
  let ?h = "push_bit 1 dh OR drop_bit 31 dl" and ?l = "push_bit 1 dl"
  show ?case
  proof (cases "?d < ?q")
    case False
    then have "dodiv_norm dh dl qh ql i = Some (dh, dl, i + 0)"
      by (subst dodiv_norm.simps) (simp add: vval_pair_less)
    with False show ?thesis by (intro exI [of _ 0] exI) (auto simp: word_le_nat_alt not_less)
  next
    case True
    then have lt: "unat ?d < unat ?q" by (simp add: word_less_nat_alt)
    have d2: "unat (vval (mkv ?h ?l)) = 2 * unat ?d"
      using lt less.prems(2) by (simp only: dodiv_norm_step unat_double)
    have "0 < unat ?d" using less.prems(1) by (simp add: unat_gt_0)
    then have "unat ?q - unat (vval (mkv ?h ?l)) < unat ?q - unat ?d" and "vval (mkv ?h ?l) \<noteq> 0"
      using lt d2 by (auto simp flip: unat_eq_zero)
    from less.hyps [OF this less.prems(2), of "Suc i"] obtain k dh' dl' where
      IH: "dodiv_norm ?h ?l qh ql (Suc i) = Some (dh', dl', Suc i + k)"
        "unat (vval (mkv dh' dl')) = 2 * unat ?d * 2 ^ k" "unat ?q \<le> unat (vval (mkv dh' dl'))"
      unfolding d2 by blast
    have "dodiv_norm dh dl qh ql i = dodiv_norm ?h ?l qh ql (Suc i)"
      using True by (subst dodiv_norm.simps) (simp add: vval_pair_less)
    with IH show ?thesis by (intro exI [of _ "Suc k"] exI [of _ dh'] exI [of _ dl']) simp
  qed
qed

lemma vval_pair_le: "(h < h' \<or> (h' = h \<and> l \<le> l')) \<longleftrightarrow> vval (mkv h l) \<le> vval (mkv h' l')"
  using lsv_vval [of "mkv h l" "mkv h' l'"] by (auto simp add: lsv_def)

lemma s_den_step: "s_den (dodiv_step s) = drop_bit 1 (s_den s)"
proof -
  have "s_den (dodiv_step s) = vval (rshlv (mkv (denhi s) (denlo s)) (int 1))"
    unfolding s_den_def dodiv_step_def rshlv_def Let_def by (simp add: or.commute)
  then show ?thesis by (simp only: vval_rshlv s_den_def)
qed

lemma s_num_step: "s_num (dodiv_step s) = s_num s - (if s_den s \<le> s_num s then s_den s else 0)"
proof -
  have "s_num (dodiv_step s) = (if s_den s \<le> s_num s 
     then vval (subv (mkv (numhi s) (numlo s)) (mkv (denhi s) (denlo s))) else s_num s)"
    unfolding dodiv_step_def Let_def subv_def by (simp add: s_num_def s_den_def diff_right_commute flip: vval_pair_le)
  then show ?thesis by (simp add: vval_subv s_num_def s_den_def)
qed

lemma s_quo_step: "s_quo (dodiv_step s) = push_bit 1 (s_quo s) OR of_bool (s_den s \<le> s_num s)"
proof -
  have "s_quo (dodiv_step s) = vval (orv (lshv (mkv (quohi s) (quolo s)) (int 1)) (mkv 0 (of_bool (s_den s \<le> s_num s))))"
    unfolding dodiv_step_def Let_def lshv_def orv_def by (simp add: s_num_def s_den_def s_quo_def or.commute flip: vval_pair_le)
  then show ?thesis by (simp only: vval_bitops vval_lshv s_quo_def vval_mkv_0) simp
qed

lemma dodiv_step_inv:
  assumes den: "unat (s_den s) = m" and m: "0 < m"
    and N: "unat (s_quo s) * m * 2 + unat (s_num s) = N" "unat (s_num s) < 2 * m" "N < 2 ^ 64"
  shows "unat (s_quo (dodiv_step s)) * m + unat (s_num (dodiv_step s)) = N"
    and "unat (s_num (dodiv_step s)) < m"
proof -
  have "unat (s_quo s) * 2 \<le> unat (s_quo s) * m * 2" using m by simp
  then have "unat (s_quo s) * 2 < 2 ^ 64" using N by linarith
  then have "unat (s_quo s) < 2 ^ 63" by simp
  then have q: "unat (s_quo (dodiv_step s)) = 2 * unat (s_quo s) + of_bool (m \<le> unat (s_num s))"
    unfolding s_quo_step using den by (subst unat_double_or) (auto simp: word_le_nat_alt)
  have n: "unat (s_num (dodiv_step s)) = unat (s_num s) - (if m \<le> unat (s_num s) then m else 0)"
    unfolding s_num_step using den by (auto simp: word_le_nat_alt unat_sub)
  show "unat (s_quo (dodiv_step s)) * m + unat (s_num (dodiv_step s)) = N"
    unfolding q n using N by (auto simp: algebra_simps)
  show "unat (s_num (dodiv_step s)) < m" unfolding n using N by auto
qed

lemma dodiv_loop_inv:
  assumes "unat (s_quo s) * (d * 2 ^ k) * 2 + unat (s_num s) = N"
    and "unat (s_den s) = d * 2 ^ k" and "unat (s_num s) < 2 * (d * 2 ^ k)" and "0 < d" and "N < 2 ^ 64"
  shows "unat (s_quo (dodiv_loop (Suc k) s)) * d + unat (s_num (dodiv_loop (Suc k) s)) = N \<and>
    unat (s_num (dodiv_loop (Suc k) s)) < d"
  using assms
proof (induction k arbitrary: s)
  case 0
  then show ?case using dodiv_step_inv [of s d N] by simp
next
  case (Suc k)
  have pos: "0 < d * 2 ^ Suc k" using Suc.prems by simp
  note inv = dodiv_step_inv [OF Suc.prems(2) pos Suc.prems(1,3,5)]
  have den: "unat (s_den (dodiv_step s)) = d * 2 ^ k"
    unfolding s_den_step using Suc.prems(2) by (simp add: unat_div_distrib unat_drop_bit_eq drop_bit_eq_div)
  have "unat (s_quo (dodiv_step s)) * (d * 2 ^ k) * 2 + unat (s_num (dodiv_step s)) = N"
    using inv(1) by (simp add: algebra_simps)
  moreover have "unat (s_num (dodiv_step s)) < 2 * (d * 2 ^ k)" using inv(2) by simp
  ultimately have "unat (s_quo (dodiv_loop (Suc k) (dodiv_step s))) * d + unat (s_num (dodiv_loop (Suc k) (dodiv_step s))) = N \<and>
    unat (s_num (dodiv_loop (Suc k) (dodiv_step s))) < d"
    using Suc.IH [OF _ den] Suc.prems(4,5) by blast
  then show ?case by (simp only: dodiv_loop.simps(2) [of "Suc k"])
qed

lemma vval_eq_0: "vval v = 0 \<longleftrightarrow> vhi v = 0 \<and> vlo v = 0"
  using vval_inj [of v "mkv 0 0"] by (metis mkv_collapse vhi_mkv vlo_mkv vval_0)

lemma vval_vlong_of [simp]: "vval (vlong_of w) = w"
  unfolding vlong_of_def by (rule bit_word_eqI) (auto simp: bit_simps bit_vval bit_word_ge)

lemma vlong_of_vval [simp]: "vlong_of (vval v) = v"
  by (simp add: vlong_of_def)

lemma vlong_of_eq: "v = vlong_of w \<longleftrightarrow> vval v = w"
  using vval_inj [of v "vlong_of w"] by simp

lemma vpp_correct: "vpp r = (r, vlong_of (vval r + 1))"
proof -
  obtain h where h: "uint (vhi r) = h" "0 \<le> h" "h < 4294967296" by (rule u32_int)
  obtain l where l: "uint (vlo r) = l" "0 \<le> l" "l < 4294967296" by (rule u32_int)
  show ?thesis using h l
    by (auto simp: vpp_def Let_def vlong_of_eq word_uint_eq_iff uint_vval uint_plus_if' split: if_splits)
qed

lemma vmm_correct: "vmm r = (r, vlong_of (vval r - 1))"
proof -
  obtain h where h: "uint (vhi r) = h" "0 \<le> h" "h < 4294967296" by (rule u32_int)
  obtain l where l: "uint (vlo r) = l" "0 \<le> l" "l < 4294967296" by (rule u32_int)
  show ?thesis using h l
    by (auto simp: vmm_def Let_def vlong_of_eq word_uint_eq_iff uint_vval uint_sub_if' split: if_splits)
qed

lemma ppv_correct: "ppv r = (vlong_of (vval r + 1), vlong_of (vval r + 1))"
  using vpp_correct [of r] by (simp add: vpp_def ppv_def Let_def)

lemma mmv_correct: "mmv r = (vlong_of (vval r - 1), vlong_of (vval r - 1))"
  using vmm_correct [of r] by (simp add: vmm_def mmv_def Let_def)

lemma eqv_vval: "eqv a b \<longleftrightarrow> vval a = vval b" and nev_vval: "nev a b \<longleftrightarrow> vval a \<noteq> vval b"
  by (auto simp: eqv_def nev_def vval_inj)

lemma SIGN_eq: "SIGN = 0x80000000" by (simp add: SIGN_def push_bit_eq_mult)

lemma hi_bound: "0 \<le> l \<Longrightarrow> l < 4294967296 \<Longrightarrow>
  (2147483648 \<le> h) = (9223372036854775808 \<le> h * 4294967296 + l)" for h l :: int by linarith

lemma numeral_le_of_nat_u64: "9223372036854775808 \<le> uint w \<longleftrightarrow> 9223372036854775808 \<le> unat w" for w :: u64
  unfolding uint_nat by linarith

lemma vval_SIGN: "SIGN \<le> vhi v \<longleftrightarrow> 2 ^ 63 \<le> unat (vval v)"
proof -
  have "SIGN \<le> vhi v \<longleftrightarrow> 2147483648 \<le> uint (vhi v)"
    by (simp add: SIGN_eq word_le_def)
  also have "\<dots> \<longleftrightarrow> 9223372036854775808 \<le> uint (vval v)"
    unfolding uint_vval by (rule hi_bound [OF uint_u32])
  finally show ?thesis using numeral_le_of_nat_u64 [of "vval v"] by simp
qed

lemma unat_vval_SIGN: "unat (vval (mkv SIGN 0)) = 2 ^ 63"
  using uint_vval [of "mkv SIGN 0"] by (simp add: SIGN_eq unat_eq_nat_uint)

lemma dodiv_correct:
  "dodiv n d = Some (if vval d = 0 then Inl Trap
     else Inr (vlong_of (vval n div vval d), vlong_of (vval n mod vval d)))"
proof (cases "vval d = 0")
  case True then show ?thesis by (simp add: dodiv_def vval_eq_0)
next
  case False
  obtain qh ql where q: "(qh, ql) = (if vhi n \<ge> SIGN then (SIGN, 0) else (vhi n, vlo n))" by fastforce
  have Q: "unat (vval (mkv qh ql)) \<le> 2 ^ 63" and Q2: "unat (vval n) < 2 * unat (vval (mkv qh ql)) \<or> unat (vval n) = unat (vval (mkv qh ql))"
    using q vval_SIGN [of n] unat_less [of "vval n"] unat_vval_SIGN
    by (simp_all split: if_splits)
  obtain dh dl k where norm: "dodiv_norm (vhi d) (vlo d) qh ql 0 = Some (dh, dl, k)"
    and den: "unat (vval (mkv dh dl)) = unat (vval d) * 2 ^ k"
    and ge: "unat (vval (mkv qh ql)) \<le> unat (vval (mkv dh dl))"
    using dodiv_norm_returns [of "vhi d" "vlo d" qh ql 0] False Q by auto
  let ?s = "\<lparr>numhi = vhi n, numlo = vlo n, denhi = dh, denlo = dl, quohi = 0, quolo = 0\<rparr>"
  let ?t = "dodiv_loop (Suc k) ?s"
  have pos: "0 < unat (vval d)" using False by (simp add: unat_gt_0)
  have "0 < unat (vval d) * 2 ^ k" using pos by simp
  then have "unat (vval n) < 2 * (unat (vval d) * 2 ^ k)"
    using Q2 ge unfolding den by linarith
  then have inv: "unat (s_quo ?t) * unat (vval d) + unat (s_num ?t) = unat (vval n) \<and> unat (s_num ?t) < unat (vval d)"
    using den pos unat_less [of "vval n"] 
    by (intro dodiv_loop_inv) (simp_all add: s_quo_def s_num_def s_den_def vval_0)
  then have "s_quo ?t = vval n div vval d" "s_num ?t = vval n mod vval d"
    using unat_div_mod_unique by blast+
  then have "mkv (quohi ?t) (quolo ?t) = vlong_of (vval n div vval d)" 
    "mkv (numhi ?t) (numlo ?t) = vlong_of (vval n mod vval d)"
    by (simp_all add: s_quo_def s_num_def flip: vval_inj)
  then show ?thesis using False q norm
    by (cases "SIGN \<le> vhi n") (simp_all add: dodiv_def vval_eq_0 Let_def del: dodiv_loop.simps)
qed

lemma vval_short: "vhi v = 0 \<Longrightarrow> vval v = ucast (vlo v)"
  by (metis mkv_collapse vval_mkv_0)

lemma divvu_correct: "divvu n d = Some (if vval d = 0 then Inl Trap else Inr (vlong_of (vval n div vval d)))"
  by (auto simp: divvu_def dodiv_correct vval_eq_0 vval_short vval_mkv_0 ucast_div_mod simp flip: vval_inj)

lemma modvu_correct: "modvu n d = Some (if vval d = 0 then Inl Trap else Inr (vlong_of (vval n mod vval d)))"
  by (auto simp: modvu_def dodiv_correct vval_eq_0 vval_short vval_mkv_0 ucast_div_mod simp flip: vval_inj)

lemma fits_long_vval: "fits_long v \<Longrightarrow> vval v = scast (vlo v)"
  unfolding fits_long_def by (metis mkv_collapse vval_sext)

lemma vval_vneg: "vval (vneg v) = - vval v"
  by (simp add: vneg_subv vval_subv vval_0)

lemma neg_bit: "drop_bit 31 (vhi v) = (if sint (vval v) < 0 then 1 else 0)"
proof -
  have "drop_bit 31 (vhi v) = of_bool (bit (vhi v) 31)"
  proof (rule bit_word_eqI)
    fix n show "bit (drop_bit 31 (vhi v)) n \<longleftrightarrow> bit (of_bool (bit (vhi v) 31) :: u32) n"
      by (cases "n = 0") (auto simp: bit_drop_bit_eq bit_of_bool_iff bit_word_ge bit_1_iff)
  qed
  then show ?thesis by (simp add: word_neg_bit bit_vval)
qed

lemma wi_sgn: "b \<noteq> 0 \<Longrightarrow> word_of_int (sgn a * sgn b * (\<bar>a\<bar> div \<bar>b\<bar>)) =
   (if (a < 0) \<noteq> (b < 0) then - word_of_int (\<bar>a\<bar> div \<bar>b\<bar>) else word_of_int (\<bar>a\<bar> div \<bar>b\<bar>) :: 'a::len word)"
  and wi_sgn_mod: "word_of_int (sgn a * (\<bar>a\<bar> mod \<bar>b\<bar>)) =
   (if a < 0 then - word_of_int (\<bar>a\<bar> mod \<bar>b\<bar>) else word_of_int (\<bar>a\<bar> mod \<bar>b\<bar>) :: 'a::len word)"
  for a b :: int by (auto simp: sgn_if)

lemma signed_by_abs:
  fixes n d :: u64
  defines "an \<equiv> if sint n < 0 then - n else n" and "ad \<equiv> if sint d < 0 then - d else d"
  assumes "d \<noteq> 0"
  shows "sdivw n d = (if (sint n < 0) \<noteq> (sint d < 0) then - (an div ad) else an div ad)"
    and "smodw n d = (if sint n < 0 then - (an mod ad) else an mod ad)"
proof -
  have "sint d \<noteq> 0" using assms(3) by (metis sint_0 word_sint_eq_iff)
  have u: "uint an = \<bar>sint n\<bar>" "uint ad = \<bar>sint d\<bar>" unfolding an_def ad_def by (rule uint_abs)+
  have "an div ad = word_of_int (\<bar>sint n\<bar> div \<bar>sint d\<bar>)" "an mod ad = word_of_int (\<bar>sint n\<bar> mod \<bar>sint d\<bar>)"
    by (simp_all add: word_div_def word_mod_def u)
  then show "sdivw n d = (if (sint n < 0) \<noteq> (sint d < 0) then - (an div ad) else an div ad)"
    "smodw n d = (if sint n < 0 then - (an mod ad) else an mod ad)"
    using wi_sgn [OF \<open>sint d \<noteq> 0\<close>] wi_sgn_mod
    unfolding sdivw_def smodw_def signed_divide_int_def signed_modulo_int_def by metis+
qed

lemma sint_SIGN: "a = SIGN \<longleftrightarrow> sint a = - (2 ^ 31)" 
  unfolding word_sint_eq_iff [of a] SIGN_eq by simp

lemma mkv_sext: "mkv (signed_drop_bit 31 l) l = vlong_of (scast l)"
  by (simp add: vval_sext flip: vval_inj)

lemma sdiv_lt:
  fixes a b :: int
  assumes "\<bar>b\<bar> \<noteq> 1 \<or> b = 1" and "- 2147483648 \<le> a" "a < 2147483648" 
  shows "a sdiv b < 2147483648"
proof (cases "b = 1")
  case False
  then have "\<bar>b\<bar> \<ge> 2 \<or> b = 0" using assms by linarith
  then have "\<bar>a\<bar> div \<bar>b\<bar> \<le> \<bar>a\<bar> div 2" by (auto intro: zdiv_mono2)
  moreover have "\<bar>a\<bar> div 2 < 2147483648" using assms by linarith
  moreover have "sgn a * sgn b * q \<le> q" if "0 \<le> q" for q using that by (auto simp: sgn_if)
  moreover have "0 \<le> \<bar>a\<bar> div \<bar>b\<bar>" by (simp add: pos_imp_zdiv_nonneg_iff div_int_pos_iff)
  ultimately show ?thesis unfolding signed_divide_int_def by (meson order.trans not_le)
qed (use assms in simp)

lemma long_div_correct:
  "map_sum id (\<lambda>q. mkv (signed_drop_bit 31 q) q) (long_div a b) = 
    (if b = 0 then Inl Trap else if a = SIGN \<and> b = - 1 then Inl Undefined else Inr (vlong_of (sdivw (scast a) (scast b))))"
proof -
  have "scast (word_of_int (sint a sdiv sint b) :: u32) = (word_of_int (sint a sdiv sint b) :: u64)"
   if "b \<noteq> 0" "\<not> (a = SIGN \<and> b = - 1)"
  proof (rule scast_in_range)
   show "- (2 ^ 31) \<le> sint a sdiv sint b" using sdiv_int_range [of "sint a" "sint b"] sint_u32 [of a] by auto
   show "sint a sdiv sint b < 2 ^ 31"
   proof (cases "sint b = - 1 \<and> sint a \<noteq> - (2 ^ 31)")
     case True
     then show ?thesis using sint_u32 [of a] by simp
   next
     case False
     then have "\<bar>sint b\<bar> \<noteq> 1 \<or> sint b = 1" using that by (auto simp: sint_SIGN sint_m1)
     then show ?thesis using sdiv_lt that sint_u32 [of a] by auto
   qed
  qed
  then show ?thesis by (simp add: long_div_def mkv_sext sdivw_def sint_scast64)
qed

lemma long_mod_correct:
  "map_sum id (\<lambda>q. mkv (signed_drop_bit 31 q) q) (long_mod a b) = 
    (if b = 0 then Inl Trap else if a = SIGN \<and> b = - 1 then Inl Undefined else Inr (vlong_of (smodw (scast a) (scast b))))"
proof -
  have "scast (word_of_int (sint a smod sint b) :: u32) = (word_of_int (sint a smod sint b) :: u64)"
   if "b \<noteq> 0"
   using smod_int_range [of "sint b" "sint a"] that sint_u32 [of b] by (intro scast_in_range) auto
  then show ?thesis by (simp add: long_mod_def mkv_sext smodw_def sint_scast64)
qed

lemma small_overflow_fits: "small_overflow n d \<longleftrightarrow> fits_long n \<and> fits_long d \<and> vlo n = SIGN \<and> vlo d = - 1"
proof -
  have "n = mkv (-1) SIGN \<longleftrightarrow> sint (vval n) = - (2 ^ 31)" 
    using word_sint_eq_iff [of "vval n" "vval (mkv (-1) SIGN)"] by (simp add: vval_inj sint_vval SIGN_eq)
  moreover have "d = mkv (-1) (-1) \<longleftrightarrow> sint (vval d) = - 1"
    using word_sint_eq_iff [of "vval d" "vval (mkv (-1) (-1))"] by (simp add: vval_inj sint_vval unsigned_minus_1_eq_mask mask_eq_exp_minus_1)
  moreover have "fits_long (mkv (-1) SIGN)" "fits_long (mkv (-1) (-1))" by (simp_all add: fits_long_def SIGN_eq)
  ultimately show ?thesis unfolding small_overflow_def fits_long_def
    by (metis mkv_collapse vhi_mkv vlo_mkv)
qed

lemma vlong_of_neg: "vneg (vlong_of w) = vlong_of (- w)"
  by (simp add: vval_vneg flip: vval_inj)

lemma neg_cases: "vval (if drop_bit 31 (vhi v) \<noteq> 0 then vneg v else v) = (if sint (vval v) < 0 then - vval v else vval v)"
  by (simp add: neg_bit vval_vneg)

lemma divv_correct:
  "divv n d = Some (if vval d = 0 then Inl Trap else if small_overflow n d then Inl Undefined
     else Inr (vlong_of (sdivw (vval n) (vval d))))"
proof (cases "fits_long n \<and> fits_long d")
  case True
  then show ?thesis using long_div_correct [of "vlo n" "vlo d"]
    by (simp add: divv_def fits_long_vval scast_eq_0 small_overflow_fits)
next
  case False
  then show ?thesis unfolding divv_def Let_def
    by (auto simp: dodiv_correct neg_cases small_overflow_fits signed_by_abs neg_bit vlong_of_neg vval_vneg)
qed

lemma modv_correct:
  "modv n d = Some (if vval d = 0 then Inl Trap else if small_overflow n d then Inl Undefined
     else Inr (vlong_of (smodw (vval n) (vval d))))"
proof (cases "fits_long n \<and> fits_long d")
  case True
  then show ?thesis using long_mod_correct [of "vlo n" "vlo d"]
    by (simp add: modv_def fits_long_vval scast_eq_0 small_overflow_fits)
next
  case False
  then show ?thesis unfolding modv_def Let_def
    by (auto simp: dodiv_correct neg_cases small_overflow_fits signed_by_abs neg_bit vlong_of_neg vval_vneg)
qed

lemma dbl_pair: "vval (mkv ((ucast (drop_bit 32 d) AND 0xfffff) OR 0x100000) (ucast d)) = dbl_mag d"
proof (rule bit_word_eqI)
  fix n assume "n < LENGTH(64)"
  then show "bit (vval (mkv ((ucast (drop_bit 32 d) AND 0xfffff) OR 0x100000) (ucast d))) n = bit (dbl_mag d) n"
    unfolding dbl_mag_def
    by (auto simp: bit_vval bit_or_iff bit_and_iff bit_mask_iff bit_ucast_iff bit_drop_bit_eq bit_const)
qed

lemma dbl_sign: "(ucast (drop_bit 32 d) :: u32) AND SIGN \<noteq> 0 \<longleftrightarrow> bit d 63" for d :: u64
proof -
  have "(w AND SIGN = 0) \<longleftrightarrow> \<not> bit w 31" for w :: u32
    unfolding SIGN_def by (metis and_exp_eq_0_iff_not_bit push_bit_of_1)
  then show ?thesis by (simp add: bit_ucast_iff bit_drop_bit_eq)
qed

lemma dbl_expo: "drop_bit 20 (ucast (drop_bit 32 d) :: u32) AND 0x7ff = ucast (drop_bit 52 d AND 0x7ff)" for d :: u64
  by (rule bit_word_eqI) (auto simp: bit_and_iff bit_ucast_iff bit_drop_bit_eq bit_const)

lemma d2v_sh: "1075 - int (unat (drop_bit 20 (ucast (drop_bit 32 d) :: u32) AND 0x7ff)) = - dbl_exp d"
proof -
  have "unat (drop_bit 52 d AND 0x7ff) \<le> 0x7ff"
    using unat_and_le [of "drop_bit 52 d" "0x7ff"] by simp
  then have "unat (ucast (drop_bit 52 d AND 0x7ff) :: u32) = unat (drop_bit 52 d AND 0x7ff)"
    by (simp add: unsigned_ucast_eq take_bit_nat_eq_self_iff)
  then show ?thesis unfolding dbl_expo dbl_exp_def by simp
qed

lemma vneg_alt: "(if lo \<noteq> 0 then mkv (NOT hi) (- lo) else mkv (- hi) lo) = vneg (mkv hi lo)"
  by (simp add: vneg_def)

lemma d2v_right: "0 \<le> sh \<Longrightarrow>
   (if sh < 32 then (if sh = 0 then (xlo, xhi)
                     else (drop_bit (nat sh) xlo OR push_bit (nat (32 - sh)) xhi, drop_bit (nat sh) xhi))
    else if sh = 32 then (xhi, 0) else if sh < 64 then (drop_bit (nat (sh - 32)) xhi, 0) else (0, 0))
   = (vlo (rshlv (mkv xhi xlo) sh), vhi (rshlv (mkv xhi xlo) sh))"
  by (auto simp: rshlv_def Let_def or.commute)

lemma d2v_left: "0 < sh \<Longrightarrow> sh \<le> 10 \<Longrightarrow>
   (push_bit (nat sh) xlo, push_bit (nat sh) xhi OR drop_bit (nat (32 - sh)) xlo)
   = (vlo (lshv (mkv xhi xlo) sh), vhi (lshv (mkv xhi xlo) sh))"
  by (auto simp: lshv_def Let_def or.commute)

lemma d2v_correct:
  assumes "dbl_exp d \<le> 10"
  shows "vval (d2v dtoul d) = dbl_trunc d"
proof -
  let ?x = "mkv ((ucast (drop_bit 32 d) AND 0xfffff) OR 0x100000) (ucast d)"
  let ?y = "if dbl_exp d \<le> 0 then rshlv ?x (- dbl_exp d) else lshv ?x (dbl_exp d)"
  have d: "d2v dtoul d = (if bit d 63 then vneg ?y else ?y)"
    unfolding d2v_def Let_def d2v_sh dbl_sign vneg_alt
    using assms by (cases "dbl_exp d \<le> 0")
      (simp_all add: d2v_right d2v_left dbl_sign del: push_bit_and push_bit_or)
  have "vval ?y = (if dbl_exp d \<ge> 0 then push_bit (nat (dbl_exp d)) (dbl_mag d) else drop_bit (nat (- dbl_exp d)) (dbl_mag d))"
    using vval_rshlv [of ?x "nat (- dbl_exp d)"] vval_lshv [of ?x "nat (dbl_exp d)"]
    by (cases "dbl_exp d" "0::int" rule: linorder_cases) (simp_all add: dbl_pair)
  then show ?thesis unfolding d dbl_trunc_def Let_def by (simp add: vval_vneg)
qed

lemma ucast_vlo: "(ucast (vlo u) :: 'a::len word) = ucast (vval u)" if "LENGTH('a) \<le> 32"
  using that by (intro bit_word_eqI) (auto simp: bit_simps bit_vval)

lemma vasop_exact:
  assumes "lv \<noteq> LOther" "\<not> narrow_signed lv"
  shows "vasop f lv rv = map_option (map_sum id (\<lambda>u. (u, lwrite lv (vval u)))) (f (vlong_of (lread lv)) rv)"
proof -
  have v: "mkv 0 t = vlong_of (ucast t)" for t by (simp add: vval_mkv_0 flip: vval_inj)
  show ?thesis using assms by (cases lv) (simp_all add: vstore_def v ucast_ucast32 ucast_vlo)
qed

lemma vasop_zero_ext:
  assumes "narrow_signed lv"
  shows "\<exists>t. vlo t = ucast (lread lv) \<and> vasop f lv rv = map_option (map_sum id (\<lambda>u. (u, lwrite lv (vval u)))) (f t rv)"
  using assms
  by (intro exI [of _ "mkv (drop_bit 31 (ucast (lread lv))) (ucast (lread lv))"])
    (cases lv; simp add: vstore_def Let_def ucast_vlo scast_via64 ucast_scast_id)

lemma low_only_ops: "low_only addv" "low_only subv" "low_only andv" "low_only orv" "low_only xorv" "low_only (\<lambda>a b. lshv a k)"
  by (simp_all add: low_only_def addv_def subv_def andv_def orv_def xorv_def lshv_def Let_def)

lemma lwrite_low: "narrow_signed lv \<Longrightarrow> vlo u = vlo u' \<Longrightarrow> lwrite lv (vval u) = lwrite lv (vval u')"
  by (cases lv) (simp_all flip: ucast_vlo)

lemma vasop_low_only:
  assumes "low_only g" "lv \<noteq> LOther" 
  shows "\<exists>u. vasop (vtotal g) lv rv = Some (Inr (u, lwrite lv (vval (g (vlong_of (lread lv)) rv))))"
proof (cases "narrow_signed lv")
  case True
  obtain t where "vlo t = ucast (lread lv)" "vasop (vtotal g) lv rv = Some (Inr (g t rv, lwrite lv (vval (g t rv))))"
    using vasop_zero_ext [OF True, of "vtotal g" rv] by (auto simp: vtotal_def)
  moreover have "vlo (g t rv) = vlo (g (vlong_of (lread lv)) rv)"
    using assms(1) calculation(1) unfolding low_only_def by (simp add: vlong_of_def)
  ultimately show ?thesis using lwrite_low [OF True] by metis
next
  case False
  then show ?thesis using assms(2) by (simp add: vasop_exact vtotal_def)
qed

lemma vasop_div_bug: "vasop divv (LInt (- 6)) (mkv 0 3) = Some (Inr (mkv 0 0xaaaaaaa8, LInt 0xaaaaaaa8))"
   "lwrite (LInt (- 6)) (sdivw (lread (LInt (- 6))) (vval (mkv 0 3))) = LInt (- 2)"
proof -
  have "small_overflow (mkv 1 (- 6)) (mkv 0 3) = False" "vval (mkv 0 3) \<noteq> 0" 
     by (simp_all add: small_overflow_def sint_vval vval_eq_0)
  then show "vasop divv (LInt (- 6)) (mkv 0 3) = Some (Inr (mkv 0 0xaaaaaaa8, LInt 0xaaaaaaa8))"
    by (simp add: vstore_def divv_correct sdivw_def sint_vval vlong_of_def)
  show "lwrite (LInt (- 6)) (sdivw (lread (LInt (- 6))) (vval (mkv 0 3))) = LInt (- 2)"
    by (simp add: sdivw_def vval_mkv_0)
qed

lemma conv_to_vlong: 
  "vval (sl2v t) = scast t" "vval (si2v t) = scast t" "vval (ul2v t) = ucast t"
  "vval (ui2v t) = ucast t" "vval (p2v t) = ucast t"
  "vval (sh2v t) = scast (ucast t :: u16)" "vval (uh2v t) = ucast (ucast t :: u16)"
  "vval (sc2v t) = scast (ucast t :: u8)" "vval (uc2v t) = ucast (ucast t :: u8)"
  by (simp_all add: sl2v_def si2v_def ul2v_def ui2v_def p2v_def sh2v_def uh2v_def sc2v_def uc2v_def
     Let_def vval_sext vval_mkv_0 sext16 sext8 and_0xffff and_0xff scast_scast ucast_ucast32)

lemma conv_from_vlong: 
  "v2sl v = ucast (vval v)" "v2ul v = ucast (vval v)" "v2si v = ucast (vval v)" "v2ui v = ucast (vval v)"
  "v2sh v = scast (ucast (vval v) :: u16)" "v2uh v = ucast (ucast (vval v) :: u16)"
  "v2sc v = scast (ucast (vval v) :: u8)" "v2uc v = ucast (ucast (vval v) :: u8)"
  by (simp_all add: v2sl_def v2ul_def v2si_def v2ui_def v2sh_def v2uh_def v2sc_def v2uc_def
     Let_def sext16 sext8 and_0xffff and_0xff ucast_ucast_id flip: ucast_vlo)

section \<open>The interface the compilers rely on\<close>

text \<open>
  What a client of the run-time may assume: a value type read as a 64-bit word, on which the
  operations are the operations of the ring of 64-bit words. The second interface adds
  unsigned division, which may trap.
\<close>

locale word64_ring =
  fixes val :: "'v \<Rightarrow> u64"
    and add :: "'v \<Rightarrow> 'v \<Rightarrow> 'v"
    and sub :: "'v \<Rightarrow> 'v \<Rightarrow> 'v"
    and neg :: "'v \<Rightarrow> 'v"
  assumes val_inj: "val a = val b \<Longrightarrow> a = b"
    and val_add: "val (add a b) = val a + val b"
    and val_sub: "val (sub a b) = val a - val b"
    and val_neg: "val (neg a) = - val a"
begin

lemma add_commute: "add a b = add b a"
  by (rule val_inj) (simp add: val_add add.commute)

lemma add_assoc: "add (add a b) c = add a (add b c)"
  by (rule val_inj) (simp add: val_add add.assoc)

lemma sub_eq_add_neg: "sub a b = add a (neg b)"
  by (rule val_inj) (simp add: val_add val_sub val_neg)

lemma add_sub_cancel: "sub (add a b) b = a"
  by (rule val_inj) (simp add: val_add val_sub)

lemma neg_neg: "neg (neg a) = a"
  by (rule val_inj) (simp add: val_neg)

end

locale word64_divmod = word64_ring +
  fixes divu :: "'v \<Rightarrow> 'v \<Rightarrow> (exn + 'v) option"
    and modu :: "'v \<Rightarrow> 'v \<Rightarrow> (exn + 'v) option"
  assumes divu_zero: "val d = 0 \<Longrightarrow> divu n d = Some (Inl Trap)"
    and modu_zero: "val d = 0 \<Longrightarrow> modu n d = Some (Inl Trap)"
    and divu_val: "val d \<noteq> 0 \<Longrightarrow> \<exists>q. divu n d = Some (Inr q) \<and> val q = val n div val d"
    and modu_val: "val d \<noteq> 0 \<Longrightarrow> \<exists>r. modu n d = Some (Inr r) \<and> val r = val n mod val d"
begin

lemma euclid:
  assumes "val d \<noteq> 0"
  shows "\<exists>q r. divu n d = Some (Inr q) \<and> modu n d = Some (Inr r) \<and>
    unat (val n) = unat (val q) * unat (val d) + unat (val r) \<and> unat (val r) < unat (val d)"
proof -
  obtain q where q: "divu n d = Some (Inr q)" "val q = val n div val d"
    using divu_val [OF assms] by blast
  obtain r where r: "modu n d = Some (Inr r)" "val r = val n mod val d"
    using modu_val [OF assms] by blast
  have "0 < unat (val d)" using assms by (simp add: unat_gt_0)
  with q r show ?thesis
    by (intro exI [of _ q] exI [of _ r]) (simp add: unat_div_distrib unat_mod_distrib)
qed

lemma traps_iff: "divu n d = Some (Inl Trap) \<longleftrightarrow> val d = 0" "modu n d = Some (Inl Trap) \<longleftrightarrow> val d = 0"
  using divu_zero [of d n] divu_val [of d n] modu_zero [of d n] modu_val [of d n] by force+

end

interpretation vl: word64_divmod vval addv subv vneg divvu modvu
  by unfold_locales
    (simp_all add: vval_inj vval_addv vval_subv vval_vneg divvu_correct modvu_correct)

section \<open>Properties\<close>

text \<open>
  C1: with a zero divisor \<^verbatim>\<open>_divvu\<close> and \<^verbatim>\<open>_modvu\<close> trap; with
  every other divisor they return, and their results are the quotient and the remainder of the
  unsigned 64-bit division. The normalisation loop of \<^verbatim>\<open>dodiv\<close>, the subtract-and-shift loop and the 32-bit
  fast path are all covered.
\<close>

theorem unsigned_division_exact:
  "if vval d = 0 then divvu n d = Some (Inl Trap) \<and> modvu n d = Some (Inl Trap)
   else \<exists>q r. divvu n d = Some (Inr q) \<and> modvu n d = Some (Inr r) \<and>
     unat (vval n) = unat (vval q) * unat (vval d) + unat (vval r) \<and>
     unat (vval r) < unat (vval d)"
  using vl.euclid [of d n] vl.traps_iff [of n d] by simp

theorem unsigned_division_exact_witness:
  "divvu (mkv 3 5) (mkv 0 0) = Some (Inl Trap) \<and>
   (\<exists>q r. divvu (mkv 0x90000000 5) (mkv 1 7) = Some (Inr q) \<and>
    modvu (mkv 0x90000000 5) (mkv 1 7) = Some (Inr r) \<and>
    unat (vval (mkv 0x90000000 5)) = unat (vval q) * unat (vval (mkv 1 7)) + unat (vval r) \<and>
    unat (vval r) < unat (vval (mkv 1 7)))"
proof -
  have z: "vval (mkv 1 7) \<noteq> 0" "vval (mkv 0 0) = 0" by (simp_all add: vval_eq_0)
  show ?thesis
    using unsigned_division_exact [of "mkv 0 0" "mkv 3 5"]
      unsigned_division_exact [of "mkv 1 7" "mkv 0x90000000 5"] z by (simp only: simp_thms if_True if_False)
qed

text \<open>
  C23: \<^verbatim>\<open>_divv\<close> and \<^verbatim>\<open>_modv\<close> always return the truncating signed
  quotient and remainder of C, unless the divisor is zero or the operands are \<open>- 2^31\<close> and
  \<open>- 1\<close>; this includes the wrap-around of the most negative 64-bit number.
\<close>

theorem signed_division_truncates:
  assumes "sint (vval d) \<noteq> 0" and "\<not> (sint (vval n) = - (2 ^ 31) \<and> sint (vval d) = - 1)"
  shows "\<exists>q r. divv n d = Some (Inr q) \<and> modv n d = Some (Inr r) \<and>
    vval q = word_of_int (sint (vval n) sdiv sint (vval d)) \<and>
    vval r = word_of_int (sint (vval n) smod sint (vval d))"
  using assms by (simp add: divv_correct modv_correct small_overflow_def sdivw_def smodw_def)

theorem signed_division_truncates_witness:
  "\<exists>q r. divv (mkv (- 1) (- 7)) (mkv 0 2) = Some (Inr q) \<and>
     modv (mkv (- 1) (- 7)) (mkv 0 2) = Some (Inr r) \<and>
     vval q = - 3 \<and> vval r = - 1"
proof -
  have s: "sint (vval (mkv (- 1) (- 7))) = - 7" "sint (vval (mkv 0 2)) = 2"
    by (simp_all add: sint_vval)
  then show ?thesis
    using signed_division_truncates [of "mkv 0 2" "mkv (- 1) (- 7)"] by simp
qed

text \<open>
  Exactly two classes of operands make \<^verbatim>\<open>_divv\<close> and
  \<^verbatim>\<open>_modv\<close> fail: a zero divisor traps, and the pair \<open>- 2^31\<close>, \<open>- 1\<close> reaches the 32-bit
  division of the fast path, whose result C leaves undefined, although the 64-bit quotient
  \<open>2^31\<close> and remainder \<open>0\<close> are representable.
\<close>

theorem signed_division_failures:
  "(divv n d = Some (Inl Trap) \<longleftrightarrow> sint (vval d) = 0) \<and>
   (modv n d = Some (Inl Trap) \<longleftrightarrow> sint (vval d) = 0) \<and>
   (divv n d = Some (Inl Undefined) \<longleftrightarrow> sint (vval n) = - (2 ^ 31) \<and> sint (vval d) = - 1) \<and>
   (modv n d = Some (Inl Undefined) \<longleftrightarrow> sint (vval n) = - (2 ^ 31) \<and> sint (vval d) = - 1)"
proof -
  have "sint (vval d) = - 1 \<Longrightarrow> vval d \<noteq> 0" by force
  then show ?thesis by (auto simp: divv_correct modv_correct small_overflow_def)
qed

text \<open>
  For every shift count, also those of 32 and more, \<^verbatim>\<open>_lshv\<close>,
  \<^verbatim>\<open>_rshlv\<close> and \<^verbatim>\<open>_rshav\<close> are the left, the logical right and the arithmetic right shift
  of the 64-bit word.
\<close>

theorem shifts_are_word_shifts:
  "vval (lshv a (int k)) = push_bit k (vval a) \<and>
   vval (rshlv a (int k)) = drop_bit k (vval a) \<and>
   vval (rshav a (int k)) = signed_drop_bit k (vval a)"
  by (simp only: vval_lshv vval_rshlv vval_rshav)

text \<open>
  C32: addition, subtraction, negation, the bitwise operations and the
  four increments are those of 64-bit words; the carry between the halves is right, and
  subtraction undoes addition.
\<close>

theorem ring_operations_exact:
  "vval (addv a b) = vval a + vval b \<and> vval (subv a b) = vval a - vval b \<and>
   vval (vneg a) = - vval a \<and> subv (addv a b) b = a \<and>
   vval (andv a b) = vval a AND vval b \<and> vval (orv a b) = vval a OR vval b \<and>
   vval (xorv a b) = vval a XOR vval b \<and>
   vpp a = (a, vlong_of (vval a + 1)) \<and> vmm a = (a, vlong_of (vval a - 1)) \<and>
   ppv a = (vlong_of (vval a + 1), vlong_of (vval a + 1)) \<and>
   mmv a = (vlong_of (vval a - 1), vlong_of (vval a - 1))"
  by (intro conjI vl.add_sub_cancel vl.val_add vl.val_sub vl.val_neg vval_bitops
      vpp_correct vmm_correct ppv_correct mmv_correct)

text \<open>
  The ten comparisons decide equality, the signed and the unsigned order
  of the 64-bit words, and \<^verbatim>\<open>_testv\<close> decides being non-zero.
\<close>

theorem comparisons_exact:
  "(eqv a b \<longleftrightarrow> vval a = vval b) \<and> (nev a b \<longleftrightarrow> vval a \<noteq> vval b) \<and>
   (ltv a b \<longleftrightarrow> sint (vval a) < sint (vval b)) \<and> (lev a b \<longleftrightarrow> sint (vval a) \<le> sint (vval b)) \<and>
   (gtv a b \<longleftrightarrow> sint (vval b) < sint (vval a)) \<and> (gev a b \<longleftrightarrow> sint (vval b) \<le> sint (vval a)) \<and>
   (lov a b \<longleftrightarrow> vval a < vval b) \<and> (lsv a b \<longleftrightarrow> vval a \<le> vval b) \<and>
   (hiv a b \<longleftrightarrow> vval b < vval a) \<and> (hsv a b \<longleftrightarrow> vval b \<le> vval a) \<and>
   (testv a \<longleftrightarrow> vval a \<noteq> 0)"
  unfolding gt_flip ltv_vval lev_vval lov_vval lsv_vval testv_def vval_eq_0 eqv_vval nev_vval
  by blast

text \<open>
  For every double whose magnitude is below \<open>2^63\<close> (its exponent field is at
  most 1085), \<^verbatim>\<open>_d2v\<close> is the mantissa scaled by the exponent, truncated towards zero and
  negated for a set sign bit. The implementation-defined conversion of the last branch is not
  reached.
\<close>

theorem d2v_truncates:
  assumes "dbl_exp d \<le> 10"
  shows "vval (d2v dtoul d) = dbl_trunc d"
  using assms by (rule d2v_correct)

theorem d2v_truncates_witness:
  "vval (d2v (\<lambda>_. 0) 0xC00C000000000000) = - 3"
proof -
  have "dbl_exp 0xC00C000000000000 \<le> 10"
    by (simp add: dbl_exp_def drop_bit_eq_div)
  moreover have "dbl_trunc 0xC00C000000000000 = - 3"
    by (simp add: dbl_trunc_def dbl_exp_def dbl_mag_def drop_bit_eq_div mask_eq_exp_minus_1 bit_iff_odd_drop_bit)
  ultimately show ?thesis using d2v_truncates [of "0xC00C000000000000" "\<lambda>_. 0"] by simp
qed

text \<open>
  An assignment operator whose low result word depends on the low
  words only (\<^verbatim>\<open>+=\<close>, \<^verbatim>\<open>-=\<close>, \<^verbatim>\<open>&=\<close>, \<^verbatim>\<open>|=\<close>, \<^verbatim>\<open>^=\<close>, \<^verbatim>\<open><<=\<close>) stores in an
  object of every integer type what C demands: the operation in 64 bits on the converted
  operand, truncated to the type of the object.
\<close>

theorem vasop_stores_truncated:
  assumes "lv \<noteq> LOther" and "g \<in> {addv, subv, andv, orv, xorv, \<lambda>a b. lshv a k}"
  shows "\<exists>u. vasop (vtotal g) lv rv =
    Some (Inr (u, lwrite lv (vval (g (vlong_of (lread lv)) rv))))"
proof -
  have "low_only g" using assms(2) low_only_ops by auto
  then show ?thesis using assms(1) by (rule vasop_low_only)
qed

theorem vasop_stores_truncated_witness:
  "\<exists>u. vasop (vtotal addv) (LSchar (- 3)) (mkv 0 5) = Some (Inr (u, LSchar 2))"
  using vasop_stores_truncated [of "LSchar (- 3)" addv 0 "mkv 0 5"]
  by (simp add: vl.val_add vval_mkv_0)

text \<open>
  For the narrow signed types the operand is extended by the
  sign bit alone (\<^verbatim>\<open>t.hi = t.lo >> 31\<close> on an unsigned word), so \<^verbatim>\<open>/=\<close> is wrong for a
  negative object: \<^verbatim>\<open>int i = -6; i /= 3LL\<close> stores \<open>0xaaaaaaa8\<close> where C demands \<open>- 2\<close>.
\<close>

theorem vasop_signed_division_wrong:
  "vasop divv (LInt (- 6)) (mkv 0 3) = Some (Inr (mkv 0 0xaaaaaaa8, LInt 0xaaaaaaa8)) \<and>
   lwrite (LInt (- 6)) (sdivw (lread (LInt (- 6))) (vval (mkv 0 3))) = LInt (- 2)"
  using vasop_div_bug by blast

text \<open>
  The conversions between \<^verbatim>\<open>vlong\<close> and the narrower types sign-extend,
  zero-extend and truncate as C demands.
\<close>

theorem conversions_exact:
  "vval (sl2v t) = scast t \<and> vval (si2v t) = scast t \<and> vval (ul2v t) = ucast t \<and>
   vval (ui2v t) = ucast t \<and> vval (p2v t) = ucast t \<and>
   vval (sh2v t) = scast (ucast t :: u16) \<and> vval (uh2v t) = ucast (ucast t :: u16) \<and>
   vval (sc2v t) = scast (ucast t :: u8) \<and> vval (uc2v t) = ucast (ucast t :: u8) \<and>
   v2sl v = ucast (vval v) \<and> v2ul v = ucast (vval v) \<and> v2si v = ucast (vval v) \<and>
   v2ui v = ucast (vval v) \<and>
   v2sh v = scast (ucast (vval v) :: u16) \<and> v2uh v = ucast (ucast (vval v) :: u16) \<and>
   v2sc v = scast (ucast (vval v) :: u8) \<and> v2uc v = ucast (ucast (vval v) :: u8)"
  by (intro conjI conv_to_vlong conv_from_vlong)

end
