(* ===== verification/Utf.thy ===== *)
theory Utf
  imports Goken_Prelude "HOL-Library.Monad_Syntax" "HOL-Library.Sublist"
begin

text \<open>
  The UTF-8 routines of the self-hosted libc, \<^verbatim>\<open>lib_core/libc/utf\<close>, and the byte-string
  routines of \<^verbatim>\<open>lib_core/libc/port\<close> they call. A \<^verbatim>\<open>char*\<close> is an offset into a buffer of
  bytes; reading outside of the buffer has no defined result, which is the value \<open>None\<close> of
  every routine here. A null pointer is the inner \<open>None\<close> of a routine that returns a pointer.
\<close>

section \<open>Constants\<close>

definition Tx :: u32 where "Tx = 0x80"
definition T2 :: u32 where "T2 = 0xC0"
definition T3 :: u32 where "T3 = 0xE0"
definition T4 :: u32 where "T4 = 0xF0"
definition T5 :: u32 where "T5 = 0xF8"
definition Rune1 :: u32 where "Rune1 = 0x7F"
definition Rune2 :: u32 where "Rune2 = 0x7FF"
definition Rune3 :: u32 where "Rune3 = 0xFFFF"
definition Rune4 :: u32 where "Rune4 = 0x1FFFFF"
definition Maskx :: u32 where "Maskx = 0x3F"
definition Testx :: u32 where "Testx = 0xC0"
definition Runeerror :: u32 where "Runeerror = 0xFFFD"
definition Runemax :: u32 where "Runemax = 0x10FFFF"
definition Runesync :: u32 where "Runesync = 0x80"
definition Runeself :: u32 where "Runeself = 0x80"

lemmas utf_consts =
  Tx_def T2_def T3_def T4_def T5_def Rune1_def Rune2_def Rune3_def Rune4_def Maskx_def Testx_def
  Runeerror_def Runemax_def Runesync_def Runeself_def

section \<open>Decoding and encoding one rune\<close>

text \<open>\<^verbatim>\<open>*(uchar*)(str+i)\<close>, promoted to \<^verbatim>\<open>int\<close>.\<close>

definition rd :: "u8 list \<Rightarrow> nat \<Rightarrow> u32 option" where
  "rd b i = (if i < length b then Some (ucast (b ! i)) else None)"

definition chartorune :: "u8 list \<Rightarrow> nat \<Rightarrow> (u32 \<times> nat) option" where
  "chartorune b i =
     (let bad = Some (Runeerror, 1) in
      do { c \<leftarrow> rd b i;
           if c < Tx then Some (c, 1)
           else do { c1 \<leftarrow> map_option (\<lambda>x. x XOR Tx) (rd b (i + 1));
             if c1 AND Testx \<noteq> 0 then bad
             else if c < T3 then
               (if c < T2 then bad
                else let l = (push_bit 6 c OR c1) AND Rune2
                     in if l \<le> Rune1 then bad else Some (l, 2))
             else do { c2 \<leftarrow> map_option (\<lambda>x. x XOR Tx) (rd b (i + 2));
               if c2 AND Testx \<noteq> 0 then bad
               else if c < T4 then
                 (let l = (push_bit 6 (push_bit 6 c OR c1) OR c2) AND Rune3
                  in if l \<le> Rune2 then bad else Some (l, 3))
               else do { c3 \<leftarrow> map_option (\<lambda>x. x XOR Tx) (rd b (i + 3));
                 if c3 AND Testx \<noteq> 0 then bad
                 else if c < T5 then
                   (let l = (push_bit 6 (push_bit 6 (push_bit 6 c OR c1) OR c2) OR c3) AND Rune4
                    in if l \<le> Rune3 then bad else Some (l, 4))
                 else bad }}}})"

definition charntorune :: "u8 list \<Rightarrow> nat \<Rightarrow> int \<Rightarrow> (u32 \<times> nat) option" where
  "charntorune b i len =
     (let bad = Some (Runeerror, 1); badlen = Some (Runeerror, 0) in
      if len \<le> 0 then badlen
      else do { c \<leftarrow> rd b i;
        if c < Tx then Some (c, 1)
        else if len \<le> 1 then badlen
        else do { c1 \<leftarrow> map_option (\<lambda>x. x XOR Tx) (rd b (i + 1));
          if c1 AND Testx \<noteq> 0 then bad
          else if c < T3 then
            (if c < T2 then bad
             else let l = (push_bit 6 c OR c1) AND Rune2
                  in if l \<le> Rune1 then bad else Some (l, 2))
          else if len \<le> 2 then badlen
          else do { c2 \<leftarrow> map_option (\<lambda>x. x XOR Tx) (rd b (i + 2));
            if c2 AND Testx \<noteq> 0 then bad
            else if c < T4 then
              (let l = (push_bit 6 (push_bit 6 c OR c1) OR c2) AND Rune3
               in if l \<le> Rune2 then bad else Some (l, 3))
            else if len \<le> 3 then badlen
            else do { c3 \<leftarrow> map_option (\<lambda>x. x XOR Tx) (rd b (i + 3));
              if c3 AND Testx \<noteq> 0 then bad
              else if c < T5 then
                (let l = (push_bit 6 (push_bit 6 (push_bit 6 c OR c1) OR c2) OR c3) AND Rune4
                 in if l \<le> Rune3 then bad else Some (l, 4))
              else bad }}}})"

definition isvalidcharntorune :: "u8 list \<Rightarrow> nat \<Rightarrow> int \<Rightarrow> (bool \<times> u32 \<times> nat) option" where
  "isvalidcharntorune b i len =
     do { (r, consumed) \<leftarrow> charntorune b i len;
          Some (r \<noteq> Runeerror \<or> consumed = 3, r, consumed) }"

text \<open>The bytes that \<^verbatim>\<open>runetochar\<close> stores; its result is their number.\<close>

definition runetochar :: "u32 \<Rightarrow> u8 list" where
  "runetochar rune =
     (let c = rune in
      if c \<le> Rune1 then [ucast c]
      else if c \<le> Rune2 then [ucast (T2 OR drop_bit 6 c), ucast (Tx OR (c AND Maskx))]
      else
        let c = (if c > Runemax then Runeerror else c) in
        if c \<le> Rune3 then
          [ucast (T3 OR drop_bit 12 c), ucast (Tx OR (drop_bit 6 c AND Maskx)),
           ucast (Tx OR (c AND Maskx))]
        else
          [ucast (T4 OR drop_bit 18 c), ucast (Tx OR (drop_bit 12 c AND Maskx)),
           ucast (Tx OR (drop_bit 6 c AND Maskx)), ucast (Tx OR (c AND Maskx))])"

definition runelen :: "u32 \<Rightarrow> nat" where
  "runelen rune = length (runetochar rune)"

text \<open>\<^verbatim>\<open>runenlen\<close> compares the rune as a signed \<^verbatim>\<open>int\<close>; \<open>None\<close> when \<^verbatim>\<open>nrune\<close> exceeds the array.\<close>

fun runenlen :: "u32 list \<Rightarrow> nat \<Rightarrow> nat option" where
  "runenlen r 0 = Some 0"
| "runenlen [] (Suc n) = None"
| "runenlen (c # r) (Suc n) =
     (let k = (if sint c \<le> sint Rune1 then 1
               else if sint c \<le> sint Rune2 then 2
               else if sint c \<le> sint Rune3 then 3 else 4)
      in map_option (\<lambda>nb. k + nb) (runenlen r n))"

definition fullrune :: "u8 list \<Rightarrow> nat \<Rightarrow> int \<Rightarrow> bool option" where
  "fullrune b i n =
     (if n > 0 then
        do { c \<leftarrow> rd b i;
             Some (c < Tx \<or> (n > 1 \<and> (c < T3 \<or> (n > 2 \<and> (c < T4 \<or> n > 3))))) }
      else Some False)"

text \<open>
  Vocabulary of the proofs: continuation bytes, the value assembled from two, three and four
  bytes, and the lead and trail bytes of an encoding.
\<close>

abbreviation cont :: "u8 \<Rightarrow> bool" where "cont x \<equiv> bit x 7 \<and> \<not> bit x 6"

definition join2 :: "u8 \<Rightarrow> u8 \<Rightarrow> u32" where
  "join2 a b = (push_bit 6 (ucast a) OR (ucast b XOR Tx)) AND Rune2"

definition join3 :: "u8 \<Rightarrow> u8 \<Rightarrow> u8 \<Rightarrow> u32" where
  "join3 a b c = (push_bit 6 (push_bit 6 (ucast a) OR (ucast b XOR Tx)) OR (ucast c XOR Tx)) AND Rune3"

definition join4 :: "u8 \<Rightarrow> u8 \<Rightarrow> u8 \<Rightarrow> u8 \<Rightarrow> u32" where
  "join4 a b c d = (push_bit 6 (push_bit 6 (push_bit 6 (ucast a) OR (ucast b XOR Tx)) OR (ucast c XOR Tx)) OR (ucast d XOR Tx)) AND Rune4"

definition trail :: "u32 \<Rightarrow> u8" where "trail x = ucast (Tx OR (x AND Maskx))"

definition lead :: "u32 \<Rightarrow> u32 \<Rightarrow> u8" where "lead t x = ucast (t OR x)"

section \<open>Facts on one rune\<close>

lemma Rune_le:
  "w \<le> Rune1 \<longleftrightarrow> (\<forall>n\<ge>7. \<not> bit w n)" "w \<le> Rune2 \<longleftrightarrow> (\<forall>n\<ge>11. \<not> bit w n)"
  "w \<le> Rune3 \<longleftrightarrow> (\<forall>n\<ge>16. \<not> bit w n)" "w \<le> Rune4 \<longleftrightarrow> (\<forall>n\<ge>21. \<not> bit w n)"
  by (simp_all add: word_le_nat_alt utf_consts flip: unat_less_exp_iff) linarith+

lemma lead_bits:
  "(ucast x :: u32) < Tx \<longleftrightarrow> \<not> bit x 7"
  "(ucast x :: u32) < T2 \<longleftrightarrow> \<not> (bit x 7 \<and> bit x 6)"
  "(ucast x :: u32) < T3 \<longleftrightarrow> \<not> (bit x 7 \<and> bit x 6 \<and> bit x 5)"
  "(ucast x :: u32) < T4 \<longleftrightarrow> \<not> (bit x 7 \<and> bit x 6 \<and> bit x 5 \<and> bit x 4)"
  "(ucast x :: u32) < T5 \<longleftrightarrow> \<not> (bit x 7 \<and> bit x 6 \<and> bit x 5 \<and> bit x 4 \<and> bit x 3)"
  for x :: u8
proof -
  have "unat (ucast x :: u32) = unat x" 
    using unat_less [of x] by (simp add: unsigned_ucast_eq take_bit_nat_eq_self_iff)
  then show "(ucast x :: u32) < Tx \<longleftrightarrow> \<not> bit x 7"
  "(ucast x :: u32) < T2 \<longleftrightarrow> \<not> (bit x 7 \<and> bit x 6)"
  "(ucast x :: u32) < T3 \<longleftrightarrow> \<not> (bit x 7 \<and> bit x 6 \<and> bit x 5)"
  "(ucast x :: u32) < T4 \<longleftrightarrow> \<not> (bit x 7 \<and> bit x 6 \<and> bit x 5 \<and> bit x 4)"
  "(ucast x :: u32) < T5 \<longleftrightarrow> \<not> (bit x 7 \<and> bit x 6 \<and> bit x 5 \<and> bit x 4 \<and> bit x 3)"
    using ones_le [of 7 x] ones_le [of 6 x] ones_le [of 5 x] ones_le [of 4 x] ones_le [of 3 x]
    by (simp_all add: word_less_nat_alt utf_consts upt_rec conj_ac flip: not_le del: set_upt)
qed

lemmas utf_bits = bit_0x80 bit_0xC0 bit_0xE0 bit_0xF0 bit_0x3F bit_0x7F bit_0x1FFFFF bit_const

lemma cont_bits: "((ucast x :: u32) XOR Tx) AND Testx = 0 \<longleftrightarrow> bit x 7 \<and> \<not> bit x 6" for x :: u8
proof -
  have "((ucast x :: u32) XOR Tx) AND Testx = 0 \<longleftrightarrow> (\<forall>n. \<not> bit (((ucast x :: u32) XOR Tx) AND Testx) n)"
    by (rule word_eq_0_iff_bits)
  also have "\<dots> \<longleftrightarrow> bit x 7 \<and> \<not> bit x 6"
    by (auto simp: bit_simps utf_consts utf_bits dest: spec [of _ 7] spec [of _ 6])
  finally show ?thesis .
qed

lemma rd_drop: "rd (drop i b) k = rd b (i + k)"
  by (auto simp: rd_def)

lemma rd_Cons [simp]: "rd (x # q) 0 = Some (ucast x)" "rd (x # q) (Suc k) = rd q k"
  "rd (x # q) 2 = rd q 1" "rd (x # q) 3 = rd q 2"
  by (simp_all add: rd_def eval_nat_numeral)

lemma chartorune_drop: "chartorune b i = chartorune (drop i b) 0"
  unfolding chartorune_def rd_drop add_0 add_0_right by (rule refl)

lemma Runemax_bits: "w \<le> Runemax \<Longrightarrow> 21 \<le> n \<Longrightarrow> \<not> bit w n"
proof -
  assume "w \<le> Runemax" "21 \<le> n"
  then have "w \<le> Rune4" by (simp add: utf_consts word_le_nat_alt)
  with \<open>21 \<le> n\<close> show ?thesis by (simp add: Rune_le)
qed

lemma Rune_bitD:
  "w \<le> Rune1 \<Longrightarrow> bit w n \<Longrightarrow> n < 7" "w \<le> Rune2 \<Longrightarrow> bit w n \<Longrightarrow> n < 11"
  "w \<le> Rune3 \<Longrightarrow> bit w n \<Longrightarrow> n < 16" "w \<le> Runemax \<Longrightarrow> bit w n \<Longrightarrow> n < 21"
  using Runemax_bits [of w n] by (auto simp: Rune_le not_le [symmetric])

lemmas byte_bits = bit_simps utf_consts utf_bits

lemma chartorune_bytes:
  "\<not> bit a 7 \<Longrightarrow> chartorune (a # q) 0 = Some (ucast a, 1)"
  "bit a 7 \<Longrightarrow> bit a 6 \<Longrightarrow> \<not> bit a 5 \<Longrightarrow> cont b \<Longrightarrow> \<not> join2 a b \<le> Rune1 \<Longrightarrow>
    chartorune (a # b # q) 0 = Some (join2 a b, 2)"
  "bit a 7 \<Longrightarrow> bit a 6 \<Longrightarrow> bit a 5 \<Longrightarrow> \<not> bit a 4 \<Longrightarrow> cont b \<Longrightarrow> cont c \<Longrightarrow> \<not> join3 a b c \<le> Rune2 \<Longrightarrow>
    chartorune (a # b # c # q) 0 = Some (join3 a b c, 3)"
  "bit a 7 \<Longrightarrow> bit a 6 \<Longrightarrow> bit a 5 \<Longrightarrow> bit a 4 \<Longrightarrow> \<not> bit a 3 \<Longrightarrow> cont b \<Longrightarrow> cont c \<Longrightarrow> cont d \<Longrightarrow> \<not> join4 a b c d \<le> Rune3 \<Longrightarrow>
    chartorune (a # b # c # d # q) 0 = Some (join4 a b c d, 4)"
  by (simp_all add: chartorune_def Let_def lead_bits cont_bits del: push_bit_or push_bit_xor
    flip: join2_def join3_def join4_def)

lemma cont_xor: "cont b \<Longrightarrow> bit (ucast b XOR Tx) n \<longleftrightarrow> n < 6 \<and> bit b n" for b :: u8
proof -
  assume b: "cont b"
  consider "n < 6" | "n = 6" | "n = 7" | "7 < n" by linarith
  then show ?thesis using b by cases (auto simp: byte_bits dest: bit_imp_le_length)
qed

lemma bit_join2: "cont b \<Longrightarrow> bit (join2 a b) n \<longleftrightarrow> n < 11 \<and> (if n < 6 then bit b n else bit a (n - 6))"
  unfolding join2_def by (auto simp: cont_xor bit_or_iff bit_and_iff bit_push_bit_iff bit_ucast_iff Rune2_def utf_bits)

lemma bit_join3: "cont b \<Longrightarrow> cont c \<Longrightarrow> bit (join3 a b c) n \<longleftrightarrow> n < 16 \<and> (if n < 6 then bit c n else if n < 12 then bit b (n - 6) else bit a (n - 12))"
  unfolding join3_def by (auto simp: cont_xor bit_or_iff bit_and_iff bit_push_bit_iff bit_ucast_iff Rune3_def utf_bits simp del: push_bit_or push_bit_xor)

lemma bit_join4: "cont b \<Longrightarrow> cont c \<Longrightarrow> cont d \<Longrightarrow> bit (join4 a b c d) n \<longleftrightarrow> n < 21 \<and> (if n < 6 then bit d n else if n < 12 then bit c (n - 6) else if n < 18 then bit b (n - 12) else bit a (n - 18))"
  unfolding join4_def by (auto simp: cont_xor bit_or_iff bit_and_iff bit_push_bit_iff bit_ucast_iff Rune4_def utf_bits simp del: push_bit_or push_bit_xor)

lemma bit_trail: "bit (trail x) n \<longleftrightarrow> n = 7 \<or> (n < 6 \<and> bit x n)"
  by (auto simp: trail_def byte_bits)

lemma bit_lead: 
  "bit (lead T2 x) n \<longleftrightarrow> n < 8 \<and> (6 \<le> n \<or> bit x n)" 
  "bit (lead T3 x) n \<longleftrightarrow> n < 8 \<and> (5 \<le> n \<or> bit x n)" 
  "bit (lead T4 x) n \<longleftrightarrow> n < 8 \<and> (4 \<le> n \<or> bit x n)" 
  by (auto simp: lead_def byte_bits)

lemma runetochar_lead: "runetochar c =
     (if c \<le> Rune1 then [ucast c]
      else if c \<le> Rune2 then [lead T2 (drop_bit 6 c), trail c]
      else
        let c = (if c > Runemax then Runeerror else c) in
        if c \<le> Rune3 then [lead T3 (drop_bit 12 c), trail (drop_bit 6 c), trail c]
        else [lead T4 (drop_bit 18 c), trail (drop_bit 12 c), trail (drop_bit 6 c), trail c])"
  by (simp add: runetochar_def lead_def trail_def Let_def)

lemma enc_join2: "c \<le> Rune2 \<Longrightarrow> join2 (lead T2 (drop_bit 6 c)) (trail c) = c"
  by (rule bit_word_eqI) (auto simp: bit_join2 bit_trail bit_lead bit_drop_bit_eq dest: Rune_bitD)

lemma enc_join3: "c \<le> Rune3 \<Longrightarrow> join3 (lead T3 (drop_bit 12 c)) (trail (drop_bit 6 c)) (trail c) = c"
  by (rule bit_word_eqI) (auto simp: bit_join3 bit_trail bit_lead bit_drop_bit_eq dest: Rune_bitD)

lemma enc_join4: "c \<le> Runemax \<Longrightarrow> join4 (lead T4 (drop_bit 18 c)) (trail (drop_bit 12 c)) (trail (drop_bit 6 c)) (trail c) = c"
  by (rule bit_word_eqI) (auto simp: bit_join4 bit_trail bit_lead bit_drop_bit_eq dest: Rune_bitD)

lemma lead_no: "c \<le> Rune2 \<Longrightarrow> \<not> bit (lead T2 (drop_bit 6 c)) 5" 
  "c \<le> Rune3 \<Longrightarrow> \<not> bit (lead T3 (drop_bit 12 c)) 4" 
  "c \<le> Runemax \<Longrightarrow> \<not> bit (lead T4 (drop_bit 18 c)) 3" 
  by (auto simp: bit_lead bit_drop_bit_eq dest: Rune_bitD)

lemma Rune_order: "c \<le> Rune1 \<Longrightarrow> c \<le> Rune2" "c \<le> Rune2 \<Longrightarrow> c \<le> Rune3" "c \<le> Rune3 \<Longrightarrow> c \<le> Runemax" "Runeerror \<le> Rune3" "\<not> Runeerror \<le> Rune2"
  by (simp_all add: utf_consts word_le_nat_alt)

lemma ucast_ascii: "c \<le> Rune1 \<Longrightarrow> (ucast (ucast c :: u8) :: u32) = c" 
  by (intro bit_word_eqI) (auto simp: bit_simps dest: Rune_bitD)

lemma lead_yes: "bit (lead T2 x) 7" "bit (lead T2 x) 6" "bit (lead T3 x) 7" "bit (lead T3 x) 6" "bit (lead T3 x) 5"
  "bit (lead T4 x) 7" "bit (lead T4 x) 6" "bit (lead T4 x) 5" "bit (lead T4 x) 4"
  by (simp_all add: bit_lead)

lemma Rune_not: "\<not> c \<le> Rune2 \<Longrightarrow> \<not> c \<le> Rune1" "\<not> c \<le> Rune3 \<Longrightarrow> \<not> c \<le> Rune2"
   "\<not> c \<le> Rune3 \<Longrightarrow> \<not> c \<le> Rune1" "c \<le> Rune3 \<Longrightarrow> \<not> Runemax < c" "c \<le> Rune1 \<Longrightarrow> \<not> bit c 7"
   "c \<le> Runemax \<Longrightarrow> \<not> Runemax < c"
  using Rune_order(1-3) [of c] Rune_bitD(1) [of c 7] by auto

lemma chartorune_runetochar0:
  "chartorune (runetochar c @ q) 0 = Some (if c \<le> Runemax then c else Runeerror, length (runetochar c))"
proof -
  have enc: "chartorune (runetochar c @ q) 0 = Some (c, length (runetochar c))" if "c \<le> Runemax" for c
  proof -
    consider "c \<le> Rune1" | "\<not> c \<le> Rune1" "c \<le> Rune2" | "\<not> c \<le> Rune2" "c \<le> Rune3"
      | "\<not> c \<le> Rune3" by blast
    then show ?thesis
      using that
      by cases (simp_all add: Rune_not runetochar_lead chartorune_bytes lead_yes bit_trail enc_join2 enc_join3 enc_join4
        lead_no ucast_ascii bit_ucast_iff Let_def)
  qed
  show ?thesis
  proof (cases "c \<le> Runemax")
    case False
    then have "runetochar c = runetochar Runeerror"
      by (auto simp: runetochar_lead utf_consts word_le_nat_alt word_less_nat_alt)
    with False enc [of Runeerror] Rune_order show ?thesis by simp
  qed (simp add: enc)
qed

lemma chartorune_runetochar:
  "chartorune (p @ runetochar c @ q) (length p) = Some (if c \<le> Runemax then c else Runeerror, length (runetochar c))"
  by (subst chartorune_drop) (simp add: chartorune_runetochar0)

lemma rd_0: "rd b 0 = (case b of [] \<Rightarrow> None | x # q \<Rightarrow> Some (ucast x))"
  by (simp add: rd_def split: list.splits)

lemma chartorune_cases:
  assumes "chartorune b 0 = Some (r, n)"
  obtains (bad) "r = Runeerror" "n = 1" "b \<noteq> []"
  | (one) a q where "b = a # q" "\<not> bit a 7" "r = ucast a" "n = 1"
  | (two) a x q where "b = a # x # q" "bit a 7" "bit a 6" "\<not> bit a 5" "cont x" "\<not> join2 a x \<le> Rune1" "r = join2 a x" "n = 2"
  | (three) a x y q where "b = a # x # y # q" "bit a 7" "bit a 6" "bit a 5" "\<not> bit a 4" "cont x" "cont y" "\<not> join3 a x y \<le> Rune2" "r = join3 a x y" "n = 3"
  | (four) a x y z q where "b = a # x # y # z # q" "bit a 7" "bit a 6" "bit a 5" "bit a 4" "\<not> bit a 3" "cont x" "cont y" "cont z" "\<not> join4 a x y z \<le> Rune3" "r = join4 a x y z" "n = 4"
proof -
  obtain a q where b: "b = a # q" using assms by (cases b) (auto simp: chartorune_def rd_def)
  show ?thesis
  proof (cases "bit a 7")
    case False then show ?thesis using assms one [of a q] by (simp add: b chartorune_bytes)
  next
    case a7: True
    obtain x q1 where q: "q = x # q1" using assms a7 by (cases q) (auto simp: b chartorune_def lead_bits rd_def)
    show ?thesis
    proof (cases "cont x \<and> bit a 6")
      case False then show ?thesis using assms a7 bad by (auto simp: b q chartorune_def lead_bits cont_bits Let_def split: if_splits)
    next
      case x: True
      show ?thesis
      proof (cases "bit a 5")
        case False
        then show ?thesis using assms a7 x bad two [of a x q1] 
          by (auto simp: b q chartorune_def lead_bits cont_bits Let_def simp flip: join2_def split: if_splits)
      next
        case a5: True
        obtain y q2 where q1: "q1 = y # q2" using assms a7 x a5 by (cases q1) (auto simp: b q chartorune_def lead_bits cont_bits rd_def)
        show ?thesis
        proof (cases "cont y \<and> bit a 4")
          case False
          then show ?thesis using assms a7 x a5 bad three [of a x y q2]
            by (auto simp: b q q1 chartorune_def lead_bits cont_bits Let_def simp flip: join3_def simp del: push_bit_or push_bit_xor split: if_splits)
        next
          case y: True
          obtain z q3 where q2: "q2 = z # q3" using assms a7 x a5 y by (cases q2) (auto simp: b q q1 chartorune_def lead_bits cont_bits rd_def)
          show ?thesis using assms a7 x a5 y bad four [of a x y z q3]
            by (auto simp: b q q1 q2 chartorune_def lead_bits cont_bits Let_def simp flip: join4_def simp del: push_bit_or push_bit_xor split: if_splits)
        qed
      qed
    qed
  qed
qed

lemma upto8: "P n" if "P 0" "P 1" "P 2" "P 3" "P 4" "P 5" "P 6" "P 7" "n < (8::nat)"
  using that by (auto simp: less_Suc_eq eval_nat_numeral)

lemma lead_eq:
  "bit a 7 \<Longrightarrow> bit a 6 \<Longrightarrow> \<not> bit a 5 \<Longrightarrow> (\<And>n. n < 5 \<Longrightarrow> bit v n = bit a n) \<Longrightarrow> \<not> bit v 5 \<Longrightarrow> lead T2 v = a"
  "bit a 7 \<Longrightarrow> bit a 6 \<Longrightarrow> bit a 5 \<Longrightarrow> \<not> bit a 4 \<Longrightarrow> (\<And>n. n < 4 \<Longrightarrow> bit v n = bit a n) \<Longrightarrow> \<not> bit v 4 \<Longrightarrow> lead T3 v = a"
  "bit a 7 \<Longrightarrow> bit a 6 \<Longrightarrow> bit a 5 \<Longrightarrow> bit a 4 \<Longrightarrow> \<not> bit a 3 \<Longrightarrow> (\<And>n. n < 3 \<Longrightarrow> bit v n = bit a n) \<Longrightarrow> \<not> bit v 3 \<Longrightarrow> lead T4 v = a"
  by (rule bit_word_eqI, simp, erule upto8 [rotated -1]; simp add: bit_lead)+

lemma trail_eq: "cont x \<Longrightarrow> (\<And>n. n < 6 \<Longrightarrow> bit v n = bit x n) \<Longrightarrow> trail v = x"
  by (rule bit_word_eqI, simp, erule upto8 [rotated -1]; simp add: bit_trail)

lemma join_le: "join2 a x \<le> Rune2" "join3 a x y \<le> Rune3"
  unfolding join2_def join3_def by (rule word_and_le1)+

lemma runetochar_join2: "bit a 7 \<Longrightarrow> bit a 6 \<Longrightarrow> \<not> bit a 5 \<Longrightarrow> cont x \<Longrightarrow> \<not> join2 a x \<le> Rune1 \<Longrightarrow> runetochar (join2 a x) = [a, x]"
  by (simp add: runetochar_lead join_le lead_eq trail_eq bit_join2 bit_drop_bit_eq)

lemma runetochar_join3: "bit a 7 \<Longrightarrow> bit a 6 \<Longrightarrow> bit a 5 \<Longrightarrow> \<not> bit a 4 \<Longrightarrow> cont x \<Longrightarrow> cont y \<Longrightarrow> \<not> join3 a x y \<le> Rune2 \<Longrightarrow>
   runetochar (join3 a x y) = [a, x, y]"
  by (simp add: runetochar_lead join_le Rune_not lead_eq trail_eq bit_join3 bit_drop_bit_eq Let_def)

lemma runetochar_join4: "bit a 7 \<Longrightarrow> bit a 6 \<Longrightarrow> bit a 5 \<Longrightarrow> bit a 4 \<Longrightarrow> \<not> bit a 3 \<Longrightarrow> cont x \<Longrightarrow> cont y \<Longrightarrow> cont z \<Longrightarrow> \<not> join4 a x y z \<le> Rune3 \<Longrightarrow>
   join4 a x y z \<le> Runemax \<Longrightarrow> runetochar (join4 a x y z) = [a, x, y, z]"
  by (simp add: runetochar_lead join_le Rune_not lead_eq trail_eq bit_join4 bit_drop_bit_eq Let_def)

lemma ascii_le: "\<not> bit a 7 \<Longrightarrow> (ucast a :: u32) \<le> Rune1" for a :: u8
  using lead_bits(1) [of a] by (simp add: utf_consts word_le_nat_alt word_less_nat_alt)

lemma runetochar_chartorune0:
  assumes "chartorune b 0 = Some (r, n)" "\<not> (r = Runeerror \<and> n = 1)" "r \<le> Runemax"
  shows "take n b = runetochar r"
  using assms(1)
proof (cases rule: chartorune_cases)
  case bad then show ?thesis using assms by simp
next
  case one then show ?thesis by (simp add: ascii_le runetochar_lead ucast_ucast_id)
next
  case two then show ?thesis by (simp add: runetochar_join2)
next
  case three then show ?thesis by (simp add: runetochar_join3)
next
  case four then show ?thesis using assms by (simp add: runetochar_join4)
qed

lemma chartorune_consumes:
  assumes "chartorune b i = Some (r, n)" 
  shows "1 \<le> n" "n \<le> 4" "i + n \<le> length b" 
proof -
  have "1 \<le> n \<and> n \<le> 4 \<and> n \<le> length (drop i b)"
    using assms by (subst (asm) chartorune_drop) (erule chartorune_cases; cases "drop i b"; simp)
  then show "1 \<le> n" "n \<le> 4" "i + n \<le> length b" by auto
qed

section \<open>Byte strings and UTF strings\<close>

text \<open>
  The loops over a string stop at its NUL byte or leave the buffer, so each is a total function.
  \<open>strchr_nul\<close> and \<open>strchr_loop\<close> are the two loops of \<^verbatim>\<open>strchr\<close>.
\<close>

function strchr_nul :: "u8 list \<Rightarrow> nat \<Rightarrow> nat option" where
  "strchr_nul b s =
     (if s < length b then (if b ! s = 0 then Some s else strchr_nul b (s + 1)) else None)"
  by pat_completeness auto
termination by (relation "measure (\<lambda>(b, s). length b - s)") auto

function strchr_loop :: "u8 list \<Rightarrow> nat \<Rightarrow> u8 \<Rightarrow> nat option option" where
  "strchr_loop b s c0 =
     (if s < length b then
        (if b ! s = 0 then Some None
         else if b ! s = c0 then Some (Some s) else strchr_loop b (s + 1) c0)
      else None)"
  by pat_completeness auto
termination by (relation "measure (\<lambda>(b, s, c). length b - s)") auto

definition strchr :: "u8 list \<Rightarrow> nat \<Rightarrow> u32 \<Rightarrow> nat option option" where
  "strchr b s c =
     (if c = 0 then map_option Some (strchr_nul b s) else strchr_loop b s (ucast c))"

definition strlen :: "u8 list \<Rightarrow> nat \<Rightarrow> nat option" where
  "strlen b s = map_option (\<lambda>e. e - s) (strchr_nul b s)"

declare strchr_nul.simps [simp del] strchr_loop.simps [simp del]

lemma strchr_loop_bounds: "strchr_loop b s c = Some (Some k) \<Longrightarrow> s \<le> k \<and> k < length b"
  by (induction b s c rule: strchr_loop.induct) (subst (asm) (2) strchr_loop.simps, fastforce split: if_splits)

function strrchr_loop :: "u8 list \<Rightarrow> nat \<Rightarrow> u8 \<Rightarrow> nat option \<Rightarrow> nat option option" where
  "strrchr_loop b s c r =
     (case strchr_loop b s c of
        None \<Rightarrow> None
      | Some None \<Rightarrow> Some r
      | Some (Some k) \<Rightarrow> strrchr_loop b (k + 1) c (Some k))"
  by pat_completeness auto
termination
  by (relation "measure (\<lambda>(b, s, c, r). length b - s)") (auto dest: strchr_loop_bounds)

definition strrchr :: "u8 list \<Rightarrow> nat \<Rightarrow> u32 \<Rightarrow> nat option option" where
  "strrchr b s c = (if c = 0 then strchr b s 0 else strrchr_loop b s (ucast c) None)"

function utflen :: "u8 list \<Rightarrow> nat \<Rightarrow> nat option" where
  "utflen b s =
     do { c \<leftarrow> rd b s;
          if c < Runeself then
            (if c = 0 then Some 0 else map_option Suc (utflen b (s + 1)))
          else
            case chartorune b s of
              None \<Rightarrow> None
            | Some (r, n) \<Rightarrow> map_option Suc (utflen b (s + n)) }"
  by pat_completeness auto
termination
  by (relation "measure (\<lambda>(b, s). length b - s)")
    (auto simp: rd_def split: if_splits dest: chartorune_consumes)

declare utflen.simps [simp del] strrchr_loop.simps [simp del]

text \<open>\<open>es\<close> is the end offset \<^verbatim>\<open>s + m\<close>.\<close>

function utfnlen_loop :: "u8 list \<Rightarrow> nat \<Rightarrow> nat \<Rightarrow> nat option" where
  "utfnlen_loop b s es =
     (if s < es then
        do { c \<leftarrow> rd b s;
             if c < Runeself then
               (if c = 0 then Some 0 else map_option Suc (utfnlen_loop b (s + 1) es))
             else
               case fullrune b s (int es - int s) of
                 None \<Rightarrow> None
               | Some False \<Rightarrow> Some 0
               | Some True \<Rightarrow>
                   (case chartorune b s of
                      None \<Rightarrow> None
                    | Some (r, n) \<Rightarrow> map_option Suc (utfnlen_loop b (s + n) es)) }
      else Some 0)"
  by pat_completeness auto
termination
  by (relation "measure (\<lambda>(b, s, es). length b - s)")
    (auto simp: rd_def split: if_splits dest: chartorune_consumes)

definition utfnlen :: "u8 list \<Rightarrow> nat \<Rightarrow> int \<Rightarrow> nat option" where
  "utfnlen b s m = utfnlen_loop b s (nat (int s + m))"

text \<open>
  The argument \<^verbatim>\<open>long c\<close> of \<^verbatim>\<open>utfrune\<close> and \<^verbatim>\<open>utfrrune\<close> is signed, so it is an
  \<^typ>\<open>int\<close> here, and the test against \<^verbatim>\<open>Runesync\<close> is the signed one: a negative
  \<open>c\<close> is searched for as a byte. The loops are reached with \<open>c \<ge> Runesync\<close> only, where
  comparing \<open>c\<close> with the unsigned \<^verbatim>\<open>Rune\<close> is comparing the values, whatever the width of a
  \<^verbatim>\<open>long\<close>.
\<close>

function utfrune_loop :: "u8 list \<Rightarrow> nat \<Rightarrow> int \<Rightarrow> nat option option" where
  "utfrune_loop b s c =
     do { c1 \<leftarrow> rd b s;
          if c1 < Runeself then
            (if c1 = 0 then Some None
             else if uint c1 = c then Some (Some s) else utfrune_loop b (s + 1) c)
          else
            case chartorune b s of
              None \<Rightarrow> None
            | Some (r, n) \<Rightarrow> if uint r = c then Some (Some s) else utfrune_loop b (s + n) c }"
  by pat_completeness auto
termination
  by (relation "measure (\<lambda>(b, s, c). length b - s)")
    (auto simp: rd_def split: if_splits dest: chartorune_consumes)

definition utfrune :: "u8 list \<Rightarrow> nat \<Rightarrow> int \<Rightarrow> nat option option" where
  "utfrune b s c = (if c < uint Runesync then strchr b s (word_of_int c) else utfrune_loop b s c)"

function utfrrune_loop :: "u8 list \<Rightarrow> nat \<Rightarrow> int \<Rightarrow> nat option \<Rightarrow> nat option option" where
  "utfrrune_loop b s c s1 =
     do { c1 \<leftarrow> rd b s;
          if c1 < Runeself then
            (if c1 = 0 then Some s1
             else utfrrune_loop b (s + 1) c (if uint c1 = c then Some s else s1))
          else
            case chartorune b s of
              None \<Rightarrow> None
            | Some (r, n) \<Rightarrow> utfrrune_loop b (s + n) c (if uint r = c then Some s else s1) }"
  by pat_completeness auto
termination
  by (relation "measure (\<lambda>(b, s, c, s1). length b - s)")
    (auto simp: rd_def split: if_splits dest: chartorune_consumes)

definition utfrrune :: "u8 list \<Rightarrow> nat \<Rightarrow> int \<Rightarrow> nat option option" where
  "utfrrune b s c =
     (if c < uint Runesync then strrchr b s (word_of_int c) else utfrrune_loop b s c None)"

declare utfnlen_loop.simps [simp del] utfrune_loop.simps [simp del] utfrrune_loop.simps [simp del]

fun memccpy :: "u8 list \<Rightarrow> nat \<Rightarrow> u8 list \<Rightarrow> nat \<Rightarrow> u8 \<Rightarrow> nat \<Rightarrow> (u8 list \<times> nat option) option" where
  "memccpy d s1 f s2 c 0 = Some (d, None)"
| "memccpy d s1 f s2 c (Suc n) =
     (if s1 < length d \<and> s2 < length f then
        (let d = d[s1 := f ! s2]
         in if f ! s2 = c then Some (d, Some (s1 + 1))
            else memccpy d (s1 + 1) f (s2 + 1) c n)
      else None)"

fun utfecpy_back :: "u8 list \<Rightarrow> nat \<Rightarrow> nat \<Rightarrow> nat" where
  "utfecpy_back d to 0 = 0"
| "utfecpy_back d to (Suc k) =
     (if Suc k > to then (if d ! k AND 0xC0 = 0x80 then utfecpy_back d to k else k) else Suc k)"

definition utfecpy :: "u8 list \<Rightarrow> nat \<Rightarrow> nat \<Rightarrow> u8 list \<Rightarrow> nat \<Rightarrow> (u8 list \<times> nat) option" where
  "utfecpy d to e f from =
     (if to \<ge> e then Some (d, to)
      else case memccpy d to f from 0 (e - to) of
             None \<Rightarrow> None
           | Some (d, None) \<Rightarrow> (let k = utfecpy_back d to (e - 1) in Some (d[k := 0], k))
           | Some (d, Some k) \<Rightarrow> Some (d, k - 1))"

text \<open>A string of runes as bytes, and the rune that an out-of-range rune is encoded as.\<close>

definition enc :: "u32 list \<Rightarrow> u8 list" where "enc rs = concat (map runetochar rs)"

definition valid :: "u32 \<Rightarrow> u32" where "valid r = (if r \<le> Runemax then r else Runeerror)"

section \<open>Facts on strings\<close>

lemma enc_simps [simp]: "enc [] = []" "enc (r # rs) = runetochar r @ enc rs" "enc (rs @ ss) = enc rs @ enc ss"
  by (simp_all add: enc_def)

lemma runetochar_Cons: obtains a q where "runetochar r = a # q"
  by (cases "runetochar r") (auto simp: runetochar_def Let_def split: if_splits)

lemma Runeself_le: "r < Runeself \<longleftrightarrow> r \<le> Rune1"
  by (simp add: utf_consts word_le_nat_alt word_less_nat_alt) linarith

lemma runetochar_cases:
  obtains (self) "r < Runeself" "runetochar r = [ucast r]" "rd (p @ runetochar r @ q) (length p) = Some r"
  | (multi) c where "\<not> r < Runeself" "rd (p @ runetochar r @ q) (length p) = Some c" "\<not> c < Runeself"
     "chartorune (p @ runetochar r @ q) (length p) = Some (valid r, length (runetochar r))"
proof (cases "r < Runeself")
  case True
  then show ?thesis using self by (simp add: Runeself_le runetochar_lead ucast_ascii rd_def)
next
  case False
  obtain a t where a: "runetochar r = a # t" by (rule runetochar_Cons)
  have "bit a 7" using a False by (auto simp: runetochar_lead lead_yes Let_def Runeself_le split: if_splits)
  then have "\<not> ucast a < Runeself" using lead_bits(1) [of a] by (simp add: utf_consts)
  then show ?thesis
    using multi [of "ucast a"] False chartorune_runetochar [of p r q] by (simp add: a rd_def valid_def)
qed

lemma utflen_enc:
  "0 \<notin> set rs \<Longrightarrow> utflen (p @ enc rs @ 0 # q) (length p) = Some (length rs)"
proof (induction rs arbitrary: p)
  case Nil
  show ?case by (subst utflen.simps) (simp add: rd_def Runeself_def)
next
  case (Cons r rs)
  have IH: "utflen (p @ runetochar r @ enc rs @ 0 # q) (length p + length (runetochar r)) = Some (length rs)"
    using Cons.IH [of "p @ runetochar r"] Cons.prems by simp
  show ?case
    by (rule runetochar_cases [of r p "enc rs @ 0 # q"]; subst utflen.simps; use IH Cons.prems in simp)
qed

lemma length_runetochar: "length (runetochar r) = (if r \<le> Rune1 then 1 else if r \<le> Rune2 then 2 else if valid r \<le> Rune3 then 3 else 4)"
  by (auto simp: runetochar_def valid_def Let_def not_le)

lemma fullrune_enc: "fullrune (p @ runetochar r @ q) (length p) (int (length (runetochar r)) + int m) = Some True"
proof -
  have "\<exists>a t. runetochar r = a # t \<and> (bit a 7 \<longrightarrow> 1 < length (a # t)) \<and>  (bit a 7 \<longrightarrow> bit a 6 \<longrightarrow> bit a 5 \<longrightarrow> 2 < length (a # t)) \<and> (bit a 7 \<longrightarrow> bit a 6 \<longrightarrow> bit a 5 \<longrightarrow> bit a 4 \<longrightarrow> 3 < length (a # t))"
    using Rune_order Rune_not(5) [of r]
    by (auto simp: runetochar_lead bit_ucast_iff Let_def lead_no)
  then obtain a t where a: "runetochar r = a # t" and "bit a 7 \<longrightarrow> 1 < length (a # t)"
    "bit a 7 \<longrightarrow> bit a 6 \<longrightarrow> bit a 5 \<longrightarrow> 2 < length (a # t)" 
    "bit a 7 \<longrightarrow> bit a 6 \<longrightarrow> bit a 5 \<longrightarrow> bit a 4 \<longrightarrow> 3 < length (a # t)" by blast
  moreover have "rd (p @ runetochar r @ q) (length p) = Some (ucast a)" by (simp add: rd_def a)
  ultimately show ?thesis by (cases t; cases "tl t"; cases "tl (tl t)"; auto simp: fullrune_def lead_bits)
qed

lemma utfnlen_enc:
  "0 \<notin> set rs \<Longrightarrow> utfnlen_loop (p @ enc rs @ q) (length p) (length p + length (enc rs)) = Some (length rs)"
proof (induction rs arbitrary: p)
  case Nil
  show ?case by (subst utfnlen_loop.simps) simp
next
  case (Cons r rs)
  have IH: "utfnlen_loop (p @ runetochar r @ enc rs @ q) (length p + length (runetochar r)) (length p + length (runetochar r) + length (enc rs)) = Some (length rs)"
    using Cons.IH [of "p @ runetochar r"] Cons.prems by simp
  have pos: "0 < length (runetochar r)" by (simp add: length_runetochar)
  have full: "fullrune (p @ runetochar r @ enc rs @ q) (length p) (int (length p + (length (runetochar r) + length (enc rs))) - int (length p)) = Some True"
    using fullrune_enc [of p r "enc rs @ q" "length (enc rs)"] by simp
  show ?case
    by (rule runetochar_cases [of r p "enc rs @ q"]; subst utfnlen_loop.simps; use IH Cons.prems pos full in \<open>simp add: add.assoc\<close>)
qed

lemma utfrune_loop_enc:
  "0 \<notin> set rs \<Longrightarrow> utfrune_loop (p @ enc rs @ 0 # q) (length p) c = 
     Some (if c \<in> set (map (\<lambda>r. uint (valid r)) rs) then Some (length p + length (enc (takeWhile (\<lambda>r. uint (valid r) \<noteq> c) rs))) else None)"
proof (induction rs arbitrary: p)
  case Nil
  show ?case by (subst utfrune_loop.simps) (simp add: rd_def Runeself_def)
next
  case (Cons r rs)
  have IH: "utfrune_loop (p @ runetochar r @ enc rs @ 0 # q) (length p + length (runetochar r)) c = 
     Some (if c \<in> set (map (\<lambda>r. uint (valid r)) rs) then Some (length p + length (runetochar r) + length (enc (takeWhile (\<lambda>r. uint (valid r) \<noteq> c) rs))) else None)"
    using Cons.IH [of "p @ runetochar r"] Cons.prems by simp
  have v: "r < Runeself \<Longrightarrow> valid r = r" using Rune_order(1-3) [of r] by (simp add: Runeself_le valid_def)
  show ?case
    by (rule runetochar_cases [of r p "enc rs @ 0 # q"]; subst utfrune_loop.simps; use IH Cons.prems v in auto)
qed

lemma strchr_loop_skip:
  "0 \<notin> set t \<Longrightarrow> c0 \<notin> set t \<Longrightarrow> strchr_loop (p @ t @ q) (length p) c0 = strchr_loop (p @ t @ q) (length p + length t) c0"
proof (induction t arbitrary: p)
  case (Cons x t)
  have "strchr_loop (p @ (x # t) @ q) (length p) c0 = strchr_loop ((p @ [x]) @ t @ q) (length (p @ [x])) c0"
    using Cons.prems by (subst strchr_loop.simps) (auto simp: nth_append)
  then show ?case using Cons.IH [of "p @ [x]"] Cons.prems by simp
qed simp

lemma runetochar_high: "\<not> r < Runeself \<Longrightarrow> x \<in> set (runetochar r) \<Longrightarrow> bit x 7"
  by (auto simp: runetochar_lead Runeself_le lead_yes bit_trail Let_def split: if_splits)

lemma utfrune_self_enc:
  assumes "c < Runeself" "c \<noteq> 0" "0 \<notin> set rs"
  shows "strchr_loop (p @ enc rs @ 0 # q) (length p) (ucast c) = 
     Some (if c \<in> set (map valid rs) then Some (length p + length (enc (takeWhile (\<lambda>r. valid r \<noteq> c) rs))) else None)"
  using assms(3)
proof (induction rs arbitrary: p)
  case Nil
  show ?case by (subst strchr_loop.simps) simp
next
  case (Cons r rs)
  have IH: "strchr_loop (p @ runetochar r @ enc rs @ 0 # q) (length p + length (runetochar r)) (ucast c) = 
     Some (if c \<in> set (map valid rs) then Some (length p + length (runetochar r) + length (enc (takeWhile (\<lambda>r. valid r \<noteq> c) rs))) else None)"
    using Cons.IH [of "p @ runetochar r"] Cons.prems by simp
  have c7: "\<not> bit (ucast c :: u8) 7" "(ucast (ucast c :: u8) :: u32) = c"
    using assms(1) by (simp_all add: Runeself_le Rune_not bit_ucast_iff ucast_ascii)
  show ?case
  proof (cases "r < Runeself")
    case True
    then have r: "runetochar r = [ucast r]" "(ucast (ucast r :: u8) :: u32) = r" "valid r = r"
      using Rune_order(1-3) [of r] by (simp_all add: Runeself_le runetochar_lead ucast_ascii valid_def)
    have "r \<noteq> 0" using Cons.prems by auto
    then have "(ucast r :: u8) \<noteq> 0" using r(2) by (metis unsigned_0)
    moreover have "(ucast r :: u8) = ucast c \<longleftrightarrow> r = c" using r(2) c7(2) by metis
    ultimately show ?thesis using IH r
      by (cases "r = c"; subst strchr_loop.simps) (simp_all add: nth_append)
  next
    case False
    have "valid r \<noteq> c" using False assms(1) by (auto simp: valid_def utf_consts split: if_splits)
    moreover have "0 \<notin> set (runetochar r)" "ucast c \<notin> set (runetochar r)"
      using runetochar_high [OF False, of 0] runetochar_high [OF False, of "ucast c"] c7(1) by auto
    ultimately show ?thesis using IH by (simp add: strchr_loop_skip)
  qed
qed

lemma fullrune_charntorune:
  assumes "fullrune b i n = Some True"
  shows "charntorune b i n = chartorune b i"
proof -
  obtain a where rd: "rd b i = Some a" and n: "0 < n" "a < Tx \<or> 1 < n"
    "a < T3 \<or> 2 < n" "a < T4 \<or> 3 < n"
    using assms by (cases "rd b i") (auto simp: fullrune_def utf_consts word_less_nat_alt split: if_splits)
  consider "a < Tx" | "\<not> a < Tx" "a < T3" "1 < n" | "\<not> a < Tx" "\<not> a < T3" "a < T4" "2 < n"
    | "\<not> a < Tx" "\<not> a < T3" "\<not> a < T4" "3 < n" using n by linarith
  then show ?thesis unfolding charntorune_def chartorune_def Let_def rd using \<open>0 < n\<close>
    by cases (simp_all cong: if_cong)
qed

lemma charntorune_inside:
  assumes "int i + n \<le> int (length b)"
  shows "\<exists>r k. charntorune b i n = Some (r, k) \<and> int k \<le> max n 0 \<and> (k = 0 \<longrightarrow> fullrune b i n = Some False)"
proof -
  have rds: "\<exists>c. rd b (i + j) = Some c" if "int j < n" for j
    using assms that by (simp add: rd_def)
  consider "n \<le> 0" | "n = 1" | "n = 2" | "n = 3" | "4 \<le> n" by linarith
  then show ?thesis
  proof cases
    case 1 then show ?thesis by (simp add: charntorune_def fullrune_def)
  next
    case 2 then show ?thesis using rds [of 0] by (auto simp: charntorune_def fullrune_def Let_def)
  next
    case 3 then show ?thesis using rds [of 0] rds [of 1] 
      by (auto simp: charntorune_def fullrune_def Let_def not_less)
  next
    case 4 then show ?thesis using rds [of 0] rds [of 1] rds [of 2]
      by (auto simp: charntorune_def fullrune_def Let_def)
  next
    case 5 then show ?thesis using rds [of 0] rds [of 1] rds [of 2] rds [of 3]
      by (auto simp: charntorune_def fullrune_def Let_def)
  qed
qed

lemma cont_nz: "cont x \<Longrightarrow> x \<noteq> 0" by auto

lemma chartorune_None:
  assumes "chartorune b 0 = None"
  shows "0 \<notin> set b"
proof (cases b)
  case (Cons a q)
  then have a: "bit a 7" using assms by (cases "bit a 7") (auto simp: chartorune_bytes)
  show ?thesis
  proof (cases q)
    case Nil then show ?thesis using Cons a by auto
  next
    case q: (Cons x q1)
    then have x: "cont x" "bit a 6" "bit a 5" using assms Cons a
      by (auto simp: chartorune_def lead_bits cont_bits Let_def split: if_splits)
    show ?thesis
    proof (cases q1)
      case Nil then show ?thesis using Cons q a x by auto
    next
      case q1: (Cons y q2)
      then have y: "cont y" "bit a 4" using assms Cons q a x
        by (auto simp: chartorune_def lead_bits cont_bits Let_def split: if_splits)
      have "q2 = []" using assms Cons q q1 a x y
        by (cases q2) (auto simp: chartorune_def lead_bits cont_bits Let_def split: if_splits)
      then show ?thesis using Cons q q1 a x y by auto
    qed
  qed
qed simp

lemma chartorune_terminated:
  assumes "0 \<in> set (drop i b)"
  shows "\<exists>r n. chartorune b i = Some (r, n) \<and> (b ! i = 0 \<or> 0 \<in> set (drop (i + n) b))"
proof -
  obtain r n where rn: "chartorune (drop i b) 0 = Some (r, n)"
    using chartorune_None [of "drop i b"] assms by (cases "chartorune (drop i b) 0") auto
  have "hd (drop i b) = 0 \<or> 0 \<in> set (drop n (drop i b))"
    using rn assms by (cases rule: chartorune_cases; cases "drop i b") auto
  moreover have "i < length b" using assms by (metis drop_all empty_iff empty_set not_le)
  ultimately show ?thesis using rn
    by (subst chartorune_drop) (auto simp: hd_drop_conv_nth add.commute)
qed

lemma utflen_terminates: "0 \<in> set (drop s b) \<Longrightarrow> \<exists>k. utflen b s = Some k \<and> k \<le> length b - s"
proof (induction b s rule: utflen.induct)
  case (1 b s)
  have s: "s < length b" using 1(3) by (metis drop_all empty_iff empty_set not_le)
  have d: "drop s b = b ! s # drop (s + 1) b" using s by (simp add: Cons_nth_drop_Suc)
  show ?case
  proof (cases "(ucast (b ! s) :: u32) < Runeself")
    case True
    show ?thesis
    proof (cases "b ! s = 0")
      case False
      then have "0 \<in> set (drop (s + 1) b)" using 1(3) d by simp
      moreover have "(ucast (b ! s) :: u32) \<noteq> 0" using False using ucast_ucast_id [of "b ! s"] by auto
      ultimately show ?thesis using 1(1) [of "ucast (b ! s)"] True s 
        by (subst utflen.simps) (auto simp: rd_def)
    qed (use True s in \<open>subst utflen.simps, simp add: rd_def\<close>)
  next
    case False
    then have nz: "b ! s \<noteq> 0" by (auto simp: Runeself_def)
    obtain r n where rn: "chartorune b s = Some (r, n)" "0 \<in> set (drop (s + n) b)"
      using chartorune_terminated [OF 1(3)] nz by blast
    have "1 \<le> n" "s + n \<le> length b" using chartorune_consumes [OF rn(1)] by auto
    then show ?thesis using 1(2) [of "ucast (b ! s)" "(r, n)" r n] False s rn
      by (subst utflen.simps) (auto simp: rd_def)
  qed
qed

lemma memccpy_found:
  "0 \<notin> set t \<Longrightarrow> length t < n \<Longrightarrow> s1 + length t < length d \<Longrightarrow>
   memccpy d s1 (p @ t @ 0 # q) (length p) 0 n =
     Some (take s1 d @ t @ 0 # drop (s1 + length t + 1) d, Some (s1 + length t + 1))"
proof (induction t arbitrary: n s1 d p)
  case Nil
  then obtain m where "n = Suc m" by (cases n) auto
  with Nil show ?case by (simp add: upd_conv_take_nth_drop)
next
  case (Cons x t)
  then obtain m where n: "n = Suc m" by (cases n) auto
  have "memccpy (d[s1 := x]) (s1 + 1) ((p @ [x]) @ t @ 0 # q) (length (p @ [x])) 0 m =
     Some (take (s1 + 1) (d[s1 := x]) @ t @ 0 # drop (s1 + 1 + length t + 1) (d[s1 := x]), Some (s1 + 1 + length t + 1))"
    using Cons.prems by (intro Cons.IH) (auto simp: n)
  then show ?case using Cons.prems by (auto simp: n take_Suc_conv_app_nth nth_append)
qed

lemma memccpy_full:
  "0 \<notin> set (take n t) \<Longrightarrow> n \<le> length t \<Longrightarrow> s1 + n \<le> length d \<Longrightarrow>
   memccpy d s1 (p @ t) (length p) 0 n = Some (take s1 d @ take n t @ drop (s1 + n) d, None)"
proof (induction n arbitrary: t s1 d p)
  case (Suc n)
  then obtain x u where t: "t = x # u" by (cases t) auto
  have "memccpy (d[s1 := x]) (s1 + 1) ((p @ [x]) @ u) (length (p @ [x])) 0 n =
     Some (take (s1 + 1) (d[s1 := x]) @ take n u @ drop (s1 + 1 + n) (d[s1 := x]), None)"
    using Suc.prems by (intro Suc.IH) (auto simp: t)
  then show ?case using Suc.prems by (auto simp: t take_Suc_conv_app_nth nth_append)
qed simp

lemma is_cont: "x AND 0xC0 = 0x80 \<longleftrightarrow> cont x" for x :: u8
proof
  assume "x AND 0xC0 = 0x80"
  then have "bit (x AND 0xC0) n = bit (0x80 :: u8) n" for n by simp
  from this [of 7] this [of 6] show "cont x" by (simp add: bit_and_iff utf_bits)
next
  assume "cont x"
  show "x AND 0xC0 = 0x80"
  proof (rule bit_word_eqI)
    fix n assume "n < LENGTH(8)"
    then show "bit (x AND 0xC0) n = bit (0x80 :: u8) n"
      using \<open>cont x\<close> by (cases "n = 6"; cases "n = 7") (auto simp: bit_and_iff utf_bits)
  qed
qed

lemma back_le: "utfecpy_back d to k \<le> k" "to \<le> k \<Longrightarrow> to \<le> utfecpy_back d to k"
  "utfecpy_back d to k \<noteq> to \<Longrightarrow> to \<le> k \<Longrightarrow> utfecpy_back d to k < k \<and> \<not> (d ! utfecpy_back d to k AND 0xC0 = 0x80)"
  by (induction k) auto

lemma runetochar_trail: "runetochar r = a # t \<Longrightarrow> \<not> cont a \<and> (\<forall>x \<in> set t. cont x)"
  using Rune_not(5) [of r] by (auto simp: runetochar_lead lead_yes bit_trail bit_ucast_iff Let_def split: if_splits)

lemma noncont_boundary:
  "j < length (enc rs) \<Longrightarrow> \<not> cont (enc rs ! j) \<Longrightarrow> \<exists>k<length rs. j = length (enc (take k rs))"
proof (induction rs arbitrary: j)
  case (Cons r rs)
  obtain a t where r: "runetochar r = a # t" by (rule runetochar_Cons)
  show ?case
  proof (cases "j < length (runetochar r)")
    case True
    then have "j = 0" using Cons.prems(2) runetochar_trail [OF r]
      by (cases j) (auto simp: r nth_append)
    then show ?thesis by (intro exI [of _ 0]) simp
  next
    case False
    then have "j - length (runetochar r) < length (enc rs)" "\<not> cont (enc rs ! (j - length (runetochar r)))"
      using Cons.prems by (auto simp: nth_append)
    from Cons.IH [OF this] obtain k where "k < length rs" "j - length (runetochar r) = length (enc (take k rs))" by blast
    with False show ?thesis by (intro exI [of _ "Suc k"]) simp
  qed
qed simp

lemma enc_take_prefix: "take (length (enc (take k rs))) (enc rs) = enc (take k rs)"
  using enc_simps(3) [of "take k rs" "drop k rs"] by (simp del: enc_simps)

lemma enc_nonzero: "0 \<notin> set rs \<Longrightarrow> 0 \<notin> set (enc rs)"
proof (induction rs)
  case (Cons r rs)
  have "0 \<notin> set (runetochar r)"
    by (rule runetochar_cases [of r "[]" "[]"]) (use Cons.prems runetochar_high [of r 0] ucast_ascii [of r] in \<open>auto simp: Runeself_le\<close>)
  with Cons show ?case by simp
qed simp

lemma utfecpy_whole_runes:
  assumes "0 \<notin> set rs" "to < e" "e \<le> length d"
  shows "\<exists>k d'. utfecpy d to e (p @ enc rs @ 0 # q) (length p) = Some (d', to + length (enc (take k rs))) \<and>
     to + length (enc (take k rs)) < e \<and> length d' = length d \<and>
     take to d' = take to d \<and> drop e d' = drop e d \<and>
     take (length (enc (take k rs)) + 1) (drop to d') = enc (take k rs) @ [0] \<and>
     (length (enc rs) < e - to \<longrightarrow> enc (take k rs) = enc rs)"
proof (cases "length (enc rs) < e - to")
  case True
  then show ?thesis using assms enc_nonzero [OF assms(1)]
    by (intro exI [of _ "length rs"]) (auto simp: utfecpy_def memccpy_found drop_Cons')
next
  case False
  let ?n = "e - to"
  let ?d = "take to d @ take ?n (enc rs) @ drop e d"
  have "0 \<notin> set (take ?n (enc rs @ 0 # q))" using False enc_nonzero [OF assms(1)] by (auto dest: in_set_takeD)
  then have m: "memccpy d to (p @ enc rs @ 0 # q) (length p) 0 ?n = Some (?d, None)"
    using memccpy_full [of ?n "enc rs @ 0 # q" to d p] False assms by simp
  let ?k = "utfecpy_back ?d to (e - 1)"
  have k: "to \<le> ?k" "?k \<le> e - 1" using back_le assms by auto
  have "\<exists>j \<le> length rs. ?k = to + length (enc (take j rs))"
  proof (cases "?k = to")
    case True then show ?thesis by (intro exI [of _ 0]) simp
  next
    case F: False
    then have "?k < e - 1" "\<not> cont (?d ! ?k)" using back_le(3) [of ?d to "e - 1"] assms is_cont by auto
    moreover from this(1) have lt: "?k - to < length (enc rs)" using False k(1) by linarith
    moreover have "(take to d @ take ?n (enc rs) @ drop e d) ! i = enc rs ! (i - to)" if "to \<le> i" "i < e - 1" for i
    proof -
      have "i - to < e - to" using that by linarith
      then show ?thesis using that False assms by (simp add: nth_append)
    qed
    ultimately have "\<not> cont (enc rs ! (?k - to))" using k(1) by metis
    from noncont_boundary [OF lt this] show ?thesis using k by (metis le_add_diff_inverse less_imp_le)
  qed
  then obtain j where j: "j \<le> length rs" "?k = to + length (enc (take j rs))" by blast
  have u: "utfecpy d to e (p @ enc rs @ 0 # q) (length p) = Some (?d[?k := 0], ?k)"
    using assms m by (simp add: utfecpy_def Let_def)
  have sz: "length ?d = length d" using False assms by simp
  have kn: "length (enc (take j rs)) < ?n" using k j assms by simp
  have "take (length (enc (take j rs)) + 1) (drop to (?d[?k := 0])) = enc (take j rs) @ [0]"
  proof -
    have "drop to (?d[?k := 0]) = (take ?n (enc rs) @ drop e d)[length (enc (take j rs)) := 0]"
      using assms j(2) by (simp add: drop_update_swap)
    then show ?thesis
      using kn False enc_take_prefix [of j rs] by (simp add: take_Suc_conv_app_nth min_def)
  qed
  then show ?thesis using u False k j(2) sz kn assms
    by (intro exI [of _ j] exI [of _ "?d[?k := 0]"]) (simp add: drop_update_cancel)
qed

lemma utfrrune_loop_enc:
  "0 \<notin> set rs \<Longrightarrow> \<exists>s'. utfrrune_loop (p @ enc rs @ 0 # q) (length p) c s1 = Some s' \<and>
     ((c \<notin> set (map (\<lambda>r. uint (valid r)) rs) \<and> s' = s1) \<or> 
     (\<exists>rs1 r rs2. rs = rs1 @ r # rs2 \<and> uint (valid r) = c \<and> c \<notin> set (map (\<lambda>r. uint (valid r)) rs2) \<and> s' = Some (length p + length (enc rs1))))"
proof (induction rs arbitrary: p s1)
  case Nil
  show ?case by (subst utfrrune_loop.simps) (simp add: rd_def Runeself_def)
next
  case (Cons r rs)
  let ?s = "if uint (valid r) = c then Some (length p) else s1"
  obtain s' where s': "utfrrune_loop (p @ runetochar r @ enc rs @ 0 # q) (length p + length (runetochar r)) c ?s = Some s'"
    and or: "(c \<notin> set (map (\<lambda>r. uint (valid r)) rs) \<and> s' = ?s) \<or>
     (\<exists>rs1 r1 rs2. rs = rs1 @ r1 # rs2 \<and> uint (valid r1) = c \<and> c \<notin> set (map (\<lambda>r. uint (valid r)) rs2) \<and> s' = Some (length p + length (runetochar r) + length (enc rs1)))"
    using Cons.IH [of "p @ runetochar r" ?s] Cons.prems by auto
  have v: "r < Runeself \<Longrightarrow> valid r = r" using Rune_order(1-3) [of r] by (simp add: Runeself_le valid_def)
  have step: "utfrrune_loop (p @ enc (r # rs) @ 0 # q) (length p) c s1 = Some s'"
    by (rule runetochar_cases [of r p "enc rs @ 0 # q"]; subst utfrrune_loop.simps; use s' Cons.prems v in auto)
  from or show ?case
  proof (elim disjE conjE exE)
    assume "c \<notin> set (map (\<lambda>r. uint (valid r)) rs)" "s' = ?s"
    then show ?thesis using step
      by (cases "uint (valid r) = c"; intro exI [of _ s'])
        (auto intro: exI [of _ "[] :: u32 list"])
  next
    fix rs1 r1 rs2 assume "rs = rs1 @ r1 # rs2" "uint (valid r1) = c" "c \<notin> set (map (\<lambda>r. uint (valid r)) rs2)"
      "s' = Some (length p + length (runetochar r) + length (enc rs1))"
    then show ?thesis using step by (intro exI [of _ s'] conjI disjI2 exI [of _ "r # rs1"] exI [of _ r1] exI [of _ rs2]) auto
  qed
qed

lemma runetochar_nonempty: "runetochar r \<noteq> []"
  by (rule runetochar_Cons [of r]) simp

lemma decode_valid:
  "chartorune (p @ runetochar r @ q) (length p) = Some (valid r, length (runetochar r))"
  unfolding valid_def by (rule chartorune_runetochar)

lemma sint_small: "w \<le> Runemax \<Longrightarrow> sint w = uint w"
proof -
  assume "w \<le> Runemax"
  then have "\<not> bit w 31" using Runemax_bits [of w 31] by simp
  then show ?thesis using sint_eq_uint_bit [of w] by simp
qed

lemma runenlen_enc:
  "\<forall>r \<in> set rs. r \<le> Runemax \<Longrightarrow> runenlen (rs @ ss) (length rs) = Some (length (enc rs))"
proof (induction rs)
  case (Cons r rs)
  have s: "sint r \<le> sint Rune1 \<longleftrightarrow> r \<le> Rune1" "sint r \<le> sint Rune2 \<longleftrightarrow> r \<le> Rune2"
    "sint r \<le> sint Rune3 \<longleftrightarrow> r \<le> Rune3"
    using Cons.prems sint_small [of r] by (simp_all add: utf_consts word_le_def)
  show ?case using Cons by (auto simp: length_runetochar valid_def s Let_def)
qed simp

section \<open>The codec interface\<close>

text \<open>
  What the string routines need of the codec: decoding at the position where a rune was encoded
  gives the rune back (up to the normalisation of out-of-range runes) and consumes exactly its
  bytes, whatever stands before and after. Unique decodability follows.
\<close>

locale codec =
  fixes encode :: "'r \<Rightarrow> 'b list"
    and decode :: "'b list \<Rightarrow> nat \<Rightarrow> ('r \<times> nat) option"
    and norm :: "'r \<Rightarrow> 'r"
  assumes decode_encode:
      "decode (p @ encode r @ q) (length p) = Some (norm r, length (encode r))"
    and encode_nonempty: "encode r \<noteq> []"
begin

lemma prefix_free:
  assumes "encode r @ p = encode s @ q"
  shows "norm r = norm s \<and> encode r = encode s \<and> p = q"
proof -
  have "Some (norm r, length (encode r)) = Some (norm s, length (encode s))"
    using decode_encode [of "[]" r p] decode_encode [of "[]" s q] assms by simp
  then show ?thesis using assms by simp
qed

lemma uniquely_decodable:
  "concat (map encode rs) = concat (map encode ss) \<Longrightarrow> map norm rs = map norm ss"
proof (induction rs arbitrary: ss)
  case Nil
  then show ?case using encode_nonempty by (cases ss) simp_all
next
  case (Cons r rs)
  obtain s ss' where ss: "ss = s # ss'"
    using Cons.prems encode_nonempty [of r] by (cases ss) simp_all
  have "encode r @ concat (map encode rs) = encode s @ concat (map encode ss')"
    using Cons.prems by (simp add: ss)
  from prefix_free [OF this] have "norm r = norm s" "map norm rs = map norm ss'"
    using Cons.IH by blast+
  then show ?case by (simp add: ss)
qed

end

interpretation utf8: codec runetochar chartorune valid
  by unfold_locales (rule decode_valid, rule runetochar_nonempty)

section \<open>Properties\<close>

text \<open>
  C10: decoding what \<^verbatim>\<open>runetochar\<close> stored gives the rune back and consumes
  exactly the stored bytes, in any surrounding; a rune above \<^verbatim>\<open>Runemax\<close> comes back as
  \<^verbatim>\<open>Runeerror\<close>. Equal encodings of two strings of runes mean equal strings.
\<close>

theorem rune_roundtrip:
  "chartorune (p @ runetochar r @ q) (length p) =
     Some (if r \<le> Runemax then r else Runeerror, runelen r) \<and>
   1 \<le> runelen r \<and> runelen r \<le> 4 \<and>
   (enc rs = enc ss \<longrightarrow> map valid rs = map valid ss)"
  using utf8.decode_encode [of p r q] utf8.uniquely_decodable [of rs ss]
  by (simp add: valid_def runelen_def enc_def length_runetochar)

theorem rune_roundtrip_witness:
  "enc [0x20AC, 0x110000] = enc [0x20AC, 0xFFFD] \<and>
   map valid [0x20AC, 0x110000] = map valid [0x20AC, 0xFFFD]"
proof -
  have e: "enc [0x20AC, 0x110000] = enc [0x20AC, 0xFFFD]"
    by (simp add: runetochar_def utf_consts)
  show ?thesis
    using e rune_roundtrip [of "[]" 0 "[]" "[0x20AC, 0x110000]" "[0x20AC, 0xFFFD]"] by blast
qed

text \<open>
  C38: whatever \<^verbatim>\<open>chartorune\<close> accepts as a rune in range is the
  encoding \<^verbatim>\<open>runetochar\<close> would store: no overlong form and no second spelling is accepted.
\<close>

theorem rune_decode_canonical:
  assumes "chartorune b i = Some (r, n)" and "\<not> (r = Runeerror \<and> n = 1)" and "r \<le> Runemax"
  shows "take n (drop i b) = runetochar r"
  using assms runetochar_chartorune0 [of "drop i b" r n] by (simp add: chartorune_drop [of b i])

theorem rune_decode_canonical_witness:
  "take 3 (drop 1 [0x41, 0xE2, 0x82, 0xAC]) = runetochar 0x20AC"
proof -
  have d: "chartorune [0x41, 0xE2, 0x82, 0xAC] 1 = Some (0x20AC, 3)"
    by (simp add: chartorune_def rd_def utf_consts push_bit_eq_mult)
  have r: "\<not> ((0x20AC :: u32) = Runeerror \<and> (3 :: nat) = 1)" "(0x20AC :: u32) \<le> Runemax"
    by (simp_all add: utf_consts)
  show ?thesis using rune_decode_canonical [OF d r] .
qed

text \<open>
  The four-byte branch has no upper bound, so the decoder yields runes
  above \<^verbatim>\<open>Runemax\<close>, the maximum rune value of the header, which the encoder then replaces.
\<close>

theorem decoder_exceeds_runemax:
  "chartorune [0xF7, 0xBF, 0xBF, 0xBF] 0 = Some (0x1FFFFF, 4) \<and> \<not> (0x1FFFFF :: u32) \<le> Runemax \<and>
   runetochar 0x1FFFFF = [0xEF, 0xBF, 0xBD]"
  by (simp add: chartorune_def rd_def utf_consts push_bit_eq_mult runetochar_def drop_bit_eq_div)

text \<open>
  \<^verbatim>\<open>charntorune\<close> on a buffer that holds \<open>n\<close> bytes from \<open>i\<close> never
  reads past them and consumes at most \<open>n\<close>; it returns 0 only when \<^verbatim>\<open>fullrune\<close> says that the
  rune is incomplete; and when the rune is complete it agrees with \<^verbatim>\<open>chartorune\<close>.
\<close>

theorem charntorune_bounded:
  assumes "int i + n \<le> int (length b)"
  shows "(\<exists>r k. charntorune b i n = Some (r, k) \<and> int k \<le> max n 0 \<and>
            (k = 0 \<longrightarrow> fullrune b i n = Some False)) \<and>
         (fullrune b i n = Some True \<longrightarrow> charntorune b i n = chartorune b i)"
  using charntorune_inside [OF assms] fullrune_charntorune [of b i n] by blast

theorem charntorune_bounded_witness:
  "\<exists>r k. charntorune [0x61, 0xE2, 0x82] 1 2 = Some (r, k) \<and> int k \<le> 2 \<and>
     (k = 0 \<longrightarrow> fullrune [0x61, 0xE2, 0x82] 1 2 = Some False)"
  using charntorune_bounded [of 1 2 "[0x61, 0xE2, 0x82]"] by simp

text \<open>
  On the encoding of any string of non-zero runes, \<^verbatim>\<open>utflen\<close> and
  \<^verbatim>\<open>utfnlen\<close> (given its length in bytes) return the number of runes.
\<close>

theorem utflen_counts_runes:
  assumes "0 \<notin> set rs"
  shows "utflen (p @ enc rs @ 0 # q) (length p) = Some (length rs) \<and>
         utfnlen (p @ enc rs @ q) (length p) (int (length (enc rs))) = Some (length rs)"
proof -
  have "nat (int (length p) + int (length (enc rs))) = length p + length (enc rs)" by simp
  then show ?thesis unfolding utfnlen_def using utflen_enc [OF assms] utfnlen_enc [OF assms] by simp
qed

theorem utflen_counts_runes_witness:
  "utflen ([0x7A] @ enc [0x41, 0x3B1, 0x20AC] @ 0 # []) 1 = Some 3"
  using utflen_counts_runes [of "[0x41, 0x3B1, 0x20AC]" "[0x7A]" "[]"] by simp

text \<open>
  On every NUL-terminated string, well-formed or not, \<^verbatim>\<open>chartorune\<close>
  stays inside the string and \<^verbatim>\<open>utflen\<close> returns, with at most one rune per byte.
\<close>

theorem utflen_always_returns:
  assumes "0 \<in> set (drop s b)"
  shows "(\<exists>r n. chartorune b s = Some (r, n) \<and> (b ! s = 0 \<or> 0 \<in> set (drop (s + n) b))) \<and>
         (\<exists>k. utflen b s = Some k \<and> k \<le> length b - s)"
  using chartorune_terminated [OF assms] utflen_terminates [OF assms] by blast

theorem utflen_always_returns_witness:
  "\<exists>k. utflen [0xE2, 0x82, 0x41, 0xFF, 0] 0 = Some k \<and> k \<le> 5"
  using utflen_always_returns [of 0 "[0xE2, 0x82, 0x41, 0xFF, 0]"] by (simp add: eval_nat_numeral)

text \<open>
  C31: for a positive \<open>c\<close>, \<^verbatim>\<open>utfrune\<close> returns a pointer to the first
  occurrence of the rune \<open>c\<close>, or null when there is none, on both of its paths: the byte search
  for a rune below \<^verbatim>\<open>Runesync\<close> and the rune search above; \<^verbatim>\<open>utfrrune\<close> from
  \<^verbatim>\<open>Runesync\<close> on returns the last. Zero, which finds the end of the string, and negative
  arguments, which are searched for as bytes, are left out.
\<close>

theorem utfrune_finds_first:
  assumes "0 \<notin> set rs" and "0 < c"
  shows "utfrune (p @ enc rs @ 0 # q) (length p) c =
     Some (if c \<in> set (map (\<lambda>r. uint (valid r)) rs)
           then Some (length p + length (enc (takeWhile (\<lambda>r. uint (valid r) \<noteq> c) rs))) else None) \<and>
   (uint Runesync \<le> c \<longrightarrow>
     (\<exists>s'. utfrrune (p @ enc rs @ 0 # q) (length p) c = Some s' \<and>
        ((c \<notin> set (map (\<lambda>r. uint (valid r)) rs) \<and> s' = None) \<or>
         (\<exists>rs1 r rs2. rs = rs1 @ r # rs2 \<and> uint (valid r) = c \<and>
            c \<notin> set (map (\<lambda>r. uint (valid r)) rs2) \<and> s' = Some (length p + length (enc rs1))))))"
proof
  show "utfrune (p @ enc rs @ 0 # q) (length p) c =
     Some (if c \<in> set (map (\<lambda>r. uint (valid r)) rs)
           then Some (length p + length (enc (takeWhile (\<lambda>r. uint (valid r) \<noteq> c) rs))) else None)"
  proof (cases "c < uint Runesync")
    case True
    have w: "uint (word_of_int c :: u32) = c"
      using assms(2) True by (simp add: utf_consts uint_word_of_int)
    have "(word_of_int c :: u32) < Runeself" "(word_of_int c :: u32) \<noteq> 0"
      using True assms(2) w by (auto simp: word_less_def utf_consts)
    moreover have "valid r = word_of_int c \<longleftrightarrow> uint (valid r) = c" "word_of_int c = valid r \<longleftrightarrow> c = uint (valid r)" for r
      using w by (auto simp: word_uint_eq_iff)
    ultimately show ?thesis using utfrune_self_enc [OF _ _ assms(1), of "word_of_int c" p q] True
      by (simp add: utfrune_def strchr_def image_iff)
  qed (simp add: utfrune_def utfrune_loop_enc [OF assms(1)])
qed (use utfrrune_loop_enc [OF assms(1), of p q c None] in \<open>auto simp: utfrrune_def\<close>)

theorem utfrune_finds_first_witness:
  "utfrune ([] @ enc [0x3B1, 0x41, 0x20AC] @ 0 # []) 0 0x41 = Some (Some 2) \<and>
   utfrune ([] @ enc [0x3B1, 0x41, 0x20AC] @ 0 # []) 0 0x20AC = Some (Some 3)"
  using utfrune_finds_first [where rs = "[0x3B1, 0x41, 0x20AC]" and c = "0x41" and p = "[]" and q = "[]"]
    utfrune_finds_first [where rs = "[0x3B1, 0x41, 0x20AC]" and c = "0x20AC" and p = "[]" and q = "[]"]
  by (simp add: valid_def utf_consts runetochar_def)

text \<open>
  C39: \<^verbatim>\<open>utfecpy\<close> writes only inside the destination range, ends
  the copy with a NUL inside it, and what it copied is a whole number of runes of the source;
  it is the entire source whenever that fits with its NUL.
\<close>

theorem utfecpy_keeps_whole_runes:
  assumes "0 \<notin> set rs" and "to < e" and "e \<le> length d"
  shows "\<exists>k d'. utfecpy d to e (p @ enc rs @ 0 # q) (length p) =
                  Some (d', to + length (enc (take k rs))) \<and>
     to + length (enc (take k rs)) < e \<and> length d' = length d \<and>
     take to d' = take to d \<and> drop e d' = drop e d \<and>
     take (length (enc (take k rs)) + 1) (drop to d') = enc (take k rs) @ [0] \<and>
     (length (enc rs) < e - to \<longrightarrow> enc (take k rs) = enc rs)"
  using assms by (rule utfecpy_whole_runes)

theorem utfecpy_keeps_whole_runes_witness:
  "\<exists>k d'. utfecpy [1, 1, 1, 1] 0 3 ([] @ enc [0x41, 0x20AC] @ 0 # []) 0 =
                  Some (d', length (enc (take k [0x41, 0x20AC]))) \<and>
     length (enc (take k [0x41, 0x20AC])) < 3 \<and> drop 3 d' = [1]"
  using utfecpy_keeps_whole_runes [of "[0x41, 0x20AC]" 0 3 "[1, 1, 1, 1]" "[]" "[]"]
  by (simp del: enc_simps) blast

text \<open>
  For runes in range, \<^verbatim>\<open>runenlen\<close> is the sum of the lengths of their
  encodings.
\<close>

theorem runenlen_exact:
  assumes "\<forall>r \<in> set rs. r \<le> Runemax"
  shows "runenlen (rs @ ss) (length rs) = Some (length (enc rs))"
  using assms by (rule runenlen_enc)

theorem runenlen_exact_witness: "runenlen ([0x41, 0x20AC] @ []) 2 = Some 4"
proof -
  have "\<forall>r \<in> set [0x41, 0x20AC]. r \<le> Runemax" by (simp add: utf_consts)
  from runenlen_exact [OF this, of "[]"] show ?thesis
    by (simp add: runetochar_def utf_consts eval_nat_numeral)
qed

end
