(* ===== verification/Arm_Mem.thy ===== *)
theory Arm_Mem
  imports Goken_Prelude
begin

text \<open>
  The state and the memory system of the ARM emulator \<^verbatim>\<open>5i\<close>
  (\<^verbatim>\<open>machines/5i/arm.h\<close>, \<^verbatim>\<open>globals.c\<close>, \<^verbatim>\<open>mem.c\<close>, \<^verbatim>\<open>bpt.c\<close>, and the memory layout of
  \<^verbatim>\<open>5i.c\<close>): four segments of demand-allocated pages, a simulated TLB, data breakpoints. The
  global variables are one record; an operation is a computation on it that may leave through
  \<^verbatim>\<open>longjmp\<close>. The model follows the host build: \<^verbatim>\<open>uintptr\<close> and \<^verbatim>\<open>ulong\<close> are 64 bits
  wide, \<^verbatim>\<open>u32int\<close> and \<^verbatim>\<open>int\<close> are 32. Profiling counters are natural numbers. Printing is
  not modelled.

  \<open>mview\<close> is the abstraction: the byte the emulated program sees at an address. The lemmas show
  that demand paging is invisible in it and that loads and stores are those of a flat memory.
\<close>

section \<open>State\<close>

datatype segment_kind = Text | Data | Bss | Stack

datatype compare_op = CCcmp | CCtst | CCteq

record segment =
  stype :: segment_kind
  base :: u64
  send :: u64
  table :: "u8 list option list"
  fileoff :: u64
  fileend :: u64
  rss :: nat
  refs :: nat

record breakpt =
  bp_type :: u32
  bp_addr :: u64
  bp_count :: u32
  bp_done :: u32

text \<open>
  The registers (\<^verbatim>\<open>struct Registers\<close>), the memory, the TLB and the globals. \<^verbatim>\<open>membpt\<close> is a
  \<^verbatim>\<open>bool\<close>, that is an unsigned byte, used as a counter; \<^verbatim>\<open>count\<close> is the 32-bit counter of
  \<^verbatim>\<open>run\<close>; \<open>icount\<close> is the field \<^verbatim>\<open>count\<close> of the entries of \<^verbatim>\<open>itab\<close>. \<open>errbuf\<close> is the string in
  the buffer of that name and \<open>nofunc\<close> the note handler of the system calls; \<open>hostops\<close> is the number of
  calls of the host made so far.
\<close>

record arm =
  regs :: "nat \<Rightarrow> u32"
  ar :: u64
  instr :: u32
  instr_opcode :: nat
  cbit :: bool
  cout :: bool
  instr_cond :: nat
  compare_op :: compare_op
  cc1 :: u32
  cc2 :: u32
  seg :: "segment list"
  tlb_on :: bool
  tlbent :: "u64 list"
  tlb_hit :: nat
  tlb_miss :: nat
  textbase :: u64
  datasize :: u32
  iprof :: "nat list"
  bplist :: "breakpt list"
  count :: u32
  atbpt :: bool
  membpt :: u8
  icount :: "nat \<Rightarrow> nat"
  errbuf :: "u8 list"
  nofunc :: u64
  hostops :: nat

text \<open>
  What the host provides: positioning and reading the text file (a read returns at most the
  bytes asked for, or fails) and \<^verbatim>\<open>lnrand\<close>, as a function of the number of the draw.
\<close>

record host =
  h_seek :: "int \<Rightarrow> bool"
  h_read :: "int \<Rightarrow> u8 list option"
  h_rand :: "nat \<Rightarrow> nat"

definition BY2PG :: nat where "BY2PG = 4096"
definition BY2WD :: u64 where "BY2WD = 4"
definition PROFGRAN :: nat where "PROFGRAN = 4"
definition STACKTOP :: u64 where "STACKTOP = 0x80000000"
definition STACKSIZE :: u64 where "STACKSIZE = 0x10000"

definition BInstruction :: u32 where "BInstruction = 1"
definition BRead :: u32 where "BRead = 2"
definition BWrite :: u32 where "BWrite = 4"
definition BAccess :: u32 where "BAccess = 6"
definition BEqual :: u32 where "BEqual = 12"

section \<open>Pages\<close>

text \<open>\<^verbatim>\<open>dotlb\<close>: look the page up in the simulated TLB, replacing a random entry on a miss.\<close>

definition dotlb :: "host \<Rightarrow> u64 \<Rightarrow> (arm, unit) eff" where
  "dotlb h vaddr =
     (let vaddr = vaddr AND NOT 0xfff in
      bind (gets tlbent) (\<lambda>ents.
        if vaddr \<in> set ents then modify (\<lambda>s. s\<lparr>tlb_hit := tlb_hit s + 1\<rparr>)
        else modify (\<lambda>s. s\<lparr>tlb_miss := tlb_miss s + 1,
                           tlbent := (tlbent s)[h_rand h (tlb_miss s) := vaddr]\<rparr>)))"

text \<open>\<^verbatim>\<open>for(s = memory.seg; s < es; s++) if(addr >= s->base && addr < s->end)\<close>\<close>

fun find_seg :: "segment list \<Rightarrow> u64 \<Rightarrow> nat option" where
  "find_seg [] addr = None"
| "find_seg (s # ss) addr =
     (if addr \<ge> base s \<and> addr < send s then Some 0 else map_option Suc (find_seg ss addr))"

definition page_no :: "segment \<Rightarrow> u64 \<Rightarrow> nat" where
  "page_no s addr = unat (addr - base s) div BY2PG"

text \<open>
  The page-fault cases of \<^verbatim>\<open>page_of_vaddr\<close>: the content of the new page. \<^verbatim>\<open>foff\<close> is an
  \<^verbatim>\<open>int\<close>; a data page that starts past \<^verbatim>\<open>fileend\<close> would clear memory before the page.
\<close>

definition fresh_page :: "u8 list \<Rightarrow> u8 list" where
  "fresh_page bs = take BY2PG bs @ replicate (BY2PG - length bs) 0"

definition page_fault :: "host \<Rightarrow> segment \<Rightarrow> nat \<Rightarrow> exn + u8 list" where
  "page_fault h s off =
     (let foff = fileoff s + of_nat (off * BY2PG) in
      case stype s of
        Text \<Rightarrow>
          (if \<not> h_seek h (uint foff) then Inl (Fatal ''page_of_vaddr text seek'')
           else case h_read h (uint foff) of
                  None \<Rightarrow> Inl (Fatal ''page_of_vaddr text read'')
                | Some bs \<Rightarrow> Inr (fresh_page bs))
      | Data \<Rightarrow>
          (let foff = sint (ucast foff :: u32) in
           if \<not> h_seek h foff then Inl (Fatal ''page_of_vaddr text seek'')
           else case h_read h foff of
                  None \<Rightarrow> Inl (Fatal ''page_of_vaddr text read'')
                | Some bs \<Rightarrow>
                    if (word_of_int (foff + int (min BY2PG (length bs))) :: u64) > fileend s then
                      (let k = uint (fileend s) - foff in
                       if 0 \<le> k \<and> k \<le> int BY2PG
                       then Inr (take (nat k) (fresh_page bs) @ replicate (BY2PG - nat k) 0)
                       else Inl Undefined)
                    else Inr (fresh_page bs))
      | Bss \<Rightarrow> Inr (fresh_page [])
      | Stack \<Rightarrow> Inr (fresh_page []))"

definition set_seg :: "nat \<Rightarrow> (segment \<Rightarrow> segment) \<Rightarrow> arm \<Rightarrow> arm" where
  "set_seg i f s = s\<lparr>seg := (seg s)[i := f (seg s ! i)]\<rparr>"

definition set_page :: "nat \<Rightarrow> nat \<Rightarrow> u8 list \<Rightarrow> arm \<Rightarrow> arm" where
  "set_page i off pg = set_seg i (\<lambda>g. g\<lparr>table := (table g)[off := Some pg]\<rparr>)"

text \<open>The result stands for the pointer \<^verbatim>\<open>*p\<close>: a segment and a page of its table.\<close>

definition page_of_vaddr :: "host \<Rightarrow> u64 \<Rightarrow> (arm, nat \<times> nat) eff" where
  "page_of_vaddr h addr =
     bind (gets tlb_on) (\<lambda>on. seq (onlyif on (dotlb h addr))
       (bind (gets seg) (\<lambda>ss.
          case find_seg ss addr of
            None \<Rightarrow> raise (Errjmp (UserTlbMiss addr))
          | Some i \<Rightarrow>
              (let s = ss ! i; off = page_no s addr in
               seq (modify (set_seg i (\<lambda>g. g\<lparr>refs := refs g + 1\<rparr>)))
                 (if off \<ge> length (table s) then raise Undefined
                  else case table s ! off of
                    Some p \<Rightarrow> ret (i, off)
                  | None \<Rightarrow>
                      seq (modify (set_seg i (\<lambda>g. g\<lparr>rss := rss g + 1\<rparr>)))
                        (case page_fault h s off of
                           Inl e \<Rightarrow> raise e
                         | Inr pg \<Rightarrow> seq (modify (set_page i off pg)) (ret (i, off))))))))"

text \<open>Reading and writing bytes of a page: \<^verbatim>\<open>va += addr&(BY2PG-1)\<close>, then \<^verbatim>\<open>va[k]\<close>.\<close>

definition pg_off :: "u64 \<Rightarrow> nat" where
  "pg_off addr = unat (addr AND 0xfff)"

definition page_bytes :: "arm \<Rightarrow> nat \<times> nat \<Rightarrow> u8 list" where
  "page_bytes s p = (case table (seg s ! fst p) ! snd p of None \<Rightarrow> [] | Some pg \<Rightarrow> pg)"

definition rd_va :: "nat \<times> nat \<Rightarrow> nat \<Rightarrow> (arm, u8) eff" where
  "rd_va p k = gets (\<lambda>s. page_bytes s p ! k)"

definition wr_va :: "nat \<times> nat \<Rightarrow> nat \<Rightarrow> u8 \<Rightarrow> (arm, unit) eff" where
  "wr_va p k v = modify (\<lambda>s. set_page (fst p) (snd p) ((page_bytes s p)[k := v]) s)"

section \<open>Breakpoints\<close>

definition stop_at_bpt :: "arm \<Rightarrow> arm" where
  "stop_at_bpt s = s\<lparr>count := 1, atbpt := True\<rparr>"

definition set_done :: "nat \<Rightarrow> u32 \<Rightarrow> arm \<Rightarrow> arm" where
  "set_done i d s = s\<lparr>bplist := (bplist s)[i := (bplist s ! i)\<lparr>bp_done := d\<rparr>]\<rparr>"

text \<open>
  The loop of \<^verbatim>\<open>brkchk\<close> over the list of breakpoints, by position, since the list is live:
  the load of a value breakpoint runs through \<^verbatim>\<open>getmem_b\<close>, which checks read breakpoints and
  changes their counts. The load is the argument \<open>g\<close>.
\<close>

primrec brk_loop :: "(u64 \<Rightarrow> (arm, u32) eff) \<Rightarrow> u64 \<Rightarrow> u32 \<Rightarrow> nat list \<Rightarrow> (arm, unit) eff" where
  "brk_loop g addr ty [] = ret ()"
| "brk_loop g addr ty (i # is) =
     bind (gets (\<lambda>s. bplist s ! i)) (\<lambda>b.
       if bp_addr b = addr \<and> bp_type b AND ty \<noteq> 0 then
         bind (if bp_type b = BEqual then bind (g addr) (\<lambda>v. ret (v = bp_count b)) else ret False)
           (\<lambda>eq. if eq then modify stop_at_bpt
             else seq (modify (\<lambda>s. set_done i (bp_done (bplist s ! i) - 1) s))
               (bind (gets (\<lambda>s. bplist s ! i)) (\<lambda>b.
                  if bp_done b = 0
                  then seq (modify (set_done i (bp_count b))) (modify stop_at_bpt)
                  else brk_loop g addr ty is)))
       else brk_loop g addr ty is)"

text \<open>
  \<^verbatim>\<open>brkchk(addr, Read)\<close>, as \<^verbatim>\<open>getmem_b\<close> and its siblings call it. A value breakpoint has the
  type bits 4 and 8, so a read never loads (lemma \<open>brkchk_Read\<close>).
\<close>

definition brkchk_rd :: "u64 \<Rightarrow> (arm, unit) eff" where
  "brkchk_rd addr =
     bind (gets (\<lambda>s. length (bplist s))) (\<lambda>n. brk_loop (\<lambda>_. raise Undefined) addr BRead [0..<n])"

definition if_membpt :: "(arm, unit) eff \<Rightarrow> (arm, unit) eff" where
  "if_membpt m = bind (gets membpt) (\<lambda>b. onlyif (b \<noteq> 0) m)"

section \<open>Loads\<close>

definition getmem_b :: "host \<Rightarrow> u64 \<Rightarrow> (arm, u8) eff" where
  "getmem_b h addr =
     seq (if_membpt (brkchk_rd addr))
       (bind (page_of_vaddr h addr) (\<lambda>va. rd_va va (pg_off addr)))"

definition getmem_4 :: "host \<Rightarrow> u64 \<Rightarrow> (arm, u32) eff" where
  "getmem_4 h addr =
     bind (getmem_b h addr) (\<lambda>b0. bind (getmem_b h (addr + 1)) (\<lambda>b1.
     bind (getmem_b h (addr + 2)) (\<lambda>b2. bind (getmem_b h (addr + 3)) (\<lambda>b3.
       ret (let step = (\<lambda>val b. drop_bit 8 val OR push_bit 24 (ucast (b :: u8) :: u32))
            in step (step (step (step 0 b0) b1) b2) b3)))))"

definition getmem_2 :: "host \<Rightarrow> u64 \<Rightarrow> (arm, u64) eff" where
  "getmem_2 h addr =
     bind (getmem_b h addr) (\<lambda>b0. bind (getmem_b h (addr + 1)) (\<lambda>b1.
       ret (let step = (\<lambda>val b. drop_bit 8 val OR push_bit 16 (ucast (b :: u8) :: u64))
            in step (step 0 b0) b1)))"

definition word_le :: "u8 \<Rightarrow> u8 \<Rightarrow> u8 \<Rightarrow> u8 \<Rightarrow> u32" where
  "word_le b0 b1 b2 b3 =
     push_bit 24 (ucast b3) OR push_bit 16 (ucast b2) OR push_bit 8 (ucast b1) OR ucast b0"

definition rd_word :: "nat \<times> nat \<Rightarrow> nat \<Rightarrow> (arm, u32) eff" where
  "rd_word va k =
     bind (rd_va va (k + 3)) (\<lambda>b3. bind (rd_va va (k + 2)) (\<lambda>b2.
     bind (rd_va va (k + 1)) (\<lambda>b1. bind (rd_va va k) (\<lambda>b0. ret (word_le b0 b1 b2 b3)))))"

definition getmem_w_aligned :: "host \<Rightarrow> u64 \<Rightarrow> (arm, u32) eff" where
  "getmem_w_aligned h addr =
     seq (if_membpt (brkchk_rd addr))
       (bind (page_of_vaddr h addr) (\<lambda>va. rd_word va (pg_off addr)))"

text \<open>An unaligned word load rotates the aligned word, one byte for each of the low bits' count.\<close>

definition getmem_w :: "host \<Rightarrow> u64 \<Rightarrow> (arm, u32) eff" where
  "getmem_w h addr =
     (if addr AND 3 \<noteq> 0 then
        bind (getmem_w_aligned h (addr AND NOT 3)) (\<lambda>w.
          ret (((\<lambda>w. drop_bit 8 w OR push_bit 24 w) ^^ unat (addr AND 3)) w))
      else getmem_w_aligned h addr)"

definition getmem_h_aligned :: "host \<Rightarrow> u64 \<Rightarrow> (arm, u16) eff" where
  "getmem_h_aligned h addr =
     seq (if_membpt (brkchk_rd addr))
       (bind (page_of_vaddr h addr) (\<lambda>va.
          bind (rd_va va (pg_off addr + 1)) (\<lambda>b1. bind (rd_va va (pg_off addr)) (\<lambda>b0.
            ret (push_bit 8 (ucast b1) OR ucast b0)))))"

definition getmem_h :: "host \<Rightarrow> u64 \<Rightarrow> (arm, u16) eff" where
  "getmem_h h addr =
     (if addr AND 1 \<noteq> 0 then
        bind (getmem_h_aligned h (addr AND NOT 1)) (\<lambda>w.
          ret (ucast (drop_bit 8 (ucast w :: u64) OR push_bit 8 (ucast w :: u64))))
      else getmem_h_aligned h addr)"

definition getmem_v :: "host \<Rightarrow> u64 \<Rightarrow> (arm, u64) eff" where
  "getmem_v h addr =
     bind (getmem_w h (addr + 4)) (\<lambda>hi. bind (getmem_w h addr) (\<lambda>lo.
       ret (push_bit 32 (ucast hi) OR ucast lo)))"

text \<open>\<^verbatim>\<open>ifetch\<close>: the profile of the text segment, then an aligned load without breakpoints.\<close>

definition ifetch :: "host \<Rightarrow> u64 \<Rightarrow> (arm, u32) eff" where
  "ifetch h addr =
     (if addr AND 3 \<noteq> 0 then raise (Errjmp (AddressError addr))
      else
        seq (modify (\<lambda>s.
               if addr \<ge> textbase s \<and> addr < send (seg s ! 0) then
                 (let k = unat (addr - textbase s) div PROFGRAN
                  in s\<lparr>iprof := (iprof s)[k := iprof s ! k + 1]\<rparr>)
               else s))
          (bind (page_of_vaddr h addr) (\<lambda>va. rd_word va (pg_off addr))))"

section \<open>Breakpoint checks on writes, stores\<close>

definition brkchk :: "host \<Rightarrow> u64 \<Rightarrow> u32 \<Rightarrow> (arm, unit) eff" where
  "brkchk h addr ty =
     bind (gets (\<lambda>s. length (bplist s))) (\<lambda>n. brk_loop (getmem_4 h) addr ty [0..<n])"

definition putmem_b :: "host \<Rightarrow> u64 \<Rightarrow> u8 \<Rightarrow> (arm, unit) eff" where
  "putmem_b h addr data =
     seq (bind (page_of_vaddr h addr) (\<lambda>va. wr_va va (pg_off addr) data))
       (if_membpt (brkchk h addr BWrite))"

definition putmem_h :: "host \<Rightarrow> u64 \<Rightarrow> u16 \<Rightarrow> (arm, unit) eff" where
  "putmem_h h addr data =
     (if addr AND 1 \<noteq> 0 then raise (Errjmp (AddressError addr))
      else
        seq (bind (page_of_vaddr h addr) (\<lambda>va.
               seq (wr_va va (pg_off addr + 1) (ucast (drop_bit 8 data)))
                 (wr_va va (pg_off addr) (ucast data))))
          (if_membpt (brkchk h addr BWrite)))"

definition putmem_w :: "host \<Rightarrow> u64 \<Rightarrow> u64 \<Rightarrow> (arm, unit) eff" where
  "putmem_w h addr data =
     (if addr AND 3 \<noteq> 0 then raise (Errjmp (AddressError addr))
      else
        seq (bind (page_of_vaddr h addr) (\<lambda>va.
               seq (wr_va va (pg_off addr + 3) (ucast (drop_bit 24 data)))
                (seq (wr_va va (pg_off addr + 2) (ucast (drop_bit 16 data)))
                 (seq (wr_va va (pg_off addr + 1) (ucast (drop_bit 8 data)))
                   (wr_va va (pg_off addr) (ucast data))))))
          (if_membpt (brkchk h addr BWrite)))"

definition putmem_v :: "host \<Rightarrow> u64 \<Rightarrow> u64 \<Rightarrow> (arm, unit) eff" where
  "putmem_v h addr data = seq (putmem_w h addr data) (putmem_w h (addr + 4) (drop_bit 32 data))"

section \<open>Copies between the host and the emulated memory\<close>

primrec memio_read :: "host \<Rightarrow> u64 \<Rightarrow> nat \<Rightarrow> (arm, u8 list) eff" where
  "memio_read h mem 0 = ret []"
| "memio_read h mem (Suc n) =
     bind (getmem_b h mem) (\<lambda>b. bind (memio_read h (mem + 1) n) (\<lambda>bs. ret (b # bs)))"

primrec memio_readstring :: "host \<Rightarrow> u64 \<Rightarrow> nat \<Rightarrow> (arm, u8 list) eff" where
  "memio_readstring h mem 0 = raise (Errjmp CopyTooLong)"
| "memio_readstring h mem (Suc n) =
     bind (getmem_b h mem) (\<lambda>c.
       if c = 0 then ret [c]
       else bind (memio_readstring h (mem + 1) n) (\<lambda>bs. ret (c # bs)))"

primrec memio_write :: "host \<Rightarrow> u64 \<Rightarrow> u8 list \<Rightarrow> (arm, unit) eff" where
  "memio_write h mem [] = ret ()"
| "memio_write h mem (b # bs) = seq (putmem_b h mem b) (memio_write h (mem + 1) bs)"

section \<open>Setting and deleting breakpoints\<close>

text \<open>The command letter and the value of the address expression are the arguments.\<close>

definition breakpoint :: "char \<Rightarrow> u64 \<Rightarrow> u32 \<Rightarrow> arm \<Rightarrow> arm" where
  "breakpoint c a cmdcount s =
     (let (ty, m) =
        (if c = CHR ''r'' then (BRead, membpt s + 1)
         else if c = CHR ''a'' then (BAccess, membpt s + 1)
         else if c = CHR ''w'' then (BWrite, membpt s + 1)
         else if c = CHR ''e'' then (BEqual, membpt s + 1)
         else (BInstruction, membpt s))
      in s\<lparr>membpt := m,
           bplist := \<lparr>bp_type = ty, bp_addr = a, bp_count = cmdcount, bp_done = cmdcount\<rparr>
                     # bplist s\<rparr>)"

fun del_first :: "u64 \<Rightarrow> breakpt list \<Rightarrow> (breakpt \<times> breakpt list) option" where
  "del_first a [] = None"
| "del_first a (b # bs) =
     (if bp_addr b = a then Some (b, bs)
      else map_option (\<lambda>(x, xs). (x, b # xs)) (del_first a bs))"

definition delbpt :: "u64 \<Rightarrow> arm \<Rightarrow> arm" where
  "delbpt a s =
     (case del_first a (bplist s) of
        None \<Rightarrow> s
      | Some (b, bs) \<Rightarrow>
          s\<lparr>membpt := (if bp_type b \<noteq> BInstruction then membpt s + 1 else membpt s),
            bplist := bs\<rparr>)"

section \<open>Layout of the memory\<close>

record fhdr =
  txtaddr :: u64
  txtsz :: u64
  txtoff :: u64
  hdrsz :: u64
  datsz :: u64
  datoff :: u64
  bsssz :: u64
  entry :: u64

definition round_pg :: "u64 \<Rightarrow> u64" where
  "round_pg a = (a + 0xfff) AND NOT 0xfff"

definition new_seg :: "segment_kind \<Rightarrow> u64 \<Rightarrow> u64 \<Rightarrow> u64 \<Rightarrow> u64 \<Rightarrow> segment" where
  "new_seg k b e fo fe =
     \<lparr>stype = k, base = b, send = e, table = replicate (unat (e - b) div BY2PG) None,
      fileoff = fo, fileend = fe, rss = 0, refs = 0\<rparr>"

definition initmemory :: "fhdr \<Rightarrow> arm \<Rightarrow> arm" where
  "initmemory f s =
     (let t = round_pg (txtaddr f + txtsz f);
          d = round_pg (t + datsz f);
          bssend = t + datsz f + bsssz f;
          b = round_pg bssend;
          tb = txtaddr f - hdrsz f;
          tfo = txtoff f - hdrsz f
      in s\<lparr>seg := [new_seg Text tb t tfo (tfo + txtsz f),
                  new_seg Data t (t + (d - t)) (datoff f) (datoff f + datsz f),
                  new_seg Bss d (d + (b - d)) 0 0,
                  new_seg Stack (STACKTOP - STACKSIZE) STACKTOP 0 0],
           textbase := tb,
           datasize := ucast (datsz f),
           iprof := replicate (unat (t - tb) div PROFGRAN) 0,
           regs := (regs s)(15 := ucast (entry f))\<rparr>)"

section \<open>Abstraction and invariant\<close>

text \<open>
  \<open>wf_mem\<close>: every segment starts on a page, its table covers it exactly and its pages have the
  right size. \<open>mview\<close>: the byte at an address, whether its page is present or would be read by a
  page fault. \<open>transparent\<close>: the processor, the segment bounds and, in a well-formed memory, the
  view are kept. \<open>stored\<close>: the outcome of a store that turns the view into \<open>m\<close>.
\<close>

definition seg_ok :: "segment \<Rightarrow> bool" where
  "seg_ok g \<longleftrightarrow> unat (base g) mod BY2PG = 0 \<and> unat (send g) = unat (base g) + length (table g) * BY2PG \<and>
     (\<forall>pg \<in> set (table g). case pg of None \<Rightarrow> True | Some p \<Rightarrow> length p = BY2PG)"

definition wf_mem :: "arm \<Rightarrow> bool" where
  "wf_mem s \<longleftrightarrow> (\<forall>g \<in> set (seg s). seg_ok g)"

definition seg_byte :: "host \<Rightarrow> segment \<Rightarrow> u64 \<Rightarrow> u8 option" where
  "seg_byte h g a =
     (case table g ! page_no g a of
        Some p \<Rightarrow> Some (p ! pg_off a)
      | None \<Rightarrow> (case page_fault h g (page_no g a) of
                  Inl _ \<Rightarrow> None | Inr p \<Rightarrow> Some (p ! pg_off a)))"

definition mview :: "host \<Rightarrow> arm \<Rightarrow> u64 \<Rightarrow> u8 option" where
  "mview h s a = (case find_seg (seg s) a of None \<Rightarrow> None | Some i \<Rightarrow> seg_byte h (seg s ! i) a)"

definition in_seg :: "segment \<Rightarrow> u64 \<Rightarrow> bool" where
  "in_seg g a \<longleftrightarrow> base g \<le> a \<and> a < send g"

definition cpu :: "arm \<Rightarrow> (nat \<Rightarrow> u32) \<times> u64 \<times> u32 \<times> nat \<times> bool \<times> bool \<times> nat \<times> compare_op \<times> u32 \<times> u32 \<times> u8 \<times> u64 \<times> (nat \<Rightarrow> nat)" where
  "cpu s = (regs s, ar s, instr s, instr_opcode s, cbit s, cout s, instr_cond s, compare_op s, cc1 s, cc2 s, membpt s, textbase s, icount s)"

definition seg_same :: "host \<Rightarrow> segment \<Rightarrow> segment \<Rightarrow> bool" where
  "seg_same h g g' \<longleftrightarrow> base g' = base g \<and> send g' = send g \<and> (seg_ok g \<longrightarrow> seg_ok g') \<and> (\<forall>a. seg_ok g \<longrightarrow> in_seg g a \<longrightarrow> seg_byte h g' a = seg_byte h g a)"

definition layout :: "arm \<Rightarrow> (u64 \<times> u64) list" where
  "layout s = map (\<lambda>g. (base g, send g)) (seg s)"

definition transparent :: "host \<Rightarrow> arm \<Rightarrow> arm \<Rightarrow> bool" where
  "transparent h s t \<longleftrightarrow> cpu t = cpu s \<and> layout t = layout s \<and> (wf_mem s \<longrightarrow> wf_mem t \<and> mview h t = mview h s)"

definition bps :: "arm \<Rightarrow> breakpt list \<times> u32 \<times> bool" where
  "bps s = (bplist s, count s, atbpt s)"

definition frame :: "arm \<Rightarrow> arm \<Rightarrow> bool" where
  "frame s t \<longleftrightarrow> cpu t = cpu s \<and> layout t = layout s"

definition mword :: "host \<Rightarrow> arm \<Rightarrow> u64 \<Rightarrow> u32 option" where
  "mword h s a = (case (mview h s a, mview h s (a + 1), mview h s (a + 2), mview h s (a + 3)) of
     (Some b0, Some b1, Some b2, Some b3) \<Rightarrow> Some (word_le b0 b1 b2 b3) | _ \<Rightarrow> None)"

definition mhalf :: "host \<Rightarrow> arm \<Rightarrow> u64 \<Rightarrow> u16 option" where
  "mhalf h s a = (case (mview h s a, mview h s (a + 1)) of
     (Some b0, Some b1) \<Rightarrow> Some (push_bit 8 (ucast b1) OR ucast b0) | _ \<Rightarrow> None)"

definition pinned :: "arm \<Rightarrow> u64 \<Rightarrow> nat \<Rightarrow> nat \<Rightarrow> bool" where
  "pinned s a i off \<longleftrightarrow> wf_mem s \<and> find_seg (seg s) a = Some i \<and> page_no (seg s ! i) a = off \<and>
     (\<exists>pg. table (seg s ! i) ! off = Some pg)"

definition same_rest :: "arm \<Rightarrow> arm \<Rightarrow> bool" where
  "same_rest s t \<longleftrightarrow> cpu t = cpu s \<and> layout t = layout s \<and> bps t = bps s"

definition stored :: "host \<Rightarrow> arm \<Rightarrow> (u64 \<Rightarrow> u8 option) \<Rightarrow> (exn + unit) \<times> arm \<Rightarrow> bool" where
  "stored h s m x \<longleftrightarrow> (case x of (res, t) \<Rightarrow> wf_mem t \<and> cpu t = cpu s \<and> layout t = layout s \<and> mview h t = m \<and>
      (membpt s = 0 \<longrightarrow> res = Inr () \<and> bps t = bps s))"

definition mstore_w :: "(u64 \<Rightarrow> u8 option) \<Rightarrow> u64 \<Rightarrow> u64 \<Rightarrow> u64 \<Rightarrow> u8 option" where
  "mstore_w m a d = m(a + 3 \<mapsto> ucast (drop_bit 24 d), a + 2 \<mapsto> ucast (drop_bit 16 d), a + 1 \<mapsto> ucast (drop_bit 8 d), a \<mapsto> ucast d)"

definition mstore_h :: "(u64 \<Rightarrow> u8 option) \<Rightarrow> u64 \<Rightarrow> u16 \<Rightarrow> u64 \<Rightarrow> u8 option" where
  "mstore_h m a d = m(a + 1 \<mapsto> ucast (drop_bit 8 d), a \<mapsto> ucast d)"

primrec mstores :: "(u64 \<Rightarrow> u8 option) \<Rightarrow> u64 \<Rightarrow> u8 list \<Rightarrow> u64 \<Rightarrow> u8 option" where
  "mstores m a [] = m"
| "mstores m a (b # bs) = mstores (m(a \<mapsto> b)) (a + 1) bs"

section \<open>Lemmas\<close>

lemma find_seg_Some: "find_seg ss a = Some i \<Longrightarrow> i < length ss \<and> in_seg (ss ! i) a"
  by (induction ss arbitrary: i) (auto simp: in_seg_def split: if_splits)

lemma find_seg_cong: "list_all2 (\<lambda>g g'. in_seg g a = in_seg g' b) ss ts \<Longrightarrow> find_seg ss a = find_seg ts b"
  by (induction ss ts rule: list_all2_induct) (auto simp: in_seg_def)

lemma pg_off_mod: "pg_off a = unat a mod BY2PG"
proof -
  have "(0xfff :: u64) = mask 12" by (simp add: mask_eq_exp_minus_1)
  then have "a AND 0xfff = take_bit 12 a" by (metis and.commute take_bit_eq_mask)
  then show ?thesis by (simp add: pg_off_def BY2PG_def unsigned_take_bit_eq take_bit_eq_mod unat_mod_distrib)
qed

lemma in_seg_page:
  assumes "seg_ok g"
  shows "in_seg g a \<longleftrightarrow> unat (base g) div BY2PG \<le> unat a div BY2PG \<and> unat a div BY2PG < unat (base g) div BY2PG + length (table g)"
proof -
  define b where "b = unat (base g) div BY2PG"
  have B: "unat (base g) = b * BY2PG" "unat (send g) = (b + length (table g)) * BY2PG"
    using assms by (auto simp: seg_ok_def b_def algebra_simps)
  show ?thesis unfolding in_seg_def word_le_nat_alt word_less_nat_alt B b_def [symmetric]
    by (simp add: BY2PG_def less_eq_div_iff_mult_less_eq div_less_iff_less_mult)
qed

lemma page_no_eq:
  assumes "seg_ok g" "in_seg g a"
  shows "page_no g a = unat a div BY2PG - unat (base g) div BY2PG"
proof -
  define b where "b = unat (base g) div BY2PG"
  have B: "unat (base g) = b * BY2PG" using assms by (auto simp: seg_ok_def b_def)
  have "unat (a - base g) = unat a - unat (base g)" using assms(2) by (simp add: in_seg_def unat_sub)
  then show ?thesis using B by (simp add: page_no_def BY2PG_def)
qed

lemma page_no_less: "seg_ok g \<Longrightarrow> in_seg g a \<Longrightarrow> page_no g a < length (table g)"
  using in_seg_page [of g a] page_no_eq [of g a] by linarith

lemma same_addr:
  assumes "seg_ok g" "in_seg g a" "in_seg g b" "page_no g a = page_no g b" "pg_off a = pg_off b"
  shows "a = b"
proof -
  have "unat a div BY2PG = unat b div BY2PG"
    using assms in_seg_page [of g a] in_seg_page [of g b] page_no_eq [of g a] page_no_eq [of g b] by linarith
  then have "unat a = unat b" using assms(5) unfolding pg_off_mod by (metis div_mult_mod_eq)
  then show ?thesis by (simp add: word_unat_eq_iff)
qed

lemma same_page_add:
  assumes "pg_off a + j < BY2PG"
  shows "unat (a + of_nat j) div BY2PG = unat a div BY2PG" "pg_off (a + of_nat j) = pg_off a + j"
proof -
  define q x where "q = unat a div 4096" and "x = unat a mod 4096"
  have a: "unat a = q * 4096 + x" and x: "x + j < 4096"
    using assms by (simp_all add: q_def x_def pg_off_mod BY2PG_def)
  have "q < 4503599627370496" using unat_less [of a] by (simp add: q_def div_less_iff_less_mult)
  then have lt: "unat a + j < 18446744073709551616" using a x by linarith
  then have "j < 18446744073709551616" by linarith
  then have "unat (of_nat j :: u64) = j" by (simp add: unat_of_nat take_bit_nat_eq_self_iff)
  then have u: "unat (a + of_nat j) = q * 4096 + (x + j)" using lt a by (simp add: unat_word_ariths)
  show "unat (a + of_nat j) div BY2PG = unat a div BY2PG" "pg_off (a + of_nat j) = pg_off a + j"
    unfolding pg_off_mod BY2PG_def u a using x by simp_all
qed

lemma cpu_set_seg [simp]: "cpu (set_seg i f s) = cpu s" "bplist (set_seg i f s) = bplist s" "count (set_seg i f s) = count s" "atbpt (set_seg i f s) = atbpt s" "seg (set_seg i f s) = (seg s)[i := f (seg s ! i)]"
  by (simp_all add: cpu_def set_seg_def)

lemma cpu_set_page [simp]: "cpu (set_page i off p s) = cpu s" "bplist (set_page i off p s) = bplist s" "count (set_page i off p s) = count s" "atbpt (set_page i off p s) = atbpt s" 
  by (simp_all add: set_page_def)

lemma find_seg_update:
  assumes "base g' = base (ss ! i)" "send g' = send (ss ! i)"
  shows "find_seg (ss[i := g']) a = find_seg ss a"
  using assms
  by (cases "i < length ss"; intro find_seg_cong)
    (simp_all add: list_all2_conv_all_nth in_seg_def nth_list_update)

lemma mview_update:
  assumes "wf_mem s" and "seg_same h (seg s ! i) g'" and "seg t = (seg s)[i := g']"
  shows "wf_mem t" and "mview h t = mview h s"
proof -
  have eq: "base g' = base (seg s ! i)" "send g' = send (seg s ! i)" using assms(2) by (auto simp: seg_same_def)
  show "wf_mem t" using assms unfolding wf_mem_def seg_same_def
    by (cases "i < length (seg s)") (auto simp: list_update_beyond not_less dest!: set_update_subset_insert [THEN subsetD])
  show "mview h t = mview h s"
  proof
    fix a
    show "mview h t a = mview h s a"
    proof (cases "find_seg (seg s) a")
      case None then show ?thesis by (simp add: mview_def assms(3) find_seg_update [OF eq])
    next
      case (Some j)
      from find_seg_Some [OF this] have j: "j < length (seg s)" "in_seg (seg s ! j) a" by auto
      then show ?thesis using Some assms(1,2) unfolding mview_def assms(3) find_seg_update [OF eq]
        by (cases "i = j") (auto simp: wf_mem_def seg_same_def)
    qed
  qed
qed

lemma page_fault_cong:
  assumes "stype g' = stype g" "fileoff g' = fileoff g" "fileend g' = fileend g"
  shows "page_fault h g' = page_fault h g"
  by (rule ext) (simp only: page_fault_def assms)

lemma seg_same_refs: "seg_same h g (g\<lparr>refs := x\<rparr>)" "seg_same h g (g\<lparr>rss := x\<rparr>)"
  by (auto simp: seg_same_def seg_ok_def seg_byte_def page_no_def page_fault_cong [of "g\<lparr>refs := x\<rparr>" g]
      page_fault_cong [of "g\<lparr>rss := x\<rparr>" g] split: option.split)

lemma fresh_page_length [simp]: "length (fresh_page bs) = BY2PG"
  by (simp add: fresh_page_def)

lemma page_fault_length: "page_fault h g off = Inr p \<Longrightarrow> length p = BY2PG"
  by (auto simp: page_fault_def Let_def split: segment_kind.splits if_splits option.splits)

lemma seg_same_fault:
  assumes "page_fault h g off = Inr p" "table g ! off = None" "off < length (table g)"
  shows "seg_same h g (g\<lparr>table := (table g)[off := Some p]\<rparr>)"
proof -
  have "page_fault h (g\<lparr>table := (table g)[off := Some p]\<rparr>) = page_fault h g" by (rule page_fault_cong) simp_all
  then show ?thesis using assms page_fault_length [OF assms(1)] unfolding seg_same_def seg_ok_def seg_byte_def
    by (auto simp: page_no_def nth_list_update dest!: set_update_subset_insert [THEN subsetD] split: option.splits)
qed

lemma find_seg_layout: "layout t = layout s \<Longrightarrow> find_seg (seg t) a = find_seg (seg s) a"
proof (rule find_seg_cong)
  assume "layout t = layout s"
  then have "list_all2 (\<lambda>g g'. (base g, send g) = (base g', send g')) (seg t) (seg s)"
    unfolding layout_def by (simp add: list.rel_map list.rel_eq flip: list.rel_eq) 
  then show "list_all2 (\<lambda>g g'. in_seg g a = in_seg g' a) (seg t) (seg s)"
    by (rule list_all2_mono) (simp add: in_seg_def)
qed

lemma layout_update: "base g' = base (seg s ! i) \<Longrightarrow> send g' = send (seg s ! i) \<Longrightarrow> seg t = (seg s)[i := g'] \<Longrightarrow> layout t = layout s"
  by (cases "i < length (seg s)") (auto simp: layout_def map_update list_update_same_conv list_update_beyond)

interpretation tr: keeps_rel "transparent h" for h
  by unfold_locales (auto simp: transparent_def)

lemma transparent_seg:
  "seg_same h (seg s ! i) g' \<Longrightarrow> seg t = (seg s)[i := g'] \<Longrightarrow> cpu t = cpu s \<Longrightarrow> transparent h s t"
  using mview_update [of s h i g' t] layout_update [of g' s i t] by (auto simp: transparent_def seg_same_def)

lemma transparent_cong: "seg t = seg s \<Longrightarrow> cpu t = cpu s \<Longrightarrow> transparent h s t"
  unfolding transparent_def wf_mem_def mview_def fun_eq_iff layout_def by (simp split: option.split)

lemma dotlb_transparent: "keeps (transparent h) (dotlb h a)"
  unfolding dotlb_def Let_def by (intro tr.keeps_intros tr.keeps_modify transparent_cong) (simp_all add: cpu_def)

lemma dotlb_seg: "snd (dotlb h a s) = s' \<Longrightarrow> seg s' = seg s" "\<exists>s'. dotlb h a s = (Inr (), s')"
  by (auto simp: dotlb_def Let_def)

lemma bps_set [simp]: "bps (set_seg i f s) = bps s" "bps (set_page i off p s) = bps s"
  by (simp_all add: bps_def)

lemma tlb_step: obtains t where "onlyif (tlb_on s) (dotlb h a) s = (Inr (), t)" "seg t = seg s" "cpu t = cpu s" "bps t = bps s"
  by (rule that [of "snd (onlyif (tlb_on s) (dotlb h a) s)"])
    (simp_all add: dotlb_def Let_def onlyif_def cpu_def bps_def)

lemma seg_ok_page: "seg_ok g \<Longrightarrow> off < length (table g) \<Longrightarrow> table g ! off = Some pg \<Longrightarrow> length pg = BY2PG"
  unfolding seg_ok_def using nth_mem [of off "table g"] by fastforce

lemma page_of_vaddr_cases:
  assumes wf: "wf_mem s"
  obtains (unmapped) t where "find_seg (seg s) a = None" "mview h s a = None"
     "page_of_vaddr h a s = (Inl (Errjmp (UserTlbMiss a)), t)" "transparent h s t" "bps t = bps s"
  | (io_error) i e t where "find_seg (seg s) a = Some i" "mview h s a = None"
      "page_fault h (seg s ! i) (page_no (seg s ! i) a) = Inl e"
      "page_of_vaddr h a s = (Inl e, t)" "transparent h s t" "bps t = bps s"
  | (ok) i off t pg where "find_seg (seg s) a = Some i" "off = page_no (seg t ! i) a"
      "page_of_vaddr h a s = (Inr (i, off), t)"
      "transparent h s t" "bps t = bps s" "find_seg (seg t) a = Some i" 
      "table (seg t ! i) ! off = Some pg" "length pg = BY2PG" "wf_mem t"
proof -
  obtain s1 where s1: "onlyif (tlb_on s) (dotlb h a) s = (Inr (), s1)" "seg s1 = seg s" "cpu s1 = cpu s" "bps s1 = bps s"
    by (rule tlb_step)
  then have t1: "transparent h s s1" using transparent_cong by simp
  show ?thesis
  proof (cases "find_seg (seg s) a")
    case None
    then show ?thesis using unmapped [of s1] s1 t1 by (simp add: page_of_vaddr_def seq_def bind_def mview_def)
  next
    case (Some i)
    from find_seg_Some [OF Some] have i: "i < length (seg s)" "in_seg (seg s ! i) a" by auto
    have okg: "seg_ok (seg s ! i)" using wf i by (simp add: wf_mem_def)
    define off where "off = page_no (seg s ! i) a"
    have off: "off < length (table (seg s ! i))" using page_no_less okg i by (simp add: off_def)
    define s2 where "s2 = set_seg i (\<lambda>g. g\<lparr>refs := refs g + 1\<rparr>) s1"
    have t2: "transparent h s1 s2" unfolding s2_def by (rule transparent_seg [OF seg_same_refs(1)]) simp_all
    have wf2: "wf_mem s2" using t1 t2 wf by (simp add: transparent_def)
    have seg2: "seg s2 ! i = (seg s ! i)\<lparr>refs := refs (seg s ! i) + 1\<rparr>" using i s1 by (simp add: s2_def)
    show ?thesis
    proof (cases "table (seg s ! i) ! off")
      case tab: (Some pg)
      have run: "page_of_vaddr h a s = (Inr (i, off), s2)"
        using Some off tab s1 by (simp add: page_of_vaddr_def seq_def bind_def Let_def off_def s2_def)
      have f2: "find_seg (seg s2) a = Some i" using Some s1 by (simp add: s2_def find_seg_update)
      have len: "length pg = BY2PG" using seg_ok_page [OF okg off tab] .
      show ?thesis
        by (rule ok [OF Some _ run tr.trans [OF t1 t2] _ f2 _ len wf2])
          (use tab seg2 s1 in \<open>simp_all add: off_def page_no_def s2_def\<close>)
    next
      case tab: None
      define s3 where "s3 = set_seg i (\<lambda>g. g\<lparr>rss := rss g + 1\<rparr>) s2"
      have t3: "transparent h s s3" 
        by (rule tr.trans [OF tr.trans [OF t1 t2]], unfold s3_def, rule transparent_seg [OF seg_same_refs(2)]) simp_all
      have wf3: "wf_mem s3" using t3 wf by (simp add: transparent_def)
      have seg3: "seg s3 ! i = (seg s ! i)\<lparr>refs := refs (seg s ! i) + 1, rss := rss (seg s ! i) + 1\<rparr>" "length (seg s3) = length (seg s)"
        using i s1 by (simp_all add: s3_def s2_def)
      show ?thesis
      proof (cases "page_fault h (seg s ! i) off")
        case (Inl e)
        have run: "page_of_vaddr h a s = (Inl e, s3)"
          using Some off tab s1 Inl by (simp add: page_of_vaddr_def seq_def bind_def Let_def off_def s2_def s3_def)
        show ?thesis
          by (rule io_error [OF Some _ _ run t3])
            (use Some Inl tab s1 in \<open>simp_all add: off_def mview_def seg_byte_def s2_def s3_def\<close>)
      next
        case (Inr pg)
        let ?t = "set_page i off pg s3"
        have run: "page_of_vaddr h a s = (Inr (i, off), ?t)"
          using Some off tab s1 Inr by (simp add: page_of_vaddr_def seq_def bind_def Let_def off_def s2_def s3_def)
        have "page_fault h (seg s3 ! i) off = Inr pg" using Inr seg3 page_fault_cong [of "seg s3 ! i" "seg s ! i"] by simp
        then have t: "transparent h s3 ?t"
          by (rule transparent_seg [OF seg_same_fault]) (use tab off seg3 in \<open>simp_all add: set_page_def\<close>)
        have ft: "find_seg (seg ?t) a = Some i" using Some s1 i by (simp add: set_page_def s3_def s2_def find_seg_update)
        show ?thesis
          by (rule ok [OF Some _ run tr.trans [OF t3 t] _ ft _ page_fault_length [OF Inr]])
            (use t wf3 i off seg3 s1 in \<open>simp_all add: off_def page_no_def s3_def s2_def set_page_def transparent_def\<close>)
      qed
    qed
  qed
qed

lemma find_seg_page:
  assumes "wf_mem s" "unat a div BY2PG = unat b div BY2PG"
  shows "find_seg (seg s) a = find_seg (seg s) b"
  using assms by (intro find_seg_cong) (auto simp: list_all2_conv_all_nth wf_mem_def in_seg_page)

lemma page_byte:
  assumes wf: "wf_mem t" and f: "find_seg (seg t) a = Some i"
    and p: "table (seg t ! i) ! page_no (seg t ! i) a = Some pg" and j: "pg_off a + j < BY2PG"
  shows "mview h t (a + of_nat j) = Some (pg ! (pg_off a + j))"
    and "find_seg (seg t) (a + of_nat j) = Some i" "page_no (seg t ! i) (a + of_nat j) = page_no (seg t ! i) a"
proof -
  note pg = same_page_add [OF j]
  show f': "find_seg (seg t) (a + of_nat j) = Some i" using find_seg_page [OF wf pg(1)] f by simp
  have ok: "seg_ok (seg t ! i)" using wf find_seg_Some [OF f] by (simp add: wf_mem_def)
  show n: "page_no (seg t ! i) (a + of_nat j) = page_no (seg t ! i) a"
    using page_no_eq [OF ok] find_seg_Some [OF f] find_seg_Some [OF f'] pg(1) by simp
  show "mview h t (a + of_nat j) = Some (pg ! (pg_off a + j))"
    using f' n p pg(2) by (simp add: mview_def seg_byte_def)
qed

lemma page_byte0:
  assumes "wf_mem t" "find_seg (seg t) a = Some i" "table (seg t ! i) ! page_no (seg t ! i) a = Some pg"
  shows "mview h t a = Some (pg ! pg_off a)"
  using assms by (simp add: mview_def seg_byte_def)

lemma transparent_bp: "transparent h s (stop_at_bpt s)" "transparent h s (set_done i d s)"
  by (rule transparent_cong; simp add: stop_at_bpt_def set_done_def cpu_def)+

lemma brk_loop_transparent:
  assumes "keeps (transparent h) (g addr)"
  shows "keeps (transparent h) (brk_loop g addr ty is)"
proof (induction "is")
  case Nil show ?case unfolding brk_loop.simps by (rule tr.keeps_ret)
next
  case (Cons i "is")
  show ?case unfolding brk_loop.simps
    by (intro tr.keeps_intros tr.keeps_modify transparent_bp Cons assms)
qed

lemma brk_loop_no_load:
  "BEqual AND ty = 0 \<Longrightarrow> brk_loop g addr ty is = brk_loop g' addr ty is"
  by (induction "is") (auto simp: fun_eq_iff bind_def seq_def split: prod.splits sum.splits)

lemma brk_loop_returns:
  "BEqual AND ty = 0 \<Longrightarrow> fst (brk_loop g addr ty is s) = Inr ()"
  by (induction "is" arbitrary: s) (auto simp: bind_def seq_def)

lemma brkchk_rd_returns: obtains t where "if_membpt (brkchk_rd a) s = (Inr (), t)" "transparent h s t"
proof -
  have "keeps (transparent h) (if_membpt (brkchk_rd a))"
    unfolding if_membpt_def brkchk_rd_def by (intro tr.keeps_intros brk_loop_transparent)
  moreover have "fst (if_membpt (brkchk_rd a) s) = Inr ()"
    using brk_loop_returns [of BRead "\<lambda>_. raise Undefined" a "[0..<length (bplist s)]" s]
    by (simp add: if_membpt_def brkchk_rd_def onlyif_def BEqual_def BRead_def bind_def)
  ultimately show ?thesis using that by (metis keepsD prod.collapse)
qed

lemma brkchk_Read: "brkchk h a BRead = brkchk_rd a"
  unfolding brkchk_def brkchk_rd_def
  by (subst brk_loop_no_load [of BRead "getmem_4 h" a _ "\<lambda>_. raise Undefined"]) (simp_all add: BEqual_def BRead_def)

lemma transparentD: "transparent h s t \<Longrightarrow> wf_mem s \<Longrightarrow> wf_mem t" "transparent h s t \<Longrightarrow> wf_mem s \<Longrightarrow> mview h t = mview h s" "transparent h s t \<Longrightarrow> cpu t = cpu s" "transparent h s t \<Longrightarrow> layout t = layout s"
  by (simp_all add: transparent_def)

lemma load_spec:
  assumes wf: "wf_mem s" 
  obtains (bad) e t where "mview h s a = None" "seq (if_membpt (brkchk_rd a)) (bind (page_of_vaddr h a) k) s = (Inl e, t)" "transparent h s t"
      "find_seg (seg s) a = None \<Longrightarrow> e = Errjmp (UserTlbMiss a)"
  | (good) i pg t where "seq (if_membpt (brkchk_rd a)) (bind (page_of_vaddr h a) k) s = k (i, page_no (seg t ! i) a) t"
      "transparent h s t" "page_bytes t (i, page_no (seg t ! i) a) = pg"  
      "\<And>j. pg_off a + j < BY2PG \<Longrightarrow> mview h s (a + of_nat j) = Some (pg ! (pg_off a + j))"
proof -
  obtain s1 where s1: "if_membpt (brkchk_rd a) s = (Inr (), s1)" "transparent h s s1" by (rule brkchk_rd_returns)
  note wf1 = transparentD(1) [OF s1(2) wf] and mv1 = transparentD(2) [OF s1(2) wf]
  from wf1 show ?thesis
  proof (cases rule: page_of_vaddr_cases [where h = h and a = a])
    case (unmapped t)
    show ?thesis by (rule bad [of _ t]) (use unmapped s1 mv1 tr.trans [OF s1(2) unmapped(4)] in \<open>simp_all add: seq_def bind_def\<close>)
  next
    case (io_error i e t)
    have "find_seg (seg s) a \<noteq> None" using io_error(1) find_seg_layout transparentD(4) [OF s1(2)] by (metis option.distinct(1))
    then show ?thesis
      by (intro bad [of e t]) (use io_error s1 mv1 tr.trans [OF s1(2) io_error(5)] in \<open>simp_all add: seq_def bind_def\<close>)
  next
    case (ok i off t pg)
    have mv: "mview h t = mview h s" using transparentD(2) [OF ok(4) wf1] mv1 by simp
    show ?thesis
      by (rule good [of i t pg]) (use ok s1 tr.trans [OF s1(2) ok(4)] page_byte(1) [OF ok(9) ok(6), of pg _ h] mv in \<open>simp_all add: seq_def bind_def page_bytes_def\<close>)
  qed
qed

interpretation fr: keeps_rel frame
  by unfold_locales (auto simp: frame_def)

lemma frame_set_seg: "(\<And>g. base (f g) = base g \<and> send (f g) = send g) \<Longrightarrow> frame s (set_seg i f s)"
  unfolding frame_def using layout_update [of "f (seg s ! i)" s i "set_seg i f s"] by simp

lemma dotlb_frame: "keeps frame (dotlb h a)"
  unfolding dotlb_def Let_def by (intro fr.keeps_intros fr.keeps_modify) (simp_all add: frame_def cpu_def layout_def)

lemma page_of_vaddr_frame: "keeps frame (page_of_vaddr h a)"
  unfolding page_of_vaddr_def Let_def set_page_def
  by (intro fr.keeps_intros dotlb_frame)
    (auto split: option.split sum.split intro!: fr.keeps_intros fr.keeps_modify frame_set_seg)

lemma page_of_vaddr_transparent: "keeps (transparent h) (page_of_vaddr h a)"
proof (rule keepsI)
  fix s
  show "transparent h s (snd (page_of_vaddr h a s))"
  proof (cases "wf_mem s")
    case True
    then show ?thesis by (cases rule: page_of_vaddr_cases [where h = h and a = a]) simp_all
  next
    case False
    then show ?thesis using page_of_vaddr_frame [of h a] by (simp add: keeps_def frame_def transparent_def)
  qed
qed

lemma rd_va_transparent: "keeps (transparent h) (rd_va va k)"
  unfolding rd_va_def by (rule tr.keeps_gets)

lemma brkchk_rd_transparent: "keeps (transparent h) (if_membpt (brkchk_rd a))"
  unfolding if_membpt_def brkchk_rd_def by (intro tr.keeps_intros brk_loop_transparent)

lemmas mem_transparent = tr.keeps_intros page_of_vaddr_transparent rd_va_transparent brkchk_rd_transparent

lemma getmem_b_transparent: "keeps (transparent h) (getmem_b h a)"
  unfolding getmem_b_def by (intro mem_transparent)

lemma getmem_transparent:
  "keeps (transparent h) (getmem_4 h a)" "keeps (transparent h) (getmem_2 h a)" 
  "keeps (transparent h) (getmem_w h a)" "keeps (transparent h) (getmem_h h a)" "keeps (transparent h) (getmem_v h a)"
  unfolding getmem_4_def getmem_2_def getmem_w_def getmem_w_aligned_def getmem_h_def getmem_h_aligned_def getmem_v_def rd_word_def
  by (intro mem_transparent getmem_b_transparent)+

lemma brkchk_transparent: "keeps (transparent h) (brkchk h a ty)" "keeps (transparent h) (if_membpt (brkchk h a ty))"
  unfolding if_membpt_def brkchk_def by (intro tr.keeps_intros brk_loop_transparent getmem_transparent)+

lemma getmem_b_ok:
  assumes "wf_mem s" "mview h s a = Some v"
  shows "\<exists>t. getmem_b h a s = (Inr v, t) \<and> transparent h s t"
  using assms(1)
proof (cases rule: load_spec [where h = h and a = a and k = "\<lambda>va. rd_va va (pg_off a)"])
  case (bad e t) then show ?thesis using assms by simp
next
  case (good i pg t)
  have "pg_off a < BY2PG" by (simp add: pg_off_mod BY2PG_def)
  then have "v = pg ! pg_off a" using good(4) [of 0] assms(2) by simp
  then show ?thesis unfolding getmem_b_def good(1) using good(2,3) by (simp add: rd_va_def)
qed

lemma load_fails:
  assumes "wf_mem s" "mview h s a = None"
  shows "\<exists>e t. seq (if_membpt (brkchk_rd a)) (bind (page_of_vaddr h a) k) s = (Inl e, t) \<and> transparent h s t \<and> (find_seg (seg s) a = None \<longrightarrow> e = Errjmp (UserTlbMiss a))"
  using assms(1)
proof (cases rule: load_spec [where h = h and a = a and k = k])
  case (bad e t) then show ?thesis by (intro exI [of _ e] exI [of _ t]) simp
next
  case (good i pg t)
  have "pg_off a < BY2PG" by (simp add: pg_off_mod BY2PG_def)
  then show ?thesis using good(4) [of 0] assms(2) by simp
qed

lemma aligned4: "a AND 3 = 0 \<longleftrightarrow> unat a mod 4 = 0" for a :: u64
proof -
  have "(3 :: u64) = mask 2" by (simp add: mask_eq_exp_minus_1)
  then have "a AND 3 = take_bit 2 a" by (metis and.commute take_bit_eq_mask)
  then have "unat (a AND 3) = unat a mod 4" by (simp add: unsigned_take_bit_eq take_bit_eq_mod unat_mod_distrib)
  then show ?thesis by (metis unat_eq_zero)
qed

lemma aligned4_room: "a AND 3 = 0 \<Longrightarrow> pg_off a + 3 < BY2PG"
proof -
  assume "a AND 3 = 0"
  then have "pg_off a mod 4 = 0" by (simp add: aligned4 pg_off_mod BY2PG_def mod_mod_cancel)
  moreover have "pg_off a < 4096" by (simp add: pg_off_mod BY2PG_def)
  ultimately show ?thesis unfolding BY2PG_def by presburger
qed

lemma getmem_w_ok:
  assumes "wf_mem s" "a AND 3 = 0" "mview h s a = Some b"
  shows "\<exists>w t. mword h s a = Some w \<and> getmem_w h a s = (Inr w, t) \<and> transparent h s t"
  using assms(1)
proof (cases rule: load_spec [where h = h and a = a and k = "\<lambda>va. rd_word va (pg_off a)"])
  case (bad e t) then show ?thesis using assms by simp
next
  case (good i pg t)
  note room = aligned4_room [OF assms(2)]
  have "mview h s (a + 1) = Some (pg ! (pg_off a + 1))" "mview h s (a + 2) = Some (pg ! (pg_off a + 2))" 
    "mview h s (a + 3) = Some (pg ! (pg_off a + 3))" "mview h s a = Some (pg ! pg_off a)"
    using good(4) [of 0] good(4) [of 1] good(4) [of 2] good(4) [of 3] room by simp_all
  then have "mword h s a = Some (word_le (pg ! pg_off a) (pg ! (pg_off a + 1)) (pg ! (pg_off a + 2)) (pg ! (pg_off a + 3)))"
    by (simp add: mword_def)
  moreover have "getmem_w h a s = (Inr (word_le (pg ! pg_off a) (pg ! (pg_off a + 1)) (pg ! (pg_off a + 2)) (pg ! (pg_off a + 3))), t)"
    using assms(2) good(1,3) by (simp add: getmem_w_def getmem_w_aligned_def rd_word_def rd_va_def)
  ultimately show ?thesis using good(2) by simp
qed

lemma aligned2_room: "a AND 1 = 0 \<Longrightarrow> pg_off a + 1 < BY2PG"
proof -
  assume "a AND 1 = 0"
  moreover have "unat (a AND 1) = unat a mod 2" by (simp add: and_one_eq unat_mod_distrib)
  ultimately have "unat a mod 2 = 0" by (metis unat_0)
  then have "pg_off a mod 2 = 0" by (simp add: pg_off_mod BY2PG_def mod_mod_cancel)
  moreover have "pg_off a < 4096" by (simp add: pg_off_mod BY2PG_def)
  ultimately show ?thesis unfolding BY2PG_def by presburger
qed

lemma getmem_h_ok:
  assumes "wf_mem s" "a AND 1 = 0" "mview h s a = Some b"
  shows "\<exists>w t. mhalf h s a = Some w \<and> getmem_h h a s = (Inr w, t) \<and> transparent h s t"
  using assms(1)
proof (cases rule: load_spec [where h = h and a = a and k = "\<lambda>va.
          bind (rd_va va (pg_off a + 1)) (\<lambda>b1. bind (rd_va va (pg_off a)) (\<lambda>b0.
            ret (push_bit 8 (ucast b1) OR ucast b0 :: u16)))"])
  case (bad e t) then show ?thesis using assms by simp
next
  case (good i pg t)
  note room = aligned2_room [OF assms(2)]
  have "mview h s (a + 1) = Some (pg ! (pg_off a + 1))" "mview h s a = Some (pg ! pg_off a)"
    using good(4) [of 0] good(4) [of 1] room by simp_all
  then have "mhalf h s a = Some (push_bit 8 (ucast (pg ! (pg_off a + 1))) OR ucast (pg ! pg_off a))"
    by (simp add: mhalf_def)
  moreover have "getmem_h h a s = (Inr (push_bit 8 (ucast (pg ! (pg_off a + 1))) OR ucast (pg ! pg_off a)), t)"
    using assms(2) good(1,3) by (simp add: getmem_h_def getmem_h_aligned_def rd_va_def)
  ultimately show ?thesis using good(2) by simp
qed

lemma page_no_table [simp]: "page_no (g\<lparr>table := x\<rparr>) a = page_no g a"
  by (simp add: page_no_def)

lemma wr_va_spec:
  assumes wf: "wf_mem s" and f: "find_seg (seg s) a = Some i"
    and p: "table (seg s ! i) ! page_no (seg s ! i) a = Some pg"
  obtains t where "wr_va (i, page_no (seg s ! i) a) (pg_off a) v s = (Inr (), t)"
    "wf_mem t" "cpu t = cpu s" "layout t = layout s" "bps t = bps s"
    "mview h t = (mview h s)(a \<mapsto> v)" "find_seg (seg t) a = Some i"
    "page_no (seg t ! i) a = page_no (seg s ! i) a"
    "table (seg t ! i) ! page_no (seg s ! i) a = Some (pg[pg_off a := v])"
proof -
  let ?n = "page_no (seg s ! i) a" and ?g = "seg s ! i"
  let ?g' = "?g\<lparr>table := (table ?g)[?n := Some (pg[pg_off a := v])]\<rparr>"
  let ?t = "set_page i ?n (pg[pg_off a := v]) s"
  have i: "i < length (seg s)" "in_seg ?g a" using find_seg_Some [OF f] by auto
  have ok: "seg_ok ?g" using wf i by (simp add: wf_mem_def)
  have n: "?n < length (table ?g)" using page_no_less [OF ok i(2)] .
  have len: "length pg = BY2PG" using seg_ok_page [OF ok n p] .
  have off: "pg_off a < length pg" using len by (simp add: pg_off_mod BY2PG_def)
  have ok': "seg_ok ?g'" using ok len unfolding seg_ok_def
    by (auto dest!: set_update_subset_insert [THEN subsetD])
  have seg: "seg ?t = (seg s)[i := ?g']" by (simp add: set_page_def)
  have lay: "layout ?t = layout s" using layout_update [OF _ _ seg] by simp
  have fs: "find_seg (seg ?t) b = find_seg (seg s) b" for b using find_seg_layout [OF lay] .
  have run: "wr_va (i, ?n) (pg_off a) v s = (Inr (), ?t)" by (simp add: wr_va_def page_bytes_def p)
  have wf': "wf_mem ?t" using wf ok' unfolding wf_mem_def seg
    by (auto dest!: set_update_subset_insert [THEN subsetD])
  have mvt: "mview h ?t b = (case find_seg (seg s) b of None \<Rightarrow> None | Some i \<Rightarrow> seg_byte h (seg ?t ! i) b)" for b
    by (simp only: mview_def fs)
  have "mview h ?t b = ((mview h s)(a \<mapsto> v)) b" for b
  proof (cases "find_seg (seg s) b")
    case None
    then have "b \<noteq> a" using f by auto
    then show ?thesis using None unfolding mvt by (simp add: mview_def)
  next
    case (Some j)
    have j: "in_seg (seg s ! j) b" using find_seg_Some [OF Some] by simp
    have pf: "page_fault h ?g' = page_fault h ?g" by (rule page_fault_cong) simp_all
    show ?thesis
    proof (cases "j = i \<and> page_no ?g b = ?n")
      case True
      then have "b = a \<longleftrightarrow> pg_off b = pg_off a" using same_addr [OF ok _ i(2)] j by auto
      then show ?thesis using True Some i n off p unfolding mvt
        by (cases "b = a") (simp_all add: mview_def seg seg_byte_def)
    next
      case False
      then have "b \<noteq> a" using Some f by auto
      then show ?thesis using False Some i pf unfolding mvt
        by (cases "j = i") (simp_all add: mview_def seg seg_byte_def split: option.split)
    qed
  qed
  then have mv: "mview h ?t = (mview h s)(a \<mapsto> v)" by (rule ext)
  show ?thesis
    by (rule that [OF run wf' _ lay _ mv]) (use fs [of a] f i n in \<open>simp_all add: seg\<close>)
qed

lemma wr_pinned:
  assumes p: "pinned s a i off" and j: "pg_off a + j < BY2PG"
  shows "\<exists>t. wr_va (i, off) (pg_off a + j) v s = (Inr (), t) \<and> pinned t a i off \<and> same_rest s t \<and>
    mview h t = (mview h s)(a + of_nat j \<mapsto> v)"
proof -
  obtain pg where pg: "wf_mem s" "find_seg (seg s) a = Some i" "page_no (seg s ! i) a = off" "table (seg s ! i) ! off = Some pg"
    using p by (auto simp: pinned_def)
  note b = page_byte [OF pg(1,2) pg(4) [folded pg(3)] j] and o = same_page_add(2) [OF j]
  have tb: "table (seg s ! i) ! page_no (seg s ! i) (a + of_nat j) = Some pg" using b(3) pg(3,4) by simp
  obtain t where t: "wr_va (i, page_no (seg s ! i) (a + of_nat j)) (pg_off (a + of_nat j)) v s = (Inr (), t)"
    "wf_mem t" "cpu t = cpu s" "layout t = layout s" "bps t = bps s"
    "mview h t = (mview h s)(a + of_nat j \<mapsto> v)" "find_seg (seg t) (a + of_nat j) = Some i"
    "page_no (seg t ! i) (a + of_nat j) = page_no (seg s ! i) (a + of_nat j)"
    "table (seg t ! i) ! page_no (seg s ! i) (a + of_nat j) = Some (pg[pg_off (a + of_nat j) := v])"
    by (rule wr_va_spec [OF pg(1) b(2) tb, of v h])
  have fa: "find_seg (seg t) a = Some i" using find_seg_layout [OF t(4)] pg(2) by simp
  have okt: "seg_ok (seg t ! i)" using t(2) find_seg_Some [OF fa] by (simp add: wf_mem_def)
  have "page_no (seg t ! i) a = page_no (seg t ! i) (a + of_nat j)"
    using page_no_eq [OF okt] find_seg_Some [OF fa] find_seg_Some [OF t(7)] same_page_add(1) [OF j] by simp
  then have "pinned t a i off" using t(2,8,9) fa b(3) pg(3) by (auto simp: pinned_def)
  then show ?thesis using t b(3) pg(3) o by (auto simp: same_rest_def)
qed

lemma store_spec:
  assumes wf: "wf_mem s" and m: "mview h s a = Some v0"
  obtains i off t where "page_of_vaddr h a s = (Inr (i, off), t)" "pinned t a i off" "same_rest s t" "mview h t = mview h s"
  using wf
proof (cases rule: page_of_vaddr_cases [where h = h and a = a])
  case (ok i off t pg)
  show ?thesis
    by (rule that [OF ok(3)]) (use ok wf in \<open>auto simp: pinned_def same_rest_def transparent_def\<close>)
qed (use m in simp_all)

lemma store_fails:
  assumes "wf_mem s" "mview h s a = None"
  shows "\<exists>e t. seq (bind (page_of_vaddr h a) k) k' s = (Inl e, t) \<and> transparent h s t \<and> (find_seg (seg s) a = None \<longrightarrow> e = Errjmp (UserTlbMiss a))"
  using assms(1)
proof (cases rule: page_of_vaddr_cases [where h = h and a = a])
  case (unmapped t) then show ?thesis by (simp add: seq_def bind_def)
next
  case (io_error i e t) then show ?thesis by (simp add: seq_def bind_def)
next
  case (ok i off t pg)
  then show ?thesis using assms page_byte0 [OF ok(9) ok(6), of pg h] transparentD(2) [OF ok(4)] by simp
qed

lemma brk_after:
  assumes "wf_mem t"
  shows "\<exists>res u. if_membpt (brkchk h a BWrite) t = (res, u) \<and> transparent h t u \<and> wf_mem u \<and> mview h u = mview h t \<and>
     (membpt t = 0 \<longrightarrow> res = Inr () \<and> u = t)"
proof -
  obtain res u where u: "if_membpt (brkchk h a BWrite) t = (res, u)" by (cases "if_membpt (brkchk h a BWrite) t")
  have "transparent h t u" using keepsD [OF brkchk_transparent(2) u] .
  moreover have "membpt t = 0 \<Longrightarrow> res = Inr () \<and> u = t" using u by (simp add: if_membpt_def)
  ultimately show ?thesis using u assms transparentD [of h t u] by blast
qed

lemma stored_after:
  assumes "w s = (Inr (), t)" "wf_mem t" "same_rest s t" "mview h t = m"
  shows "stored h s m (seq w (if_membpt (brkchk h a BWrite)) s)"
proof -
  obtain res u where u: "if_membpt (brkchk h a BWrite) t = (res, u)" "transparent h t u" "wf_mem u" "mview h u = mview h t"
     "membpt t = 0 \<longrightarrow> res = Inr () \<and> u = t" using brk_after [OF assms(2)] by blast
  have "membpt t = membpt s" using assms(3) by (simp add: same_rest_def cpu_def)
  then show ?thesis using u assms by (auto simp: stored_def seq_def bind_def same_rest_def transparent_def)
qed

lemma putmem_b_stored:
  assumes "wf_mem s" "mview h s a = Some v0"
  shows "stored h s ((mview h s)(a \<mapsto> v)) (putmem_b h a v s)"
proof -
  obtain i off t where t: "page_of_vaddr h a s = (Inr (i, off), t)" "pinned t a i off" "same_rest s t" "mview h t = mview h s"
    by (rule store_spec [OF assms])
  obtain u where u: "wr_va (i, off) (pg_off a + 0) v t = (Inr (), u)" "pinned u a i off" "same_rest t u" "mview h u = (mview h t)(a + of_nat 0 \<mapsto> v)"
    using wr_pinned [OF t(2), of 0] by (auto simp: pg_off_mod BY2PG_def)
  show ?thesis unfolding putmem_b_def
    by (rule stored_after [of _ _ u]) (use t u in \<open>auto simp: bind_def pinned_def same_rest_def\<close>)
qed

lemma putmem_w_stored:
  assumes "wf_mem s" "a AND 3 = 0" "mview h s a = Some v0"
  shows "stored h s (mstore_w (mview h s) a d) (putmem_w h a d s)"
proof -
  note room = aligned4_room [OF assms(2)]
  obtain i off t where t: "page_of_vaddr h a s = (Inr (i, off), t)" "pinned t a i off" "same_rest s t" "mview h t = mview h s"
    by (rule store_spec [OF assms(1,3)])
  obtain u3 where u3: "wr_va (i, off) (pg_off a + 3) (ucast (drop_bit 24 d)) t = (Inr (), u3)" "pinned u3 a i off" "same_rest t u3" "mview h u3 = (mview h t)(a + of_nat 3 \<mapsto> ucast (drop_bit 24 d))"
    using wr_pinned [OF t(2), of 3] room by auto
  obtain u2 where u2: "wr_va (i, off) (pg_off a + 2) (ucast (drop_bit 16 d)) u3 = (Inr (), u2)" "pinned u2 a i off" "same_rest u3 u2" "mview h u2 = (mview h u3)(a + of_nat 2 \<mapsto> ucast (drop_bit 16 d))"
    using wr_pinned [OF u3(2), of 2] room by auto
  obtain u1 where u1: "wr_va (i, off) (pg_off a + 1) (ucast (drop_bit 8 d)) u2 = (Inr (), u1)" "pinned u1 a i off" "same_rest u2 u1" "mview h u1 = (mview h u2)(a + of_nat 1 \<mapsto> ucast (drop_bit 8 d))"
    using wr_pinned [OF u2(2), of 1] room by auto
  obtain u0 where u0: "wr_va (i, off) (pg_off a + 0) (ucast d) u1 = (Inr (), u0)" "pinned u0 a i off" "same_rest u1 u0" "mview h u0 = (mview h u1)(a + of_nat 0 \<mapsto> ucast d)"
    using wr_pinned [OF u1(2), of 0] room by auto
  have "same_rest s u0" using t u3 u2 u1 u0 by (simp add: same_rest_def)
  moreover have "mview h u0 = mstore_w (mview h s) a d" using t u3 u2 u1 u0 by (simp add: mstore_w_def)
  moreover have "wf_mem u0" using u0 by (simp add: pinned_def)
  ultimately have "stored h s (mstore_w (mview h s) a d) (seq (bind (page_of_vaddr h a) (\<lambda>va.
               seq (wr_va va (pg_off a + 3) (ucast (drop_bit 24 d)))
                (seq (wr_va va (pg_off a + 2) (ucast (drop_bit 16 d)))
                 (seq (wr_va va (pg_off a + 1) (ucast (drop_bit 8 d)))
                   (wr_va va (pg_off a) (ucast d))))))
          (if_membpt (brkchk h a BWrite)) s)"
    by (intro stored_after [of _ _ u0]) (use t u3 u2 u1 u0 in \<open>simp_all add: bind_def seq_def\<close>)
  then show ?thesis using assms(2) by (simp add: putmem_w_def)
qed

lemma putmem_h_stored:
  assumes "wf_mem s" "a AND 1 = 0" "mview h s a = Some v0"
  shows "stored h s (mstore_h (mview h s) a d) (putmem_h h a d s)"
proof -
  note room = aligned2_room [OF assms(2)]
  obtain i off t where t: "page_of_vaddr h a s = (Inr (i, off), t)" "pinned t a i off" "same_rest s t" "mview h t = mview h s"
    by (rule store_spec [OF assms(1,3)])
  obtain u1 where u1: "wr_va (i, off) (pg_off a + 1) (ucast (drop_bit 8 d)) t = (Inr (), u1)" "pinned u1 a i off" "same_rest t u1" "mview h u1 = (mview h t)(a + of_nat 1 \<mapsto> ucast (drop_bit 8 d))"
    using wr_pinned [OF t(2), of 1] room by auto
  obtain u0 where u0: "wr_va (i, off) (pg_off a + 0) (ucast d) u1 = (Inr (), u0)" "pinned u0 a i off" "same_rest u1 u0" "mview h u0 = (mview h u1)(a + of_nat 0 \<mapsto> ucast d)"
    using wr_pinned [OF u1(2), of 0] room by auto
  have "stored h s (mstore_h (mview h s) a d) (seq (bind (page_of_vaddr h a) (\<lambda>va.
               seq (wr_va va (pg_off a + 1) (ucast (drop_bit 8 d)))
                 (wr_va va (pg_off a) (ucast d))))
          (if_membpt (brkchk h a BWrite)) s)"
    by (intro stored_after [of _ _ u0]) (use t u1 u0 in \<open>simp_all add: bind_def seq_def same_rest_def mstore_h_def pinned_def\<close>)
  then show ?thesis using assms(2) by (simp add: putmem_h_def)
qed

lemma word_le_bytes: "word_le (ucast d) (ucast (drop_bit 8 d)) (ucast (drop_bit 16 d)) (ucast (drop_bit 24 d)) = ucast d" for d :: u64
proof (rule bit_word_eqI)
  fix n assume n: "n < LENGTH(32)"
  consider "n < 8" | "8 \<le> n" "n < 16" | "16 \<le> n" "n < 24" | "24 \<le> n" by linarith
  then show "bit (word_le (ucast d) (ucast (drop_bit 8 d)) (ucast (drop_bit 16 d)) (ucast (drop_bit 24 d))) n = bit (ucast d :: u32) n"
    using n by cases (auto simp: word_le_def bit_or_iff bit_push_bit_iff bit_ucast_iff bit_drop_bit_eq)
qed

lemma mword_stored: "mview h t = mstore_w m a d \<Longrightarrow> mword h t a = Some (ucast d)"
  by (simp add: mword_def mstore_w_def word_le_bytes)

lemma half_bytes: "(push_bit 8 (ucast (ucast (drop_bit 8 d) :: u8)) OR ucast (ucast d :: u8) :: u16) = d" for d :: u16
proof (rule bit_word_eqI)
  fix n assume "n < LENGTH(16)"
  then show "bit (push_bit 8 (ucast (ucast (drop_bit 8 d) :: u8)) OR ucast (ucast d :: u8) :: u16) n = bit d n"
    by (cases "n < 8") (auto simp: bit_simps)
qed

lemma mhalf_stored: "mview h t = mstore_h m a d \<Longrightarrow> mhalf h t a = Some d"
  by (simp add: mhalf_def mstore_h_def half_bytes)

lemma rot8: "drop_bit 8 w OR push_bit 24 w = word_rotr 8 w" for w :: u32
  by (rule bit_word_eqI) (auto simp: bit_word_rotr_iff bit_simps mod_if add.commute dest: bit_imp_le_length)

lemma word_rotr_0: "word_rotr 0 w = w" for w :: u32
  by (rule bit_word_eqI) (simp add: bit_word_rotr_iff)

lemma rot8_pow: "((\<lambda>w. drop_bit 8 w OR push_bit 24 w) ^^ n) w = word_rotr (8 * n) w" for w :: u32
  unfolding rot8 by (induction n) (simp_all add: word_rotr_0 word_rotr_word_rotr_eq add.commute)

lemma getmem_w_unaligned: "addr AND 3 \<noteq> 0 \<Longrightarrow> 
   getmem_w h addr s = bind (getmem_w h (addr AND NOT 3)) (\<lambda>w. ret (word_rotr (8 * unat (addr AND 3)) w)) s"
proof -
  assume "addr AND 3 \<noteq> 0"
  moreover have "(addr AND NOT 3) AND 3 = 0" by (rule bit_word_eqI) (auto simp: bit_simps)
  ultimately show ?thesis by (simp add: getmem_w_def rot8_pow)
qed

lemma of_nat_Suc_shift: "a + of_nat (Suc k) = a + 1 + of_nat k" for a :: u64
  by simp

lemma mstores_outside: "(\<And>k. k < length bs \<Longrightarrow> x \<noteq> a + of_nat k) \<Longrightarrow> mstores m a bs x = m x"
proof (induction bs arbitrary: a m)
  case (Cons b bs)
  have "x \<noteq> a" using Cons.prems [of 0] by simp
  have "x \<noteq> a + 1 + of_nat k" if "k < length bs" for k
    using Cons.prems [of "Suc k"] that by (simp add: add.assoc)
  then have "mstores (m(a \<mapsto> b)) (a + 1) bs x = (m(a \<mapsto> b)) x" by (rule Cons.IH)
  with \<open>x \<noteq> a\<close> show ?case by simp
qed simp

lemma mstores_inside: "k < length bs \<Longrightarrow> length bs \<le> 2 ^ 64 \<Longrightarrow> mstores m a bs (a + of_nat k) = Some (bs ! k)"
proof (induction bs arbitrary: a m k)
  case (Cons b bs)
  show ?case
  proof (cases k)
    case 0
    have "a \<noteq> a + 1 + of_nat j" if "j < length bs" for j
    proof
      assume "a = a + 1 + of_nat j"
      then have "(of_nat (Suc j) :: u64) = 0" by (simp add: add.assoc)
      then have "2 ^ 64 dvd Suc j" by (simp only: word_of_nat_eq_0_iff) simp
      then show False using that Cons.prems(2) by (auto dest: dvd_imp_le)
    qed
    then have "mstores (m(a \<mapsto> b)) (a + 1) bs a = (m(a \<mapsto> b)) a" by (rule mstores_outside)
    then show ?thesis using 0 by simp
  next
    case (Suc k')
    then have "mstores (m(a \<mapsto> b)) (a + 1) bs (a + 1 + of_nat k') = Some (bs ! k')"
      using Cons.prems by (intro Cons.IH) simp_all
    then show ?thesis using Suc by (simp add: add.assoc)
  qed
qed simp

lemma memio_write_stored:
  assumes "wf_mem s" "membpt s = 0" "\<And>k. k < length bs \<Longrightarrow> mview h s (a + of_nat k) \<noteq> None"
  shows "\<exists>t. memio_write h a bs s = (Inr (), t) \<and> wf_mem t \<and> same_rest s t \<and> mview h t = mstores (mview h s) a bs"
  using assms
proof (induction bs arbitrary: a s)
  case Nil then show ?case by (simp add: same_rest_def)
next
  case (Cons b bs)
  obtain v0 where v0: "mview h s a = Some v0" using Cons.prems(3) [of 0] by auto
  obtain res t where t: "putmem_b h a b s = (res, t)" by (cases "putmem_b h a b s")
  from putmem_b_stored [OF Cons.prems(1) v0, of b] t Cons.prems(2)
  have st: "res = Inr ()" "wf_mem t" "same_rest s t" "mview h t = (mview h s)(a \<mapsto> b)"
    by (simp_all add: stored_def same_rest_def)
  then have "membpt t = 0" using Cons.prems(2) by (simp add: same_rest_def cpu_def)
  moreover have "mview h t (a + 1 + of_nat k) \<noteq> None" if "k < length bs" for k
    using Cons.prems(3) [of "Suc k"] that st(4) by (auto simp: add.assoc)
  ultimately obtain u where "memio_write h (a + 1) bs t = (Inr (), u)" "wf_mem u" "same_rest t u" "mview h u = mstores (mview h t) (a + 1) bs"
    using Cons.IH [OF st(2)] by blast
  then show ?case using t st by (simp add: seq_def bind_def same_rest_def)
qed

lemma memio_read_ok:
  assumes "wf_mem s" "\<And>k. k < length bs \<Longrightarrow> mview h s (a + of_nat k) = Some (bs ! k)"
  shows "\<exists>t. memio_read h a (length bs) s = (Inr bs, t) \<and> transparent h s t"
  using assms
proof (induction bs arbitrary: a s)
  case Nil then show ?case by (simp add: tr.refl)
next
  case (Cons b bs)
  have "mview h s a = Some b" using Cons.prems(2) [of 0] by simp
  from getmem_b_ok [OF Cons.prems(1) this] obtain t where t: "getmem_b h a s = (Inr b, t)" "transparent h s t" by blast
  have "mview h t (a + 1 + of_nat k) = Some (bs ! k)" if "k < length bs" for k
    using Cons.prems(2) [of "Suc k"] that transparentD(2) [OF t(2) Cons.prems(1)] by (simp add: add.assoc)
  from Cons.IH [OF transparentD(1) [OF t(2) Cons.prems(1)] this] obtain u
    where "memio_read h (a + 1) (length bs) t = (Inr bs, u)" "transparent h t u" by blast
  then show ?case using t tr.trans [OF t(2)] by (simp add: bind_def)
qed

lemma memio_readstring_ok:
  assumes "wf_mem s" "0 \<notin> set bs" "\<And>k. k < length bs \<Longrightarrow> mview h s (a + of_nat k) = Some (bs ! k)"
    and "mview h s (a + of_nat (length bs)) = Some 0" "length bs < n"
  shows "\<exists>t. memio_readstring h a n s = (Inr (bs @ [0]), t) \<and> transparent h s t"
  using assms
proof (induction bs arbitrary: a s n)
  case Nil
  then obtain m where n: "n = Suc m" by (cases n) auto
  have "mview h s a = Some 0" using Nil by simp
  from getmem_b_ok [OF Nil(1) this] show ?case by (auto simp: n bind_def)
next
  case (Cons b bs)
  then obtain m where n: "n = Suc m" by (cases n) auto
  have "mview h s a = Some b" using Cons.prems(3) [of 0] by simp
  from getmem_b_ok [OF Cons.prems(1) this] obtain t where t: "getmem_b h a s = (Inr b, t)" "transparent h s t" by blast
  note mv = transparentD(2) [OF t(2) Cons.prems(1)]
  have "mview h t (a + 1 + of_nat k) = Some (bs ! k)" if "k < length bs" for k
    using Cons.prems(3) [of "Suc k"] that mv by (simp add: add.assoc)
  moreover have "mview h t (a + 1 + of_nat (length bs)) = Some 0" using Cons.prems(4) mv by (simp add: add.assoc)
  ultimately obtain u where "memio_readstring h (a + 1) m t = (Inr (bs @ [0]), u)" "transparent h t u"
    using Cons.IH [OF transparentD(1) [OF t(2) Cons.prems(1)], of "a + 1" m] Cons.prems n by auto
  then show ?case using t tr.trans [OF t(2)] Cons.prems(2) by (auto simp: n bind_def)
qed

lemma memio_readstring_long:
  assumes "wf_mem s" "0 \<notin> set bs" "\<And>k. k < length bs \<Longrightarrow> mview h s (a + of_nat k) = Some (bs ! k)"
  shows "\<exists>t. memio_readstring h a (length bs) s = (Inl (Errjmp CopyTooLong), t) \<and> transparent h s t"
  using assms
proof (induction bs arbitrary: a s)
  case Nil then show ?case by (simp add: tr.refl)
next
  case (Cons b bs)
  have "mview h s a = Some b" using Cons.prems(3) [of 0] by simp
  from getmem_b_ok [OF Cons.prems(1) this] obtain t where t: "getmem_b h a s = (Inr b, t)" "transparent h s t" by blast
  have "mview h t (a + 1 + of_nat k) = Some (bs ! k)" if "k < length bs" for k
    using Cons.prems(3) [of "Suc k"] that transparentD(2) [OF t(2) Cons.prems(1)] by (simp add: add.assoc)
  with Cons.IH [OF transparentD(1) [OF t(2) Cons.prems(1)], of "a + 1"] Cons.prems(2) obtain u
    where "memio_readstring h (a + 1) (length bs) t = (Inl (Errjmp CopyTooLong), u)" "transparent h t u" by auto
  then show ?case using t tr.trans [OF t(2)] Cons.prems(2) by (auto simp: bind_def)
qed

lemma unat_and_not_pg: "unat (a AND NOT 0xfff) = unat a - unat a mod 4096" for a :: u64
proof -
  have "a - (a AND 0xfff) = a AND NOT (a AND 0xfff)" by (rule disjunctive_diff) (simp add: bit_and_iff)
  also have "\<dots> = a AND NOT 0xfff" by (rule bit_word_eqI) (auto simp: bit_simps)
  finally have e: "a AND NOT 0xfff = a - (a AND 0xfff)" ..
  have m: "unat (a AND 0xfff) = unat a mod 4096" using pg_off_mod [of a] by (simp add: pg_off_def BY2PG_def)
  have "a AND 0xfff \<le> a" unfolding word_le_nat_alt m by simp
  then show ?thesis unfolding e by (simp add: unat_sub m)
qed

lemma round_pg_aligned: "unat (round_pg a) mod BY2PG = 0"
  unfolding round_pg_def unat_and_not_pg BY2PG_def by (simp add: minus_mod_eq_mult_div)

lemma round_pg_bounds:
  assumes "unat a + 4095 < 2 ^ 64"
  shows "unat a \<le> unat (round_pg a)" "unat (round_pg a) \<le> unat a + 4095"
proof -
  have u: "unat (a + 0xfff) = unat a + 4095" using assms by (simp add: unat_word_ariths)
  have "(unat a + 4095) mod 4096 \<le> 4095" by (simp add: less_Suc_eq_le [symmetric])
  then show "unat a \<le> unat (round_pg a)" "unat (round_pg a) \<le> unat a + 4095"
    unfolding round_pg_def unat_and_not_pg u by linarith+
qed

lemma round_pg_mono:
  assumes "unat a \<le> unat b" "unat b + 4095 < 2 ^ 64"
  shows "round_pg a \<le> round_pg b"
proof -
  have u: "unat (a + 0xfff) = unat a + 4095" "unat (b + 0xfff) = unat b + 4095"
    using assms by (simp_all add: unat_word_ariths)
  show ?thesis unfolding word_le_nat_alt round_pg_def unat_and_not_pg u minus_mod_eq_mult_div
    using assms(1) by (intro mult_le_mono2 div_le_mono) simp
qed

lemma new_seg_ok:
  assumes "unat b mod BY2PG = 0" "unat e mod BY2PG = 0" "b \<le> e"
  shows "seg_ok (new_seg k b e fo fe)"
proof -
  have "unat (e - b) = unat e - unat b" using assms(3) by (simp add: unat_sub)
  moreover have "(unat e - unat b) mod BY2PG = 0" using assms unfolding word_le_nat_alt BY2PG_def
    by (metis dvd_diff_nat mod_0_imp_dvd mod_eq_0_iff_dvd)
  ultimately have "unat (e - b) div BY2PG * BY2PG = unat e - unat b" by (metis add.right_neutral div_mult_mod_eq)
  then show ?thesis using assms by (auto simp: seg_ok_def new_seg_def word_le_nat_alt)
qed

lemma initmemory_wf:
  assumes "hdrsz f \<le> txtaddr f" "unat (txtaddr f - hdrsz f) mod BY2PG = 0"
    and sz: "unat (txtaddr f) + unat (txtsz f) + unat (datsz f) + unat (bsssz f) < 2 ^ 48"
  shows "wf_mem (initmemory f s)"
proof -
  let ?t = "round_pg (txtaddr f + txtsz f)"
  let ?d = "round_pg (?t + datsz f)" and ?b = "round_pg (?t + datsz f + bsssz f)"
  have u1: "unat (txtaddr f + txtsz f) = unat (txtaddr f) + unat (txtsz f)" using sz by (simp add: unat_word_ariths)
  note t = round_pg_bounds [of "txtaddr f + txtsz f"]
  have u2: "unat (?t + datsz f) = unat ?t + unat (datsz f)" using sz t u1 by (simp add: unat_word_ariths)
  note d = round_pg_bounds [of "?t + datsz f"]
  have u3: "unat (?t + datsz f + bsssz f) = unat ?t + unat (datsz f) + unat (bsssz f)" 
    using sz t u1 by (simp add: unat_word_ariths u2)
  note b = round_pg_bounds [of "?t + datsz f + bsssz f"]
  have tb: "txtaddr f - hdrsz f \<le> ?t"
    using assms(1) sz t u1 by (simp add: word_le_nat_alt unat_sub)
  have td: "?t \<le> ?d" using sz t u1 u2 d by (simp add: word_le_nat_alt)
  have db: "?d \<le> ?b" using sz t u1 u2 u3 by (intro round_pg_mono) simp_all
  show ?thesis unfolding wf_mem_def initmemory_def Let_def
    by (auto intro!: new_seg_ok round_pg_aligned assms tb td db simp: STACKTOP_def STACKSIZE_def BY2PG_def word_le_nat_alt)
qed

lemma mview_fresh_bss:
  assumes "wf_mem s" "find_seg (seg s) a = Some i" "stype (seg s ! i) \<in> {Bss, Stack}" "table (seg s ! i) = replicate n None"
  shows "mview h s a = Some 0"
proof -
  have "in_seg (seg s ! i) a" "seg_ok (seg s ! i)" using find_seg_Some [OF assms(2)] assms(1) by (simp_all add: wf_mem_def)
  then have "page_no (seg s ! i) a < n" using page_no_less assms(4) by fastforce
  moreover have "page_fault h (seg s ! i) k = Inr (fresh_page [])" for k using assms(3) by (auto simp: page_fault_def Let_def)
  moreover have "pg_off a < BY2PG" by (simp add: pg_off_mod BY2PG_def)
  ultimately show ?thesis using assms(2,4) by (simp add: mview_def seg_byte_def fresh_page_def)
qed

lemma getmem_2_ok:
  assumes "wf_mem s" "mview h s a = Some b0" "mview h s (a + 1) = Some b1"
  shows "\<exists>t. getmem_2 h a s = (Inr (push_bit 8 (ucast b0) OR push_bit 16 (ucast b1)), t) \<and> transparent h s t"
proof -
  obtain t where t: "getmem_b h a s = (Inr b0, t)" "transparent h s t" using getmem_b_ok [OF assms(1,2)] by blast
  have "mview h t (a + 1) = Some b1" using transparentD(2) [OF t(2) assms(1)] assms(3) by simp
  then obtain u where u: "getmem_b h (a + 1) t = (Inr b1, u)" "transparent h t u"
    using getmem_b_ok [OF transparentD(1) [OF t(2) assms(1)]] by blast
  have "drop_bit 8 (push_bit 16 (ucast b0 :: u64)) = push_bit 8 (ucast b0)"
    by (rule bit_word_eqI) (auto simp: bit_simps dest: bit_imp_le_length)
  then show ?thesis using t u tr.trans [OF t(2) u(2)] by (simp add: getmem_2_def bind_def)
qed

lemma brk_single:
  assumes "bplist s = [b]" "bp_addr b = a" "bp_type b = BRead" "membpt s \<noteq> 0"
  shows "if_membpt (brkchk_rd a) s = (Inr (), if bp_done b = 1 then stop_at_bpt (set_done 0 (bp_count b) s) else set_done 0 (bp_done b - 1) s)"
  using assms by (simp add: if_membpt_def brkchk_rd_def bind_def seq_def BRead_def BEqual_def set_done_def stop_at_bpt_def)

lemma page_of_vaddr_bps: "wf_mem s \<Longrightarrow> bps (snd (page_of_vaddr h a s)) = bps s"
  by (cases s rule: page_of_vaddr_cases [where h = h and a = a]) auto

lemma read_breakpoint:
  assumes "wf_mem s" "mview h s a = Some v" "bplist s = [b]" "bp_addr b = a" "bp_type b = BRead" "membpt s \<noteq> 0"
  shows "\<exists>t. getmem_b h a s = (Inr v, t) \<and>
    bps t = (if bp_done b = 1 then ([b\<lparr>bp_done := bp_count b\<rparr>], 1, True)
             else ([b\<lparr>bp_done := bp_done b - 1\<rparr>], count s, atbpt s))"
proof -
  let ?s1 = "if bp_done b = 1 then stop_at_bpt (set_done 0 (bp_count b) s) else set_done 0 (bp_done b - 1) s"
  obtain t where t: "getmem_b h a s = (Inr v, t)" using getmem_b_ok [OF assms(1,2)] by blast
  have i: "if_membpt (brkchk_rd a) s = (Inr (), ?s1)" using brk_single assms by blast
  have "seg ?s1 = seg s" by (simp add: stop_at_bpt_def set_done_def)
  then have wf: "wf_mem ?s1" using assms(1) by (simp add: wf_mem_def)
  obtain x u where p: "page_of_vaddr h a ?s1 = (x, u)" by (cases "page_of_vaddr h a ?s1")
  have "t = u" using t p i by (cases x) (auto simp: getmem_b_def seq_def bind_def rd_va_def)
  moreover have "bps u = bps ?s1" using page_of_vaddr_bps [OF wf, of h a] p by simp
  ultimately show ?thesis using t assms(3) by (simp add: bps_def stop_at_bpt_def set_done_def)
qed

lemma delbpt_breakpoint:
  assumes "c \<in> {CHR ''r'', CHR ''a'', CHR ''w'', CHR ''e''}"
  shows "bplist (delbpt a (breakpoint c a n s)) = bplist s" "membpt (delbpt a (breakpoint c a n s)) = membpt s + 2"
  using assms by (auto simp: delbpt_def breakpoint_def BInstruction_def BRead_def BWrite_def BAccess_def BEqual_def)

lemma putmem_w_getmem_w:
  assumes "wf_mem s" "membpt s = 0" "mview h s b \<noteq> None" "b AND 3 = 0"
  shows "\<exists>t. seq (putmem_w h b d) (getmem_w h b) s = (Inr (ucast d), t)"
proof -
  obtain v0 where v0: "mview h s b = Some v0" using assms(3) by blast
  obtain u where u: "putmem_w h b d s = (Inr (), u)" "wf_mem u" "mview h u = mstore_w (mview h s) b d"
    using putmem_w_stored [OF assms(1,4) v0, of d] assms(2)
    by (auto simp: stored_def split: prod.splits)
  have "mview h u b = Some (ucast d)" using u(3) by (simp add: mstore_w_def)
  from getmem_w_ok [OF u(2) assms(4) this] mword_stored [OF u(3)] u(1)
  show ?thesis by (auto simp: seq_def bind_def)
qed

section \<open>The flat-memory interface\<close>

text \<open>
  What the instructions rely on: a view of the memory as a partial map from addresses to bytes,
  loads that return it and leave it alone, stores that change it at one address. Reading back a
  stored byte and the independence of distinct addresses follow from the laws.
\<close>

locale byte_memory =
  fixes ok :: "'s \<Rightarrow> bool"
    and view :: "'s \<Rightarrow> 'a \<Rightarrow> 'b option"
    and load :: "'a \<Rightarrow> ('s, 'b) eff"
    and store :: "'a \<Rightarrow> 'b \<Rightarrow> ('s, unit) eff"
  assumes load_ok: "ok s \<Longrightarrow> view s a = Some v \<Longrightarrow>
      \<exists>t. load a s = (Inr v, t) \<and> ok t \<and> view t = view s"
    and load_unmapped: "ok s \<Longrightarrow> view s a = None \<Longrightarrow>
      \<exists>e t. load a s = (Inl e, t) \<and> ok t \<and> view t = view s"
    and store_ok: "ok s \<Longrightarrow> view s a = Some v \<Longrightarrow>
      \<exists>t. store a w s = (Inr (), t) \<and> ok t \<and> view t = (view s)(a \<mapsto> w)"
begin

lemma store_load:
  assumes "ok s" and "view s a = Some v"
  shows "\<exists>t. seq (store a w) (load a) s = (Inr w, t) \<and> ok t \<and> view t = (view s)(a \<mapsto> w)"
proof -
  obtain u where u: "store a w s = (Inr (), u)" "ok u" "view u = (view s)(a \<mapsto> w)"
    using store_ok [OF assms] by blast
  then obtain t where "load a u = (Inr w, t)" "ok t" "view t = view u"
    using load_ok [of u a w] by auto
  with u show ?thesis by (simp add: seq_def bind_def)
qed

lemma store_load_other:
  assumes "ok s" and "view s a = Some v" and "view s b = Some x" and "a \<noteq> b"
  shows "\<exists>t. seq (store a w) (load b) s = (Inr x, t) \<and> ok t \<and> view t = (view s)(a \<mapsto> w)"
proof -
  obtain u where u: "store a w s = (Inr (), u)" "ok u" "view u = (view s)(a \<mapsto> w)"
    using store_ok [OF assms(1,2)] by blast
  then obtain t where "load b u = (Inr x, t)" "ok t" "view t = view u"
    using load_ok [of u b x] assms(3,4) by auto
  with u show ?thesis by (simp add: seq_def bind_def)
qed

end

interpretation mem: byte_memory "\<lambda>s. wf_mem s \<and> membpt s = 0" "mview h" "getmem_b h" "putmem_b h"
  for h
proof (unfold_locales, goal_cases)
  case (1 s a v)
  then obtain t where "getmem_b h a s = (Inr v, t)" "transparent h s t"
    using getmem_b_ok [of s h a v] by blast
  with 1 show ?case by (auto simp: transparent_def cpu_def)
next
  case (2 s a)
  then obtain e t where "getmem_b h a s = (Inl e, t)" "transparent h s t"
    using load_fails [of s h a "\<lambda>va. rd_va va (pg_off a)"] unfolding getmem_b_def by blast
  with 2 show ?case by (auto simp: transparent_def cpu_def)
next
  case (3 s a v w)
  then show ?case
    using putmem_b_stored [of s h a v w] by (auto simp: stored_def cpu_def split: prod.splits)
qed

section \<open>Properties\<close>

text \<open>
  A small memory for the witnesses: one page of stack at \<open>0x1000\<close>, not yet allocated, no
  breakpoints, the TLB on.
\<close>

definition demo_host :: host where
  "demo_host = \<lparr>h_seek = (\<lambda>_. True), h_read = (\<lambda>_. Some []), h_rand = (\<lambda>_. 0)\<rparr>"

definition demo :: arm where
  "demo = \<lparr>regs = (\<lambda>_. 0), ar = 0, instr = 0, instr_opcode = 0, cbit = False, cout = False,
     instr_cond = 0, compare_op = CCcmp, cc1 = 0, cc2 = 0,
     seg = [new_seg Stack 0x1000 0x2000 0 0], tlb_on = True, tlbent = [0], tlb_hit = 0,
     tlb_miss = 0, textbase = 0x1000, datasize = 0, iprof = [], bplist = [], count = 1,
     atbpt = False, membpt = 0, icount = (\<lambda>_. 0), errbuf = [], nofunc = 0, hostops = 0\<rparr>"

lemma demo_wf: "wf_mem demo"
  by (simp add: wf_mem_def demo_def new_seg_ok BY2PG_def)

lemma demo_mapped: "0x1000 \<le> a \<Longrightarrow> a < 0x2000 \<Longrightarrow> mview demo_host demo a = Some 0"
  by (rule mview_fresh_bss [where i = 0 and n = 1, OF demo_wf])
    (simp_all add: demo_def new_seg_def BY2PG_def)

text \<open>
  C20: in a well-formed memory, a load of a byte, an aligned half word or an
  aligned word of a mapped address returns the little-endian value of the flat view and changes
  neither the view nor the processor: page faults, the TLB and breakpoints are invisible. An
  unaligned word load is the aligned word, rotated right by eight times the low address bits.
\<close>

theorem loads_read_flat_memory:
  assumes "wf_mem s" and "mview h s a = Some b"
  shows "(\<exists>t. getmem_b h a s = (Inr b, t) \<and> transparent h s t) \<and>
    (a AND 1 = 0 \<longrightarrow> (\<exists>w t. mhalf h s a = Some w \<and> getmem_h h a s = (Inr w, t) \<and>
       transparent h s t)) \<and>
    (a AND 3 = 0 \<longrightarrow> (\<exists>w t. mword h s a = Some w \<and> getmem_w h a s = (Inr w, t) \<and>
       transparent h s t)) \<and>
    (c AND 3 \<noteq> 0 \<longrightarrow> getmem_w h c s =
       bind (getmem_w h (c AND NOT 3)) (\<lambda>w. ret (word_rotr (8 * unat (c AND 3)) w)) s)"
  using getmem_b_ok [OF assms] getmem_h_ok [OF assms(1) _ assms(2)]
    getmem_w_ok [OF assms(1) _ assms(2)] getmem_w_unaligned [of c h s] by blast

theorem loads_read_flat_memory_witness:
  "\<exists>t. getmem_b demo_host 0x1004 demo = (Inr 0, t) \<and> transparent demo_host demo t"
  using loads_read_flat_memory [OF demo_wf demo_mapped, of "0x1004"] by simp

text \<open>
  C18: a store of a byte, an aligned half word or an aligned word to a
  mapped address changes the flat view at exactly its bytes, keeps the memory well-formed and
  leaves the processor alone; without data breakpoints it returns normally and leaves the
  breakpoint state alone.
\<close>

theorem stores_update_flat_memory:
  assumes "wf_mem s" and "mview h s a = Some b"
  shows "stored h s ((mview h s)(a \<mapsto> v)) (putmem_b h a v s) \<and>
    (a AND 1 = 0 \<longrightarrow> stored h s (mstore_h (mview h s) a d) (putmem_h h a d s)) \<and>
    (a AND 3 = 0 \<longrightarrow> stored h s (mstore_w (mview h s) a e) (putmem_w h a e s))"
  using putmem_b_stored [OF assms] putmem_h_stored [OF assms(1) _ assms(2)]
    putmem_w_stored [OF assms(1) _ assms(2)] by blast

theorem stores_update_flat_memory_witness:
  "stored demo_host demo (mstore_w (mview demo_host demo) 0x1008 0x12345678)
     (putmem_w demo_host 0x1008 0x12345678 demo)"
  using stores_update_flat_memory [OF demo_wf demo_mapped, of "0x1008"] by simp

text \<open>\<open>faults h s e x\<close>: the outcome \<open>x\<close> of an access is the error jump \<open>e\<close>, with nothing changed that the
  program can see. An address is mapped with its whole page.\<close>

definition faults :: "host \<Rightarrow> arm \<Rightarrow> diagnostic \<Rightarrow> (exn + 'a) \<times> arm \<Rightarrow> bool" where
  "faults h s e x \<longleftrightarrow> (\<exists>t. x = (Inl (Errjmp e), t) \<and> transparent h s t)"

lemma drop_bit_align: "k \<le> 12 \<Longrightarrow> drop_bit 12 (a AND NOT (mask k)) = drop_bit 12 a" for a :: u64
  by (rule bit_word_eqI) (auto simp: bit_simps dest: bit_imp_le_length)

lemma unmapped_align:
  assumes "wf_mem s" and "find_seg (seg s) a = None"
  shows "find_seg (seg s) (a AND NOT 3) = None" and "find_seg (seg s) (a AND NOT 1) = None"
proof -
  have m: "find_seg (seg s) (a AND NOT (mask k)) = None" if "k \<le> 12" for k
  proof -
    have "unat (a AND NOT (mask k)) div BY2PG = unat a div BY2PG"
      using arg_cong [OF drop_bit_align [OF that], of unat a]
      by (simp only: unsigned_drop_bit_eq drop_bit_eq_div) (simp add: BY2PG_def unat_div_distrib)
    from trans [OF find_seg_page [OF assms(1) this] assms(2)] show ?thesis .
  qed
  have "mask 2 = (3 :: u64)" "mask 1 = (1 :: u64)" by (simp_all add: mask_eq_exp_minus_1)
  with m [of 2] m [of 1] show "find_seg (seg s) (a AND NOT 3) = None" "find_seg (seg s) (a AND NOT 1) = None"
    by simp_all
qed

lemma aligned_id: "a AND m = 0 \<Longrightarrow> a AND NOT m = a" for a m :: u64
proof (rule bit_word_eqI)
  fix n assume "a AND m = 0"
  then have "\<not> bit (a AND m) n" by simp
  then show "n < LENGTH(64) \<Longrightarrow> bit (a AND NOT m) n = bit a n" by (auto simp: bit_simps)
qed

lemma load_faults:
  assumes "wf_mem s" and "find_seg (seg s) a = None"
  shows "faults h s (UserTlbMiss a) (seq (if_membpt (brkchk_rd a)) (bind (page_of_vaddr h a) k) s)"
  using load_fails [OF assms(1), of h a k] assms(2) by (auto simp: faults_def mview_def)

lemma store_faults:
  assumes "wf_mem s" and "find_seg (seg s) a = None"
  shows "faults h s (UserTlbMiss a) (seq (bind (page_of_vaddr h a) k) k' s)"
  using store_fails [OF assms(1), of h a k k'] assms(2) by (auto simp: faults_def mview_def)

lemma faults_bind: "faults h s e (m s) \<Longrightarrow> faults h s e (bind m k s)"
  by (auto simp: faults_def bind_def)

lemma ifetch_faults:
  assumes "wf_mem s" and "find_seg (seg s) a = None" and "a AND 3 = 0"
  shows "faults h s (UserTlbMiss a) (ifetch h a s)"
proof -
  obtain f where f: "ifetch h a = seq (modify f) (bind (page_of_vaddr h a) (\<lambda>va. rd_word va (pg_off a)))"
    and same: "\<And>s. seg (f s) = seg s" "\<And>s. cpu (f s) = cpu s"
    using assms(3) by (auto simp: ifetch_def cpu_def Let_def)
  have tr: "transparent h s (f s)" by (rule transparent_cong) (simp_all add: same)
  have "wf_mem (f s)" "find_seg (seg (f s)) a = None" using assms(1,2) by (simp_all add: wf_mem_def same)
  from store_faults [OF this, of h "\<lambda>va. rd_word va (pg_off a)" "\<lambda>s. (Inr (), s)"]
  have "faults h (f s) (UserTlbMiss a) (bind (page_of_vaddr h a) (\<lambda>va. rd_word va (pg_off a)) (f s))"
    by (auto simp: faults_def seq_def bind_def split: prod.splits sum.splits)
  then show ?thesis using tr.trans [OF tr] by (auto simp: faults_def f seq_def bind_def modify_def)
qed

text \<open>
  C40: a load or a store of a byte, half word or word and an instruction fetch at an
  address that no segment maps leave through the error jump with ``User TLB miss'' and change nothing that
  the program can see; the address reported by a load is the aligned one. A misaligned store of a half word
  or word and a misaligned instruction fetch leave with an address error, mapped or not, and change nothing at
  all.
\<close>

theorem unmapped_access_faults:
  assumes "wf_mem s" and "find_seg (seg s) a = None"
  shows "faults h s (UserTlbMiss a) (getmem_b h a s) \<and>
    faults h s (UserTlbMiss (a AND NOT 1)) (getmem_h h a s) \<and>
    faults h s (UserTlbMiss (a AND NOT 3)) (getmem_w h a s) \<and>
    faults h s (UserTlbMiss a) (putmem_b h a b s) \<and>
    (a AND 1 = 0 \<longrightarrow> faults h s (UserTlbMiss a) (putmem_h h a u s)) \<and>
    (a AND 3 = 0 \<longrightarrow> faults h s (UserTlbMiss a) (putmem_w h a w s) \<and> faults h s (UserTlbMiss a) (ifetch h a s)) \<and>
    (c AND 1 \<noteq> 0 \<longrightarrow> putmem_h h c u s = (Inl (Errjmp (AddressError c)), s)) \<and>
    (c AND 3 \<noteq> 0 \<longrightarrow> putmem_w h c w s = (Inl (Errjmp (AddressError c)), s) \<and>
       ifetch h c s = (Inl (Errjmp (AddressError c)), s))"
proof (intro conjI impI)
  note pg = unmapped_align [OF assms] and id = aligned_id [of a 1] aligned_id [of a 3]
  show "faults h s (UserTlbMiss a) (getmem_b h a s)" unfolding getmem_b_def by (rule load_faults [OF assms])
  show "faults h s (UserTlbMiss (a AND NOT 1)) (getmem_h h a s)"
    using load_faults [OF assms(1) pg(2)] id(1) by (auto simp: getmem_h_def getmem_h_aligned_def intro!: faults_bind)
  show "faults h s (UserTlbMiss (a AND NOT 3)) (getmem_w h a s)"
    using load_faults [OF assms(1) pg(1)] id(2) by (auto simp: getmem_w_def getmem_w_aligned_def intro!: faults_bind)
  show "faults h s (UserTlbMiss a) (putmem_b h a b s)" unfolding putmem_b_def by (rule store_faults [OF assms])
  show "faults h s (UserTlbMiss a) (putmem_h h a u s)" if "a AND 1 = 0"
    using store_faults [OF assms] that by (simp add: putmem_h_def)
  show "faults h s (UserTlbMiss a) (putmem_w h a w s)" if "a AND 3 = 0"
    using store_faults [OF assms] that by (simp add: putmem_w_def)
  show "faults h s (UserTlbMiss a) (ifetch h a s)" if "a AND 3 = 0"
    using ifetch_faults [OF assms that] .
qed (simp_all add: putmem_h_def putmem_w_def ifetch_def)

theorem unmapped_access_faults_witness:
  "faults demo_host demo (UserTlbMiss 0x2000) (getmem_w demo_host 0x2003 demo) \<and>
   faults demo_host demo (UserTlbMiss 0x2000) (putmem_w demo_host 0x2000 7 demo) \<and>
   faults demo_host demo (UserTlbMiss 0x2000) (ifetch demo_host 0x2000 demo)"
proof -
  have u: "find_seg (seg demo) 0x2000 = None" "find_seg (seg demo) 0x2003 = None" by (simp_all add: demo_def new_seg_def)
  show ?thesis
    using unmapped_access_faults [OF demo_wf u(1), of demo_host] unmapped_access_faults [OF demo_wf u(2), of demo_host] by simp
qed

text \<open>
  A stored word and a stored byte are read back; a byte store does not
  disturb another address; and a buffer copied in with \<^verbatim>\<open>memio(MemWrite)\<close> is what
  \<^verbatim>\<open>memio(MemRead)\<close> copies out.
\<close>

theorem memory_roundtrips:
  assumes "wf_mem s" and "membpt s = 0" and "length bs \<le> 2 ^ 64"
    and "\<And>k. k < length bs \<Longrightarrow> mview h s (a + of_nat k) \<noteq> None"
  shows "(\<exists>t. seq (memio_write h a bs) (memio_read h a (length bs)) s = (Inr bs, t)) \<and>
    (mview h s b \<noteq> None \<longrightarrow> (\<exists>t. seq (putmem_b h b v) (getmem_b h b) s = (Inr v, t))) \<and>
    (mview h s b \<noteq> None \<and> mview h s c = Some x \<and> b \<noteq> c \<longrightarrow>
       (\<exists>t. seq (putmem_b h b v) (getmem_b h c) s = (Inr x, t))) \<and>
    (mview h s b \<noteq> None \<and> b AND 3 = 0 \<longrightarrow>
       (\<exists>t. seq (putmem_w h b d) (getmem_w h b) s = (Inr (ucast d), t)))"
proof (intro conjI impI)
  obtain t where t: "memio_write h a bs s = (Inr (), t)" "wf_mem t"
      "mview h t = mstores (mview h s) a bs"
    using memio_write_stored [of s bs h a] assms by blast
  have "\<And>k. k < length bs \<Longrightarrow> mview h t (a + of_nat k) = Some (bs ! k)"
    using mstores_inside assms(3) t(3) by simp
  from memio_read_ok [OF t(2) this]
  show "\<exists>t. seq (memio_write h a bs) (memio_read h a (length bs)) s = (Inr bs, t)"
    using t(1) by (auto simp: seq_def bind_def)
  show "\<exists>t. seq (putmem_b h b v) (getmem_b h b) s = (Inr v, t)" if "mview h s b \<noteq> None"
    using mem.store_load [of s h b] assms(1,2) that by blast
  show "\<exists>t. seq (putmem_b h b v) (getmem_b h c) s = (Inr x, t)"
    if "mview h s b \<noteq> None \<and> mview h s c = Some x \<and> b \<noteq> c"
    using mem.store_load_other [of s h b _ c x] assms(1,2) that by blast
  show "\<exists>t. seq (putmem_w h b d) (getmem_w h b) s = (Inr (ucast d), t)"
    if b: "mview h s b \<noteq> None \<and> b AND 3 = 0"
    using putmem_w_getmem_w [of s h b d] assms(1,2) that by blast
qed

theorem memory_roundtrips_witness:
  "\<exists>t. seq (memio_write demo_host 0x1ff0 [1, 2, 3]) (memio_read demo_host 0x1ff0 3) demo =
     (Inr [1, 2, 3], t)"
proof -
  have "mview demo_host demo (0x1ff0 + of_nat k) \<noteq> None" if "k < length [1, 2, 3 :: u8]" for k
  proof -
    have "k = 0 \<or> k = 1 \<or> k = 2" using that by auto
    then show ?thesis by (elim disjE) (simp_all add: demo_mapped)
  qed
  note mapped = this
  have mb: "membpt demo = 0" by (simp add: demo_def)
  have len: "length [1, 2, 3 :: u8] \<le> 2 ^ 64" and l3: "length [1, 2, 3 :: u8] = 3" by simp_all
  show ?thesis
    using conjunct1 [OF memory_roundtrips [where h = demo_host and a = "0x1ff0", OF demo_wf mb len mapped]]
    unfolding l3 by blast
qed

text \<open>
  For a header whose text segment starts on a page and whose sizes stay
  below \<open>2^48\<close>, \<^verbatim>\<open>initmemory\<close> builds a well-formed memory in which text, data and bss are
  contiguous and page-aligned, and the program counter is the entry point.
\<close>

theorem initmemory_well_formed:
  assumes "hdrsz f \<le> txtaddr f" and "unat (txtaddr f - hdrsz f) mod BY2PG = 0"
    and "unat (txtaddr f) + unat (txtsz f) + unat (datsz f) + unat (bsssz f) < 2 ^ 48"
  shows "wf_mem (initmemory f s) \<and>
    (\<exists>t d b. layout (initmemory f s) =
       [(txtaddr f - hdrsz f, t), (t, d), (d, b), (STACKTOP - STACKSIZE, STACKTOP)]) \<and>
    regs (initmemory f s) 15 = ucast (entry f)"
  using initmemory_wf [OF assms]
  by (auto simp: initmemory_def Let_def layout_def new_seg_def)

theorem initmemory_well_formed_witness:
  "wf_mem (initmemory \<lparr>txtaddr = 0x1020, txtsz = 0x300, txtoff = 32, hdrsz = 32, datsz = 0x80,
     datoff = 0x320, bsssz = 0x2000, entry = 0x1020\<rparr> demo)"
  using initmemory_well_formed [of "\<lparr>txtaddr = 0x1020, txtsz = 0x300, txtoff = 32, hdrsz = 32,
     datsz = 0x80, datoff = 0x320, bsssz = 0x2000, entry = 0x1020\<rparr>" demo]
  by (simp add: BY2PG_def)

text \<open>
  With one read breakpoint set, every load of its address counts it down,
  and the load that brings it to zero rearms it, asks \<^verbatim>\<open>run\<close> to stop after this instruction
  and still returns the value.
\<close>

theorem read_breakpoint_fires:
  assumes "wf_mem s" and "mview h s a = Some v" and "bplist s = [b]" and "bp_addr b = a"
    and "bp_type b = BRead" and "membpt s \<noteq> 0"
  shows "\<exists>t. getmem_b h a s = (Inr v, t) \<and>
    bps t = (if bp_done b = 1 then ([b\<lparr>bp_done := bp_count b\<rparr>], 1, True)
             else ([b\<lparr>bp_done := bp_done b - 1\<rparr>], count s, atbpt s))"
  using assms by (rule read_breakpoint)

theorem read_breakpoint_fires_witness:
  "\<exists>t. getmem_b demo_host 0x1010 (breakpoint (CHR ''r'') 0x1010 1 demo) = (Inr 0, t) \<and>
     count t = 1 \<and> atbpt t"
proof -
  let ?s = "breakpoint (CHR ''r'') 0x1010 1 demo"
  let ?b = "\<lparr>bp_type = BRead, bp_addr = 0x1010, bp_count = 1, bp_done = 1\<rparr>"
  have sg: "seg ?s = seg demo" by (simp add: breakpoint_def)
  have wf: "wf_mem ?s" using demo_wf by (simp only: wf_mem_def sg)
  have mv: "mview demo_host ?s 0x1010 = Some 0"
    using demo_mapped [of "0x1010"] by (simp only: mview_def sg) simp
  have bl: "bplist ?s = [?b]" and mb: "membpt ?s \<noteq> 0"
    by (simp_all add: breakpoint_def demo_def)
  have "bp_addr ?b = 0x1010" "bp_type ?b = BRead" by simp_all
  from read_breakpoint_fires [OF wf mv bl this mb] show ?thesis by (auto simp: bps_def)
qed

text \<open>
  Deleting a data breakpoint removes it from the list but counts
  \<^verbatim>\<open>membpt\<close> up once more instead of down, so the breakpoint checks stay switched on.
\<close>

theorem delbpt_counts_up:
  assumes "c \<in> {CHR ''r'', CHR ''a'', CHR ''w'', CHR ''e''}"
  shows "bplist (delbpt a (breakpoint c a n s)) = bplist s \<and>
    membpt (delbpt a (breakpoint c a n s)) = membpt s + 2"
  using delbpt_breakpoint [OF assms] by blast

theorem delbpt_counts_up_witness:
  "bplist (delbpt 8 (breakpoint (CHR ''r'') 8 1 demo)) = [] \<and>
   membpt (delbpt 8 (breakpoint (CHR ''r'') 8 1 demo)) = 2"
  using delbpt_counts_up [of "CHR ''r''" 8 1 demo] by (simp add: demo_def)

text \<open>
  \<^verbatim>\<open>getmem_2\<close> assembles its two bytes eight bits too high: a little-endian
  half word would be \<open>b0 + 256 * b1\<close>.
\<close>

theorem getmem_2_shifted:
  assumes "wf_mem s" and "mview h s a = Some b0" and "mview h s (a + 1) = Some b1"
  shows "\<exists>t. getmem_2 h a s = (Inr (push_bit 8 (ucast b0) OR push_bit 16 (ucast b1)), t)"
  using getmem_2_ok [OF assms] by blast

theorem getmem_2_shifted_witness: "\<exists>t. getmem_2 demo_host 0x1000 demo = (Inr 0, t)"
  using getmem_2_shifted [OF demo_wf, of demo_host "0x1000" 0 0] demo_mapped by simp

end
