(* ===== verification/Arm_Run.thy ===== *)
theory Arm_Run
  imports Arm_Mem
begin

text \<open>
  The instruction interpreter of the ARM emulator \<^verbatim>\<open>5i\<close> (\<^verbatim>\<open>machines/5i/run.c\<close>): the
  decoder \<^verbatim>\<open>arm_class\<close>, the dispatch table \<^verbatim>\<open>itab\<close>, the conditions, the barrel shifter,
  every instruction handler and the loop \<^verbatim>\<open>run\<close>. \<^verbatim>\<open>trace\<close> and \<^verbatim>\<open>calltree\<close>, which only
  print, are off. The system calls are a table of computations, the argument \<open>systab\<close>.

  The C \<^verbatim>\<open>int\<close> offsets are 32-bit words with wrap-around; \<^verbatim>\<open>ulong\<close> addresses and values are
  64 bits wide. A shift of a 32-bit value by 32 or more, or by a negative count, is \<open>Undefined\<close>.
\<close>

section \<open>Decoding\<close>

abbreviation (input) OAND :: nat where "OAND \<equiv> 0"
abbreviation (input) OEOR :: nat where "OEOR \<equiv> 1"
abbreviation (input) OSUB :: nat where "OSUB \<equiv> 2"
abbreviation (input) ORSB :: nat where "ORSB \<equiv> 3"
abbreviation (input) OADD :: nat where "OADD \<equiv> 4"
abbreviation (input) OADC :: nat where "OADC \<equiv> 5"
abbreviation (input) OSBC :: nat where "OSBC \<equiv> 6"
abbreviation (input) ORSC :: nat where "ORSC \<equiv> 7"
abbreviation (input) OTST :: nat where "OTST \<equiv> 8"
abbreviation (input) OTEQ :: nat where "OTEQ \<equiv> 9"
abbreviation (input) OCMP :: nat where "OCMP \<equiv> 10"
abbreviation (input) OCMN :: nat where "OCMN \<equiv> 11"
abbreviation (input) OORR :: nat where "OORR \<equiv> 12"
abbreviation (input) OMOV :: nat where "OMOV \<equiv> 13"
abbreviation (input) OBIC :: nat where "OBIC \<equiv> 14"
abbreviation (input) OMVN :: nat where "OMVN \<equiv> 15"
abbreviation (input) CARITH1 :: nat where "CARITH1 \<equiv> 16"
abbreviation (input) CARITH2 :: nat where "CARITH2 \<equiv> 32"
abbreviation (input) CARITH3 :: nat where "CARITH3 \<equiv> 48"
abbreviation (input) OMUL :: nat where "OMUL \<equiv> 64"
abbreviation (input) OMULA :: nat where "OMULA \<equiv> 65"
abbreviation (input) CMUL :: nat where "CMUL \<equiv> 64"
abbreviation (input) OMULAL :: nat where "OMULAL \<equiv> 69"
abbreviation (input) CMEM_BASIS :: nat where "CMEM_BASIS \<equiv> 70"
abbreviation (input) CMEM0 :: nat where "CMEM0 \<equiv> 0"
abbreviation (input) CMEM1 :: nat where "CMEM1 \<equiv> 4"
abbreviation (input) CMEM2 :: nat where "CMEM2 \<equiv> 8"
abbreviation (input) OLDH :: nat where "OLDH \<equiv> 78"
abbreviation (input) OSTBU :: nat where "OSTBU \<equiv> 81"
abbreviation (input) OSWPW :: nat where "OSWPW \<equiv> 82"
abbreviation (input) OSWPBU :: nat where "OSWPBU \<equiv> 83"
abbreviation (input) CBLOC :: nat where "CBLOC \<equiv> 84"
abbreviation (input) OSTM :: nat where "OSTM \<equiv> 85"
abbreviation (input) CBRANCH :: nat where "CBRANCH \<equiv> 86"
abbreviation (input) OB :: nat where "OB \<equiv> 86"
abbreviation (input) OBL :: nat where "OBL \<equiv> 87"
abbreviation (input) OSWI :: nat where "OSWI \<equiv> 88"
abbreviation (input) OUNDEF :: nat where "OUNDEF \<equiv> 89"

abbreviation (input) REGARG :: nat where "REGARG \<equiv> 0"
abbreviation (input) REGLINK :: nat where "REGLINK \<equiv> 14"
abbreviation (input) REGPC :: nat where "REGPC \<equiv> 15"

text \<open>\<^verbatim>\<open>inst & (1<<k)\<close> as a condition is \<open>bit inst k\<close>; \<^verbatim>\<open>(inst>>k) & 0xf\<close> is \<open>fld k inst\<close>.\<close>

definition fld :: "nat \<Rightarrow> u32 \<Rightarrow> nat" where
  "fld k inst = unat (drop_bit k inst AND 0xf)"

definition arm_class :: "u32 \<Rightarrow> nat" where
  "arm_class w =
     (let cls = unat (drop_bit 25 w AND 7) in
      if cls = 0 then
        (let x = drop_bit 4 w AND 0xf in
         if x = 9 then
           (if bit w 24 then (if bit w 22 then OSWPBU else OSWPW)
            else
              (let op = (if bit w 23 then (if bit w 22 then CMUL + 4 else CMUL + 2) else CMUL)
               in if bit w 21 then op + 1 else op))
         else if x AND 9 = 9 then
           CMEM_BASIS + CMEM2 + unat (drop_bit 22 w AND 1) + unat (drop_bit 19 w AND 2)
         else
           (let op = fld 21 w in
            if bit w 4 then op + CARITH2
            else if w AND push_bit 7 31 \<noteq> 0 \<or> bit w 5 then op + CARITH1
            else op))
      else if cls = 1 then CARITH3 + fld 21 w
      else if cls = 2 then
        CMEM_BASIS + CMEM0 + unat (drop_bit 22 w AND 1) + unat (drop_bit 19 w AND 2)
      else if cls = 3 then
        CMEM_BASIS + CMEM1 + unat (drop_bit 22 w AND 1) + unat (drop_bit 19 w AND 2)
      else if cls = 4 then CBLOC + unat (drop_bit 20 w AND 1)
      else if cls = 5 then CBRANCH + unat (drop_bit 24 w AND 1)
      else if cls = 7 then (if drop_bit 25 w AND 1 \<noteq> 0 then OSWI else OUNDEF)
      else OUNDEF)"

section \<open>Conditions\<close>

definition undef :: "u32 \<Rightarrow> (arm, 'a) eff" where
  "undef inst = raise (Errjmp (UndefInstr inst))"

definition runcmp :: "(arm, bool) eff" where
  "runcmp = bind (gets id) (\<lambda>s.
     let c = instr_cond s; a = cc1 s; b = cc2 s in
     if c = 0 then ret (a = b)
     else if c = 1 then ret (a \<noteq> b)
     else if c = 2 then ret (a \<ge> b)
     else if c = 3 then ret (a < b)
     else if c = 4 then ret (drop_bit 31 (a - b) AND 1 \<noteq> 0)
     else if c = 5 then ret (\<not> (drop_bit 31 (a - b) AND 1 \<noteq> 0))
     else if c = 8 then ret (a > b)
     else if c = 9 then ret (a \<le> b)
     else if c = 0xa then ret (sint a \<ge> sint b)
     else if c = 0xb then ret (sint a < sint b)
     else if c = 0xc then ret (sint a > sint b)
     else if c = 0xd then ret (sint a \<le> sint b)
     else if c = 0xe then ret True
     else if c = 0xf then ret False
     else undef (instr s))"

definition SIGNBIT :: u32 where "SIGNBIT = 0x80000000"

definition runteq :: "(arm, bool) eff" where
  "runteq = bind (gets id) (\<lambda>s.
     let c = instr_cond s; res = cc1 s XOR cc2 s in
     if c = 0 then ret (res = 0)
     else if c = 1 then ret (res \<noteq> 0)
     else if c = 4 then ret (res AND SIGNBIT \<noteq> 0)
     else if c = 5 then ret (res AND SIGNBIT = 0)
     else if c = 0xe then ret True
     else if c = 0xf then ret False
     else undef (instr s))"

definition runtst :: "(arm, bool) eff" where
  "runtst = bind (gets id) (\<lambda>s.
     let c = instr_cond s; res = cc1 s AND cc2 s in
     if c = 0 then ret (res = 0)
     else if c = 1 then ret (res \<noteq> 0)
     else if c = 4 then ret (res AND SIGNBIT \<noteq> 0)
     else if c = 5 then ret (res AND SIGNBIT = 0)
     else if c = 0xe then ret True
     else if c = 0xf then ret False
     else undef (instr s))"

text \<open>The \<^verbatim>\<open>switch(reg.compare_op)\<close> of \<^verbatim>\<open>run\<close>.\<close>

definition run_cond :: "(arm, bool) eff" where
  "run_cond = bind (gets compare_op) (\<lambda>c.
     case c of CCcmp \<Rightarrow> runcmp | CCteq \<Rightarrow> runteq | CCtst \<Rightarrow> runtst)"

section \<open>Data processing\<close>

definition setr :: "nat \<Rightarrow> u32 \<Rightarrow> arm \<Rightarrow> arm" where
  "setr i v s = s\<lparr>regs := (regs s)(i := v)\<rparr>"

definition set_cout :: "bool \<Rightarrow> (arm, unit) eff" where
  "set_cout b = modify (\<lambda>s. s\<lparr>cout := b\<rparr>)"

definition set_cc :: "u32 \<Rightarrow> u32 \<Rightarrow> compare_op \<Rightarrow> arm \<Rightarrow> arm" where
  "set_cc a b c s = s\<lparr>cc1 := a, cc2 := b, compare_op := c\<rparr>"

definition shift :: "u32 \<Rightarrow> nat \<Rightarrow> int \<Rightarrow> bool \<Rightarrow> (arm, u32) eff" where
  "shift v st sc isreg =
     bind (gets cbit) (\<lambda>cb.
     if sc = 0 then
       (if st = 0 then seq (set_cout cb) (ret v)
        else if st = 1 then seq (set_cout (drop_bit 31 v AND 1 \<noteq> 0)) (ret v)
        else if st = 2 then seq (set_cout cb) (ret v)
        else if isreg then seq (set_cout cb) (ret v)
        else seq (set_cout (v AND 1 \<noteq> 0)) (ret (drop_bit 1 v OR push_bit 31 (of_bool cb))))
     else if st = 2 \<and> sc \<ge> 32 then
       seq (set_cout (drop_bit 31 v AND 1 \<noteq> 0)) (ret (if drop_bit 31 v AND 1 \<noteq> 0 then 0xFFFFFFFF else 0))
     else if \<not> (0 < sc \<and> sc < 32) then raise Undefined
     else
       (let n = nat sc in
        if st = 0 then seq (set_cout (drop_bit (32 - n) v AND 1 \<noteq> 0)) (ret (push_bit n v))
        else if st = 1 then seq (set_cout (drop_bit (n - 1) v AND 1 \<noteq> 0)) (ret (drop_bit n v))
        else if st = 2 then seq (set_cout (drop_bit (n - 1) v AND 1 \<noteq> 0)) (ret (signed_drop_bit n v))
        else seq (set_cout (drop_bit (n - 1) v AND 1 \<noteq> 0))
               (ret (push_bit (32 - n) v OR drop_bit n v))))"

definition dpex :: "u32 \<Rightarrow> u32 \<Rightarrow> u32 \<Rightarrow> nat \<Rightarrow> (arm, unit) eff" where
  "dpex inst o1 o2 rd =
     (let op = fld 21 inst; Sbit = bit inst 20;
          logic = (\<lambda>v. seq (modify (setr rd v))
                     (onlyif Sbit (modify (\<lambda>s. set_cc (regs s rd) 0 CCcmp (s\<lparr>cbit := cout s\<rparr>)))))
      in
      if op = OAND then logic (o1 AND o2)
      else if op = OORR then logic (o1 OR o2)
      else if op = OEOR then logic (o1 XOR o2)
      else if op = OBIC then logic (o1 AND NOT o2)
      else if op = OADD then
        seq (modify (setr rd (o1 + o2)))
          (onlyif Sbit
            (seq (modify (\<lambda>s. s\<lparr>cbit := ((ucast o1 :: u64) + ucast o2) AND push_bit 32 1 \<noteq> 0\<rparr>))
                 (modify (set_cc o2 (- o1) CCcmp))))
      else if op = OCMN then onlyif Sbit (modify (set_cc o1 (- o2) CCcmp))
      else if op = ORSB then
        seq (modify (setr rd (o2 - o1))) (onlyif Sbit (modify (set_cc o2 o1 CCcmp)))
      else if op = OADC \<or> op = OSBC \<or> op = ORSC then undef inst
      else if op = OMOV then logic o2
      else if op = OMVN then logic (NOT o2)
      else if op = OSUB then
        seq (modify (setr rd (o1 - o2))) (onlyif Sbit (modify (set_cc o1 o2 CCcmp)))
      else if op = OCMP then onlyif Sbit (modify (set_cc o1 o2 CCcmp))
      else if op = OTST then onlyif Sbit (modify (set_cc o1 o2 CCtst))
      else onlyif Sbit (modify (set_cc o1 o2 CCteq)))"

text \<open>\<^verbatim>\<open>o = reg.r[i]; if(i == REGPC) o += 8;\<close> and \<^verbatim>\<open>if(rd == REGPC) reg.r[rd] -= 4;\<close>\<close>

definition operand :: "nat \<Rightarrow> arm \<Rightarrow> u32" where
  "operand i s = (if i = REGPC then regs s i + 8 else regs s i)"

definition compensate :: "nat \<Rightarrow> (arm, unit) eff" where
  "compensate rd = onlyif (rd = REGPC) (modify (\<lambda>s. setr rd (regs s rd - 4) s))"

definition Idp0 :: "u32 \<Rightarrow> (arm, unit) eff" where
  "Idp0 inst =
     (let rn = fld 16 inst; rd = fld 12 inst; rm = fld 0 inst in
      bind (gets (operand rn)) (\<lambda>o1. bind (gets (operand rm)) (\<lambda>o2.
        seq (dpex inst o1 o2 rd) (compensate rd))))"

definition Idp1 :: "u32 \<Rightarrow> (arm, unit) eff" where
  "Idp1 inst =
     (let rn = fld 16 inst; rd = fld 12 inst; rm = fld 0 inst;
          st = unat (drop_bit 5 inst AND 3); sc = uint (drop_bit 7 inst AND 0x1f) in
      bind (gets (operand rn)) (\<lambda>o1. bind (gets (operand rm)) (\<lambda>o2.
        bind (shift o2 st sc False) (\<lambda>o2.
          seq (dpex inst o1 o2 rd) (compensate rd)))))"

definition Idp2 :: "u32 \<Rightarrow> (arm, unit) eff" where
  "Idp2 inst =
     (let rn = fld 16 inst; rd = fld 12 inst; rm = fld 0 inst;
          st = unat (drop_bit 5 inst AND 3); rs = fld 8 inst in
      bind (gets (operand rn)) (\<lambda>o1. bind (gets (operand rm)) (\<lambda>o2. bind (gets (operand rs)) (\<lambda>o3.
        bind (shift o2 st (sint o3) True) (\<lambda>o2.
          seq (dpex inst o1 o2 rd) (compensate rd))))))"

definition Idp3 :: "u32 \<Rightarrow> (arm, unit) eff" where
  "Idp3 inst =
     (let rn = fld 16 inst; rd = fld 12 inst;
          o2 = inst AND 0xff; sc = unat (drop_bit 7 inst AND 0x1e);
          o2 = (if sc \<noteq> 0 then drop_bit sc o2 OR push_bit (32 - sc) o2 else o2) in
      bind (gets (operand rn)) (\<lambda>o1. seq (dpex inst o1 o2 rd) (compensate rd)))"

section \<open>Multiplication\<close>

definition Imul :: "u32 \<Rightarrow> (arm, unit) eff" where
  "Imul inst =
     (let rd = fld 16 inst; rs = fld 8 inst; rm = fld 0 inst in
      seq (onlyif (rd = REGPC \<or> rs = REGPC \<or> rm = REGPC \<or> rd = rm) (undef inst))
        (modify (\<lambda>s. setr rd (regs s rm * regs s rs) s)))"

definition Imull :: "u32 \<Rightarrow> (arm, unit) eff" where
  "Imull inst =
     (let rd = fld 16 inst; rn = fld 12 inst; rs = fld 8 inst; rm = fld 0 inst in
      seq (onlyif (rd = REGPC \<or> rn = REGPC \<or> rs = REGPC \<or> rm = REGPC \<or>
                   rd = rm \<or> rn = rm \<or> rd = rn) (undef inst))
       (bind (gets regs) (\<lambda>r.
          let v = (if bit inst 22
                   then (scast (r rm) * scast (r rs) :: u64) +
                        (if bit inst 21 then scast (r rn) else 0)
                   else (ucast (r rm) * ucast (r rs) :: u64) +
                        (if bit inst 21 then ucast (r rn) else 0))
          in seq (modify (setr rd (ucast (signed_drop_bit 32 v)))) (modify (setr rn (ucast v))))))"

definition Imula :: "u32 \<Rightarrow> (arm, unit) eff" where
  "Imula inst =
     (let rd = fld 16 inst; rn = fld 12 inst; rs = fld 8 inst; rm = fld 0 inst in
      seq (onlyif (rd = REGPC \<or> rn = REGPC \<or> rs = REGPC \<or> rm = REGPC \<or> rd = rm) (undef inst))
        (modify (\<lambda>s. setr rd (regs s rm * regs s rs + regs s rn) s)))"

section \<open>Memory instructions\<close>

definition Iswap :: "host \<Rightarrow> u32 \<Rightarrow> (arm, unit) eff" where
  "Iswap h inst =
     (let rn = fld 16 inst; rd = fld 12 inst; rm = fld 0 inst in
      bind (gets (\<lambda>s. ucast (regs s rn))) (\<lambda>address.
      bind (if bit inst 22 then
              bind (getmem_b h address) (\<lambda>value.
                seq (bind (gets (\<lambda>s. ucast (regs s rm))) (putmem_b h address)) (ret (ucast value)))
            else
              bind (getmem_w h address) (\<lambda>value.
                seq (bind (gets (\<lambda>s. ucast (regs s rm))) (putmem_w h address)) (ret value)))
        (\<lambda>value. modify (setr rd value))))"

definition Imem1 :: "host \<Rightarrow> u32 \<Rightarrow> (arm, unit) eff" where
  "Imem1 h inst =
     (let bit25 = bit inst 25; prebit = bit inst 24; ubit = bit inst 23;
          bbit = bit inst 22; wbit = bit inst 21; lbit = bit inst 20;
          rn = fld 16 inst; rd = fld 12 inst in
      bind (if bit25 then
              (let rm = fld 0 inst; st = unat (drop_bit 5 inst AND 3);
                   sc = uint (drop_bit 7 inst AND 0x1f) in
               bind (gets (operand rm)) (\<lambda>off. shift off st sc False))
            else ret (inst AND 0xfff)) (\<lambda>off.
      let off = (if \<not> ubit then - off else off);
          off = (if rn = REGPC then off + 8 else off) in
      bind (gets (\<lambda>s. (ucast (regs s rn) :: u64) + (if prebit then scast off else 0))) (\<lambda>address.
      seq (if lbit then
             bind (if bbit then bind (getmem_b h address) (\<lambda>b. ret (ucast b))
                   else bind (getmem_w h address) (\<lambda>w. ret (ucast w))) (\<lambda>value :: u64.
               modify (setr rd (ucast (if rd = REGPC then value - 4 else value))))
           else
             bind (gets (\<lambda>s. ucast (regs s rd))) (\<lambda>value :: u64.
               let value = (if rd = REGPC then value - 4 else value) in
               if bbit then putmem_b h address (ucast value) else putmem_w h address value))
        (onlyif (\<not> prebit \<or> wbit) (modify (\<lambda>s. setr rn (regs s rn + off) s))))))"

definition Imem2 :: "host \<Rightarrow> u32 \<Rightarrow> (arm, unit) eff" where
  "Imem2 h inst =
     (let prebit = bit inst 24; ubit = bit inst 23; bit22 = bit inst 22;
          wbit = bit inst 21; lbit = bit inst 20; sbit = bit inst 6; hbit = bit inst 5;
          rn = fld 16 inst; rd = fld 12 inst in
      bind (if bit22 then ret ((drop_bit 4 inst AND 0xf0) OR (inst AND 0xf))
            else gets (operand (fld 0 inst))) (\<lambda>off.
      let off = (if \<not> ubit then - off else off);
          off = (if rn = REGPC then off + 8 else off) in
      bind (gets (\<lambda>s. (ucast (regs s rn) :: u64) + (if prebit then scast off else 0))) (\<lambda>address.
      seq (if lbit then
             bind (if hbit then
                     bind (getmem_h h address) (\<lambda>w. let value = ucast w in
                       ret (if sbit \<and> value AND 0x8000 \<noteq> 0 then value OR 0xffff0000 else value))
                   else
                     bind (getmem_b h address) (\<lambda>b. let value = ucast b in
                       ret (if value AND 0x80 \<noteq> 0 then value OR 0xffffff00 else value)))
               (\<lambda>value :: u64. modify (setr rd (ucast (if rd = REGPC then value - 4 else value))))
           else
             bind (gets (\<lambda>s. ucast (regs s rd))) (\<lambda>value :: u64.
               let value = (if rd = REGPC then value - 4 else value) in
               if hbit then putmem_h h address (ucast value) else putmem_b h address (ucast value)))
        (onlyif (\<not> prebit \<or> wbit) (modify (\<lambda>s. setr rn (regs s rn + off) s))))))"

text \<open>The loops of \<^verbatim>\<open>Ilsm\<close> over the registers, upwards or downwards; the last address is returned.\<close>

primrec lsm_loop ::
  "host \<Rightarrow> bool \<Rightarrow> bool \<Rightarrow> u64 \<Rightarrow> u64 \<Rightarrow> u32 \<Rightarrow> nat list \<Rightarrow> u64 \<Rightarrow> (arm, u64) eff" where
  "lsm_loop h lbit ubit predelta postdelta reglist [] address = ret address"
| "lsm_loop h lbit ubit predelta postdelta reglist (i # is) address =
     (if \<not> bit reglist i then lsm_loop h lbit ubit predelta postdelta reglist is address
      else
        (let address = (if ubit then address + predelta else address - predelta) in
         seq (if lbit then bind (getmem_w h address) (\<lambda>w. modify (setr i w))
              else bind (gets (\<lambda>s. ucast (regs s i))) (putmem_w h address))
           (lsm_loop h lbit ubit predelta postdelta reglist is
              (if ubit then address + postdelta else address - postdelta))))"

definition Ilsm :: "host \<Rightarrow> u32 \<Rightarrow> (arm, unit) eff" where
  "Ilsm h inst =
     (let prebit = bit inst 24; ubit = bit inst 23; sbit = bit inst 22; wbit = bit inst 21;
          lbit = bit inst 20; rn = fld 16 inst; reglist = inst AND 0xffff in
      seq (onlyif (reglist AND 0x8000 \<noteq> 0) (bind (gets instr) undef))
     (seq (onlyif sbit (bind (gets instr) undef))
       (bind (gets (\<lambda>s. ucast (regs s rn))) (\<lambda>address.
          let (predelta, postdelta) = (if prebit then (4, 0) else (0, 4)) in
          bind (lsm_loop h lbit ubit predelta postdelta reglist
                  (if ubit then [0..<16] else rev [0..<16]) address) (\<lambda>address.
            onlyif wbit (modify (setr rn (ucast address))))))))"

section \<open>Branches and system calls\<close>

definition branch_target :: "u32 \<Rightarrow> arm \<Rightarrow> u64" where
  "branch_target inst s =
     (let v = (ucast (inst AND 0xffffff) :: u64);
          v = (if v AND 0x800000 \<noteq> 0 then v OR NOT 0xffffff else v)
      in ucast (regs s REGPC) + push_bit 2 v + 8)"

definition Ib :: "u32 \<Rightarrow> (arm, unit) eff" where
  "Ib inst = bind (gets (branch_target inst)) (\<lambda>v. modify (setr REGPC (ucast (v - 4))))"

definition Ibl :: "u32 \<Rightarrow> (arm, unit) eff" where
  "Ibl inst =
     bind (gets (branch_target inst)) (\<lambda>v.
       seq (modify (\<lambda>s. setr REGLINK (regs s REGPC + 4) s))
           (modify (setr REGPC (ucast (v - 4)))))"

definition Ssyscall :: "(arm, unit) eff option list \<Rightarrow> u32 \<Rightarrow> (arm, unit) eff" where
  "Ssyscall systab inst =
     bind (gets (\<lambda>s. sint (regs s REGARG))) (\<lambda>call.
       if call < 0 \<or> call \<ge> int (length systab) then ret ()
       else case systab ! nat call of None \<Rightarrow> ret () | Some f \<Rightarrow> f)"

section \<open>The dispatch table and the loop\<close>

text \<open>
  The last element \<^verbatim>\<open>{ 0 }\<close> of \<^verbatim>\<open>itab\<close> comes after the one of \<^verbatim>\<open>OSWI\<close> and so initialises
  \<^verbatim>\<open>itab[OUNDEF]\<close> a second time, with a null function in place of \<^verbatim>\<open>undef\<close>: an undefined instruction
  is a call through a null pointer.
\<close>

definition itab :: "host \<Rightarrow> (arm, unit) eff option list \<Rightarrow> nat \<Rightarrow> u32 \<Rightarrow> (arm, unit) eff" where
  "itab h systab op inst =
     (if op \<le> OMVN then Idp0 inst
      else if op \<le> OMVN + CARITH1 then Idp1 inst
      else if op \<le> OMVN + CARITH2 then Idp2 inst
      else if op \<le> OMVN + CARITH3 then Idp3 inst
      else if op = OMUL then Imul inst
      else if op = OMULA then Imula inst
      else if op \<le> OMULAL then Imull inst
      else if op < OLDH then Imem1 h inst
      else if op \<le> OSTBU then Imem2 h inst
      else if op \<le> OSWPBU then Iswap h inst
      else if op \<le> OSTM then Ilsm h inst
      else if op = OB then Ib inst
      else if op = OBL then Ibl inst
      else if op = OSWI then Ssyscall systab inst
      else raise Trap)"

text \<open>The body of the loop of \<^verbatim>\<open>run\<close>.\<close>

definition run_step :: "host \<Rightarrow> (arm, unit) eff option list \<Rightarrow> (arm, unit) eff" where
  "run_step h systab =
     seq (modify (\<lambda>s. s\<lparr>ar := ucast (regs s REGPC)\<rparr>))
    (bind (bind (gets ar) (ifetch h)) (\<lambda>w.
     seq (modify (\<lambda>s. s\<lparr>instr := w, instr_opcode := arm_class w, instr_cond := fld 28 w\<rparr>))
    (bind run_cond (\<lambda>execute.
     seq (onlyif execute
            (seq (modify (\<lambda>s. s\<lparr>icount := (icount s)(arm_class w := icount s (arm_class w) + 1)\<rparr>))
                 (itab h systab (arm_class w) w)))
    (seq (modify (\<lambda>s. setr REGPC (regs s REGPC + 4) s))
         (bind (gets id) (\<lambda>s.
            onlyif (bplist s \<noteq> []) (brkchk h (ucast (regs s REGPC)) BInstruction))))))))"

text \<open>
  \<^verbatim>\<open>do ... while(--count)\<close>: \<open>None\<close> stands for a loop that never ends, an exception of the body
  ends the loop.
\<close>

partial_function (option) run ::
  "host \<Rightarrow> (arm, unit) eff option list \<Rightarrow> arm \<Rightarrow> ((exn + unit) \<times> arm) option" where
  "run h systab s =
     (case run_step h systab s of
        (Inl e, t) \<Rightarrow> Some (Inl e, t)
      | (Inr _, t) \<Rightarrow>
          if count t - 1 = 0 then Some (Inr (), t\<lparr>count := count t - 1\<rparr>)
          else run h systab (t\<lparr>count := count t - 1\<rparr>))"

section \<open>What every instruction keeps\<close>

text \<open>
  \<open>counts\<close>: the step counter is kept or, when there is a breakpoint, set to one, which is how a
  breakpoint stops \<^verbatim>\<open>run\<close>. \<open>sane\<close>: moreover the memory stays well-formed and its segments
  keep their bounds. Every instruction but a system call has it, whether it returns or leaves through an error.
  \<open>called\<close>: what remains with system calls, which may end the run by setting the counter to one
  (\<^verbatim>\<open>exits\<close>) and move the end of the bss up (\<^verbatim>\<open>brk\<close>). \<open>run_n\<close> is the reference for \<^verbatim>\<open>run\<close>: the body, \<open>n\<close> times.
\<close>

definition counts :: "arm \<Rightarrow> arm \<Rightarrow> bool" where
  "counts s t \<longleftrightarrow> (bplist t = [] \<longleftrightarrow> bplist s = []) \<and>
     (count t = count s \<or> count t = 1 \<and> bplist s \<noteq> [])"

definition armed :: "arm \<Rightarrow> arm \<Rightarrow> bool" where
  "armed s t \<longleftrightarrow> (bplist s \<noteq> [] \<longrightarrow> counts s t)"

definition sane :: "arm \<Rightarrow> arm \<Rightarrow> bool" where
  "sane s t \<longleftrightarrow> counts s t \<and> (wf_mem s \<longrightarrow> wf_mem t \<and> layout t = layout s)"

definition grown :: "arm \<Rightarrow> arm \<Rightarrow> bool" where
  "grown s t \<longleftrightarrow> length (seg t) = length (seg s) \<and>
     (\<forall>i < length (seg s). base (seg t ! i) = base (seg s ! i) \<and> send (seg s ! i) \<le> send (seg t ! i) \<and>
        (i \<noteq> 2 \<longrightarrow> send (seg t ! i) = send (seg s ! i)))"

definition called :: "arm \<Rightarrow> arm \<Rightarrow> bool" where
  "called s t \<longleftrightarrow> (bplist t = [] \<longleftrightarrow> bplist s = []) \<and> (count t = count s \<or> count t = 1) \<and>
     (wf_mem s \<longrightarrow> wf_mem t \<and> grown s t)"

definition calls_ok :: "(arm, unit) eff option list \<Rightarrow> bool" where
  "calls_ok systab \<longleftrightarrow> (\<forall>f. Some f \<in> set systab \<longrightarrow> keeps called f)"

primrec run_n :: "host \<Rightarrow> (arm, unit) eff option list \<Rightarrow> nat \<Rightarrow> (arm, unit) eff" where
  "run_n h systab 0 = ret ()"
| "run_n h systab (Suc n) =
     seq (run_step h systab) (seq (modify (\<lambda>s. s\<lparr>count := count s - 1\<rparr>)) (run_n h systab n))"

interpretation ct: keeps_rel counts
  by unfold_locales (auto simp: counts_def)

interpretation am: keeps_rel armed
  by unfold_locales (auto simp: armed_def counts_def)

interpretation sn: keeps_rel sane
  by unfold_locales (auto simp: sane_def counts_def)

lemma grown_trans: "grown s t \<Longrightarrow> grown t u \<Longrightarrow> grown s u"
  by (auto simp: grown_def intro: order_trans)

interpretation cl: keeps_rel called
proof
  show "called s s" for s by (simp add: called_def grown_def)
  show "called s t \<Longrightarrow> called t u \<Longrightarrow> called s u" for s t u
    using grown_trans [of s t u] by (auto simp: called_def)
qed

lemma grown_layout: "layout t = layout s \<Longrightarrow> grown s t"
proof -
  assume l: "layout t = layout s"
  have n: "length (seg t) = length (seg s)" using arg_cong [OF l, of length] by (simp add: layout_def)
  have "(base (seg t ! i), send (seg t ! i)) = (base (seg s ! i), send (seg s ! i))" if "i < length (seg s)" for i
    using arg_cong [OF l, of "\<lambda>xs. xs ! i"] that n by (simp add: layout_def)
  with n show ?thesis by (simp add: grown_def)
qed

lemma called_sane: "keeps sane m \<Longrightarrow> keeps called m"
  using grown_layout by (auto simp: keeps_def sane_def called_def counts_def)

lemma counts_mem_ops:
  "keeps counts (dotlb h a)" "keeps counts (rd_va va k)" "keeps counts (wr_va va k v)"
  unfolding dotlb_def rd_va_def wr_va_def
  by (auto simp: keeps_def bind_def counts_def Let_def)

lemma counts_page_of_vaddr: "keeps counts (page_of_vaddr h a)"
  unfolding page_of_vaddr_def Let_def
  by (intro ct.keeps_intros counts_mem_ops ct.keeps_modify)
    (auto split: option.split sum.split simp: counts_def
      intro!: ct.keeps_intros ct.keeps_modify counts_mem_ops)

lemma armed_bp [simp]: "armed s (set_done i d s)" "armed s (stop_at_bpt s)"
  by (auto simp: armed_def counts_def set_done_def stop_at_bpt_def)

lemma armed_counts: "keeps counts m \<Longrightarrow> keeps armed m"
  by (simp add: keeps_def armed_def)

lemma armed_brk_loop: "(\<And>a. keeps armed (g a)) \<Longrightarrow> keeps armed (brk_loop g a ty is)"
proof (induction "is")
  case (Cons i js)
  then show ?case unfolding brk_loop.simps
    by (intro am.keeps_intros am.keeps_modify) simp_all
qed (simp add: am.keeps_ret)

lemma counts_check:
  assumes "\<And>a. keeps armed (g a)"
  shows "keeps counts (bind (gets (\<lambda>s. length (bplist s))) (\<lambda>n. brk_loop g a ty [0..<n]))"
proof (rule keepsI)
  fix s
  show "counts s (snd (bind (gets (\<lambda>s. length (bplist s))) (\<lambda>n. brk_loop g a ty [0..<n]) s))"
  proof (cases "bplist s = []")
    case True
    then show ?thesis by (simp add: ct.refl)
  next
    case False
    with armed_brk_loop [of g, OF assms] show ?thesis by (simp add: keeps_def armed_def)
  qed
qed

lemma counts_brkchk_rd: "keeps counts (brkchk_rd a)"
  unfolding brkchk_rd_def by (rule counts_check [OF am.keeps_raise])

lemmas counts_intros = ct.keeps_intros counts_mem_ops counts_page_of_vaddr counts_brkchk_rd

lemma counts_loads:
  "keeps counts (getmem_b h a)" "keeps counts (getmem_w h a)" "keeps counts (getmem_h h a)"
  "keeps counts (getmem_4 h a)"
  unfolding getmem_4_def getmem_b_def getmem_w_def getmem_w_aligned_def getmem_h_def
    getmem_h_aligned_def rd_word_def if_membpt_def Let_def
  by (intro counts_intros)+

lemma counts_brkchk: "keeps counts (brkchk h a ty)"
  unfolding brkchk_def by (rule counts_check [OF armed_counts [OF counts_loads(4)]])

lemma counts_stores:
  "keeps counts (putmem_b h a b)" "keeps counts (putmem_w h a d)" "keeps counts (putmem_h h a e)"
  unfolding putmem_b_def putmem_w_def putmem_h_def if_membpt_def Let_def
  by (intro counts_intros counts_brkchk)+

lemma sane_transparent: "keeps (transparent h) m \<Longrightarrow> keeps counts m \<Longrightarrow> keeps sane m"
  by (simp add: keeps_def sane_def transparent_def)

lemma sane_loads:
  "keeps sane (getmem_b h a)" "keeps sane (getmem_w h a)" "keeps sane (getmem_h h a)"
  "keeps sane (brkchk h a ty)"
  by (rule sane_transparent [OF getmem_b_transparent counts_loads(1)]
      sane_transparent [OF getmem_transparent(3) counts_loads(2)]
      sane_transparent [OF getmem_transparent(4) counts_loads(3)]
      sane_transparent [OF brkchk_transparent(1) counts_brkchk])+

lemma sane_store:
  assumes "keeps counts m"
    and "\<And>s. wf_mem s \<Longrightarrow>
      (\<exists>w. stored h s w (m s)) \<or> (\<exists>e t. m s = (Inl e, t) \<and> transparent h s t)"
  shows "keeps sane m"
proof (rule keepsI)
  fix s
  have "counts s (snd (m s))" using assms(1) by (simp add: keeps_def)
  moreover have "wf_mem (snd (m s)) \<and> layout (snd (m s)) = layout s" if "wf_mem s"
    using assms(2) [OF that] that by (cases "m s") (auto simp: stored_def transparent_def)
  ultimately show "sane s (snd (m s))" by (simp add: sane_def)
qed

lemma transparent_refl: "transparent h s s"
  by (simp add: transparent_def)

lemma sane_putmem_b: "keeps sane (putmem_b h a b)"
proof (rule sane_store [where h = h, OF counts_stores(1)])
  fix s assume wf: "wf_mem s"
  show "(\<exists>w. stored h s w (putmem_b h a b s)) \<or>
    (\<exists>e t. putmem_b h a b s = (Inl e, t) \<and> transparent h s t)"
  proof (cases "mview h s a")
    case None
    with store_fails [OF wf this] show ?thesis unfolding putmem_b_def by blast
  qed (use putmem_b_stored [OF wf] in blast)
qed

lemma sane_putmem_w: "keeps sane (putmem_w h a d)"
proof (rule sane_store [where h = h, OF counts_stores(2)])
  fix s assume wf: "wf_mem s"
  show "(\<exists>w. stored h s w (putmem_w h a d s)) \<or>
    (\<exists>e t. putmem_w h a d s = (Inl e, t) \<and> transparent h s t)"
  proof (cases "a AND 3 = 0")
    case True
    show ?thesis
    proof (cases "mview h s a")
      case None
      with store_fails [OF wf this] True show ?thesis by (simp add: putmem_w_def) blast
    qed (use putmem_w_stored [OF wf True] in blast)
  qed (simp add: putmem_w_def transparent_refl)
qed

lemma sane_putmem_h: "keeps sane (putmem_h h a d)"
proof (rule sane_store [where h = h, OF counts_stores(3)])
  fix s assume wf: "wf_mem s"
  show "(\<exists>w. stored h s w (putmem_h h a d s)) \<or>
    (\<exists>e t. putmem_h h a d s = (Inl e, t) \<and> transparent h s t)"
  proof (cases "a AND 1 = 0")
    case True
    show ?thesis
    proof (cases "mview h s a")
      case None
      with store_fails [OF wf this] True show ?thesis by (simp add: putmem_h_def) blast
    qed (use putmem_h_stored [OF wf True] in blast)
  qed (simp add: putmem_h_def transparent_refl)
qed

lemma sane_cong: "count t = count s \<Longrightarrow> bplist t = bplist s \<Longrightarrow> seg t = seg s \<Longrightarrow> sane s t"
  by (simp add: sane_def counts_def wf_mem_def layout_def)

lemma sane_reg_ops:
  "keeps sane (modify (setr i v))" "keeps sane (modify (\<lambda>s. setr i (f s) s))"
  "keeps sane (modify (set_cc a b c))" "keeps sane (set_cout x)"
  "keeps sane (modify (\<lambda>s. set_cc (f s) b c (s\<lparr>cbit := g s\<rparr>)))"
  "keeps sane (modify (\<lambda>s. s\<lparr>cbit := g s\<rparr>))" "keeps sane (undef w)" "keeps sane (compensate rd)"
  by (auto simp: keeps_def set_cout_def undef_def compensate_def onlyif_def setr_def set_cc_def
      intro!: sane_cong)

lemmas sane_intros = sn.keeps_intros sane_loads sane_putmem_b sane_putmem_w sane_putmem_h sane_reg_ops

lemma sane_shift: "keeps sane (shift v st sc b)"
  unfolding shift_def Let_def by (intro sane_intros)

lemma sane_dpex: "keeps sane (dpex inst o1 o2 rd)"
  unfolding dpex_def Let_def by (intro sane_intros)

lemma sane_data: "keeps sane (Idp0 w)" "keeps sane (Idp1 w)" "keeps sane (Idp2 w)" "keeps sane (Idp3 w)"
  "keeps sane (Imul w)" "keeps sane (Imula w)" "keeps sane (Imull w)" "keeps sane (Ib w)" "keeps sane (Ibl w)"
  unfolding Idp0_def Idp1_def Idp2_def Idp3_def Imul_def Imula_def Imull_def Ib_def Ibl_def Let_def
  by (intro sane_intros sane_shift sane_dpex)+

lemma sane_lsm_loop: "keeps sane (lsm_loop h l u pr po rl is a)"
  by (induction "is" arbitrary: a) (auto simp: Let_def intro!: sane_intros)

lemma sane_memory: "keeps sane (Iswap h w)" "keeps sane (Imem1 h w)" "keeps sane (Imem2 h w)" "keeps sane (Ilsm h w)"
  unfolding Iswap_def Imem1_def Imem2_def Ilsm_def Let_def split_def
  by (intro sane_intros sane_shift sane_lsm_loop)+

lemma sane_itab: "op \<noteq> OSWI \<Longrightarrow> keeps sane (itab h systab op w)"
  unfolding itab_def by (simp add: sane_intros sane_data sane_memory)

lemma called_itab:
  assumes "calls_ok systab"
  shows "keeps called (itab h systab op w)"
proof (cases "op = OSWI")
  case True
  have "keeps called (if call < 0 \<or> call \<ge> int (length systab) then ret ()
      else case systab ! nat call of None \<Rightarrow> ret () | Some f \<Rightarrow> f)" for call
  proof (cases "call < 0 \<or> call \<ge> int (length systab)")
    case False
    then have "systab ! nat call \<in> set systab" by (intro nth_mem) (auto simp: nat_less_iff)
    with False assms show ?thesis
      by (cases "systab ! nat call") (auto simp: calls_ok_def intro: cl.keeps_ret)
  qed (simp add: cl.keeps_ret)
  then have "keeps called (Ssyscall systab w)"
    unfolding Ssyscall_def by (rule cl.keeps_bind [OF cl.keeps_gets])
  then show ?thesis using True by (simp add: itab_def)
qed (rule called_sane [OF sane_itab])

lemma ifetch_transparent: "keeps (transparent h) (ifetch h a)"
  unfolding ifetch_def rd_word_def Let_def
  by (intro mem_transparent tr.keeps_modify) (auto intro!: transparent_cong simp: cpu_def)

lemma ifetch_counts: "keeps counts (ifetch h a)"
  unfolding ifetch_def rd_word_def Let_def
  by (intro counts_intros ct.keeps_modify) (auto simp: counts_def)

lemma sane_cond: "keeps sane run_cond"
  unfolding run_cond_def runcmp_def runtst_def runteq_def Let_def
  by (intro sane_intros) (auto split: compare_op.split intro!: sane_intros)

lemma sane_upd:
  "keeps sane (modify (\<lambda>s. s\<lparr>ar := f s\<rparr>))" "keeps sane (modify (\<lambda>s. s\<lparr>icount := g s\<rparr>))"
  "keeps sane (modify (\<lambda>s. s\<lparr>instr := a, instr_opcode := b, instr_cond := c\<rparr>))"
  by (auto simp: keeps_def intro: sane_cong)

lemmas sane_step = sane_intros sane_cond sane_upd sane_transparent [OF ifetch_transparent ifetch_counts]

lemma called_run_step:
  assumes "calls_ok systab"
  shows "keeps called (run_step h systab)"
  unfolding run_step_def
  by (intro cl.keeps_intros called_itab [OF assms] called_sane [OF sane_cond] called_sane [OF sane_upd(1)]
      called_sane [OF sane_upd(2)] called_sane [OF sane_upd(3)] called_sane [OF sane_reg_ops(2)]
      called_sane [OF sane_loads(4)] called_sane [OF sane_transparent [OF ifetch_transparent ifetch_counts]])

section \<open>The loop\<close>

lemma run_cases:
  assumes "calls_ok systab"
  obtains (left) e t where "run_step h systab s = (Inl e, t)" "run h systab s = Some (Inl e, t)" "called s t"
  | (last) t where "run_step h systab s = (Inr (), t)" "called s t" "count t = 1"
      "run h systab s = Some (Inr (), t\<lparr>count := 0\<rparr>)"
  | (more) t where "run_step h systab s = (Inr (), t)" "called s t" "count t = count s" "count s \<noteq> 1"
      "run h systab s = run h systab (t\<lparr>count := count s - 1\<rparr>)"
proof -
  obtain r t where st: "run_step h systab s = (r, t)" by (cases "run_step h systab s")
  from keepsD [OF called_run_step [OF assms] st] have cl: "called s t" .
  then have ct: "count t = count s \<or> count t = 1" by (simp add: called_def)
  have "run h systab s = (case (r, t) of (Inl e, t) \<Rightarrow> Some (Inl e, t)
      | (Inr _, t) \<Rightarrow> if count t - 1 = 0 then Some (Inr (), t\<lparr>count := count t - 1\<rparr>)
          else run h systab (t\<lparr>count := count t - 1\<rparr>))"
    by (subst run.simps) (simp only: st)
  then show thesis
    using that st cl ct by (cases r; cases "count t = 1") auto
qed

lemma count_down: "c \<noteq> 1 \<Longrightarrow> unat (c - 1) = Suc (unat (c - 1 - 1))" for c :: u32
  using unat_minus_one [of "c - 1"] unat_gt_0 [of "c - 1"] by simp

lemma run_returns:
  assumes "calls_ok systab"
  shows "\<exists>r t. run h systab s = Some (r, t)"
proof (induction "unat (count s - 1)" arbitrary: s rule: less_induct)
  case less
  from assms show ?case
  proof (cases rule: run_cases [of systab h s])
    case (more t)
    then show ?thesis using less [of "t\<lparr>count := count s - 1\<rparr>"] count_down [of "count s"] by simp
  qed auto
qed

text \<open>
  The run is so many executions of the body, all that \<^verbatim>\<open>count\<close> asks for unless one of them sets the
  counter: \<open>stopped h systab s n\<close> says that the last of \<open>n\<close> did.
\<close>

definition stopped :: "host \<Rightarrow> (arm, unit) eff option list \<Rightarrow> arm \<Rightarrow> nat \<Rightarrow> bool" where
  "stopped h systab s n \<longleftrightarrow> (\<exists>u t. run_n h systab (n - 1) s = (Inr (), u) \<and> run_step h systab u = (Inr (), t) \<and>
     bplist u = [] \<and> count t = 1 \<and> count u \<noteq> 1)"

lemma run_exact:
  assumes "calls_ok systab" and "bplist s = []"
  shows "\<exists>n. 0 < n \<and> n \<le> Suc (unat (count s - 1)) \<and> run h systab s = Some (run_n h systab n s) \<and>
    (n = Suc (unat (count s - 1)) \<or> stopped h systab s n)"
  using assms(2)
proof (induction "unat (count s - 1)" arbitrary: s rule: less_induct)
  case less
  from assms(1) show ?case
  proof (cases rule: run_cases [of systab h s])
    case (left e t)
    then show ?thesis by (intro exI [of _ "Suc (unat (count s - 1))"]) (simp add: seq_def bind_def)
  next
    case (last t)
    have r: "run h systab s = Some (run_n h systab 1 s)" using last by (simp add: seq_def bind_def)
    show ?thesis
    proof (cases "count s = 1")
      case True
      with r show ?thesis by (intro exI [of _ 1]) simp
    next
      case False
      with r last show ?thesis by (intro exI [of _ 1]) (simp add: stopped_def less(2))
    qed
  next
    case (more t)
    let ?u = "t\<lparr>count := count s - 1\<rparr>"
    have "bplist ?u = []" using less(2) more(2) by (simp add: called_def)
    moreover have d: "unat (count s - 1) = Suc (unat (count ?u - 1))" using count_down [OF more(4)] by simp
    ultimately obtain n where n: "0 < n" "n \<le> Suc (unat (count ?u - 1))" "run h systab ?u = Some (run_n h systab n ?u)"
      "n = Suc (unat (count ?u - 1)) \<or> stopped h systab ?u n"
      using less(1) [of ?u] by auto
    have step: "run_n h systab (Suc k) s = run_n h systab k ?u" for k
      using more(1,3) by (simp add: seq_def bind_def)
    have "stopped h systab s (Suc n)" if "stopped h systab ?u n"
    proof -
      obtain k where "n = Suc k" using n(1) by (cases n) auto
      with that step [of k] show ?thesis by (simp add: stopped_def del: run_n.simps)
    qed
    then show ?thesis using n d step [of n] more(5) by (intro exI [of _ "Suc n"]) (auto simp del: run_n.simps)
  qed
qed

lemma run_grown:
  assumes "calls_ok systab" and "run h systab s = Some (r, t)" and "wf_mem s"
  shows "wf_mem t \<and> grown s t"
  using assms(2,3)
proof (induction "unat (count s - 1)" arbitrary: s rule: less_induct)
  case less
  have upd: "wf_mem (u\<lparr>count := c\<rparr>) = wf_mem u" "grown (u\<lparr>count := c\<rparr>) v = grown u v"
    "grown v (u\<lparr>count := c\<rparr>) = grown v u" for u v c
    by (simp_all add: wf_mem_def grown_def)
  from assms(1) show ?case
  proof (cases rule: run_cases [of systab h s])
    case (more u)
    then show ?thesis
      using less(1) [of "u\<lparr>count := count s - 1\<rparr>"] less(2,3) count_down [of "count s"] grown_trans [of s u t]
      by (simp add: upd called_def)
  qed (use less(2,3) in \<open>auto simp: called_def upd\<close>)
qed

section \<open>Conditions against the architecture\<close>

text \<open>
  The flags the architecture gives a subtraction and an addition (negative, zero, carry, overflow)
  and the meaning of the sixteen condition codes over them. The emulator keeps two words to compare
  instead of flags; \<open>decides c t b\<close> says that in \<open>t\<close> an instruction with condition \<open>c\<close> is
  executed iff \<open>b\<close>.
\<close>

type_synonym flags = "bool \<times> bool \<times> bool \<times> bool"

definition flags_sub :: "u32 \<Rightarrow> u32 \<Rightarrow> flags" where
  "flags_sub a b = (sint (a - b) < 0, a - b = 0, uint a - uint b \<ge> 0, sint (a - b) \<noteq> sint a - sint b)"

definition flags_add :: "u32 \<Rightarrow> u32 \<Rightarrow> flags" where
  "flags_add a b = (sint (a + b) < 0, a + b = 0, uint a + uint b \<ge> 2 ^ 32, sint (a + b) \<noteq> sint a + sint b)"

fun cond_passed :: "nat \<Rightarrow> flags \<Rightarrow> bool" where
  "cond_passed c (n, z, cy, v) =
     (if c = 0 then z else if c = 1 then \<not> z else if c = 2 then cy else if c = 3 then \<not> cy
      else if c = 4 then n else if c = 5 then \<not> n else if c = 6 then v else if c = 7 then \<not> v
      else if c = 8 then cy \<and> \<not> z else if c = 9 then \<not> cy \<or> z
      else if c = 10 then n = v else if c = 11 then n \<noteq> v
      else if c = 12 then \<not> z \<and> n = v else if c = 13 then z \<or> n \<noteq> v
      else c = 14)"

definition decides :: "nat \<Rightarrow> arm \<Rightarrow> bool \<Rightarrow> bool" where
  "decides c t b \<longleftrightarrow> fst (run_cond (t\<lparr>instr_cond := c\<rparr>)) = Inr b"

lemma mod_window:
  fixes x :: int
  assumes "- 4294967296 \<le> x" and "x < 8589934592"
  shows "x mod 4294967296 =
    (if x < 0 then x + 4294967296 else if x < 4294967296 then x else x - 4294967296)"
proof -
  have "(x + 4294967296) mod 4294967296 = x + 4294967296" if "x < 0"
    using assms that by (intro mod_pos_pos_trivial) simp_all
  moreover have "(x - 4294967296) mod 4294967296 = x - 4294967296" if "\<not> x < 4294967296"
    using assms that by (intro mod_pos_pos_trivial) simp_all
  ultimately show ?thesis by auto
qed

lemma sint_mod: "sint w = (uint w + 2147483648) mod 4294967296 - 2147483648" for w :: u32
  using sint_eq_uint_bit [of w] sint_u32 [of w] uint_u32 [of w]
  by (subst mod_window) (auto split: if_splits)

lemma sint_of_int: "sint (word_of_int x :: u32) = (x + 2147483648) mod 4294967296 - 2147483648"
  unfolding sint_mod by (simp add: uint_word_of_int mod_simps)

lemma sint_sub_mod: "sint (a - b) = (sint a - sint b + 2147483648) mod 4294967296 - 2147483648" for a b :: u32
  using sint_of_int [of "sint a - sint b"] by simp

lemma sint_add_mod: "sint (a + b) = (sint a + sint b + 2147483648) mod 4294967296 - 2147483648" for a b :: u32
  using sint_of_int [of "sint a + sint b"] by simp

lemma sub_signed: "(sint (a - b) < 0) = (sint (a - b) \<noteq> sint a - sint b) \<longleftrightarrow> sint a \<ge> sint b" for a b :: u32
  using sint_u32 [of a] sint_u32 [of b]
  unfolding sint_sub_mod by (subst (1 2) mod_window) auto

lemma add_signed: "(sint (a + b) < 0) = (sint (a + b) \<noteq> sint a + sint b) \<longleftrightarrow> sint a + sint b \<ge> 0" for a b :: u32
  using sint_u32 [of a] sint_u32 [of b]
  unfolding sint_add_mod by (subst (1 2) mod_window) auto

lemma and_1_bit: "w AND 1 \<noteq> 0 \<longleftrightarrow> bit w 0" for w :: "'a::len word"
  by (simp add: and_one_eq bit_0 odd_iff_mod_2_eq_one)

lemma shr_bit: "drop_bit n w AND 1 \<noteq> 0 \<longleftrightarrow> bit w n" for w :: "'a::len word"
  by (simp only: and_1_bit bit_drop_bit_eq) simp

lemma sign_bit: "bit w 31 \<longleftrightarrow> sint w < 0" for w :: u32
  using word_neg_bit [of w] by simp

lemma decides_cmp:
  assumes "compare_op t = CCcmp" and "c < 16" and "c \<noteq> 6" and "c \<noteq> 7"
  shows "decides c t (cond_passed c (flags_sub (cc1 t) (cc2 t)))"
proof -
  define a b where "a = cc1 t" and "b = cc2 t"
  have facts: "(a - b = 0) = (a = b)" "(uint b \<le> uint a) = (b \<le> a)"
    "(drop_bit 31 (a - b) AND 1 \<noteq> 0) = (sint (a - b) < 0)"
    by (simp_all add: Word.word_le_def shr_bit sign_bit)
  have "c \<in> set [0, 1, 2, 3, 4, 5, 8, 9, 10, 11, 12, 13, 14, 15]" using assms(2-4) by (auto simp: numeral_eq_Suc less_Suc_eq)
  then show ?thesis
    using sub_signed [of a b] assms(1) word_sint_eq_iff [of a b]
    unfolding decides_def run_cond_def runcmp_def flags_sub_def Let_def
    by (simp add: facts flip: a_def b_def) (elim disjE; auto simp: not_le)
qed

lemma undecided: "compare_op t = CCcmp \<Longrightarrow> c = 6 \<or> c = 7 \<Longrightarrow>
    fst (run_cond (t\<lparr>instr_cond := c\<rparr>)) = Inl (Errjmp (UndefInstr (instr t)))"
  by (auto simp: run_cond_def runcmp_def Let_def undef_def)

lemma flags_sub_neg:
  assumes "a \<noteq> 0" and "a \<noteq> 0x80000000"
  shows "flags_sub b (- a) = flags_add a b"
proof -
  have "uint (- a) = 4294967296 - uint a"
    using assms(1) uint_u32 [of a]
    by (simp add: uint_word_ariths zmod_zminus1_eq_if unsigned_eq_0_iff mod_pos_pos_trivial)
  moreover have "sint (- a) = - sint a"
  proof -
    have "sint a \<noteq> - 2147483648" using assms(2) word_sint_eq_iff [of a "0x80000000"] by simp
    then show ?thesis using sint_of_int [of "- sint a"] sint_u32 [of a] by simp
  qed
  ultimately show ?thesis by (auto simp: flags_sub_def flags_add_def add.commute)
qed

section \<open>The second operand\<close>

text \<open>
  The barrel shifter on integers: the shifted value and the last bit shifted out, for a shift by
  1 to 31 places.
\<close>

definition is_shifted :: "nat \<Rightarrow> nat \<Rightarrow> u32 \<Rightarrow> u32 \<Rightarrow> bool \<Rightarrow> bool" where
  "is_shifted st n v r c =
     (if st = 0 then uint r = uint v * 2 ^ n mod 2 ^ 32 \<and> c = odd (uint v * 2 ^ n div 2 ^ 32)
      else if st = 1 then uint r = uint v div 2 ^ n \<and> c = odd (uint v div 2 ^ (n - 1))
      else if st = 2 then sint r = sint v div 2 ^ n \<and> c = odd (sint v div 2 ^ (n - 1))
      else r = word_rotr n v \<and> c = bit r 31)"

lemma rotate_right:
  fixes v :: u32
  assumes "0 < n" and "n < 32"
  shows "push_bit (32 - n) v OR drop_bit n v = word_rotr n v"
proof (rule bit_word_eqI)
  fix k assume k: "k < LENGTH(32)"
  show "bit (push_bit (32 - n) v OR drop_bit n v) k = bit (word_rotr n v) k"
  proof (cases "k + n < 32")
    case True
    with k assms show ?thesis by (auto simp: bit_simps add.commute)
  next
    case False
    with k assms have "(k + n) mod 32 = k + n - 32" "k - (32 - n) = k + n - 32" by (simp_all add: mod_if)
    moreover have "32 - n \<le> k" using False assms by simp
    ultimately show ?thesis using k False assms by (simp add: bit_simps bit_word_ge)
  qed
qed

lemma bit_sint: "n < 32 \<Longrightarrow> bit (sint v) n = bit v n" for v :: u32
  by (simp add: bit_sint_iff)

lemma shift_exact:
  assumes "0 < n" and "n < 32"
  shows "\<exists>r c. shift v st (int n) isreg s = (Inr r, s\<lparr>cout := c\<rparr>) \<and> is_shifted st n v r c"
proof -
  have l: "uint (push_bit n v) = uint v * 2 ^ n mod 2 ^ 32"
    unfolding unsigned_push_bit_eq by (simp add: push_bit_eq_mult take_bit_eq_mod)
  have "(2 :: int) ^ 32 = 2 ^ n * 2 ^ (32 - n)" using assms by (simp flip: power_add)
  then have "uint v * 2 ^ n div 2 ^ 32 = uint v div 2 ^ (32 - n)" 
    using div_mult_mult1 [of "2 ^ n" "uint v" "2 ^ (32 - n)"] by (simp only: mult.commute [of "uint v"]) simp
  moreover have "bit v (32 - n) = bit (uint v) (32 - n)" using assms by (simp add: bit_uint_iff)
  ultimately have lc: "bit v (32 - n) = odd (uint v * 2 ^ n div 2 ^ 32)" by (simp only: bit_iff_odd)
  have r: "uint (drop_bit n v) = uint v div 2 ^ n"
    unfolding unsigned_drop_bit_eq by (simp add: drop_bit_eq_div take_bit_eq_mod mod_pos_pos_trivial uint_u32)
  have r': "bit v (n - 1) = odd (uint v div 2 ^ (n - 1))"
    using assms by (auto simp: bit_uint_iff simp flip: bit_iff_odd)
  have a: "sint (signed_drop_bit n v) = sint v div 2 ^ n" "bit v (n - 1) = odd (sint v div 2 ^ (n - 1))"
    using assms bit_sint [of "n - 1" v] by (simp_all add: sint_signed_drop_bit_eq drop_bit_eq_div flip: bit_iff_odd)
  have rc: "bit (word_rotr n v) 31 = bit v (n - 1)"
    using assms by (simp add: bit_word_rotr_iff mod_if)
  define p where "p = (if st = 0 then (push_bit n v, bit v (32 - n))
    else if st = 1 then (drop_bit n v, bit v (n - 1))
    else if st = 2 then (signed_drop_bit n v, bit v (n - 1))
    else (word_rotr n v, bit v (n - 1)))"
  have "shift v st (int n) isreg s = (Inr (fst p), s\<lparr>cout := snd p\<rparr>)"
    using assms by (simp add: p_def shift_def Let_def seq_def set_cout_def shr_bit rotate_right)
  moreover have "is_shifted st n v (fst p) (snd p)"
    unfolding is_shifted_def p_def using l lc r r' a rc by simp
  ultimately show ?thesis by blast
qed

lemma shift_too_far:
  assumes "32 \<le> sc \<or> sc < 0"
  shows "fst (shift v st sc True s) = (if st = 2 \<and> sc \<ge> 32 then Inr (if sint v < 0 then - 1 else 0) else Inl Undefined)"
  using assms by (auto simp: shift_def Let_def seq_def set_cout_def shr_bit sign_bit)

lemma rot_field: "unat (drop_bit 7 inst AND 0x1e) = 2 * fld 8 inst" for inst :: u32
proof -
  have "drop_bit 7 inst AND 0x1e = push_bit 1 (drop_bit 8 inst AND 0xf)"
  proof (rule bit_word_eqI)
    fix n assume "n < LENGTH(32)"
    have m: "(0x1e :: u32) = push_bit 1 0xf" by simp
    show "bit (drop_bit 7 inst AND 0x1e) n = bit (push_bit 1 (drop_bit 8 inst AND 0xf)) n"
      using \<open>n < LENGTH(32)\<close>
      by (cases n) (simp_all only: m bit_and_iff bit_push_bit_iff bit_drop_bit_eq, simp_all)
  qed
  then show ?thesis
    using unat_and_le [of "drop_bit 8 inst" "0xf"]
    by (simp add: fld_def push_bit_eq_mult unat_word_ariths)
qed

lemma fld_less: "fld k w < 16"
  using unat_and_le [of "drop_bit k w" "0xf"] by (simp add: fld_def)

lemma Idp3_rotated:
  "Idp3 inst s = seq (dpex inst (operand (fld 16 inst) s)
      (word_rotr (2 * fld 8 inst) (inst AND 0xff)) (fld 12 inst)) (compensate (fld 12 inst)) s"
  using rotate_right [of "2 * fld 8 inst" "inst AND 0xff"] fld_less [of 8 inst]
  by (auto simp: Idp3_def Let_def rot_field word_rotr_0 or.commute)

section \<open>Multiplication and branches\<close>

lemma split64:
  "uint (ucast (signed_drop_bit 32 v) :: u32) * 2 ^ 32 + uint (ucast v :: u32) = uint v"
  "sint (ucast (signed_drop_bit 32 v) :: u32) * 2 ^ 32 + uint (ucast v :: u32) = sint v" for v :: u64
proof -
  have lo: "uint (ucast v :: u32) = uint v mod 4294967296"
    by (simp add: unsigned_ucast_eq take_bit_eq_mod)
  have hi: "(ucast (signed_drop_bit 32 v) :: u32) = ucast (drop_bit 32 v)"
    by (rule bit_word_eqI) (simp add: bit_simps bit_sdrop64)
  have "uint (drop_bit 32 v) = uint v div 4294967296"
    unfolding unsigned_drop_bit_eq using uint_lt2p [of v]
    by (simp add: drop_bit_eq_div take_bit_eq_mod mod_pos_pos_trivial)
  moreover have "uint v div 4294967296 < 4294967296" using uint_lt2p [of v] by (simp add: div_less_iff_less_mult)
  ultimately have u: "uint (ucast (drop_bit 32 v) :: u32) = uint v div 4294967296"
    by (simp add: unsigned_ucast_eq take_bit_eq_mod mod_pos_pos_trivial pos_imp_zdiv_nonneg_iff)
  show "uint (ucast (signed_drop_bit 32 v) :: u32) * 2 ^ 32 + uint (ucast v :: u32) = uint v"
    unfolding hi u lo by simp
  have "bit (ucast (drop_bit 32 v) :: u32) 31 = bit v 63" by (simp add: bit_simps)
  then show "sint (ucast (signed_drop_bit 32 v) :: u32) * 2 ^ 32 + uint (ucast v :: u32) = sint v"
    unfolding hi using sint_eq_uint_bit [of "ucast (drop_bit 32 v) :: u32"] sint_eq_uint_bit [of v] u lo
    by (cases "bit v 63") simp_all
qed

lemma sint_word64:
  assumes "- (2 ^ 63) \<le> x" and "x < 2 ^ 63" shows "sint (word_of_int x :: u64) = x"
  using assms by (simp add: sint_sbintrunc' signed_take_bit_int_eq_self)

lemma umull_bound: "uint (a :: u32) * uint (b :: u32) + uint (c :: u32) < 2 ^ 64"
proof -
  have "uint a * uint b \<le> 4294967295 * 4294967295"
    using uint_u32 [of a] uint_u32 [of b] by (intro mult_mono) auto
  then show ?thesis using uint_u32 [of c] by simp
qed

lemma smull_bound:
  "- (2 ^ 63) \<le> sint (a :: u32) * sint (b :: u32) + sint (c :: u32)"
  "sint a * sint b + sint c < 2 ^ 63"
proof -
  have "\<bar>sint a * sint b\<bar> \<le> 2147483648 * 2147483648"
    unfolding abs_mult using sint_u32 [of a] sint_u32 [of b] by (intro mult_mono) auto
  then show "- (2 ^ 63) \<le> sint a * sint b + sint c" "sint a * sint b + sint c < 2 ^ 63"
    using sint_u32 [of c] by (simp_all add: abs_le_iff)
qed

lemma uint_mac: "uint (ucast a * ucast b + ucast c :: u64) = uint a * uint b + uint c" for a b c :: u32
proof -
  have "(ucast a * ucast b + ucast c :: u64) = word_of_int (uint a * uint b + uint c)"
    by (simp add: unsigned_of_int)
  then show ?thesis using umull_bound [of a b c]
    by (simp only: uint_word_of_int) (simp add: mod_pos_pos_trivial)
qed

lemma sint_mac: "sint (scast a * scast b + scast c :: u64) = sint a * sint b + sint c" for a b c :: u32
proof -
  have "(scast a * scast b + scast c :: u64) = word_of_int (sint a * sint b + sint c)"
    by (simp only: scast_eq of_int_add of_int_mult)
  then show ?thesis by (simp only: sint_word64 [OF smull_bound])
qed

lemma Imull_exact:
  assumes "{fld 16 inst, fld 12 inst, fld 8 inst, fld 0 inst} \<subseteq> {0..<15}"
    and "fld 16 inst \<noteq> fld 0 inst" and "fld 12 inst \<noteq> fld 0 inst" and "fld 16 inst \<noteq> fld 12 inst"
  shows "\<exists>r. Imull inst s = (Inr (), s\<lparr>regs := r\<rparr>) \<and>
    (\<forall>i. i \<noteq> fld 16 inst \<longrightarrow> i \<noteq> fld 12 inst \<longrightarrow> r i = regs s i) \<and>
    (if bit inst 22
     then sint (r (fld 16 inst)) * 2 ^ 32 + uint (r (fld 12 inst)) =
       sint (regs s (fld 0 inst)) * sint (regs s (fld 8 inst)) +
       (if bit inst 21 then sint (regs s (fld 12 inst)) else 0)
     else uint (r (fld 16 inst)) * 2 ^ 32 + uint (r (fld 12 inst)) =
       uint (regs s (fld 0 inst)) * uint (regs s (fld 8 inst)) +
       (if bit inst 21 then uint (regs s (fld 12 inst)) else 0))"
proof -
  let ?a = "regs s (fld 0 inst)" and ?b = "regs s (fld 8 inst)" and ?c = "regs s (fld 12 inst)"
  define v where "v = (if bit inst 22
     then (scast ?a * scast ?b :: u64) + (if bit inst 21 then scast ?c else 0)
     else (ucast ?a * ucast ?b :: u64) + (if bit inst 21 then ucast ?c else 0))"
  define r where "r = (regs s)(fld 16 inst := ucast (signed_drop_bit 32 v), fld 12 inst := ucast v)"
  have "Imull inst s = (Inr (), s\<lparr>regs := r\<rparr>)"
    using assms by (auto simp: Imull_def Let_def seq_def setr_def r_def v_def)
  moreover have "\<forall>i. i \<noteq> fld 16 inst \<longrightarrow> i \<noteq> fld 12 inst \<longrightarrow> r i = regs s i" by (simp add: r_def)
  moreover have rr: "r (fld 16 inst) = ucast (signed_drop_bit 32 v)" "r (fld 12 inst) = ucast v"
    using assms(4) by (simp_all add: r_def)
  have "sint v = sint ?a * sint ?b + (if bit inst 21 then sint ?c else 0)" if "bit inst 22"
    using that sint_mac [of ?a ?b ?c] sint_mac [of ?a ?b 0] by (simp add: v_def)
  moreover have "uint v = uint ?a * uint ?b + (if bit inst 21 then uint ?c else 0)" if "\<not> bit inst 22"
    using that uint_mac [of ?a ?b ?c] uint_mac [of ?a ?b 0] by (simp add: v_def)
  ultimately show ?thesis unfolding rr [symmetric] using split64 [of v] rr
    by (intro exI [of _ r]) (cases "bit inst 22"; simp)
qed

lemma ucast_64_32: "(ucast (ucast w :: u64) :: u32) = w"
  by (rule bit_word_eqI) (auto simp: bit_simps)

lemma ucast_of_int: "(ucast (word_of_int x :: u64) :: u32) = word_of_int x"
  by (rule bit_word_eqI) (simp add: bit_simps)

lemma ucast_down:
  "(ucast (a + b) :: u32) = ucast a + ucast b" "(ucast (a - b) :: u32) = ucast a - ucast b"
  "(ucast (push_bit n a) :: u32) = push_bit n (ucast a)" for a b :: u64
proof -
  show "(ucast (a + b) :: u32) = ucast a + ucast b"
    using ucast_of_int [of "uint a + uint b"] ucast_of_int [of "uint a"] ucast_of_int [of "uint b"] by simp
  show "(ucast (a - b) :: u32) = ucast a - ucast b"
    using ucast_of_int [of "uint a - uint b"] ucast_of_int [of "uint a"] ucast_of_int [of "uint b"] by simp
  show "(ucast (push_bit n a) :: u32) = push_bit n (ucast a)"
    by (rule bit_word_eqI) (auto simp: bit_simps)
qed

lemma sext24:
  "(let v = (ucast (inst AND 0xffffff) :: u64)
    in if v AND 0x800000 \<noteq> 0 then v OR NOT 0xffffff else v) = scast (ucast inst :: 24 word)" for inst :: u32
proof -
  have m: "(0xffffff :: u32) = mask 24" "(0xffffff :: u64) = mask 24" "(0x800000 :: u64) = 2 ^ 23"
    by (simp_all add: mask_eq_exp_minus_1)
  have "bit (ucast (take_bit 24 inst) :: u64) 23 = bit inst 23" by (simp add: bit_simps)
  then have t: "(ucast (inst AND 0xffffff) :: u64) AND 0x800000 \<noteq> 0 \<longleftrightarrow> bit inst 23"
    by (simp only: m and_exp_eq_0_iff_not_bit and.commute [of inst] flip: take_bit_eq_mask) simp
  show ?thesis
  proof (rule bit_word_eqI)
    fix n assume "n < LENGTH(64)"
    then show "bit (let v = (ucast (inst AND 0xffffff) :: u64)
        in if v AND 0x800000 \<noteq> 0 then v OR NOT 0xffffff else v) n = bit (scast (ucast inst :: 24 word) :: u64) n"
      unfolding Let_def t unfolding m
      by (cases "n < 23"; cases "n = 23")
        (auto simp: bit_and_iff bit_or_iff bit_not_iff bit_mask_iff bit_ucast_iff bit_signed_iff min_def)
  qed
qed

lemma branch_target_exact:
  "ucast (branch_target inst s) = regs s REGPC + 8 + 4 * (scast (ucast inst :: 24 word) :: u32)"
proof -
  have "(ucast (scast (x :: 24 word) :: u64) :: u32) = scast x" for x
    by (rule bit_word_eqI) (auto simp: bit_simps)
  then have "ucast (branch_target inst s) =
      regs s REGPC + push_bit 2 (scast (ucast inst :: 24 word) :: u32) + 8"
    using sext24 [of inst] unfolding branch_target_def Let_def by (simp only: ucast_down ucast_64_32) simp
  then show ?thesis by (simp add: push_bit_eq_mult)
qed

section \<open>Loads, stores and block transfers\<close>

text \<open>
  The immediate offset, the effective address and the write-back of a word or byte transfer, for a
  base register other than the program counter.
\<close>

definition mem_off :: "u32 \<Rightarrow> u32" where
  "mem_off inst = (if bit inst 23 then inst AND 0xfff else - (inst AND 0xfff))"

definition ea :: "u32 \<Rightarrow> arm \<Rightarrow> u64" where
  "ea inst s = ucast (regs s (fld 16 inst)) + (if bit inst 24 then scast (mem_off inst) else 0)"

definition write_back :: "u32 \<Rightarrow> (nat \<Rightarrow> u32) \<Rightarrow> nat \<Rightarrow> u32" where
  "write_back inst r =
     (if \<not> bit inst 24 \<or> bit inst 21 then r(fld 16 inst := r (fld 16 inst) + mem_off inst) else r)"

lemma seg_setr [simp]: "seg (setr i v s) = seg s" "membpt (setr i v s) = membpt s"
  by (simp_all add: setr_def)

lemma mview_setr [simp]: "mview h (setr i v s) = mview h s" "wf_mem (setr i v s) = wf_mem s"
  by (rule ext) (simp_all only: mview_def wf_mem_def seg_setr)

lemma regs_setr [simp]: "regs (setr i v s) = (regs s)(i := v)"
  by (simp add: setr_def)

lemma cpu_regs: "cpu t = cpu s \<Longrightarrow> regs t = regs s \<and> membpt t = membpt s"
  by (simp add: cpu_def)

definition wb_step :: "u32 \<Rightarrow> (arm, unit) eff" where
  "wb_step inst = onlyif (\<not> bit inst 24 \<or> bit inst 21)
     (modify (\<lambda>s. setr (fld 16 inst) (regs s (fld 16 inst) + mem_off inst) s))"

lemma wb_step_exact: "\<exists>t. wb_step inst s = (Inr (), t) \<and> regs t = write_back inst (regs s) \<and>
    mview h t = mview h s \<and> wf_mem t = wf_mem s \<and> membpt t = membpt s"
  by (simp add: wb_step_def write_back_def onlyif_def)

lemma Imem1_word:
  assumes "\<not> bit inst 25" and "\<not> bit inst 22" and "fld 16 inst \<noteq> 15" and "fld 12 inst \<noteq> 15"
  shows "Imem1 h inst s =
    seq (if bit inst 20 then bind (getmem_w h (ea inst s)) (\<lambda>w. modify (setr (fld 12 inst) w))
         else putmem_w h (ea inst s) (ucast (regs s (fld 12 inst)))) (wb_step inst) s"
  using assms by (cases "bit inst 20"; cases "bit inst 23")
    (simp_all add: Imem1_def Let_def wb_step_def ea_def mem_off_def seq_def bind_norm ucast_64_32)

lemma str_word:
  assumes "\<not> bit inst 25" and "\<not> bit inst 22" and "\<not> bit inst 20"
    and "fld 16 inst \<noteq> 15" and "fld 12 inst \<noteq> 15"
    and "wf_mem s" and "membpt s = 0" and "ea inst s AND 3 = 0" and "mview h s (ea inst s) \<noteq> None"
  shows "\<exists>t. Imem1 h inst s = (Inr (), t) \<and> wf_mem t \<and> regs t = write_back inst (regs s) \<and>
    mview h t = mstore_w (mview h s) (ea inst s) (ucast (regs s (fld 12 inst))) \<and> membpt t = membpt s"
proof -
  let ?m = "putmem_w h (ea inst s) (ucast (regs s (fld 12 inst)))"
  obtain v0 where "mview h s (ea inst s) = Some v0" using assms(9) by blast
  note st = putmem_w_stored [OF assms(6,8) this, of "ucast (regs s (fld 12 inst))"]
  obtain res u where u: "?m s = (res, u)" by (cases "?m s")
  with st assms(7) have w: "res = Inr ()" "wf_mem u" "cpu u = cpu s"
      "mview h u = mstore_w (mview h s) (ea inst s) (ucast (regs s (fld 12 inst)))"
    by (simp_all add: stored_def)
  have "Imem1 h inst s = wb_step inst u"
    using u w(1) assms(3) by (simp add: Imem1_word [OF assms(1,2,4,5)] seq_def bind_def)
  then show ?thesis using wb_step_exact [of inst u h] w cpu_regs [OF w(3)] by auto
qed

lemma ldr_loaded:
  assumes "\<not> bit inst 25" and "\<not> bit inst 22" and "bit inst 20"
    and "fld 16 inst \<noteq> 15" and "fld 12 inst \<noteq> 15"
    and "wf_mem s" and u: "getmem_w h (ea inst s) s = (Inr w, u)" "transparent h s u"
  shows "\<exists>t. Imem1 h inst s = (Inr (), t) \<and> wf_mem t \<and> mview h t = mview h s \<and>
    regs t = write_back inst ((regs s)(fld 12 inst := w)) \<and> membpt t = membpt s"
proof -
  note tr = transparentD [OF u(2)]
  let ?u = "setr (fld 12 inst) w u"
  have "Imem1 h inst s = wb_step inst ?u"
    using u(1) assms(3) by (simp add: Imem1_word [OF assms(1,2,4,5)] seq_def bind_def)
  then show ?thesis
    using wb_step_exact [of inst ?u h] tr assms(6) cpu_regs [OF tr(3)] by auto
qed

lemma ldr_word:
  assumes "\<not> bit inst 25" and "\<not> bit inst 22" and "bit inst 20"
    and "fld 16 inst \<noteq> 15" and "fld 12 inst \<noteq> 15"
    and "wf_mem s" and "ea inst s AND 3 = 0" and "mword h s (ea inst s) = Some w"
  shows "\<exists>t. Imem1 h inst s = (Inr (), t) \<and> wf_mem t \<and> mview h t = mview h s \<and>
    regs t = write_back inst ((regs s)(fld 12 inst := w)) \<and> membpt t = membpt s"
proof -
  obtain b where "mview h s (ea inst s) = Some b"
    using assms(8) by (auto simp: mword_def split: option.splits)
  from getmem_w_ok [OF assms(6,7) this] assms(8)
  obtain u where "getmem_w h (ea inst s) s = (Inr w, u)" "transparent h s u" by auto
  with assms(1-6) show ?thesis by (rule ldr_loaded)
qed

text \<open>
  The two loops that push and pop use, over the registers of the list only: \<open>push_loop\<close> is the
  store with decrement before, \<open>pop_loop\<close> the load with increment after.
\<close>

primrec push_loop :: "host \<Rightarrow> nat list \<Rightarrow> u64 \<Rightarrow> (arm, u64) eff" where
  "push_loop h [] a = ret a"
| "push_loop h (i # is) a =
     seq (bind (gets (\<lambda>s. ucast (regs s i))) (putmem_w h (a - 4))) (push_loop h is (a - 4))"

primrec pop_loop :: "host \<Rightarrow> nat list \<Rightarrow> u64 \<Rightarrow> (arm, u64) eff" where
  "pop_loop h [] a = ret a"
| "pop_loop h (i # is) a =
     seq (bind (getmem_w h a) (\<lambda>w. modify (setr i w))) (pop_loop h is (a + 4))"

lemma lsm_push: "lsm_loop h False False 4 0 rl is a = push_loop h (filter (bit rl) is) a"
  by (induction "is" arbitrary: a) (simp_all add: Let_def)

lemma lsm_pop: "lsm_loop h True True 0 4 rl is a = pop_loop h (filter (bit rl) is) a"
  by (induction "is" arbitrary: a) (simp_all add: Let_def)

lemma aligned_step: "a AND 3 = 0 \<Longrightarrow> (a - 4) AND 3 = 0 \<and> (a + 4) AND 3 = 0" for a :: u64
proof -
  have "unat (b + 4) mod 4 = unat b mod 4" for b :: u64
    by (simp add: unat_word_ariths mod_mod_cancel)
  from this [of a] this [of "a - 4"] show "a AND 3 = 0 \<Longrightarrow> ?thesis" by (simp add: aligned4)
qed

lemma pop_loop_ok:
  assumes "wf_mem s" and "a AND 3 = 0" and "distinct is"
    and "\<And>k. k < length is \<Longrightarrow> mword h s (a + 4 * of_nat k) = Some (ws k)"
  shows "\<exists>t. pop_loop h is a s = (Inr (a + 4 * of_nat (length is)), t) \<and> wf_mem t \<and>
    mview h t = mview h s \<and> (\<forall>k < length is. regs t (is ! k) = ws k) \<and>
    (\<forall>i. i \<notin> set is \<longrightarrow> regs t i = regs s i)"
  using assms
proof (induction "is" arbitrary: a s ws)
  case (Cons i js)
  have w: "mword h s a = Some (ws 0)" using Cons.prems(4) [of 0] by simp
  then obtain b where "mview h s a = Some b" by (auto simp: mword_def split: option.splits)
  with getmem_w_ok [OF Cons.prems(1,2)] w
  obtain u where u: "getmem_w h a s = (Inr (ws 0), u)" "transparent h s u" by fastforce
  define v where "v = setr i (ws 0) u"
  have v: "wf_mem v" "mview h v = mview h s" "regs v = (regs s)(i := ws 0)"
    using transparentD [OF u(2)] Cons.prems(1) cpu_regs [of u s] by (simp_all add: v_def)
  have "mword h v (a + 4 + 4 * of_nat k) = Some (ws (Suc k))" if "k < length js" for k
    using Cons.prems(4) [of "Suc k"] that v(2) by (simp add: mword_def algebra_simps)
  then obtain t where t: "pop_loop h js (a + 4) v = (Inr (a + 4 + 4 * of_nat (length js)), t)" "wf_mem t"
      "mview h t = mview h v" "\<forall>k < length js. regs t (js ! k) = ws (Suc k)"
      "\<forall>i. i \<notin> set js \<longrightarrow> regs t i = regs v i"
    using Cons.IH [of v "a + 4" "\<lambda>k. ws (Suc k)"] v(1) Cons.prems(2,3) aligned_step by auto
  have "pop_loop h (i # js) a s = pop_loop h js (a + 4) v"
    using u(1) by (simp add: seq_def bind_def v_def)
  then show ?case
    using t v Cons.prems(3) by (auto simp: algebra_simps nth_Cons split: nat.split)
qed simp

lemma not_below: "k < 64 \<Longrightarrow> j < 4 \<Longrightarrow> a + of_nat j \<noteq> a - 1 - of_nat k" for a :: u64
proof
  assume "k < 64" and "j < 4" and "a + of_nat j = a - 1 - of_nat k"
  then have "(of_nat (j + 1 + k) :: u64) = 0" by (simp add: algebra_simps eq_diff_eq)
  then have "unat (of_nat (j + 1 + k) :: u64) = 0" by simp
  with \<open>k < 64\<close> \<open>j < 4\<close> show False unfolding unat_of_nat by simp
qed

lemma mword_cong: "(\<And>j. j < 4 \<Longrightarrow> mview h t (a + of_nat j) = mview h u (a + of_nat j)) \<Longrightarrow> mword h t a = mword h u a"
proof -
  assume e: "\<And>j. j < 4 \<Longrightarrow> mview h t (a + of_nat j) = mview h u (a + of_nat j)"
  from e [of 0] e [of 1] e [of 2] e [of 3] show ?thesis by (simp add: mword_def)
qed

lemma push_loop_ok:
  assumes "wf_mem s" and "membpt s = 0" and "a AND 3 = 0" and "length is \<le> 16"
    and "\<And>k. k < length is \<Longrightarrow> mview h s (a - 4 - 4 * of_nat k) \<noteq> None"
  shows "\<exists>t. push_loop h is a s = (Inr (a - 4 * of_nat (length is)), t) \<and> wf_mem t \<and> cpu t = cpu s \<and>
    (\<forall>k < length is. mword h t (a - 4 - 4 * of_nat k) = Some (regs s (is ! k))) \<and>
    (\<forall>x. (\<forall>k < 4 * length is. x \<noteq> a - 1 - of_nat k) \<longrightarrow> mview h t x = mview h s x)"
  using assms
proof (induction "is" arbitrary: a s)
  case (Cons i js)
  let ?m = "mstore_w (mview h s) (a - 4) (ucast (regs s i))"
  obtain v0 where "mview h s (a - 4) = Some v0" using Cons.prems(5) [of 0] by auto
  note st = putmem_w_stored [OF Cons.prems(1) conjunct1 [OF aligned_step [OF Cons.prems(3)]] this]
  obtain res u where u: "putmem_w h (a - 4) (ucast (regs s i)) s = (res, u)"
    by (cases "putmem_w h (a - 4) (ucast (regs s i)) s")
  with st [of "ucast (regs s i)"] Cons.prems(2)
  have w: "res = Inr ()" "wf_mem u" "cpu u = cpu s" "mview h u = ?m" by (simp_all add: stored_def)
  have ru: "regs u = regs s" "membpt u = membpt s" using cpu_regs [OF w(3)] by simp_all
  have "mview h u (a - 4 - 4 - 4 * of_nat k) \<noteq> None" if "k < length js" for k
    using Cons.prems(5) [of "Suc k"] that by (auto simp: w(4) mstore_w_def algebra_simps)
  then obtain t where t: "push_loop h js (a - 4) u = (Inr (a - 4 - 4 * of_nat (length js)), t)"
      "wf_mem t" "cpu t = cpu u"
      "\<forall>k < length js. mword h t (a - 4 - 4 - 4 * of_nat k) = Some (regs u (js ! k))"
      "\<forall>x. (\<forall>k < 4 * length js. x \<noteq> a - 4 - 1 - of_nat k) \<longrightarrow> mview h t x = mview h u x"
    using Cons.IH [of u "a - 4"] w(2) ru(2) Cons.prems(2,3,4) aligned_step [of a] by auto
  have "mview h t (a - 4 + of_nat j) = mview h u (a - 4 + of_nat j)" if "j < 4" for j
    using t(5) not_below [of _ j "a - 4"] that Cons.prems(4) by auto
  then have "mword h t (a - 4) = mword h u (a - 4)" by (rule mword_cong)
  also have "\<dots> = Some (regs s i)"
    using mword_stored [OF w(4)] by (simp add: ucast_64_32)
  finally have first: "mword h t (a - 4) = Some (regs s i)" .
  have out: "mview h t x = mview h s x" if x: "\<forall>k < 4 * length (i # js). x \<noteq> a - 1 - of_nat k" for x
  proof -
    have "\<forall>k < 4 * length js. x \<noteq> a - 4 - 1 - of_nat k"
      using x [THEN spec, of "k + 4" for k] by (auto simp: algebra_simps)
    moreover have "x \<noteq> a - 4" "x \<noteq> a - 3" "x \<noteq> a - 2" "x \<noteq> a - 1"
      using x [THEN spec, of 3] x [THEN spec, of 2] x [THEN spec, of 1] x [THEN spec, of 0] by simp_all
    ultimately show ?thesis using t(5) by (simp add: w(4) mstore_w_def)
  qed
  have "push_loop h (i # js) a s = push_loop h js (a - 4) u"
    using u w(1) by (simp add: seq_def bind_def)
  moreover have "mword h t (a - 4 - 4 * of_nat k) = Some (regs s ((i # js) ! k))" if "k < length (i # js)" for k
    using first t(4) that ru(1) by (cases k) (simp_all add: algebra_simps)
  ultimately show ?case using t(1-3) w(3) out by (simp add: algebra_simps)
qed simp

text \<open>
  Saving registers on the stack: the registers of a list, in increasing order, the instruction that
  pushes them and the instruction that pops them.
\<close>

definition reg_list :: "u32 \<Rightarrow> nat list" where
  "reg_list inst = filter (bit (inst AND 0xffff)) [0..<16]"

definition push_inst :: "u32 \<Rightarrow> bool" where
  "push_inst inst \<longleftrightarrow> bit inst 24 \<and> \<not> bit inst 23 \<and> \<not> bit inst 22 \<and> bit inst 21 \<and> \<not> bit inst 20"

definition pop_inst :: "u32 \<Rightarrow> bool" where
  "pop_inst inst \<longleftrightarrow> \<not> bit inst 24 \<and> bit inst 23 \<and> \<not> bit inst 22 \<and> bit inst 21 \<and> bit inst 20"

lemma reg_list_15: "15 \<notin> set (reg_list inst) \<Longrightarrow> (inst AND 0xffff) AND 0x8000 = 0"
proof -
  assume a: "15 \<notin> set (reg_list inst)"
  have "(0x8000 :: u32) = 2 ^ 15" by simp
  with a show ?thesis
    by (simp only: and_exp_eq_0_iff_not_bit) (auto simp: reg_list_def)
qed

lemma reg_list_length: "length (reg_list inst) \<le> 16" and reg_list_distinct: "distinct (reg_list inst)"
  using length_filter_le [of "bit (inst AND 0xffff)" "[0..<16]"] by (auto simp: reg_list_def)

lemma Ilsm_push:
  assumes "push_inst inst" and "15 \<notin> set (reg_list inst)"
  shows "Ilsm h inst s = bind (push_loop h (rev (reg_list inst)) (ucast (regs s (fld 16 inst))))
    (\<lambda>a. modify (setr (fld 16 inst) (ucast a))) s"
  using assms reg_list_15 [OF assms(2)]
  by (simp add: Ilsm_def Let_def push_inst_def seq_def lsm_push rev_filter reg_list_def del: upt_Suc)

lemma Ilsm_pop:
  assumes "pop_inst inst" and "15 \<notin> set (reg_list inst)"
  shows "Ilsm h inst s = bind (pop_loop h (reg_list inst) (ucast (regs s (fld 16 inst))))
    (\<lambda>a. modify (setr (fld 16 inst) (ucast a))) s"
  using assms reg_list_15 [OF assms(2)]
  by (simp add: Ilsm_def Let_def pop_inst_def seq_def lsm_pop reg_list_def del: upt_Suc)

lemma ucast_low:
  assumes "unat a < 2 ^ 32" shows "(ucast (ucast a :: u32) :: u64) = a"
proof (rule bit_word_eqI)
  fix n assume "n < LENGTH(64)"
  have "32 \<le> n \<Longrightarrow> \<not> bit a n" using assms unat_less_exp_iff [of a 32] by blast
  then show "bit (ucast (ucast a :: u32) :: u64) n = bit a n"
    using \<open>n < LENGTH(64)\<close> by (cases "n < 32") (auto simp: bit_simps)
qed

lemma ucast_aligned: "w AND 3 = 0 \<Longrightarrow> (ucast w :: u64) AND 3 = 0" for w :: u32
proof -
  have "(ucast w :: u64) AND 3 = ucast (w AND 3)"
    by (rule bit_word_eqI) (auto simp: bit_simps dest: bit_imp_le_length)
  then show "w AND 3 = 0 \<Longrightarrow> ?thesis" by simp
qed

lemma stack_room:
  fixes w :: u32
  assumes "4 * n \<le> unat w" and "n \<le> 16"
  shows "(ucast (ucast (ucast w - 4 * of_nat n :: u64) :: u32) :: u64) = ucast w - 4 * of_nat n"
proof (rule ucast_low)
  have w: "unat (ucast w :: u64) = unat w" by (simp add: unsigned_ucast_eq take_bit_nat_eq_self_iff less_trans [OF unat_less])
  have n: "unat (4 * of_nat n :: u64) = 4 * n"
    using assms(2) by (simp add: unat_word_ariths unat_of_nat)
  have "unat (ucast w - 4 * of_nat n :: u64) = unat w - 4 * n"
    using assms(1) by (subst unat_sub) (simp_all add: word_le_nat_alt w n)
  then show "unat (ucast w - 4 * of_nat n :: u64) < 2 ^ 32" using unat_less [of w] by simp
qed

lemma push_pop:
  assumes "push_inst p" and "pop_inst q" and "fld 16 q = fld 16 p" and "reg_list q = reg_list p"
    and "15 \<notin> set (reg_list p)" and "fld 16 p \<notin> set (reg_list p)"
    and "wf_mem s" and "membpt s = 0" and "regs s (fld 16 p) AND 3 = 0"
    and "4 * length (reg_list p) \<le> unat (regs s (fld 16 p))"
    and "\<And>k. k < length (reg_list p) \<Longrightarrow> mview h s (ucast (regs s (fld 16 p)) - 4 - 4 * of_nat k) \<noteq> None"
  shows "\<exists>t. Ilsm h p s = (Inr (), t) \<and>
    (\<forall>u. wf_mem u \<and> mview h u = mview h t \<and> regs u (fld 16 p) = regs t (fld 16 p) \<longrightarrow>
      (\<exists>v. Ilsm h q u = (Inr (), v) \<and> (\<forall>i \<in> set (reg_list p) \<union> {fld 16 p}. regs v i = regs s i) \<and>
        (\<forall>i. i \<notin> set (reg_list p) \<union> {fld 16 p} \<longrightarrow> regs v i = regs u i)))"
proof -
  define L n a where "L = reg_list p" and "n = length L" and "a = (ucast (regs s (fld 16 p)) :: u64)"
  note defs = L_def n_def a_def
  have n16: "n \<le> 16" and dL: "distinct L" using reg_list_length reg_list_distinct by (simp_all add: defs)
  have al: "a AND 3 = 0" using ucast_aligned [OF assms(9)] by (simp add: defs)
  have mapped: "mview h s (a - 4 - 4 * of_nat k) \<noteq> None" if "k < length (rev L)" for k
    using assms(11) [of k] that by (simp add: defs)
  have "length (rev L) \<le> 16" using n16 by (simp add: n_def)
  from push_loop_ok [where h = h, OF assms(7,8) al this mapped]
  obtain t where t: "push_loop h (rev L) a s = (Inr (a - 4 * of_nat n), t)" "wf_mem t" "cpu t = cpu s"
      "\<forall>k < n. mword h t (a - 4 - 4 * of_nat k) = Some (regs s (rev L ! k))"
    by (auto simp: n_def)
  let ?t = "setr (fld 16 p) (ucast (a - 4 * of_nat n)) t"
  have push: "Ilsm h p s = (Inr (), ?t)"
    using t(1) by (simp add: Ilsm_push [OF assms(1,5)] bind_def flip: defs)
  have bk: "(ucast (ucast (a - 4 * of_nat n) :: u32) :: u64) = a - 4 * of_nat n"
    unfolding a_def by (rule stack_room) (use assms(10) n16 in \<open>simp_all add: defs\<close>)
  have al': "(a - 4 * of_nat n) AND 3 = 0"
  proof (induction n)
    case (Suc m)
    then show ?case using aligned_step [of "a - 4 * of_nat m"] by (simp add: algebra_simps)
  qed (simp add: al)
  have "\<exists>v. Ilsm h q u = (Inr (), v) \<and> (\<forall>i \<in> set L \<union> {fld 16 p}. regs v i = regs s i) \<and>
      (\<forall>i. i \<notin> set L \<union> {fld 16 p} \<longrightarrow> regs v i = regs u i)"
    if u: "wf_mem u" "mview h u = mview h ?t" "regs u (fld 16 p) = regs ?t (fld 16 p)" for u
  proof -
    have w: "mword h u (a - 4 * of_nat n + 4 * of_nat k) = Some (regs s (L ! k))" if "k < length L" for k
    proof -
      have "n = Suc (n - Suc k + k)" using that by (simp add: defs)
      then have "(of_nat n :: u64) = 1 + of_nat (n - Suc k) + of_nat k" by (metis of_nat_Suc of_nat_add add.assoc)
      then have "a - 4 - 4 * of_nat (n - Suc k) = a - 4 * of_nat n + 4 * of_nat k" by (simp add: algebra_simps)
      moreover have "rev L ! (n - Suc k) = L ! k" using that by (simp add: rev_nth defs)
      moreover have "mword h u = mword h t" by (rule ext) (simp add: mword_def u(2))
      moreover have "n - Suc k < n" using that by (simp add: n_def)
      ultimately show ?thesis using t(4) by metis
    qed
    obtain v where v: "pop_loop h L (a - 4 * of_nat n) u = (Inr a, v)"
        "\<forall>k < length L. regs v (L ! k) = regs s (L ! k)" "\<forall>i. i \<notin> set L \<longrightarrow> regs v i = regs u i"
      using pop_loop_ok [where h = h, OF u(1) al' dL w] by (auto simp: n_def)
    have "ucast (regs u (fld 16 q)) = a - 4 * of_nat n" using u(3) bk by (simp add: assms(3))
    then have "Ilsm h q u = (Inr (), setr (fld 16 p) (ucast a) v)"
      using v(1) assms(5) by (simp add: Ilsm_pop [OF assms(2)] assms(3,4) bind_def flip: L_def)
    moreover have "\<forall>i \<in> set L. regs v i = regs s i" using v(2) by (metis in_set_conv_nth)
    ultimately show ?thesis
      using v(3) assms(6) by (auto simp: ucast_64_32 a_def L_def)
  qed
  then show ?thesis using push unfolding L_def by blast
qed

section \<open>Decoding\<close>

lemma arm_class_cases:
  fixes w :: u32
  defines "cls \<equiv> unat (drop_bit 25 w AND 7)"
  shows "arm_class w \<le> OUNDEF \<and> (arm_class w = OUNDEF \<longleftrightarrow> cls = 6) \<and> (arm_class w = OSWI \<longleftrightarrow> cls = 7) \<and>
    (arm_class w \<in> {OB, OBL} \<longleftrightarrow> cls = 5) \<and> (arm_class w \<in> {CBLOC, OSTM} \<longleftrightarrow> cls = 4) \<and>
    (arm_class w \<in> {CARITH3..<CMUL} \<longleftrightarrow> cls = 1)"
proof -
  have f: "fld 21 w < 16" by (rule fld_less)
  have b: "unat (drop_bit k w AND 1) \<le> 1" "unat (drop_bit k w AND 2) \<le> 2" for k
    using unat_and_le [of "drop_bit k w" 1] unat_and_le [of "drop_bit k w" 2] by simp_all
  have c: "cls \<le> 7" using unat_and_le [of "drop_bit 25 w" 7] by (simp add: cls_def)
  have "drop_bit 25 w AND 1 \<noteq> 0" if "cls = 7"
  proof -
    have "drop_bit 25 w AND 7 = 7" using that by (simp add: cls_def word_unat_eq_iff)
    then have "(drop_bit 25 w AND 7) AND 1 = 1" by simp
    then show ?thesis by (simp add: and.assoc)
  qed
  then show ?thesis
    using f b [of 22] b [of 19] b [of 20] b [of 24] c
    unfolding arm_class_def Let_def cls_def [symmetric] by auto
qed

section \<open>Properties\<close>

text \<open>
  C19: after \<^verbatim>\<open>CMP\<close>, \<^verbatim>\<open>SUB.S\<close> or \<^verbatim>\<open>RSB.S\<close> every condition code
  decides as the architecture's flags of the subtraction do; the overflow conditions VS and VC are
  the exception, they trap as undefined instructions.
\<close>

theorem compare_conditions_exact:
  assumes "bit inst 20" and "c < 16"
    and "fld 21 inst = OCMP \<and> a = o1 \<and> b = o2 \<or> fld 21 inst = OSUB \<and> a = o1 \<and> b = o2 \<or>
      fld 21 inst = ORSB \<and> a = o2 \<and> b = o1"
  shows "\<exists>t. dpex inst o1 o2 rd s = (Inr (), t) \<and>
    regs t = (if fld 21 inst = OCMP then regs s else (regs s)(rd := a - b)) \<and>
    (if c = 6 \<or> c = 7 then fst (run_cond (t\<lparr>instr_cond := c\<rparr>)) = Inl (Errjmp (UndefInstr (instr t)))
     else decides c t (cond_passed c (flags_sub a b)))"
proof -
  define t where "t = set_cc a b CCcmp (if fld 21 inst = OCMP then s else setr rd (a - b) s)"
  have "dpex inst o1 o2 rd s = (Inr (), t)"
    using assms by (auto simp: dpex_def Let_def t_def seq_def)
  moreover have "compare_op t = CCcmp" "cc1 t = a" "cc2 t = b" by (simp_all add: t_def set_cc_def)
  moreover have "regs t = (if fld 21 inst = OCMP then regs s else (regs s)(rd := a - b))"
    by (simp add: t_def set_cc_def)
  ultimately show ?thesis
    using decides_cmp [of t c] undecided [of t c] assms(2) by (intro exI [of _ t]) simp
qed

theorem compare_conditions_exact_witness:
  "\<exists>t. dpex 0xE1510002 3 5 0 demo = (Inr (), t) \<and> decides 3 t True"
  using compare_conditions_exact [of "0xE1510002" 3 3 3 5 5 0 demo]
  by (auto simp: fld_def flags_sub_def)

text \<open>
  C34: after \<^verbatim>\<open>ADD.S\<close> (and \<^verbatim>\<open>CMN\<close>, with the operands exchanged) every
  condition code but VS and VC (6 and 7), which trap, decides as the flags of the addition do, unless the
  negated operand is zero or the most negative number. For a zero operand the emulator takes HS as true, where the architecture's
  carry is clear.
\<close>

theorem add_conditions_exact:
  assumes "bit inst 20" and "c < 16" and "c \<noteq> 6" and "c \<noteq> 7"
    and "fld 21 inst = OADD \<and> a = o1 \<and> b = o2 \<or> fld 21 inst = OCMN \<and> a = o2 \<and> b = o1"
    and "a \<noteq> 0x80000000"
  shows "\<exists>t. dpex inst o1 o2 rd s = (Inr (), t) \<and>
    (a \<noteq> 0 \<longrightarrow> decides c t (cond_passed c (flags_add o1 o2))) \<and>
    (a = 0 \<longrightarrow> decides 2 t True \<and> \<not> cond_passed 2 (flags_add o1 o2))"
proof -
  define s1 where "s1 = (if fld 21 inst = OCMN then s else
    (setr rd (o1 + o2) s)\<lparr>cbit := ((ucast o1 :: u64) + ucast o2) AND push_bit 32 1 \<noteq> 0\<rparr>)"
  define t where "t = set_cc b (- a) CCcmp s1"
  have d: "dpex inst o1 o2 rd s = (Inr (), t)"
    using assms by (auto simp: dpex_def Let_def t_def s1_def seq_def)
  have t: "compare_op t = CCcmp" "cc1 t = b" "cc2 t = - a" by (simp_all add: t_def set_cc_def)
  have ab: "flags_add a b = flags_add o1 o2"
    using assms(5) by (auto simp: flags_add_def add.commute)
  have "decides c t (cond_passed c (flags_add o1 o2))" if "a \<noteq> 0"
    using decides_cmp [OF t(1) assms(2-4)] flags_sub_neg [OF that assms(6), of b] t ab by simp
  moreover have "decides 2 t True \<and> \<not> cond_passed 2 (flags_add o1 o2)" if "a = 0"
    using decides_cmp [OF t(1), of 2] uint_u32 [of b] that t unfolding ab [symmetric]
    by (simp add: flags_sub_def flags_add_def)
  ultimately show ?thesis using d by blast
qed

theorem add_conditions_exact_witness:
  "\<exists>t. dpex 0xE0910002 0xFFFFFFFF 1 0 demo = (Inr (), t) \<and> decides 0 t True"
  using add_conditions_exact [of "0xE0910002" 0 "0xFFFFFFFF" "0xFFFFFFFF" 1 1 0 demo]
  by (auto simp: fld_def flags_add_def)

text \<open>
  C33: the barrel shifter computes the architecture's shifts on integers, with the
  last bit shifted out as carry, for counts 1 to 31; the immediate of \<^verbatim>\<open>Idp3\<close> is its byte rotated
  right by twice the rotation field; a register-specified count outside 0 to 31 is defined only for
  the arithmetic shift, which fills with the sign.
\<close>

theorem second_operand_exact:
  assumes "0 < n" and "n < 32" and "32 \<le> sc \<or> sc < 0"
  shows "(\<exists>r c. shift v st (int n) isreg s = (Inr r, s\<lparr>cout := c\<rparr>) \<and> is_shifted st n v r c) \<and>
    fst (shift v st sc True s) =
      (if st = 2 \<and> sc \<ge> 32 then Inr (if sint v < 0 then - 1 else 0) else Inl Undefined) \<and>
    Idp3 inst s = seq (dpex inst (operand (fld 16 inst) s)
      (word_rotr (2 * fld 8 inst) (inst AND 0xff)) (fld 12 inst)) (compensate (fld 12 inst)) s"
  using shift_exact [OF assms(1,2)] shift_too_far [OF assms(3)] Idp3_rotated by blast

theorem second_operand_exact_witness:
  "\<exists>r c. shift 0x80000001 2 4 False demo = (Inr r, demo\<lparr>cout := c\<rparr>) \<and>
     is_shifted 2 4 0x80000001 r c"
  using second_operand_exact [of 4 32 "0x80000001" 2 False demo] by simp

text \<open>
  C35: \<^verbatim>\<open>Imull\<close> leaves the exact 64-bit product, signed or unsigned, in the
  register pair and touches nothing else. With the accumulate bit it adds the low register of the
  pair only; the architecture adds the pair.
\<close>

theorem long_multiply_exact:
  assumes "{fld 16 inst, fld 12 inst, fld 8 inst, fld 0 inst} \<subseteq> {0..<15}"
    and "fld 16 inst \<noteq> fld 0 inst" and "fld 12 inst \<noteq> fld 0 inst" and "fld 16 inst \<noteq> fld 12 inst"
  shows "\<exists>r. Imull inst s = (Inr (), s\<lparr>regs := r\<rparr>) \<and>
    (\<forall>i. i \<noteq> fld 16 inst \<longrightarrow> i \<noteq> fld 12 inst \<longrightarrow> r i = regs s i) \<and>
    (if bit inst 22
     then sint (r (fld 16 inst)) * 2 ^ 32 + uint (r (fld 12 inst)) =
       sint (regs s (fld 0 inst)) * sint (regs s (fld 8 inst)) +
       (if bit inst 21 then sint (regs s (fld 12 inst)) else 0)
     else uint (r (fld 16 inst)) * 2 ^ 32 + uint (r (fld 12 inst)) =
       uint (regs s (fld 0 inst)) * uint (regs s (fld 8 inst)) +
       (if bit inst 21 then uint (regs s (fld 12 inst)) else 0))"
  using Imull_exact [OF assms] .

theorem long_multiply_exact_witness:
  "\<exists>r. Imull 0xE0832190 (setr 1 0xFFFFFFFF demo) = (Inr (), (setr 1 0xFFFFFFFF demo)\<lparr>regs := r\<rparr>) \<and>
     uint (r 3) * 2 ^ 32 + uint (r 2) = 0"
  using long_multiply_exact [of "0xE0832190" "setr 1 0xFFFFFFFF demo"]
  by (auto simp: fld_def demo_def)

text \<open>
  After \<^verbatim>\<open>B\<close> and \<^verbatim>\<open>BL\<close> and the increment of \<^verbatim>\<open>run\<close> the program counter is
  the address of the branch plus eight plus four times the sign-extended 24-bit offset, modulo
  \<open>2^32\<close>; \<^verbatim>\<open>BL\<close> leaves the address of the next instruction in the link register.
\<close>

theorem branches_exact:
  fixes inst :: u32
  defines "dest \<equiv> \<lambda>s. regs s REGPC + 8 + 4 * scast (ucast inst :: 24 word)"
  shows "Ib inst s = (Inr (), setr REGPC (dest s - 4) s) \<and>
    Ibl inst s = (Inr (), setr REGPC (dest s - 4) (setr REGLINK (regs s REGPC + 4) s))"
proof -
  have "(ucast (branch_target inst s - 4) :: u32) = dest s - 4"
    by (simp only: ucast_down branch_target_exact dest_def) simp
  then show ?thesis by (simp add: Ib_def Ibl_def seq_def)
qed

text \<open>
  C24: a word store with immediate offset, with neither the base nor the transferred
  register the program counter, writes the register to the effective
  address of the flat memory, a word load reads it, and both leave the updated address in the base
  register when the addressing mode asks for it; nothing else changes in registers or memory. Register
  offsets are not covered.
\<close>

theorem word_transfers_exact:
  assumes "\<not> bit inst 25" and "\<not> bit inst 22" and "fld 16 inst \<noteq> REGPC" and "fld 12 inst \<noteq> REGPC"
    and "wf_mem s" and "membpt s = 0" and "ea inst s AND 3 = 0" and "mword h s (ea inst s) = Some w"
  shows "\<exists>t. Imem1 h inst s = (Inr (), t) \<and> wf_mem t \<and>
    (if bit inst 20
     then mview h t = mview h s \<and> regs t = write_back inst ((regs s)(fld 12 inst := w))
     else mview h t = mstore_w (mview h s) (ea inst s) (ucast (regs s (fld 12 inst))) \<and>
       regs t = write_back inst (regs s))"
proof (cases "bit inst 20")
  case True
  then show ?thesis using ldr_word [OF assms(1,2) True assms(3,4,5,7,8)] by auto
next
  case False
  have "mview h s (ea inst s) \<noteq> None" using assms(8) by (auto simp: mword_def split: option.splits)
  from str_word [OF assms(1,2) False assms(3-7) this] False show ?thesis by auto
qed

theorem word_transfers_exact_witness:
  "\<exists>t. Imem1 demo_host 0xE5A10008 (setr 1 0x1000 demo) = (Inr (), t) \<and> regs t 1 = 0x1008"
proof -
  let ?s = "setr 1 0x1000 demo" and ?i = "0xE5A10008 :: u32"
  have ea: "ea ?i ?s = 0x1008" by (simp add: ea_def mem_off_def fld_def)
  have mv: "mview demo_host demo a = Some 0" if "0x1000 \<le> a" "a < 0x2000" for a
    using that by (rule demo_mapped)
  have "mword demo_host ?s (ea ?i ?s) = Some (word_le 0 0 0 0)"
    unfolding mword_def mview_setr ea by (simp add: mv)
  with word_transfers_exact [of ?i ?s demo_host] ea demo_wf show ?thesis
    by (auto simp: fld_def write_back_def mem_off_def demo_def)
qed

text \<open>
  C9: registers pushed with \<^verbatim>\<open>STM.DB!\<close> are restored by the matching \<^verbatim>\<open>LDM.IA!\<close>,
  and so is the stack pointer, whatever happened to the other registers in between, as long as the
  memory and the stack pointer are as the push left them.
\<close>

theorem push_pop_restores:
  assumes "push_inst p" and "pop_inst q" and "fld 16 q = fld 16 p" and "reg_list q = reg_list p"
    and "15 \<notin> set (reg_list p)" and "fld 16 p \<notin> set (reg_list p)"
    and "wf_mem s" and "membpt s = 0" and "regs s (fld 16 p) AND 3 = 0"
    and "4 * length (reg_list p) \<le> unat (regs s (fld 16 p))"
    and "\<And>k. k < length (reg_list p) \<Longrightarrow> mview h s (ucast (regs s (fld 16 p)) - 4 - 4 * of_nat k) \<noteq> None"
  shows "\<exists>t. Ilsm h p s = (Inr (), t) \<and>
    (\<forall>u. wf_mem u \<and> mview h u = mview h t \<and> regs u (fld 16 p) = regs t (fld 16 p) \<longrightarrow>
      (\<exists>v. Ilsm h q u = (Inr (), v) \<and> (\<forall>i \<in> set (reg_list p) \<union> {fld 16 p}. regs v i = regs s i) \<and>
        (\<forall>i. i \<notin> set (reg_list p) \<union> {fld 16 p} \<longrightarrow> regs v i = regs u i)))"
  using push_pop [OF assms] .

theorem push_pop_restores_witness:
  "\<exists>t. Ilsm demo_host 0xE92D4030 (setr 13 0x1800 demo) = (Inr (), t) \<and>
    (\<exists>v. Ilsm demo_host 0xE8BD4030 (setr 4 99 t) = (Inr (), v) \<and> regs v 4 = 0 \<and> regs v 13 = 0x1800)"
proof -
  let ?s = "setr 13 0x1800 demo" and ?p = "0xE92D4030 :: u32" and ?q = "0xE8BD4030 :: u32"
  have f: "fld 16 ?p = 13" "fld 16 ?q = 13" by (simp_all add: fld_def)
  have l: "reg_list ?p = [4, 5, 14]" "reg_list ?q = [4, 5, 14]" by (simp_all add: reg_list_def upt_rec)
  have pp: "push_inst ?p" "pop_inst ?q" by (simp_all add: push_inst_def pop_inst_def)
  have mv: "mview demo_host ?s (ucast (regs ?s (fld 16 ?p)) - 4 - 4 * of_nat k) \<noteq> None"
    if "k < length (reg_list ?p)" for k
  proof -
    have "k = 0 \<or> k = 1 \<or> k = 2" using that by (auto simp: l)
    then show ?thesis by (elim disjE) (simp_all add: f demo_mapped)
  qed
  have wf: "wf_mem ?s" "membpt ?s = 0" using demo_wf by (simp_all add: demo_def)
  obtain t where t: "Ilsm demo_host ?p ?s = (Inr (), t)"
    and pop: "\<forall>u. wf_mem u \<and> mview demo_host u = mview demo_host t \<and> regs u (fld 16 ?p) = regs t (fld 16 ?p) \<longrightarrow>
      (\<exists>v. Ilsm demo_host ?q u = (Inr (), v) \<and>
        (\<forall>i \<in> set (reg_list ?p) \<union> {fld 16 ?p}. regs v i = regs ?s i) \<and>
        (\<forall>i. i \<notin> set (reg_list ?p) \<union> {fld 16 ?p} \<longrightarrow> regs v i = regs u i))"
    using push_pop_restores [where h = demo_host, OF pp _ _ _ _ wf _ _ mv] by (auto simp: f l)
  have "wf_mem (setr 4 99 t)"
    using keepsD [OF sane_memory(4) t] wf by (simp add: sane_def)
  with pop [THEN spec, of "setr 4 99 t"] t show ?thesis by (auto simp: f l demo_def)
qed

text \<open>
  \<^verbatim>\<open>arm_class\<close> always yields an entry of \<^verbatim>\<open>itab\<close>; immediate data processing,
  block transfers and branches are recognised by bits 27 to 25 alone. All of class 7 decodes as a
  system call: the test for coprocessor instructions looks at a bit that is always set there, and
  only class 6 gets the index of the undefined instruction.
\<close>

theorem decode_exact:
  "arm_class w \<le> OUNDEF \<and>
   (arm_class w = OUNDEF \<longleftrightarrow> unat (drop_bit 25 w AND 7) = 6) \<and>
   (arm_class w = OSWI \<longleftrightarrow> unat (drop_bit 25 w AND 7) = 7) \<and>
   (arm_class w \<in> {OB, OBL} \<longleftrightarrow> unat (drop_bit 25 w AND 7) = 5) \<and>
   (arm_class w \<in> {CBLOC, OSTM} \<longleftrightarrow> unat (drop_bit 25 w AND 7) = 4) \<and>
   (arm_class w \<in> {CARITH3..<CMUL} \<longleftrightarrow> unat (drop_bit 25 w AND 7) = 1)"
  by (rule arm_class_cases)

end
