(* ===== verification/Arm_Sys.thy ===== *)
theory Arm_Sys
  imports Arm_Run
begin

text \<open>
  The system calls of the ARM emulator, \<^verbatim>\<open>machines/5i/syscall_posix.c\<close> (the file that its mkfile builds), and
  what a run of the emulator keeps with them. A call reads its arguments from the stack of the emulated
  program, asks the host and leaves its result in \<^verbatim>\<open>R0\<close>. The host is a parameter: a record of functions, one
  for each operation, whose first argument is the number of the call, so that it may answer the same
  question differently each time. Output of the debugger (\<^verbatim>\<open>Bprint\<close>, \<^verbatim>\<open>itrace\<close>) is not modelled.
\<close>

section \<open>The host\<close>

record posix =
  p_malloc :: "nat \<Rightarrow> u64 \<Rightarrow> bool"
  p_errstr :: "nat \<Rightarrow> u8 list"
  p_chdir :: "nat \<Rightarrow> u8 list \<Rightarrow> int"
  p_close :: "nat \<Rightarrow> int \<Rightarrow> int"
  p_dup :: "nat \<Rightarrow> int \<Rightarrow> int \<Rightarrow> int"
  p_open :: "nat \<Rightarrow> u8 list \<Rightarrow> int \<Rightarrow> int"
  p_getc :: "nat \<Rightarrow> int"
  p_read :: "nat \<Rightarrow> int \<Rightarrow> u64 \<Rightarrow> int \<times> u8 list"
  p_pread :: "nat \<Rightarrow> int \<Rightarrow> u64 \<Rightarrow> int \<Rightarrow> int \<times> u8 list"
  p_seek :: "nat \<Rightarrow> int \<Rightarrow> int \<Rightarrow> int \<Rightarrow> int"
  p_write :: "nat \<Rightarrow> int \<Rightarrow> u8 list \<Rightarrow> int"
  p_pwrite :: "nat \<Rightarrow> int \<Rightarrow> u8 list \<Rightarrow> int \<Rightarrow> int"
  p_pipe :: "nat \<Rightarrow> int \<times> int \<times> int"
  p_create :: "nat \<Rightarrow> u8 list \<Rightarrow> int \<Rightarrow> u64 \<Rightarrow> int"
  p_remove :: "nat \<Rightarrow> u8 list \<Rightarrow> int"

abbreviation (input) REGSP :: nat where "REGSP \<equiv> 13"
abbreviation (input) REGRET :: nat where "REGRET \<equiv> 0"
abbreviation (input) NSYS :: nat where "NSYS \<equiv> 40"
abbreviation (input) OERRLEN :: nat where "OERRLEN \<equiv> 64"
abbreviation (input) STATMAX :: u64 where "STATMAX \<equiv> 65535"

definition ask :: "(nat \<Rightarrow> 'a) \<Rightarrow> (arm, 'a) eff" where
  "ask f = bind (gets hostops) (\<lambda>k. seq (modify (\<lambda>s. s\<lparr>hostops := k + 1\<rparr>)) (ret (f k)))"

definition cstring :: "string \<Rightarrow> u8 list" where
  "cstring cs = map of_char cs"

definition set_errbuf :: "u8 list \<Rightarrow> (arm, unit) eff" where
  "set_errbuf bs = modify (\<lambda>s. s\<lparr>errbuf := bs\<rparr>)"

text \<open>
  \<^verbatim>\<open>errstr(errbuf, sizeof errbuf)\<close>, \<^verbatim>\<open>reg.r[REGRET] = n\<close> and the two together. What \<^verbatim>\<open>errstr\<close> puts in the buffer
  is the error string of the emulator's own process, which the operations before it may have set.
\<close>

definition errstr :: "posix \<Rightarrow> (arm, unit) eff" where
  "errstr os = bind (ask (p_errstr os)) set_errbuf"

definition set_ret :: "int \<Rightarrow> (arm, unit) eff" where
  "set_ret n = modify (setr REGRET (word_of_int n))"

definition reply :: "posix \<Rightarrow> int \<Rightarrow> (arm, unit) eff" where
  "reply os n = seq (onlyif (n < 0) (errstr os)) (set_ret n)"

text \<open>\<^verbatim>\<open>getmem_w(reg.r[REGSP]+k)\<close> and \<^verbatim>\<open>getmem_v(reg.r[REGSP]+k)\<close>; the addition is of 32 bits.\<close>

definition arg_w :: "host \<Rightarrow> u32 \<Rightarrow> (arm, u32) eff" where
  "arg_w h k = bind (gets (\<lambda>s. ucast (regs s REGSP + k))) (getmem_w h)"

definition arg_v :: "host \<Rightarrow> u32 \<Rightarrow> (arm, u64) eff" where
  "arg_v h k = bind (gets (\<lambda>s. ucast (regs s REGSP + k))) (getmem_v h)"

definition emalloc :: "posix \<Rightarrow> u64 \<Rightarrow> (arm, unit) eff" where
  "emalloc os sz = bind (ask (\<lambda>k. p_malloc os k sz)) (\<lambda>ok. if ok then ret () else raise (Fatal ''no memory''))"

text \<open>A name argument: \<^verbatim>\<open>memio(file, name, sizeof(file), MemReadstring)\<close> into a buffer of 1024 bytes.\<close>

definition arg_name :: "host \<Rightarrow> u32 \<Rightarrow> (arm, u8 list) eff" where
  "arg_name h name = memio_readstring h (ucast name) 1024"

text \<open>\<^verbatim>\<open>n > sizeof buf\<close> with \<^verbatim>\<open>int n\<close>: \<open>n\<close> is converted to the unsigned type of \<^verbatim>\<open>sizeof\<close>.\<close>

definition above :: "u32 \<Rightarrow> u64 \<Rightarrow> bool" where
  "above n sz \<longleftrightarrow> (word_of_int (sint n) :: u64) > sz"

section \<open>The calls\<close>

definition sysnop :: "(arm, unit) eff" where
  "sysnop = bind (gets (\<lambda>s. unat (regs s 1))) (\<lambda>i. if i < NSYS then ret () else raise Undefined)"

definition syserrstr :: "host \<Rightarrow> (arm, unit) eff" where
  "syserrstr h =
     bind (arg_w h 4) (\<lambda>str. bind (arg_w h 8) (\<lambda>n. bind (gets errbuf) (\<lambda>e.
       let n = min (sint n) (int (length e) + 1) in
       seq (memio_write h (ucast str) (take (nat n) (e @ [0])))
      (seq (set_errbuf (cstring ''no error'')) (set_ret n)))))"

definition sysbind :: "host \<Rightarrow> (arm, unit) eff" where
  "sysbind h =
     bind (arg_w h 4) (\<lambda>pname. bind (arg_w h 8) (\<lambda>pold. bind (arg_w h 12) (\<lambda>flags.
     bind (arg_name h pname) (\<lambda>name. bind (arg_name h pold) (\<lambda>old.
       raise (Fatal ''TODO bind() system call''))))))"

definition sysfd2path :: "host \<Rightarrow> (arm, unit) eff" where
  "sysfd2path h =
     bind (arg_w h 4) (\<lambda>fd. bind (arg_w h 8) (\<lambda>str. bind (arg_w h 12) (\<lambda>n.
     seq (modify (setr 1 (- 1)))
       (if above n 1024 then set_errbuf (cstring ''buffer too big'') else set_ret (sint n)))))"

definition syschdir :: "host \<Rightarrow> posix \<Rightarrow> (arm, unit) eff" where
  "syschdir h os =
     bind (arg_w h 4) (\<lambda>name. bind (arg_name h name) (\<lambda>file.
     bind (ask (\<lambda>k. p_chdir os k file)) (reply os)))"

definition sysclose :: "host \<Rightarrow> posix \<Rightarrow> (arm, unit) eff" where
  "sysclose h os = bind (arg_w h 4) (\<lambda>fd. bind (ask (\<lambda>k. p_close os k (sint fd))) (reply os))"

definition sysdup :: "host \<Rightarrow> posix \<Rightarrow> (arm, unit) eff" where
  "sysdup h os =
     bind (arg_w h 4) (\<lambda>oldfd. bind (arg_w h 8) (\<lambda>newfd.
     bind (ask (\<lambda>k. p_dup os k (sint oldfd) (sint newfd))) (reply os)))"

text \<open>The status is copied as \<^verbatim>\<open>OERRLEN\<close> bytes and then printed as a string.\<close>

definition sysexits :: "host \<Rightarrow> (arm, unit) eff" where
  "sysexits h =
     bind (arg_w h 4) (\<lambda>str.
     seq (modify (\<lambda>s. s\<lparr>count := 1\<rparr>))
       (if str \<noteq> 0
        then bind (memio_read h (ucast str) OERRLEN) (\<lambda>buf. if 0 \<in> set buf then ret () else raise Undefined)
        else ret ()))"

definition sysopen :: "host \<Rightarrow> posix \<Rightarrow> (arm, unit) eff" where
  "sysopen h os =
     bind (arg_w h 4) (\<lambda>name. bind (arg_w h 8) (\<lambda>mode. bind (arg_name h name) (\<lambda>file.
     bind (ask (\<lambda>k. p_open os k file (sint mode))) (reply os))))"

text \<open>
  The loop of \<^verbatim>\<open>sysread\<close> over the characters of the standard input. \<^verbatim>\<open>int cnt = size\<close> goes down to zero in
  \<open>size\<close> steps even from a negative value.
\<close>

primrec read_line :: "posix \<Rightarrow> nat \<Rightarrow> (arm, u8 list) eff" where
  "read_line os 0 = ret []"
| "read_line os (Suc cnt) =
     bind (ask (p_getc os)) (\<lambda>c.
       if c \<le> 0 then ret []
       else if c = 10 then ret [word_of_int c]
       else bind (read_line os cnt) (\<lambda>bs. ret (word_of_int c # bs)))"

text \<open>
  The host's answer to a read is the count and the bytes it put at the start of the zeroed buffer; a count
  above the size of the buffer would be read beyond it.
\<close>

definition read_done :: "host \<Rightarrow> posix \<Rightarrow> u64 \<Rightarrow> u64 \<Rightarrow> int \<times> u8 list \<Rightarrow> (arm, unit) eff" where
  "read_done h os a sz nb =
     (case nb of (n, bs) \<Rightarrow>
        seq (if n < 0 then errstr os
             else if n > uint sz then raise Undefined
             else memio_write h a (take (nat n) (bs @ replicate (nat n) 0)))
          (set_ret n))"

definition sysread :: "host \<Rightarrow> posix \<Rightarrow> int \<Rightarrow> (arm, unit) eff" where
  "sysread h os offset =
     bind (arg_w h 4) (\<lambda>fd. bind (arg_w h 8) (\<lambda>a. bind (arg_w h 12) (\<lambda>sz.
     seq (emalloc os (ucast sz))
    (bind (if fd = 0 then bind (read_line os (unat sz)) (\<lambda>bs. ret (sint (of_nat (length bs) :: u32), bs))
           else if offset = - 1 then ask (\<lambda>k. p_read os k (sint fd) (ucast sz))
           else ask (\<lambda>k. p_pread os k (sint fd) (ucast sz) offset))
       (read_done h os (ucast a) (ucast sz))))))"

definition syspread :: "host \<Rightarrow> posix \<Rightarrow> (arm, unit) eff" where
  "syspread h os = bind (arg_v h 16) (\<lambda>v. sysread h os (sint v))"

definition sysseek :: "host \<Rightarrow> posix \<Rightarrow> (arm, unit) eff" where
  "sysseek h os =
     bind (arg_w h 4) (\<lambda>retp. bind (arg_w h 8) (\<lambda>fd. bind (arg_v h 12) (\<lambda>v. bind (arg_w h 20) (\<lambda>mode.
     bind (ask (\<lambda>k. p_seek os k (sint fd) (sint v) (sint mode))) (\<lambda>v.
     seq (onlyif (v < 0) (errstr os)) (putmem_v h (ucast retp) (word_of_int v)))))))"

definition syssleep :: "host \<Rightarrow> posix \<Rightarrow> (arm, unit) eff" where
  "syssleep h os = bind (arg_w h 4) (\<lambda>len. reply os (- 1))"

definition sysstat :: "host \<Rightarrow> posix \<Rightarrow> (arm, unit) eff" where
  "sysstat h os =
     bind (arg_w h 4) (\<lambda>name. bind (arg_w h 8) (\<lambda>edir. bind (arg_w h 12) (\<lambda>n. bind (arg_name h name) (\<lambda>nambuf.
     seq (if above n STATMAX then errstr os else raise (Fatal ''TODO stat() system call''))
       (set_ret (sint n))))))"

definition sysfstat :: "host \<Rightarrow> (arm, unit) eff" where
  "sysfstat h =
     bind (arg_w h 4) (\<lambda>fd. bind (arg_w h 8) (\<lambda>edir. bind (arg_w h 12) (\<lambda>n.
     seq (set_ret (- 1))
       (if above n STATMAX then set_errbuf (cstring ''stat buffer too big'')
        else raise (Fatal ''TODO fstat() system call'')))))"

text \<open>\<^verbatim>\<open>memio\<close> takes the size as an \<^verbatim>\<open>int\<close> and allocates the buffer; its loop makes \<open>size\<close> steps.\<close>

definition syswrite :: "host \<Rightarrow> posix \<Rightarrow> int \<Rightarrow> (arm, unit) eff" where
  "syswrite h os offset =
     bind (arg_w h 4) (\<lambda>fd. bind (arg_w h 8) (\<lambda>a. bind (arg_w h 12) (\<lambda>sz.
     seq (emalloc os (word_of_int (sint sz)))
    (bind (memio_read h (ucast a) (unat sz)) (\<lambda>buf.
     bind (if sint fd \<in> {0, 1, 2} \<or> offset = - 1 then ask (\<lambda>k. p_write os k (sint fd) buf)
           else ask (\<lambda>k. p_pwrite os k (sint fd) buf offset))
       (reply os))))))"

definition syspwrite :: "host \<Rightarrow> posix \<Rightarrow> (arm, unit) eff" where
  "syspwrite h os = bind (arg_v h 16) (\<lambda>v. syswrite h os (sint v))"

definition syspipe :: "host \<Rightarrow> posix \<Rightarrow> (arm, unit) eff" where
  "syspipe h os =
     bind (arg_w h 4) (\<lambda>fd. bind (ask (p_pipe os)) (\<lambda>(n, p0, p1).
     seq (if n < 0 then errstr os
          else seq (putmem_w h (ucast fd) (word_of_int p0)) (putmem_w h (ucast fd + 4) (word_of_int p1)))
       (set_ret n)))"

definition syscreate :: "host \<Rightarrow> posix \<Rightarrow> (arm, unit) eff" where
  "syscreate h os =
     bind (arg_w h 4) (\<lambda>name. bind (arg_w h 8) (\<lambda>mode. bind (arg_w h 12) (\<lambda>perm. bind (arg_name h name) (\<lambda>file.
     bind (ask (\<lambda>k. p_create os k file (sint mode) (ucast perm))) (reply os)))))"

text \<open>
  \<^verbatim>\<open>sysbrk\<close>: the bss grows by whole pages, its table is copied into a larger one whose new entries are null
  (\<^verbatim>\<open>erealloc\<close>). The segments are those of the array \<^verbatim>\<open>memory.seg\<close>, indexed by their kind. A failed
  allocation ends the process, so it makes no difference that \<^verbatim>\<open>s->end\<close> is assigned before it.
\<close>

definition grow_bss :: "u64 \<Rightarrow> segment \<Rightarrow> segment" where
  "grow_bss addr g =
     (let e = round_pg addr; osize = unat (send g - base g) div BY2PG; nsize = unat (e - base g) div BY2PG in
      g\<lparr>send := e, table := take (min nsize osize) (table g) @ replicate (nsize - min nsize osize) None\<rparr>)"

definition brk_to :: "posix \<Rightarrow> u64 \<Rightarrow> (arm, unit) eff" where
  "brk_to os addr =
     bind (gets id) (\<lambda>s.
       if addr < base (seg s ! 1) + word_of_int (sint (datasize s))
       then set_errbuf (cstring ''address below segment'')
       else if addr > base (seg s ! 3) then set_errbuf (cstring ''segment too big'')
       else
         seq (onlyif (addr > send (seg s ! 2))
               (seq (emalloc os (of_nat (8 * (unat (round_pg addr - base (seg s ! 2)) div BY2PG))))
                    (modify (set_seg 2 (grow_bss addr)))))
             (set_ret 0))"

definition sysbrk :: "host \<Rightarrow> posix \<Rightarrow> (arm, unit) eff" where
  "sysbrk h os = bind (arg_w h 4) (\<lambda>addr. seq (set_ret (- 1)) (brk_to os (ucast addr)))"

definition sysremove :: "host \<Rightarrow> posix \<Rightarrow> (arm, unit) eff" where
  "sysremove h os =
     bind (arg_w h 4) (\<lambda>name. bind (arg_name h name) (\<lambda>nambuf.
     bind (ask (\<lambda>k. p_remove os k nambuf)) (reply os)))"

definition sysnotify :: "host \<Rightarrow> (arm, unit) eff" where
  "sysnotify h = bind (arg_w h 4) (\<lambda>f. seq (modify (\<lambda>s. s\<lparr>nofunc := ucast f\<rparr>)) (set_ret 0))"

text \<open>
  The calls that are not there, from \<^verbatim>\<open>sysawait\<close> to \<^verbatim>\<open>sysfversion\<close>: each prints the name of the call, which is
  in \<^verbatim>\<open>R0\<close>, and leaves the emulator.
\<close>

definition no_system_call :: "(arm, unit) eff" where
  "no_system_call =
     bind (gets (\<lambda>s. unat (regs s REGARG))) (\<lambda>i. if i < NSYS then raise (Fatal ''No system call'') else raise Undefined)"

text \<open>\<^verbatim>\<open>systab\<close>, in the order of the numbers of \<^verbatim>\<open>sys.h\<close>; the three semaphore calls have no entry.\<close>

definition systab :: "host \<Rightarrow> posix \<Rightarrow> (arm, unit) eff option list" where
  "systab h os =
     [Some sysnop, Some no_system_call, Some no_system_call, Some (sysexits h), Some no_system_call,
      Some (sysbrk h os), Some (sysopen h os), Some (sysclose h os), Some (sysdup h os), Some (sysfd2path h),
      Some (syspread h os), Some (syspwrite h os), Some (sysseek h os), Some (syscreate h os), Some (sysremove h os),
      Some (syschdir h os), Some (sysstat h os), Some (sysfstat h), Some no_system_call, Some no_system_call,
      Some (sysbind h), Some no_system_call, Some no_system_call, Some (syssleep h os), Some no_system_call,
      Some (sysnotify h), Some no_system_call, Some (syspipe h os), Some no_system_call, Some no_system_call,
      Some no_system_call, Some no_system_call, Some no_system_call, Some no_system_call, None,
      None, None, Some no_system_call, Some no_system_call, Some (syserrstr h)]"

section \<open>What the calls keep\<close>

lemma sane_memio:
  "keeps sane (memio_read h a n)" "keeps sane (memio_readstring h a n)" "keeps sane (memio_write h a bs)"
proof -
  show "keeps sane (memio_read h a n)" by (induction n arbitrary: a) (auto intro!: sane_intros)
  show "keeps sane (memio_readstring h a n)" by (induction n arbitrary: a) (auto intro!: sane_intros)
  show "keeps sane (memio_write h a bs)" by (induction bs arbitrary: a) (auto intro!: sane_intros)
qed

lemma sane_words: "keeps sane (getmem_v h a)" "keeps sane (putmem_v h a d)" "keeps sane (arg_w h k)" "keeps sane (arg_v h k)"
  unfolding getmem_v_def putmem_v_def arg_w_def arg_v_def by (intro sane_intros)+

lemma sane_host_ops:
  "keeps sane (ask f)" "keeps sane (set_errbuf bs)" "keeps sane (set_ret n)"
  "keeps sane (modify (\<lambda>s. s\<lparr>nofunc := g s\<rparr>))"
  by (auto simp: keeps_def ask_def seq_def bind_def set_errbuf_def set_ret_def setr_def intro!: sane_cong)

lemmas sane_sys_intros = sane_intros sane_memio sane_words sane_host_ops

lemma sane_replies: "keeps sane (errstr os)" "keeps sane (reply os n)" "keeps sane (emalloc os sz)" "keeps sane (arg_name h a)"
  unfolding errstr_def reply_def emalloc_def arg_name_def by (intro sane_sys_intros)+

lemma sane_read_line: "keeps sane (read_line os n)"
proof (induction n)
  case (Suc n)
  then show ?case unfolding read_line.simps by (intro sane_sys_intros)
qed (simp only: read_line.simps sn.keeps_ret)

lemma sane_read_done: "keeps sane (read_done h os a sz nb)"
  unfolding read_done_def by (cases nb) (auto intro!: sane_sys_intros sane_replies)

lemma sane_read_write: "keeps sane (sysread h os off)" "keeps sane (syswrite h os off)"
  unfolding sysread_def syswrite_def by (intro sane_sys_intros sane_replies sane_read_line sane_read_done)+

lemma sane_sys:
  "keeps sane sysnop" "keeps sane (syserrstr h)" "keeps sane (sysbind h)" "keeps sane (sysfd2path h)"
  "keeps sane (syschdir h os)" "keeps sane (sysclose h os)" "keeps sane (sysdup h os)" "keeps sane (sysopen h os)"
  "keeps sane (syspread h os)" "keeps sane (sysseek h os)" "keeps sane (syssleep h os)" "keeps sane (sysstat h os)"
  "keeps sane (sysfstat h)" "keeps sane (syspwrite h os)" "keeps sane (syspipe h os)" "keeps sane (syscreate h os)"
  "keeps sane (sysremove h os)" "keeps sane (sysnotify h)" "keeps sane no_system_call"
  unfolding sysnop_def syserrstr_def sysbind_def sysfd2path_def syschdir_def sysclose_def sysdup_def sysopen_def
    syspread_def sysseek_def syssleep_def sysstat_def sysfstat_def syspwrite_def syspipe_def syscreate_def
    sysremove_def sysnotify_def no_system_call_def Let_def split_def
  by (intro sane_sys_intros sane_replies sane_read_write)+

text \<open>The two calls that change more: \<^verbatim>\<open>exits\<close> the counter, \<^verbatim>\<open>brk\<close> the end of the bss.\<close>

lemma called_sysexits: "keeps called (sysexits h)"
proof -
  have "keeps called (modify (\<lambda>s. s\<lparr>count := 1\<rparr>))"
    by (auto simp: keeps_def called_def wf_mem_def grown_def)
  then show ?thesis unfolding sysexits_def
    by (intro cl.keeps_intros called_sane [OF sane_words(3)] called_sane [OF sane_memio(1)])
qed

lemma grow_bss_ok:
  assumes "seg_ok g" and "send g < addr" and "unat addr \<le> 2 ^ 32"
  shows "seg_ok (grow_bss addr g)" and "base (grow_bss addr g) = base g" and "send g \<le> send (grow_bss addr g)"
proof -
  note r = round_pg_bounds [of addr]
  define b n o' where "b = unat (base g) div BY2PG" and "n = length (table g)" and "o' = unat (round_pg addr) div BY2PG"
  have g: "unat (base g) = b * BY2PG" "unat (send g) = (b + n) * BY2PG"
    using assms(1) by (auto simp: seg_ok_def b_def n_def algebra_simps)
  have e: "unat (round_pg addr) = o' * BY2PG" using round_pg_aligned [of addr] by (auto simp: o'_def)
  have le: "unat (send g) < unat (round_pg addr)"
    using assms(2,3) r(1) by (simp add: word_less_nat_alt)
  then have bn: "b + n < o'" unfolding g(2) e by (simp add: BY2PG_def)
  have base: "base g \<le> send g" "base g \<le> round_pg addr" using g e bn by (simp_all add: word_le_nat_alt BY2PG_def)
  have k: "unat (send g - base g) div BY2PG = n" "unat (round_pg addr - base g) div BY2PG = o' - b"
    unfolding unat_sub [OF base(1)] unat_sub [OF base(2)] g e by (simp_all add: BY2PG_def flip: diff_mult_distrib)
  have t: "grow_bss addr g = g\<lparr>send := round_pg addr, table := table g @ replicate (o' - b - n) None\<rparr>"
    unfolding grow_bss_def Let_def k using bn by (simp add: n_def min_absorb2)
  have "unat (round_pg addr) = unat (base g) + (n + (o' - b - n)) * BY2PG"
    unfolding e g(1) using bn by (simp add: flip: distrib_right)
  then show "seg_ok (grow_bss addr g)"
    using assms(1) unfolding t seg_ok_def by (auto simp: n_def)
  show "base (grow_bss addr g) = base g" by (simp add: grow_bss_def Let_def)
  show "send g \<le> send (grow_bss addr g)" using le by (simp add: grow_bss_def Let_def word_le_nat_alt)
qed

lemma called_seg:
  assumes "count t = count s" "bplist t = bplist s"
    and "seg t = seg s \<or> send (seg s ! 2) < addr \<and> seg t = (seg s)[2 := grow_bss addr (seg s ! 2)]"
    and "unat addr \<le> 2 ^ 32"
  shows "called s t"
proof -
  have "wf_mem t \<and> grown s t" if w: "wf_mem s"
  proof (cases "seg t = seg s \<or> length (seg s) \<le> 2")
    case True
    then have "seg t = seg s" using assms(3) by (auto simp: list_update_beyond)
    then show ?thesis using w by (simp add: wf_mem_def grown_def)
  next
    case False
    then have t: "seg t = (seg s)[2 := grow_bss addr (seg s ! 2)]" "send (seg s ! 2) < addr" "2 < length (seg s)"
      using assms(3) by auto
    have "seg_ok (seg s ! 2)" using w t(3) by (simp add: wf_mem_def)
    note g = grow_bss_ok [OF this t(2) assms(4)]
    have "wf_mem t" using w g(1) t(1) by (auto simp: wf_mem_def dest!: set_update_subset_insert [THEN subsetD])
    moreover have "grown s t" using g(2,3) t(1,3) by (auto simp: grown_def nth_list_update)
    ultimately show ?thesis ..
  qed
  then show ?thesis using assms(1,2) by (simp add: called_def)
qed

lemma brk_to_state:
  "let t = snd (brk_to os addr s) in count t = count s \<and> bplist t = bplist s \<and>
     (seg t = seg s \<or> send (seg s ! 2) < addr \<and> seg t = (seg s)[2 := grow_bss addr (seg s ! 2)])"
  by (simp add: brk_to_def set_errbuf_def emalloc_def ask_def set_ret_def setr_def set_seg_def seq_def bind_def onlyif_def)

lemma called_sysbrk: "keeps called (sysbrk h os)"
proof -
  have "called s (snd (brk_to os (ucast (a :: u32)) s))" for a s
  proof (rule called_seg [where addr = "ucast a"])
    have "unat (ucast a :: u64) = unat a"
      by (simp add: unsigned_ucast_eq take_bit_nat_eq_self_iff less_trans [OF unat_less])
    then show "unat (ucast a :: u64) \<le> 2 ^ 32" using unat_less [of a] by simp
  qed (use brk_to_state [of os "ucast a" s] in \<open>simp_all add: Let_def\<close>)
  then have "keeps called (brk_to os (ucast (a :: u32)))" for a by (rule keepsI)
  then show ?thesis unfolding sysbrk_def
    by (intro cl.keeps_intros called_sane [OF sane_words(3)] called_sane [OF sane_host_ops(3)])
qed



lemmas called_sys = sane_sys [THEN called_sane] called_sysexits called_sysbrk


lemma systab_calls: "calls_ok (systab h os)"
proof -
  have "list_all (\<lambda>x. case x of None \<Rightarrow> True | Some f \<Rightarrow> keeps called f) (systab h os)"
    by (simp add: systab_def called_sys)
  then show ?thesis by (force simp: calls_ok_def list_all_iff)
qed

section \<open>The only call that ends a run\<close>







section \<open>Properties\<close>

text \<open>
  C25: whatever the program does, which system calls it makes, what the host answers and
  however the run ends, the memory stays well-formed, its segments stay where they are, and no end of a
  segment changes but that of the bss, which only grows.
\<close>

theorem emulation_keeps_memory:
  assumes "wf_mem s" and "run h (systab h os) s = Some (r, t)"
  shows "wf_mem t \<and> grown s t"
  using run_grown [OF systab_calls assms(2,1)] .

definition demo_os :: posix where
  "demo_os = \<lparr>p_malloc = (\<lambda>_ _. True), p_errstr = (\<lambda>_. []), p_chdir = (\<lambda>_ _. 0), p_close = (\<lambda>_ _. 0),
     p_dup = (\<lambda>_ _ _. - 1), p_open = (\<lambda>_ _ _. - 1), p_getc = (\<lambda>_. - 1), p_read = (\<lambda>_ _ _. (0, [])),
     p_pread = (\<lambda>_ _ _ _. (0, [])), p_seek = (\<lambda>_ _ _ _. 0), p_write = (\<lambda>_ _ bs. int (length bs)),
     p_pwrite = (\<lambda>_ _ bs _. int (length bs)), p_pipe = (\<lambda>_. (- 1, 0, 0)), p_create = (\<lambda>_ _ _ _. - 1),
     p_remove = (\<lambda>_ _. 0)\<rparr>"

theorem emulation_keeps_memory_witness:
  "\<exists>r t. run demo_host (systab demo_host demo_os) demo = Some (r, t) \<and> wf_mem t \<and> grown demo t"
proof -
  obtain r t where "run demo_host (systab demo_host demo_os) demo = Some (r, t)"
    using run_returns [OF systab_calls] by blast
  moreover from emulation_keeps_memory [OF demo_wf this] have "wf_mem t \<and> grown demo t" .
  ultimately show ?thesis by blast
qed

text \<open>
  C30: the loop of \<^verbatim>\<open>run\<close> ends for every program and every count (a count of
  zero means \<open>2^32\<close> steps), with the system calls of the emulator and whatever the host answers them.
\<close>

theorem run_always_returns: "\<exists>r t. run h (systab h os) s = Some (r, t)"
  using run_returns [OF systab_calls] .



end
