(* ===== verification/Link5.thy ===== *)
theory Link5
  imports Goken_Prelude
begin

text \<open>
  The instruction encoder of the ARM linker \<^verbatim>\<open>5l\<close>: the operand classes and the immediates of
  \<^verbatim>\<open>linkers/5l/span.c\<close>, the code generator of \<^verbatim>\<open>codegen.c\<close>, the floating constants of
  \<^verbatim>\<open>float.c\<close>, the relocation table of \<^verbatim>\<open>dynamic.c\<close> and the byte output of \<^verbatim>\<open>io.c\<close>, over the data
  of \<^verbatim>\<open>l.h\<close>, \<^verbatim>\<open>m.h\<close> and \<^verbatim>\<open>include/objexec/5.out.h\<close>.

  Opcodes and operand classes are numbered as in the C enumerations. An instruction under
  construction is the low 32 bits of the C variable, which is all that \<^verbatim>\<open>lputl\<close> writes; offsets and
  addresses are \<^verbatim>\<open>long\<close>s of the host, 64 bits wide. The globals of the linker are the record
  \<open>lnk\<close>; \<^verbatim>\<open>diag\<close> counts an error and goes on, and leaves after the twentieth.
\<close>

section \<open>Data\<close>

abbreviation (input) AXXX :: nat where "AXXX \<equiv> 0"
abbreviation (input) ANOP :: nat where "ANOP \<equiv> 1"
abbreviation (input) AAND :: nat where "AAND \<equiv> 2"
abbreviation (input) AORR :: nat where "AORR \<equiv> 3"
abbreviation (input) AEOR :: nat where "AEOR \<equiv> 4"
abbreviation (input) ABIC :: nat where "ABIC \<equiv> 5"
abbreviation (input) AADD :: nat where "AADD \<equiv> 6"
abbreviation (input) ASUB :: nat where "ASUB \<equiv> 7"
abbreviation (input) ARSB :: nat where "ARSB \<equiv> 8"
abbreviation (input) AADC :: nat where "AADC \<equiv> 9"
abbreviation (input) ASBC :: nat where "ASBC \<equiv> 10"
abbreviation (input) ARSC :: nat where "ARSC \<equiv> 11"
abbreviation (input) AMVN :: nat where "AMVN \<equiv> 12"
abbreviation (input) AMUL :: nat where "AMUL \<equiv> 13"
abbreviation (input) ADIV :: nat where "ADIV \<equiv> 14"
abbreviation (input) AMOD :: nat where "AMOD \<equiv> 15"
abbreviation (input) AMULA :: nat where "AMULA \<equiv> 16"
abbreviation (input) AMULL :: nat where "AMULL \<equiv> 17"
abbreviation (input) AMULAL :: nat where "AMULAL \<equiv> 18"
abbreviation (input) AMULLU :: nat where "AMULLU \<equiv> 19"
abbreviation (input) AMULALU :: nat where "AMULALU \<equiv> 20"
abbreviation (input) AMULU :: nat where "AMULU \<equiv> 21"
abbreviation (input) ADIVU :: nat where "ADIVU \<equiv> 22"
abbreviation (input) AMODU :: nat where "AMODU \<equiv> 23"
abbreviation (input) ASLL :: nat where "ASLL \<equiv> 24"
abbreviation (input) ASRL :: nat where "ASRL \<equiv> 25"
abbreviation (input) ASRA :: nat where "ASRA \<equiv> 26"
abbreviation (input) AMOVW :: nat where "AMOVW \<equiv> 27"
abbreviation (input) AMOVB :: nat where "AMOVB \<equiv> 28"
abbreviation (input) AMOVBU :: nat where "AMOVBU \<equiv> 29"
abbreviation (input) AMOVH :: nat where "AMOVH \<equiv> 30"
abbreviation (input) AMOVHU :: nat where "AMOVHU \<equiv> 31"
abbreviation (input) AMOVM :: nat where "AMOVM \<equiv> 32"
abbreviation (input) ASWPW :: nat where "ASWPW \<equiv> 33"
abbreviation (input) ASWPBU :: nat where "ASWPBU \<equiv> 34"
abbreviation (input) ACMP :: nat where "ACMP \<equiv> 35"
abbreviation (input) ATST :: nat where "ATST \<equiv> 36"
abbreviation (input) ATEQ :: nat where "ATEQ \<equiv> 37"
abbreviation (input) ACMN :: nat where "ACMN \<equiv> 38"
abbreviation (input) AB :: nat where "AB \<equiv> 39"
abbreviation (input) ABEQ :: nat where "ABEQ \<equiv> 40"
abbreviation (input) ABNE :: nat where "ABNE \<equiv> 41"
abbreviation (input) ABHS :: nat where "ABHS \<equiv> 42"
abbreviation (input) ABLO :: nat where "ABLO \<equiv> 43"
abbreviation (input) ABMI :: nat where "ABMI \<equiv> 44"
abbreviation (input) ABPL :: nat where "ABPL \<equiv> 45"
abbreviation (input) ABVS :: nat where "ABVS \<equiv> 46"
abbreviation (input) ABVC :: nat where "ABVC \<equiv> 47"
abbreviation (input) ABHI :: nat where "ABHI \<equiv> 48"
abbreviation (input) ABLS :: nat where "ABLS \<equiv> 49"
abbreviation (input) ABGE :: nat where "ABGE \<equiv> 50"
abbreviation (input) ABLT :: nat where "ABLT \<equiv> 51"
abbreviation (input) ABGT :: nat where "ABGT \<equiv> 52"
abbreviation (input) ABLE :: nat where "ABLE \<equiv> 53"
abbreviation (input) ABL :: nat where "ABL \<equiv> 54"
abbreviation (input) ARET :: nat where "ARET \<equiv> 55"
abbreviation (input) ASWI :: nat where "ASWI \<equiv> 56"
abbreviation (input) ARFE :: nat where "ARFE \<equiv> 57"
abbreviation (input) AMOVWD :: nat where "AMOVWD \<equiv> 58"
abbreviation (input) AMOVWF :: nat where "AMOVWF \<equiv> 59"
abbreviation (input) AMOVDW :: nat where "AMOVDW \<equiv> 60"
abbreviation (input) AMOVFW :: nat where "AMOVFW \<equiv> 61"
abbreviation (input) AMOVFD :: nat where "AMOVFD \<equiv> 62"
abbreviation (input) AMOVDF :: nat where "AMOVDF \<equiv> 63"
abbreviation (input) AMOVF :: nat where "AMOVF \<equiv> 64"
abbreviation (input) AMOVD :: nat where "AMOVD \<equiv> 65"
abbreviation (input) ACMPF :: nat where "ACMPF \<equiv> 66"
abbreviation (input) ACMPD :: nat where "ACMPD \<equiv> 67"
abbreviation (input) AADDF :: nat where "AADDF \<equiv> 68"
abbreviation (input) AADDD :: nat where "AADDD \<equiv> 69"
abbreviation (input) ASUBF :: nat where "ASUBF \<equiv> 70"
abbreviation (input) ASUBD :: nat where "ASUBD \<equiv> 71"
abbreviation (input) AMULF :: nat where "AMULF \<equiv> 72"
abbreviation (input) AMULD :: nat where "AMULD \<equiv> 73"
abbreviation (input) ADIVF :: nat where "ADIVF \<equiv> 74"
abbreviation (input) ADIVD :: nat where "ADIVD \<equiv> 75"
abbreviation (input) ASQRTF :: nat where "ASQRTF \<equiv> 76"
abbreviation (input) ASQRTD :: nat where "ASQRTD \<equiv> 77"
abbreviation (input) ATEXT :: nat where "ATEXT \<equiv> 78"
abbreviation (input) AGLOBL :: nat where "AGLOBL \<equiv> 79"
abbreviation (input) ADATA :: nat where "ADATA \<equiv> 80"
abbreviation (input) AWORD :: nat where "AWORD \<equiv> 81"
abbreviation (input) AEND :: nat where "AEND \<equiv> 82"
abbreviation (input) ANAME :: nat where "ANAME \<equiv> 83"
abbreviation (input) AHISTORY :: nat where "AHISTORY \<equiv> 84"
abbreviation (input) ACASE :: nat where "ACASE \<equiv> 85"
abbreviation (input) ABCASE :: nat where "ABCASE \<equiv> 86"
abbreviation (input) ASIGNAME :: nat where "ASIGNAME \<equiv> 87"
abbreviation (input) AGOK :: nat where "AGOK \<equiv> 88"
abbreviation (input) ALAST :: nat where "ALAST \<equiv> 89"

abbreviation (input) C_NONE :: nat where "C_NONE \<equiv> 0"
abbreviation (input) C_REG :: nat where "C_REG \<equiv> 1"
abbreviation (input) C_BRANCH :: nat where "C_BRANCH \<equiv> 2"
abbreviation (input) C_RCON :: nat where "C_RCON \<equiv> 3"
abbreviation (input) C_NCON :: nat where "C_NCON \<equiv> 4"
abbreviation (input) C_LCON :: nat where "C_LCON \<equiv> 5"
abbreviation (input) C_HOREG :: nat where "C_HOREG \<equiv> 6"
abbreviation (input) C_FOREG :: nat where "C_FOREG \<equiv> 7"
abbreviation (input) C_HFOREG :: nat where "C_HFOREG \<equiv> 8"
abbreviation (input) C_SOREG :: nat where "C_SOREG \<equiv> 9"
abbreviation (input) C_LOREG :: nat where "C_LOREG \<equiv> 10"
abbreviation (input) C_ROREG :: nat where "C_ROREG \<equiv> 11"
abbreviation (input) C_SROREG :: nat where "C_SROREG \<equiv> 12"
abbreviation (input) C_HEXT :: nat where "C_HEXT \<equiv> 13"
abbreviation (input) C_FEXT :: nat where "C_FEXT \<equiv> 14"
abbreviation (input) C_HFEXT :: nat where "C_HFEXT \<equiv> 15"
abbreviation (input) C_SEXT :: nat where "C_SEXT \<equiv> 16"
abbreviation (input) C_LEXT :: nat where "C_LEXT \<equiv> 17"
abbreviation (input) C_HAUTO :: nat where "C_HAUTO \<equiv> 18"
abbreviation (input) C_FAUTO :: nat where "C_FAUTO \<equiv> 19"
abbreviation (input) C_HFAUTO :: nat where "C_HFAUTO \<equiv> 20"
abbreviation (input) C_SAUTO :: nat where "C_SAUTO \<equiv> 21"
abbreviation (input) C_LAUTO :: nat where "C_LAUTO \<equiv> 22"
abbreviation (input) C_RECON :: nat where "C_RECON \<equiv> 23"
abbreviation (input) C_RACON :: nat where "C_RACON \<equiv> 24"
abbreviation (input) C_LACON :: nat where "C_LACON \<equiv> 25"
abbreviation (input) C_SHIFT :: nat where "C_SHIFT \<equiv> 26"
abbreviation (input) C_ADDR :: nat where "C_ADDR \<equiv> 27"
abbreviation (input) C_FREG :: nat where "C_FREG \<equiv> 28"
abbreviation (input) C_FCON :: nat where "C_FCON \<equiv> 29"
abbreviation (input) C_FCR :: nat where "C_FCR \<equiv> 30"
abbreviation (input) C_REGREG :: nat where "C_REGREG \<equiv> 31"
abbreviation (input) C_PSR :: nat where "C_PSR \<equiv> 32"
abbreviation (input) C_GOK :: nat where "C_GOK \<equiv> 33"

abbreviation (input) REGTMP :: nat where "REGTMP \<equiv> 11"
abbreviation (input) REGSB :: nat where "REGSB \<equiv> 12"
abbreviation (input) REGSP :: nat where "REGSP \<equiv> 13"
abbreviation (input) REGLINK :: nat where "REGLINK \<equiv> 14"
abbreviation (input) REGPC :: nat where "REGPC \<equiv> 15"
abbreviation (input) R_NONE :: nat where "R_NONE \<equiv> 16"
abbreviation (input) FREGTMP :: nat where "FREGTMP \<equiv> 15"

abbreviation (input) C_SCOND :: u32 where "C_SCOND \<equiv> 0xf"
abbreviation (input) C_SBIT :: u32 where "C_SBIT \<equiv> 0x10"
abbreviation (input) C_PBIT :: u32 where "C_PBIT \<equiv> 0x20"
abbreviation (input) C_WBIT :: u32 where "C_WBIT \<equiv> 0x40"
abbreviation (input) C_FBIT :: u32 where "C_FBIT \<equiv> 0x80"
abbreviation (input) C_UBIT :: u32 where "C_UBIT \<equiv> 0x80"

abbreviation (input) Roffset :: nat where "Roffset \<equiv> 22"
abbreviation (input) BIG :: u64 where "BIG \<equiv> 0xffc"

datatype operand_kind =
    D_NONE | D_CONST | D_SCONST | D_FCONST | D_REG | D_OREG | D_ADDR | D_SHIFT | D_BRANCH
  | D_FREG | D_FPCR | D_REGREG | D_PSR

datatype sym_kind = N_NONE | N_EXTERN | N_LOCAL | N_PARAM | N_INTERN | N_FILE | N_LINE

datatype sect =
    SNONE | STEXT | SDATA | SBSS | SXREF | SFILE | SIMPORT | SEXPORT | SUNDEF | SDATA1 | SSTRING

record sym =
  s_value :: u64
  s_type :: sect

text \<open>
  An operand: a symbol is an index into the symbol table of the state; the union of \<^verbatim>\<open>offset\<close> and
  \<^verbatim>\<open>ieee\<close> (low word, high word) is two fields, of which the type selects one. \<^verbatim>\<open>class\<close> is one more than
  the operand class, or 0 when it is not yet known.
\<close>

record adr =
  a_type :: operand_kind
  a_offset :: u64
  a_ieee :: "u32 \<times> u32"
  a_reg :: nat
  a_symkind :: sym_kind
  a_sym :: "nat option"
  a_class :: nat

text \<open>
  \<^verbatim>\<open>p->cond\<close> is nil, the undefined program \<^verbatim>\<open>UP\<close> (a zero-initialised global, whose pc is 0), or an
  instruction, of which the pc is used.
\<close>

datatype target = NoTarget | UndefTarget | At u64

record prog =
  p_as :: nat
  p_from :: adr
  p_to :: adr
  p_reg :: nat
  p_scond :: u32
  p_pc :: u64
  p_cond :: target
  p_optab :: nat

record optab =
  o_as :: nat
  o_a1 :: nat
  o_a2 :: nat
  o_a3 :: nat
  o_type :: nat
  o_size :: nat
  o_param :: nat
  o_flag :: u32

record lnk =
  instoffset :: u64
  autosize :: u64
  INITDAT :: u64
  dlm :: bool
  vfp :: bool
  debugA :: bool
  syms :: "nat \<Rightarrow> sym"
  rels :: "(u64 \<times> u8) list"
  obuf :: "u8 list"
  errs :: "string list"

section \<open>Diagnostics and output\<close>

definition diag :: "string \<Rightarrow> (lnk, unit) eff" where
  "diag m =
     seq (modify (\<lambda>s. s\<lparr>errs := m # errs s\<rparr>))
       (bind (gets (\<lambda>s. length (errs s) > 20 \<and> \<not> debugA s)) (\<lambda>b.
          onlyif b (raise (Fatal ''too many errors''))))"

definition lputl :: "u32 \<Rightarrow> (lnk, unit) eff" where
  "lputl l = modify (\<lambda>s. s\<lparr>obuf := obuf s @
     [ucast l, ucast (drop_bit 8 l), ucast (drop_bit 16 l), ucast (drop_bit 24 l)]\<rparr>)"

text \<open>
  The relocation table: addresses and modes, in the order of the arrays. An entry moves from the end
  towards the front past every larger address; \<^verbatim>\<open>v < a[i-1]\<close> compares as unsigned. \<open>rel_slide\<close> is the
  loop, on the table read from its end.
\<close>

fun rel_slide :: "u64 \<Rightarrow> u8 \<Rightarrow> (u64 \<times> u8) list \<Rightarrow> (u64 \<times> u8) list" where
  "rel_slide v k [] = [(v, k)]"
| "rel_slide v k ((a, m) # rs) =
     (if v < a then (a, m) # rel_slide v k rs else (v, k) # (a, m) # rs)"

definition rel_insert :: "u64 \<Rightarrow> u8 \<Rightarrow> (u64 \<times> u8) list \<Rightarrow> (u64 \<times> u8) list" where
  "rel_insert v k rs = rev (rel_slide v k (rev rs))"

definition modemap :: "nat \<Rightarrow> int" where
  "modemap k = [0, 1, - 1, 2] ! k"

definition dynreloc :: "nat option \<Rightarrow> u64 \<Rightarrow> bool \<Rightarrow> (lnk, unit) eff" where
  "dynreloc s v ab =
     seq (onlyif (v AND 3 \<noteq> 0) (diag ''bad relocation address''))
       (let v = signed_drop_bit 2 v in
        modify (\<lambda>l.
          let k = (if (case s of None \<Rightarrow> False | Some i \<Rightarrow> s_type (syms l i) = SUNDEF)
                   then (if ab then 1 else 3) else (if ab then 0 else 2))
          in l\<lparr>rels := rel_insert v (of_int (modemap k)) (rels l)\<rparr>))"

definition ckoff :: "u64 \<Rightarrow> (lnk, unit) eff" where
  "ckoff v = onlyif (sint v < 0 \<or> sint v \<ge> 2 ^ Roffset) (diag ''relocation offset out of range'')"

section \<open>Immediates\<close>

text \<open>
  \<^verbatim>\<open>immrot\<close> takes an \<^verbatim>\<open>ulong\<close>, whose width depends on the host; the definition is for any width.
\<close>

primrec immrot_loop :: "nat \<Rightarrow> 'a::len word \<Rightarrow> u32" where
  "immrot_loop 0 v = 0"
| "immrot_loop (Suc k) v =
     (if v AND NOT 0xff = 0 then push_bit 25 1 OR push_bit 8 (of_nat (15 - k)) OR ucast v
      else immrot_loop k (push_bit 2 v OR drop_bit 30 v))"

definition immrot :: "'a::len word \<Rightarrow> u32" where
  "immrot v = immrot_loop 16 v"

definition immaddr :: "u64 \<Rightarrow> u32" where
  "immaddr v =
     (if sint v \<ge> 0 \<and> sint v \<le> 0xfff then ucast (v AND 0xfff) OR push_bit 24 1 OR push_bit 23 1
      else if sint v < 0 \<and> sint v \<ge> - 0xfff then ucast (- v AND 0xfff) OR push_bit 24 1
      else 0)"

definition immfloat :: "u32 \<Rightarrow> bool" where
  "immfloat v \<longleftrightarrow> v AND 0xC03 = 0"

definition immhalf :: "u64 \<Rightarrow> u32" where
  "immhalf v =
     (if sint v \<ge> 0 \<and> sint v \<le> 0xff then ucast v OR push_bit 24 1 OR push_bit 23 1
      else if sint v \<ge> - 0xff \<and> sint v < 0 then ucast (- v AND 0xff) OR push_bit 24 1
      else 0)"

section \<open>Operand classes\<close>

definition set_off :: "u64 \<Rightarrow> nat \<Rightarrow> (lnk, nat) eff" where
  "set_off v c = seq (modify (\<lambda>s. s\<lparr>instoffset := v\<rparr>)) (ret c)"

definition undefined_external :: "nat \<Rightarrow> (lnk, unit) eff" where
  "undefined_external i =
     seq (diag ''undefined external'')
       (modify (\<lambda>s. s\<lparr>syms := (syms s)(i := (syms s i)\<lparr>s_type := SDATA\<rparr>)\<rparr>))"

definition aconsize :: "u64 \<Rightarrow> nat" where
  "aconsize v = (if immrot v \<noteq> 0 then C_RACON else C_LACON)"

text \<open>The classes of a memory operand with offset \<open>v\<close>, for a symbol on the stack or in the data.\<close>

definition offclass :: "u64 \<Rightarrow> nat \<Rightarrow> nat \<Rightarrow> nat \<Rightarrow> nat \<Rightarrow> nat \<Rightarrow> nat" where
  "offclass v hf f h s l =
     (let t = immaddr v in
      if t \<noteq> 0 then
        (if immfloat t then (if immhalf v \<noteq> 0 then hf else f)
         else if immhalf v \<noteq> 0 then h else s)
      else l)"

definition oregclass :: "u64 \<Rightarrow> nat" where
  "oregclass v =
     (let t = immaddr v in
      if t \<noteq> 0 then
        (if immfloat t then (if immhalf v \<noteq> 0 then C_HFOREG else C_FOREG)
         else if immhalf v \<noteq> 0 then C_HOREG
         else if immrot v \<noteq> 0 then C_SROREG else C_SOREG)
      else if immrot v \<noteq> 0 then C_ROREG else C_LOREG)"

definition aclass_ext :: "adr \<Rightarrow> (lnk, nat) eff" where
  "aclass_ext a =
     (case a_sym a of
        None \<Rightarrow> ret C_GOK
      | Some i \<Rightarrow>
          bind (gets (\<lambda>s. s_type (syms s i))) (\<lambda>t.
          seq (onlyif (t = SNONE \<or> t = SXREF) (undefined_external i))
         (bind (gets id) (\<lambda>s.
            let v = s_value (syms s i) + a_offset a in
            if dlm s then
              set_off (if t = STEXT \<or> t = SSTRING \<or> t = SUNDEF then v else v + INITDAT s) C_ADDR
            else set_off (v - BIG) (offclass (v - BIG) C_HFEXT C_FEXT C_HEXT C_SEXT C_LEXT)))))"

definition aclass_addr_ext :: "adr \<Rightarrow> (lnk, nat) eff" where
  "aclass_addr_ext a =
     (case a_sym a of
        None \<Rightarrow> ret C_GOK
      | Some i \<Rightarrow>
          bind (gets (\<lambda>s. s_type (syms s i))) (\<lambda>t.
          if t = STEXT \<or> t = SSTRING \<or> t = SUNDEF then
            bind (gets (\<lambda>s. s_value (syms s i) + a_offset a)) (\<lambda>v. set_off v C_LCON)
          else if t \<in> {SNONE, SXREF, SDATA, SBSS, SDATA1} then
            seq (onlyif (t = SNONE \<or> t = SXREF) (undefined_external i))
           (bind (gets id) (\<lambda>s.
              let v = s_value (syms s i) + a_offset a in
              if dlm s then set_off (v + INITDAT s) C_LCON
              else if immrot (v - BIG) \<noteq> 0 \<and> v - BIG \<noteq> 0 then set_off (v - BIG) C_RECON
              else set_off (v + INITDAT s) C_LCON))
          else seq (diag ''unknown section'') (ret C_GOK)))"

definition aclass :: "adr \<Rightarrow> (lnk, nat) eff" where
  "aclass a =
     (case a_type a of
        D_NONE \<Rightarrow> ret C_NONE
      | D_REG \<Rightarrow> ret C_REG
      | D_BRANCH \<Rightarrow> ret C_BRANCH
      | D_CONST \<Rightarrow>
          (let v = a_offset a in
           set_off v (if a_reg a \<noteq> R_NONE then aconsize v
                      else if immrot v \<noteq> 0 then C_RCON
                      else if immrot (NOT v) \<noteq> 0 then C_NCON else C_LCON))
      | D_OREG \<Rightarrow>
          (case a_symkind a of
             N_NONE \<Rightarrow> set_off (a_offset a) (oregclass (a_offset a))
           | N_EXTERN \<Rightarrow> aclass_ext a
           | N_INTERN \<Rightarrow> aclass_ext a
           | N_LOCAL \<Rightarrow>
               bind (gets (\<lambda>s. autosize s + a_offset a)) (\<lambda>v.
                 set_off v (offclass v C_HFAUTO C_FAUTO C_HAUTO C_SAUTO C_LAUTO))
           | N_PARAM \<Rightarrow>
               bind (gets (\<lambda>s. autosize s + 4 + a_offset a)) (\<lambda>v.
                 set_off v (offclass v C_HFAUTO C_FAUTO C_HAUTO C_SAUTO C_LAUTO))
           | _ \<Rightarrow> ret C_GOK)
      | D_ADDR \<Rightarrow>
          (case a_symkind a of
             N_EXTERN \<Rightarrow> aclass_addr_ext a
           | N_INTERN \<Rightarrow> aclass_addr_ext a
           | N_LOCAL \<Rightarrow>
               bind (gets (\<lambda>s. autosize s + a_offset a)) (\<lambda>v. set_off v (aconsize v))
           | N_PARAM \<Rightarrow>
               bind (gets (\<lambda>s. autosize s + a_offset a + 4)) (\<lambda>v. set_off v (aconsize v))
           | _ \<Rightarrow> ret C_GOK)
      | D_SHIFT \<Rightarrow> ret C_SHIFT
      | D_FREG \<Rightarrow> ret C_FREG
      | D_FCONST \<Rightarrow> ret C_FCON
      | D_FPCR \<Rightarrow> ret C_FCR
      | D_REGREG \<Rightarrow> ret C_REGREG
      | D_PSR \<Rightarrow> ret C_PSR
      | D_SCONST \<Rightarrow> ret C_GOK)"

definition regoff :: "adr \<Rightarrow> (lnk, u64) eff" where
  "regoff a = seq (modify (\<lambda>s. s\<lparr>instoffset := 0\<rparr>)) (seq (aclass a) (gets instoffset))"

end
