(* ===== verification/Link5_Asm.thy ===== *)
theory Link5_Asm
  imports Link5
begin

text \<open>
  The code generator \<^verbatim>\<open>linkers/5l/codegen.c\<close>: the encoders of the instruction formats and
  \<^verbatim>\<open>asmout\<close>, one definition per action number of its switch, in the order of the file. Each action
  returns the words \<^verbatim>\<open>o1\<close>, \<^verbatim>\<open>o2\<close>, \dots\ that it sets; a word that it does not set is 0.
\<close>

section \<open>Fields\<close>

text \<open>\<open>sh x k\<close> is the C expression \<^verbatim>\<open>x << k\<close> on small constants and register numbers.\<close>

definition sh :: "nat \<Rightarrow> nat \<Rightarrow> u32" where
  "sh x k = push_bit k (of_nat x)"

definition cond_bits :: "u32 \<Rightarrow> u32" where
  "cond_bits sc = push_bit 28 (sc AND C_SCOND)"

definition set_if :: "bool \<Rightarrow> u32 \<Rightarrow> u32" where
  "set_if b w = (if b then w else 0)"

section \<open>Encoders\<close>

definition rrr_bits :: "(nat \<times> u32) list" where
  "rrr_bits =
    [(AAND, sh 0x0 21), (AEOR, sh 0x1 21), (ASUB, sh 0x2 21), (ARSB, sh 0x3 21),
     (AADD, sh 0x4 21), (AADC, sh 0x5 21), (ASBC, sh 0x6 21), (ARSC, sh 0x7 21),
     (ATST, sh 0x8 21 OR sh 1 20), (ATEQ, sh 0x9 21 OR sh 1 20),
     (ACMP, sh 0xa 21 OR sh 1 20), (ACMN, sh 0xb 21 OR sh 1 20),
     (AORR, sh 0xc 21), (AMOVW, sh 0xd 21), (ABIC, sh 0xe 21), (AMVN, sh 0xf 21),
     (ASLL, sh 0xd 21 OR sh 0 5), (ASRL, sh 0xd 21 OR sh 1 5), (ASRA, sh 0xd 21 OR sh 2 5),
     (AMULU, sh 0x0 21 OR sh 0x9 4), (AMUL, sh 0x0 21 OR sh 0x9 4),
     (ASWI, sh 0xf 24),
     (AADDD, sh 0xe 24 OR sh 0x0 20 OR sh 1 8 OR sh 1 7), (AADDF, sh 0xe 24 OR sh 0x0 20 OR sh 1 8),
     (AMULD, sh 0xe 24 OR sh 0x1 20 OR sh 1 8 OR sh 1 7), (AMULF, sh 0xe 24 OR sh 0x1 20 OR sh 1 8),
     (ASUBD, sh 0xe 24 OR sh 0x2 20 OR sh 1 8 OR sh 1 7), (ASUBF, sh 0xe 24 OR sh 0x2 20 OR sh 1 8),
     (ADIVD, sh 0xe 24 OR sh 0x4 20 OR sh 1 8 OR sh 1 7), (ADIVF, sh 0xe 24 OR sh 0x4 20 OR sh 1 8),
     (ACMPD, sh 0xe 24 OR sh 0x9 20 OR sh 0xF 12 OR sh 1 8 OR sh 1 4),
     (ACMPF, sh 0xe 24 OR sh 0x9 20 OR sh 0xF 12 OR sh 1 8 OR sh 1 4),
     (AMOVF, sh 0xe 24 OR sh 0x0 20 OR sh 1 15 OR sh 1 8),
     (AMOVDF, sh 0xe 24 OR sh 0x0 20 OR sh 1 15 OR sh 1 8),
     (AMOVD, sh 0xe 24 OR sh 0x0 20 OR sh 1 15 OR sh 1 8 OR sh 1 7),
     (AMOVFD, sh 0xe 24 OR sh 0x0 20 OR sh 1 15 OR sh 1 8 OR sh 1 7),
     (AMOVWF, sh 0xe 24 OR sh 0 20 OR sh 1 8 OR sh 1 4),
     (AMOVWD, sh 0xe 24 OR sh 0 20 OR sh 1 8 OR sh 1 4 OR sh 1 7),
     (AMOVFW, sh 0xe 24 OR sh 1 20 OR sh 1 8 OR sh 1 4),
     (AMOVDW, sh 0xe 24 OR sh 1 20 OR sh 1 8 OR sh 1 4 OR sh 1 7),
     (AMULA, sh 0x1 21 OR sh 0x9 4), (AMULLU, sh 0x4 21 OR sh 0x9 4),
     (AMULL, sh 0x6 21 OR sh 0x9 4), (AMULALU, sh 0x5 21 OR sh 0x9 4),
     (AMULAL, sh 0x7 21 OR sh 0x9 4)]"

definition oprrr :: "nat \<Rightarrow> u32 \<Rightarrow> (lnk, u32) eff" where
  "oprrr a sc =
     (let o1 = cond_bits sc OR set_if (sc AND C_SBIT \<noteq> 0) (sh 1 20) in
      seq (onlyif (sc AND (C_PBIT OR C_WBIT) \<noteq> 0) (diag ''.P/.W on dp instruction''))
        (case map_of rrr_bits a of
           Some w \<Rightarrow> ret (o1 OR w)
         | None \<Rightarrow> seq (diag ''bad rrr'') (ret 0)))"

definition vfp_bits :: "(nat \<times> u32) list" where
  "vfp_bits =
    [(AMOVWD, sh 0xb 8 OR sh 0xb 20 OR sh 1 6 OR sh 0x8 16 OR sh 1 7),
     (AMOVWF, sh 0xa 8 OR sh 0xb 20 OR sh 1 6 OR sh 0x8 16 OR sh 1 7),
     (AMOVDW, sh 0xb 8 OR sh 0xb 20 OR sh 1 6 OR sh 0xD 16 OR sh 1 7),
     (AMOVFW, sh 0xa 8 OR sh 0xb 20 OR sh 1 6 OR sh 0xD 16 OR sh 1 7),
     (AMOVFD, sh 0xa 8 OR sh 0xb 20 OR sh 1 6 OR sh 0x7 16 OR sh 1 7),
     (AMOVDF, sh 0xb 8 OR sh 0xb 20 OR sh 1 6 OR sh 0x7 16 OR sh 1 7),
     (AMOVF, sh 0xa 8 OR sh 0xb 20 OR sh 1 6 OR sh 0x0 16 OR sh 0 7),
     (AMOVD, sh 0xb 8 OR sh 0xb 20 OR sh 1 6 OR sh 0x0 16 OR sh 0 7),
     (ACMPF, sh 0xa 8 OR sh 0xb 20 OR sh 1 6 OR sh 0x4 16 OR sh 0 7),
     (ACMPD, sh 0xb 8 OR sh 0xb 20 OR sh 1 6 OR sh 0x4 16 OR sh 0 7),
     (AADDF, sh 0xa 8 OR sh 0x3 20), (AADDD, sh 0xb 8 OR sh 0x3 20),
     (ASUBF, sh 0xa 8 OR sh 0x3 20 OR sh 1 6), (ASUBD, sh 0xb 8 OR sh 0x3 20 OR sh 1 6),
     (AMULF, sh 0xa 8 OR sh 0x2 20), (AMULD, sh 0xb 8 OR sh 0x2 20),
     (ADIVF, sh 0xa 8 OR sh 0x8 20), (ADIVD, sh 0xb 8 OR sh 0x8 20)]"

definition opvfprrr :: "nat \<Rightarrow> u32 \<Rightarrow> (lnk, u32) eff" where
  "opvfprrr a sc =
     (let o1 = cond_bits sc OR sh 0xe 24 in
      seq (onlyif (sc AND (C_SBIT OR C_PBIT OR C_WBIT) \<noteq> 0)
            (diag ''.S/.P/.W on vfp instruction''))
        (case map_of vfp_bits a of
           Some w \<Rightarrow> ret (o1 OR w)
         | None \<Rightarrow> seq (diag ''bad vfp rrr'') (ret 0)))"

definition bra_bits :: "(nat \<times> u32) list" where
  "bra_bits =
    [(ABEQ, sh 0x0 28 OR sh 0x5 25), (ABNE, sh 0x1 28 OR sh 0x5 25),
     (ABHS, sh 0x2 28 OR sh 0x5 25), (ABLO, sh 0x3 28 OR sh 0x5 25),
     (ABMI, sh 0x4 28 OR sh 0x5 25), (ABPL, sh 0x5 28 OR sh 0x5 25),
     (ABVS, sh 0x6 28 OR sh 0x5 25), (ABVC, sh 0x7 28 OR sh 0x5 25),
     (ABHI, sh 0x8 28 OR sh 0x5 25), (ABLS, sh 0x9 28 OR sh 0x5 25),
     (ABGE, sh 0xa 28 OR sh 0x5 25), (ABLT, sh 0xb 28 OR sh 0x5 25),
     (ABGT, sh 0xc 28 OR sh 0x5 25), (ABLE, sh 0xd 28 OR sh 0x5 25),
     (AB, sh 0xe 28 OR sh 0x5 25)]"

definition opbra :: "nat \<Rightarrow> u32 \<Rightarrow> (lnk, u32) eff" where
  "opbra a sc =
     seq (onlyif (sc AND (C_SBIT OR C_PBIT OR C_WBIT) \<noteq> 0)
           (diag ''.S/.P/.W on bra instruction''))
       (if a = ABL then ret (cond_bits sc OR sh 0x5 25 OR sh 0x1 24)
        else seq (onlyif (sc AND C_SCOND \<noteq> 0xe)
                   (diag ''redundant .EQ/.NE/... on B/BEQ/BNE/...  instruction''))
               (case map_of bra_bits a of
                  Some w \<Rightarrow> ret w
                | None \<Rightarrow> seq (diag ''bad bra'') (ret 0)))"

text \<open>The address mode bits that the load and store encoders share, and an offset's magnitude.\<close>

definition mode_bits :: "u32 \<Rightarrow> u32" where
  "mode_bits sc =
     cond_bits sc OR set_if (sc AND C_PBIT = 0) (sh 1 24) OR set_if (sc AND C_WBIT \<noteq> 0) (sh 1 21)"

definition mag :: "u64 \<Rightarrow> u64" where
  "mag v = (if sint v < 0 then - v else v)"

definition olr :: "nat \<Rightarrow> u32 \<Rightarrow> u64 \<Rightarrow> nat \<Rightarrow> nat \<Rightarrow> (lnk, u32) eff" where
  "olr a sc v b rt =
     seq (onlyif (sc AND C_SBIT \<noteq> 0) (diag ''.S on LDR/STR instruction''))
    (seq (onlyif (sc AND C_UBIT \<noteq> 0) (diag ''.U on LDR/STR instruction''))
    (let o1 = mode_bits sc OR sh 0x1 26 OR sh 1 20 OR set_if (sint v \<ge> 0) (sh 1 23) in
     seq (onlyif (sint (mag v) \<ge> 2 ^ 12) (diag ''literal span too large''))
    (seq (onlyif (a \<noteq> AMOVB \<and> a \<noteq> AMOVBU \<and> a \<noteq> AMOVW) (diag ''expect move operation''))
       (ret (o1 OR set_if (a = AMOVB \<or> a = AMOVBU) (sh 1 22)
                OR sh b 16 OR sh rt 12 OR ucast (mag v))))))"

definition olhr :: "u64 \<Rightarrow> nat \<Rightarrow> nat \<Rightarrow> u32 \<Rightarrow> (lnk, u32) eff" where
  "olhr v b r sc =
     seq (onlyif (sc AND C_SBIT \<noteq> 0) (diag ''.S on LDRH/STRH instruction''))
    (let o1 = mode_bits sc OR sh 1 23 OR sh 1 20 OR sh 0xb 4;
         o1 = (if sint v < 0 then o1 XOR sh 1 23 else o1);
         v = mag v in
     seq (onlyif (sint v \<ge> 2 ^ 8) (diag ''literal span too large''))
       (ret (o1 OR ucast (v AND 0xf) OR ucast (push_bit 8 (signed_drop_bit 4 v)) OR sh 1 22
                OR sh b 16 OR sh r 12)))"

definition osr :: "nat \<Rightarrow> u32 \<Rightarrow> nat \<Rightarrow> u64 \<Rightarrow> nat \<Rightarrow> (lnk, u32) eff" where
  "osr a sc r v b = bind (olr a sc v b r) (\<lambda>w. ret (w XOR sh 1 20))"

definition oshr :: "nat \<Rightarrow> u64 \<Rightarrow> nat \<Rightarrow> u32 \<Rightarrow> (lnk, u32) eff" where
  "oshr r v b sc = bind (olhr v b r sc) (\<lambda>w. ret (w XOR sh 1 20))"

text \<open>The register-offset forms pass an \<^verbatim>\<open>int\<close> where the immediate forms have a \<^verbatim>\<open>long\<close>.\<close>

definition olrr :: "nat \<Rightarrow> u32 \<Rightarrow> u32 \<Rightarrow> nat \<Rightarrow> nat \<Rightarrow> (lnk, u32) eff" where
  "olrr a sc i b r = bind (olr a sc (scast i) b r) (\<lambda>w. ret (w OR sh 1 25))"

definition olhrr :: "u32 \<Rightarrow> nat \<Rightarrow> nat \<Rightarrow> u32 \<Rightarrow> (lnk, u32) eff" where
  "olhrr i b r sc = bind (olhr (scast i) b r sc) (\<lambda>w. ret (w XOR sh 1 22))"

definition osrr :: "nat \<Rightarrow> u32 \<Rightarrow> nat \<Rightarrow> u32 \<Rightarrow> nat \<Rightarrow> (lnk, u32) eff" where
  "osrr a sc r i b = bind (olrr a sc i b r) (\<lambda>w. ret (w XOR sh 1 20))"

definition oshrr :: "nat \<Rightarrow> u32 \<Rightarrow> nat \<Rightarrow> u32 \<Rightarrow> (lnk, u32) eff" where
  "oshrr r i b sc = bind (olhr (scast i) b r sc) (\<lambda>w. ret (w XOR (sh 1 22 OR sh 1 20)))"

text \<open>The offset field of the floating-point loads and stores, with its two checks.\<close>

definition fp_offset :: "u64 \<Rightarrow> (lnk, u32) eff" where
  "fp_offset v =
     seq (if v AND 3 \<noteq> 0 then diag ''odd offset for floating point op''
          else onlyif (sint v \<ge> 2 ^ 10) (diag ''literal span too large''))
       (ret (ucast (signed_drop_bit 2 v AND 0xFF)))"

definition ovfpmem :: "nat \<Rightarrow> nat \<Rightarrow> u64 \<Rightarrow> nat \<Rightarrow> u32 \<Rightarrow> (lnk, u32) eff" where
  "ovfpmem a r v b sc =
     seq (onlyif (sc AND (C_SBIT OR C_PBIT OR C_WBIT) \<noteq> 0)
           (diag ''.S/.P/.W on VLDR/VSTR instruction''))
    (let o1 = cond_bits sc OR sh 0xd 24 OR sh 1 23;
         o1 = (if sint v < 0 then o1 XOR sh 1 23 else o1) in
     bind (fp_offset (mag v)) (\<lambda>f.
     let o1 = o1 OR f OR sh b 16 OR sh r 12 in
     seq (onlyif (a \<noteq> AMOVD \<and> a \<noteq> AMOVF) (diag ''bad fst''))
       (ret (if a = AMOVF then o1 OR sh 0xa 8 else o1 OR sh 0xb 8))))"

definition ofsr :: "nat \<Rightarrow> nat \<Rightarrow> u64 \<Rightarrow> nat \<Rightarrow> u32 \<Rightarrow> (lnk, u32) eff" where
  "ofsr a r v b sc =
     bind (gets vfp) (\<lambda>vf.
     if vf then ovfpmem a r v b sc
     else
       seq (onlyif (sc AND C_SBIT \<noteq> 0) (diag ''.S on FLDR/FSTR instruction''))
      (let o1 = mode_bits sc OR sh 6 25 OR sh 1 24 OR sh 1 23;
           o1 = (if sint v < 0 then o1 XOR sh 1 23 else o1) in
       bind (fp_offset (mag v)) (\<lambda>f.
       let o1 = o1 OR f OR sh b 16 OR sh r 12 OR sh 1 8 in
       seq (onlyif (a \<noteq> AMOVD \<and> a \<noteq> AMOVF) (diag ''bad fst''))
         (ret (if a = AMOVF then o1 else o1 OR sh 1 15)))))"

section \<open>Floating-point constants\<close>

definition chipfloats :: "(u32 \<times> u32) list" where
  "chipfloats =
    [(0x00000000, 0x00000000), (0x00000000, 0x3ff00000), (0x00000000, 0x40000000),
     (0x00000000, 0x40080000), (0x00000000, 0x40100000), (0x00000000, 0x40140000),
     (0x00000000, 0x3fe00000), (0x00000000, 0x40240000)]"

primrec chipfloat_loop :: "nat \<Rightarrow> u32 \<times> u32 \<Rightarrow> nat option" where
  "chipfloat_loop 0 e = None"
| "chipfloat_loop (Suc n) e = (if chipfloats ! n = e then Some n else chipfloat_loop n e)"

text \<open>The result \<^verbatim>\<open>-1\<close> is \<open>None\<close>.\<close>

definition chipfloat :: "u32 \<times> u32 \<Rightarrow> (lnk, nat option) eff" where
  "chipfloat e = gets (\<lambda>s. if vfp s then None else chipfloat_loop (length chipfloats) e)"

text \<open>
  \<^verbatim>\<open>ieeedtof\<close>, the single-precision value of a double constant; \<^verbatim>\<open>exp\<close> is an \<^verbatim>\<open>int\<close> and \<^verbatim>\<open>v\<close> a \<^verbatim>\<open>long\<close>, of
  which the low 32 bits are returned.
\<close>

definition ieeedtof :: "u32 \<times> u32 \<Rightarrow> (lnk, u32) eff" where
  "ieeedtof e =
     (let l = fst e; h = snd e in
      if h = 0 then ret 0
      else
        (let ex = uint (drop_bit 20 h AND 0x7ff) - (2 ^ 10 - 2);
             v = push_bit 3 (h AND 0xfffff) OR (drop_bit 29 l AND 0x7);
             up = drop_bit 28 l AND 1 \<noteq> 0;
             v = (if up then v + 1 else v);
             over = (up \<and> v AND 0x800000 \<noteq> 0);
             v = (if over then drop_bit 1 (v AND 0x7fffff) else v);
             ex = (if over then ex + 1 else ex)
         in seq (onlyif (ex \<le> - 126 \<or> ex \<ge> 130) (diag ''double fp to single fp overflow''))
              (ret (v OR push_bit 23 (of_int (ex + 126) AND 0xff) OR (h AND 0x80000000)))))"

section \<open>Constants from the literal pool\<close>

definition target_pc :: "target \<Rightarrow> u64 option" where
  "target_pc t = (case t of NoTarget \<Rightarrow> None | UndefTarget \<Rightarrow> Some 0 | At c \<Rightarrow> Some c)"

definition omvl :: "prog \<Rightarrow> adr \<Rightarrow> nat \<Rightarrow> (lnk, u32) eff" where
  "omvl p a dr =
     (case target_pc (p_cond p) of
        Some c \<Rightarrow> olr AMOVW (p_scond p AND C_SCOND) (c - p_pc p - 8) REGPC dr
      | None \<Rightarrow>
          seq (aclass a)
         (bind (gets instoffset) (\<lambda>off.
          let v = immrot (NOT off) in
          if v = 0 then seq (diag ''missing literal'') (ret 0)
          else bind (oprrr AMVN (p_scond p AND C_SCOND)) (\<lambda>o1. ret (o1 OR sh dr 12 OR v)))))"

text \<open>\<^verbatim>\<open>o1 = omvl(...); if(!o1) break;\<close>\<close>

definition mvl_then :: "prog \<Rightarrow> adr \<Rightarrow> (u32 \<Rightarrow> (lnk, u32 list) eff) \<Rightarrow> (lnk, u32 list) eff" where
  "mvl_then p a k = bind (omvl p a REGTMP) (\<lambda>o1. if o1 = 0 then ret [0] else k o1)"

section \<open>The actions of \<^verbatim>\<open>asmout\<close>\<close>

text \<open>\<open>reg2\<close> and \<open>dp_reg\<close> adjust the middle register, \<open>base_reg\<close> the base of a memory operand.\<close>

definition reg2 :: "nat \<Rightarrow> nat \<Rightarrow> nat" where
  "reg2 r rt = (if r = R_NONE then rt else r)"

definition dp_reg :: "prog \<Rightarrow> nat \<Rightarrow> nat" where
  "dp_reg p rt = (if p_as p = AMOVW \<or> p_as p = AMVN then 0 else reg2 (p_reg p) rt)"

definition to_reg :: "prog \<Rightarrow> nat" where
  "to_reg p = (if a_type (p_to p) = D_NONE then 0 else a_reg (p_to p))"

definition base_reg :: "adr \<Rightarrow> optab \<Rightarrow> nat" where
  "base_reg a ot = (if a_reg a = R_NONE then o_param ot else a_reg a)"

definition asm_11 :: "prog \<Rightarrow> (lnk, u32 list) eff" where
  "asm_11 p =
     bind (aclass (p_to p)) (\<lambda>c.
     bind (gets dlm) (\<lambda>d.
     seq (onlyif (c = C_ADDR \<or>
             (c = C_LCON \<and> d \<and> (a_symkind (p_to p) = N_EXTERN \<or> a_symkind (p_to p) = N_INTERN)))
           (case a_sym (p_to p) of
              None \<Rightarrow> raise Trap
            | Some i \<Rightarrow>
                bind (gets (\<lambda>s. s_type (syms s i))) (\<lambda>t.
                seq (onlyif (t = SUNDEF) (ckoff (a_offset (p_to p))))
                  (dynreloc (Some i) (p_pc p) True))))
       (gets (\<lambda>s. [ucast (instoffset s)]))))"

definition asm_1 :: "prog \<Rightarrow> (lnk, u32 list) eff" where
  "asm_1 p =
     bind (oprrr (p_as p) (p_scond p)) (\<lambda>o1.
     let rf = a_reg (p_from p); rt = to_reg p; r = dp_reg p rt
     in ret [o1 OR sh r 16 OR sh rt 12 OR sh rf 0])"

definition asm_2 :: "prog \<Rightarrow> (lnk, u32 list) eff" where
  "asm_2 p =
     seq (aclass (p_from p))
    (bind (oprrr (p_as p) (p_scond p)) (\<lambda>o1.
     bind (gets instoffset) (\<lambda>off.
     let rt = to_reg p; r = dp_reg p rt
     in ret [o1 OR immrot off OR sh r 16 OR sh rt 12])))"

definition asm_3 :: "prog \<Rightarrow> (lnk, u32 list) eff" where
  "asm_3 p =
     seq (aclass (p_from p))
    (bind (oprrr (p_as p) (p_scond p)) (\<lambda>o1.
     let rt = to_reg p; r = dp_reg p rt
     in ret [o1 OR ucast (a_offset (p_from p)) OR sh r 16 OR sh rt 12]))"

definition asm_8 :: "prog \<Rightarrow> (lnk, u32 list) eff" where
  "asm_8 p =
     seq (aclass (p_from p))
    (bind (oprrr (p_as p) (p_scond p)) (\<lambda>o1.
     bind (gets instoffset) (\<lambda>off.
     let rt = a_reg (p_to p); r = reg2 (p_reg p) rt
     in ret [o1 OR sh rt 12 OR ucast (push_bit 7 (off AND 31)) OR sh r 0])))"

definition asm_9 :: "prog \<Rightarrow> (lnk, u32 list) eff" where
  "asm_9 p =
     bind (oprrr (p_as p) (p_scond p)) (\<lambda>o1.
     let rf = a_reg (p_from p); rt = a_reg (p_to p); r = reg2 (p_reg p) rt
     in ret [o1 OR sh rt 12 OR sh rf 8 OR sh 1 4 OR sh r 0])"

text \<open>The pair of shifts that extends a byte or a half word.\<close>

definition asm_14 :: "prog \<Rightarrow> (lnk, u32 list) eff" where
  "asm_14 p =
     bind (oprrr ASLL (p_scond p)) (\<lambda>o1.
     bind (oprrr (if p_as p = AMOVBU \<or> p_as p = AMOVHU then ASRL else ASRA) (p_scond p)) (\<lambda>o2.
     let rf = a_reg (p_from p); rt = a_reg (p_to p);
         k = (if p_as p = AMOVB \<or> p_as p = AMOVBU then 24 else 16)
     in ret [o1 OR sh rt 12 OR sh k 7 OR sh rf 0, o2 OR sh rt 12 OR sh k 7 OR sh rt 0]))"

definition asm_58 :: "prog \<Rightarrow> (lnk, u32 list) eff" where
  "asm_58 p =
     bind (oprrr AAND (p_scond p)) (\<lambda>o1.
     let rt = to_reg p; r = reg2 (a_reg (p_from p)) rt
     in ret [o1 OR immrot (0xff :: u64) OR sh r 16 OR sh rt 12])"

definition asm_15 :: "prog \<Rightarrow> (lnk, u32 list) eff" where
  "asm_15 p =
     bind (oprrr (p_as p) (p_scond p)) (\<lambda>o1.
     let rf = a_reg (p_from p); rt = a_reg (p_to p); r = reg2 (p_reg p) rt;
         (rf, r) = (if rt = r then (rt, rf) else (rf, r))
     in ret [o1 OR sh rt 16 OR sh rf 8 OR sh r 0])"

definition asm_13 :: "prog \<Rightarrow> (lnk, u32 list) eff" where
  "asm_13 p =
     mvl_then p (p_from p) (\<lambda>o1.
     bind (oprrr (p_as p) (p_scond p)) (\<lambda>o2.
     let rt = a_reg (p_to p); r = dp_reg p rt
     in ret [o1, o2 OR sh r 16 OR sh REGTMP 0 OR set_if (a_type (p_to p) \<noteq> D_NONE) (sh rt 12)]))"

definition asm_12 :: "prog \<Rightarrow> (lnk, u32 list) eff" where
  "asm_12 p = bind (omvl p (p_from p) (a_reg (p_to p))) (\<lambda>o1. ret [o1])"

definition asm_5 :: "prog \<Rightarrow> (lnk, u32 list) eff" where
  "asm_5 p =
     bind (case p_cond p of
             UndefTarget \<Rightarrow>
               (case a_sym (p_to p) of
                  None \<Rightarrow> raise Trap
                | Some i \<Rightarrow>
                    bind (gets (\<lambda>s. syms s i)) (\<lambda>y.
                    seq (onlyif (s_type y \<noteq> SUNDEF) (diag ''bad branch sym type''))
                   (seq (dynreloc (Some i) (p_pc p) False)
                      (ret (drop_bit (Roffset - 2) (s_value y))))))
           | At c \<Rightarrow> ret (c - p_pc p - 8)
           | NoTarget \<Rightarrow> ret (- 8)) (\<lambda>v.
     bind (opbra (p_as p) (p_scond p)) (\<lambda>o1.
     ret [o1 OR ucast (signed_drop_bit 2 v AND 0xffffff)]))"

definition asm_6 :: "prog \<Rightarrow> (lnk, u32 list) eff" where
  "asm_6 p =
     seq (aclass (p_to p))
    (bind (oprrr AADD (p_scond p)) (\<lambda>o1.
     bind (gets instoffset) (\<lambda>off.
     ret [o1 OR immrot off OR sh (a_reg (p_to p)) 16 OR sh REGPC 12])))"

definition asm_7 :: "prog \<Rightarrow> (lnk, u32 list) eff" where
  "asm_7 p =
     seq (aclass (p_to p))
    (bind (oprrr AADD (p_scond p)) (\<lambda>o1.
     bind (oprrr AADD (p_scond p)) (\<lambda>o2.
     bind (gets instoffset) (\<lambda>off.
     ret [o1 OR sh REGPC 16 OR sh REGLINK 12 OR immrot (0 :: u64),
          o2 OR sh (a_reg (p_to p)) 16 OR sh REGPC 12 OR immrot off]))))"

definition asm_21 :: "prog \<Rightarrow> optab \<Rightarrow> (lnk, u32 list) eff" where
  "asm_21 p ot =
     seq (aclass (p_from p))
    (bind (gets instoffset) (\<lambda>off.
     bind (olr (p_as p) (p_scond p) off (base_reg (p_from p) ot) (a_reg (p_to p))) (\<lambda>o1.
     ret [o1])))"

definition asm_31 :: "prog \<Rightarrow> optab \<Rightarrow> (lnk, u32 list) eff" where
  "asm_31 p ot =
     mvl_then p (p_from p) (\<lambda>o1.
     bind (olrr (p_as p) (p_scond p) (of_nat REGTMP) (base_reg (p_from p) ot) (a_reg (p_to p))) (\<lambda>o2.
     ret [o1, o2]))"

definition asm_20 :: "prog \<Rightarrow> optab \<Rightarrow> (lnk, u32 list) eff" where
  "asm_20 p ot =
     seq (aclass (p_to p))
    (bind (gets instoffset) (\<lambda>off.
     bind (osr (p_as p) (p_scond p) (a_reg (p_from p)) off (base_reg (p_to p) ot)) (\<lambda>o1.
     ret [o1])))"

definition asm_30 :: "prog \<Rightarrow> optab \<Rightarrow> (lnk, u32 list) eff" where
  "asm_30 p ot =
     mvl_then p (p_to p) (\<lambda>o1.
     bind (osrr (p_as p) (p_scond p) (a_reg (p_from p)) (of_nat REGTMP) (base_reg (p_to p) ot)) (\<lambda>o2.
     ret [o1, o2]))"

definition asm_40 :: "prog \<Rightarrow> (lnk, u32 list) eff" where
  "asm_40 p =
     seq (aclass (p_from p))
    (bind (gets instoffset) (\<lambda>off.
     seq (onlyif (off \<noteq> 0) (diag ''offset must be zero in SWP''))
       (ret [sh 0x2 23 OR sh 0x9 4 OR set_if (p_as p = ASWPBU) (sh 1 22) OR cond_bits (p_scond p)
             OR sh (a_reg (p_from p)) 16 OR sh (a_reg (p_to p)) 12 OR sh (p_reg p) 0])))"

definition asm_4 :: "prog \<Rightarrow> optab \<Rightarrow> (lnk, u32 list) eff" where
  "asm_4 p ot =
     seq (aclass (p_from p))
    (bind (oprrr AADD (p_scond p)) (\<lambda>o1.
     bind (gets instoffset) (\<lambda>off.
     ret [o1 OR sh (base_reg (p_from p) ot) 16 OR sh (a_reg (p_to p)) 12 OR immrot off])))"

definition asm_34 :: "prog \<Rightarrow> optab \<Rightarrow> (lnk, u32 list) eff" where
  "asm_34 p ot =
     mvl_then p (p_from p) (\<lambda>o1.
     bind (oprrr AADD (p_scond p)) (\<lambda>o2.
     ret [o1, o2 OR sh (base_reg (p_from p) ot) 16 OR sh (a_reg (p_to p)) 12 OR sh REGTMP 0]))"

definition asm_22 :: "prog \<Rightarrow> optab \<Rightarrow> (lnk, u32 list) eff" where
  "asm_22 p ot =
     seq (aclass (p_from p))
    (bind (gets instoffset) (\<lambda>off.
     let rt = a_reg (p_to p); k = (if p_as p = AMOVB then 24 else 16) in
     bind (olr AMOVW (p_scond p) off (base_reg (p_from p) ot) rt) (\<lambda>o1.
     bind (oprrr ASLL (p_scond p)) (\<lambda>o2.
     bind (oprrr (if p_as p = AMOVHU then ASRL else ASRA) (p_scond p)) (\<lambda>o3.
     ret [o1, o2 OR sh rt 12 OR sh k 7 OR sh rt 0, o3 OR sh rt 12 OR sh k 7 OR sh rt 0])))))"

definition asm_32 :: "prog \<Rightarrow> optab \<Rightarrow> (lnk, u32 list) eff" where
  "asm_32 p ot =
     mvl_then p (p_from p) (\<lambda>o1.
     let rt = a_reg (p_to p); k = (if p_as p = AMOVB then 24 else 16) in
     bind (olrr (p_as p) (p_scond p) (of_nat REGTMP) (base_reg (p_from p) ot) rt) (\<lambda>o2.
     bind (oprrr ASLL (p_scond p)) (\<lambda>o3.
     bind (oprrr (if p_as p = AMOVHU then ASRL else ASRA) (p_scond p)) (\<lambda>o4.
     ret [o1, o2, o3 OR sh rt 12 OR sh k 7 OR sh rt 0, o4 OR sh rt 12 OR sh k 7 OR sh rt 0]))))"

definition asm_23 :: "prog \<Rightarrow> optab \<Rightarrow> (lnk, u32 list) eff" where
  "asm_23 p ot =
     seq (aclass (p_to p))
    (bind (gets instoffset) (\<lambda>off.
     let rf = a_reg (p_from p); r = base_reg (p_to p) ot in
     bind (osr AMOVBU (p_scond p) rf off r) (\<lambda>o1.
     bind (oprrr ASRL (p_scond p)) (\<lambda>o2.
     bind (osr AMOVBU (p_scond p) REGTMP (off + 1) r) (\<lambda>o3.
     ret [o1, o2 OR sh REGTMP 12 OR sh 8 7 OR sh rf 0, o3])))))"

definition asm_33 :: "prog \<Rightarrow> optab \<Rightarrow> (lnk, u32 list) eff" where
  "asm_33 p ot =
     mvl_then p (p_to p) (\<lambda>o1.
     let rf = a_reg (p_from p); r = base_reg (p_to p) ot in
     bind (osrr AMOVBU (p_scond p) rf (of_nat REGTMP) r) (\<lambda>o2.
     bind (oprrr ASRL (p_scond p)) (\<lambda>o3.
     bind (oprrr AADD (p_scond p)) (\<lambda>o4.
     bind (osrr AMOVBU (p_scond p) rf (of_nat REGTMP) r) (\<lambda>o5.
     bind (oprrr ASRL (p_scond p)) (\<lambda>o6.
     ret [o1, o2, o3 OR sh rf 12 OR sh 8 7 OR sh rf 0 OR sh 1 6,
          o4 OR sh REGTMP 16 OR sh REGTMP 12 OR immrot (1 :: u64), o5,
          o6 OR sh rf 12 OR sh 24 7 OR sh rf 0 OR sh 1 6]))))))"

definition asm_10 :: "prog \<Rightarrow> (lnk, u32 list) eff" where
  "asm_10 p =
     bind (oprrr (p_as p) (p_scond p)) (\<lambda>o1.
     if a_type (p_to p) \<noteq> D_NONE then
       seq (aclass (p_to p))
         (gets (\<lambda>s. [o1 OR ucast (instoffset s AND 0xffffff)]))
     else ret [o1])"

definition asm_41 :: "(lnk, u32 list) eff" where
  "asm_41 = ret [0xe8fd8000]"

definition asm_64 :: "prog \<Rightarrow> (lnk, u32 list) eff" where
  "asm_64 p =
     mvl_then p (p_to p) (\<lambda>o1.
     bind (osr (p_as p) (p_scond p) (a_reg (p_from p)) 0 REGTMP) (\<lambda>o2. ret [o1, o2]))"

definition asm_65_66 :: "prog \<Rightarrow> optab \<Rightarrow> (lnk, u32 list) eff" where
  "asm_65_66 p ot =
     mvl_then p (p_from p) (\<lambda>o1.
     bind (olr (p_as p) (p_scond p) 0 REGTMP (a_reg (p_to p))) (\<lambda>o2.
     if o_type ot = 65 then ret [o1, o2]
     else
       bind (oprrr ASLL (p_scond p)) (\<lambda>o3.
       bind (oprrr (if p_as p = AMOVBU \<or> p_as p = AMOVHU then ASRL else ASRA) (p_scond p)) (\<lambda>o4.
       let r = a_reg (p_to p); k = (if p_as p = AMOVB \<or> p_as p = AMOVBU then 24 else 16)
       in ret [o1, o2, o3 OR sh r 0 OR sh r 12 OR sh k 7, o4 OR sh r 0 OR sh r 12 OR sh k 7]))))"

definition asm_67 :: "prog \<Rightarrow> (lnk, u32 list) eff" where
  "asm_67 p =
     mvl_then p (p_to p) (\<lambda>o1.
     let rf = a_reg (p_from p) in
     bind (osr (p_as p) (p_scond p) rf 0 REGTMP) (\<lambda>o2.
     bind (oprrr ASRL (p_scond p)) (\<lambda>o3.
     bind (oprrr AADD (p_scond p)) (\<lambda>o4.
     bind (osr (p_as p) (p_scond p) rf 0 REGTMP) (\<lambda>o5.
     bind (oprrr ASRL (p_scond p)) (\<lambda>o6.
     ret [o1, o2, o3 OR sh 8 7 OR sh rf 0 OR sh rf 12 OR sh 1 6,
          o4 OR sh REGTMP 12 OR sh REGTMP 16 OR immrot (1 :: u64), o5,
          o6 OR sh 24 7 OR sh rf 0 OR sh rf 12 OR sh 1 6]))))))"

definition asm_50 :: "prog \<Rightarrow> optab \<Rightarrow> (lnk, u32 list) eff" where
  "asm_50 p ot =
     bind (regoff (p_to p)) (\<lambda>v.
     bind (ofsr (p_as p) (a_reg (p_from p)) v (base_reg (p_to p) ot) (p_scond p)) (\<lambda>o1.
     ret [o1]))"

definition asm_51 :: "prog \<Rightarrow> optab \<Rightarrow> (lnk, u32 list) eff" where
  "asm_51 p ot =
     bind (regoff (p_from p)) (\<lambda>v.
     bind (ofsr (p_as p) (a_reg (p_to p)) v (base_reg (p_from p) ot) (p_scond p)) (\<lambda>o1.
     ret [o1 OR sh 1 20]))"

definition asm_52 :: "prog \<Rightarrow> optab \<Rightarrow> (lnk, u32 list) eff" where
  "asm_52 p ot =
     mvl_then p (p_to p) (\<lambda>o1.
     bind (oprrr AADD (p_scond p)) (\<lambda>o2.
     bind (ofsr (p_as p) (a_reg (p_from p)) 0 REGTMP (p_scond p)) (\<lambda>o3.
     ret [o1, o2 OR sh REGTMP 12 OR sh REGTMP 16 OR sh (base_reg (p_to p) ot) 0, o3])))"

definition asm_53 :: "prog \<Rightarrow> optab \<Rightarrow> (lnk, u32 list) eff" where
  "asm_53 p ot =
     mvl_then p (p_from p) (\<lambda>o1.
     bind (oprrr AADD (p_scond p)) (\<lambda>o2.
     bind (ofsr (p_as p) (a_reg (p_to p)) 0 REGTMP (p_scond p)) (\<lambda>o3.
     ret [o1, o2 OR sh REGTMP 12 OR sh REGTMP 16 OR sh (base_reg (p_from p) ot) 0, o3 OR sh 1 20])))"

definition asm_54 :: "prog \<Rightarrow> (lnk, u32 list) eff" where
  "asm_54 p =
     bind (oprrr (p_as p) (p_scond p)) (\<lambda>o1.
     bind (if a_type (p_from p) = D_FCONST then
             bind (chipfloat (a_ieee (p_from p))) (\<lambda>rf.
             case rf of
               None \<Rightarrow> seq (diag ''invalid floating-point immediate'') (ret (sh 1 3))
             | Some n \<Rightarrow> ret (sh n 0 OR sh 1 3))
           else ret (sh (a_reg (p_from p)) 0)) (\<lambda>rf.
     let rt = to_reg p;
         r = (if a_type (p_to p) = D_NONE then p_reg p
              else if o1 AND sh 1 15 \<noteq> 0 then 0
              else reg2 (p_reg p) rt)
     in ret [o1 OR rf OR sh r 16 OR sh rt 12]))"

definition asm_55 :: "prog \<Rightarrow> (lnk, u32 list) eff" where
  "asm_55 p =
     bind (oprrr (p_as p) (p_scond p)) (\<lambda>o1.
     seq (onlyif (a_type (p_to p) = D_NONE) (diag ''to.type==D_NONE (asm/fp)''))
    (let rf = a_reg (p_from p); rt = to_reg p
     in ret [if a_type (p_from p) = D_REG then o1 OR sh rf 12 OR sh rt 16
             else o1 OR sh rf 0 OR sh rt 12]))"

definition asm_68 :: "prog \<Rightarrow> (lnk, u32 list) eff" where
  "asm_68 p =
     mvl_then p (p_to p) (\<lambda>o1.
     bind (ofsr (p_as p) (a_reg (p_from p)) 0 REGTMP (p_scond p)) (\<lambda>o2. ret [o1, o2]))"

definition asm_69 :: "prog \<Rightarrow> (lnk, u32 list) eff" where
  "asm_69 p =
     mvl_then p (p_from p) (\<lambda>o1.
     bind (ofsr (p_as p) (a_reg (p_to p)) 0 REGTMP (p_scond p)) (\<lambda>o2. ret [o1, o2 OR sh 1 20]))"

definition asm_56 :: "prog \<Rightarrow> (lnk, u32 list) eff" where
  "asm_56 p =
     ret [cond_bits (p_scond p) OR sh 0xe 24 OR sh 1 8 OR sh 1 4
          OR sh (a_reg (p_to p) + 1) 21 OR sh (a_reg (p_from p)) 12]"

definition asm_57 :: "prog \<Rightarrow> (lnk, u32 list) eff" where
  "asm_57 p =
     ret [cond_bits (p_scond p) OR sh 0xe 24 OR sh 1 8 OR sh 1 4
          OR sh (a_reg (p_from p) + 1) 21 OR sh (a_reg (p_to p)) 12 OR sh 1 20]"

definition asm_74 :: "prog \<Rightarrow> (lnk, u32 list) eff" where
  "asm_74 p =
     bind (opvfprrr (p_as p) (p_scond p)) (\<lambda>o1.
     seq (onlyif (a_type (p_from p) = D_FCONST) (diag ''invalid floating-point immediate''))
    (let rf = (if a_type (p_from p) = D_FCONST then 0 else a_reg (p_from p));
         rt = a_reg (p_to p); r = reg2 (p_reg p) rt;
         o1 = o1 OR sh rt 12
     in ret [if drop_bit 20 o1 AND 0xf = 0xb then o1 OR sh rf 0 else o1 OR sh r 16 OR sh rf 0]))"

definition asm_75 :: "prog \<Rightarrow> (lnk, u32 list) eff" where
  "asm_75 p =
     bind (opvfprrr (p_as p) (p_scond p)) (\<lambda>o1.
     let fc = (a_type (p_from p) = D_FCONST) in
     seq (onlyif (fc \<and> (snd (a_ieee (p_from p)) \<noteq> 0 \<or> fst (a_ieee (p_from p)) \<noteq> 0))
           (diag ''invalid floating-point immediate''))
    (let rf = (if fc then 0 else a_reg (p_from p))
     in ret [o1 OR set_if fc (sh 1 16) OR sh (p_reg p) 12 OR sh rf 0,
             0x0ef1fa10 OR cond_bits (p_scond p)]))"

definition asm_76 :: "prog \<Rightarrow> (lnk, u32 list) eff" where
  "asm_76 p =
     bind (opvfprrr (p_as p) (p_scond p)) (\<lambda>o1.
     let rf = a_reg (p_from p); rt = a_reg (p_to p)
     in ret (if a_type (p_from p) = D_REG then
               [0x0e000a10 OR cond_bits (p_scond p) OR sh rt 16 OR sh rf 12,
                o1 OR sh rt 12 OR sh rt 0]
             else
               [o1 OR sh FREGTMP 12 OR sh rf 0,
                0x0e100a10 OR cond_bits (p_scond p) OR sh FREGTMP 16 OR sh rt 12]))"

definition asm_16 :: "(lnk, u32 list) eff" where
  "asm_16 = ret [sh 0xf 28, 0]"

definition asm_17 :: "prog \<Rightarrow> (lnk, u32 list) eff" where
  "asm_17 p =
     bind (oprrr (p_as p) (p_scond p)) (\<lambda>o1.
     let rf = a_reg (p_from p); rt = a_reg (p_to p); rt2 = (ucast (a_offset (p_to p)) :: u32)
     in ret [o1 OR sh rf 8 OR sh (p_reg p) 0 OR sh rt 16 OR push_bit 12 rt2])"

definition movm :: "prog \<Rightarrow> u32 \<Rightarrow> (lnk, u32 list) eff" where
  "movm p o1 =
     bind (gets instoffset) (\<lambda>off.
     seq (onlyif (off \<noteq> 0) (diag ''offset must be zero in MOVM''))
       (ret [o1 OR cond_bits (p_scond p) OR set_if (p_scond p AND C_PBIT \<noteq> 0) (sh 1 24)
             OR set_if (p_scond p AND C_UBIT \<noteq> 0) (sh 1 23)
             OR set_if (p_scond p AND C_SBIT \<noteq> 0) (sh 1 22)
             OR set_if (p_scond p AND C_WBIT \<noteq> 0) (sh 1 21)]))"

definition asm_38 :: "prog \<Rightarrow> (lnk, u32 list) eff" where
  "asm_38 p =
     seq (aclass (p_to p))
       (movm p (sh 0x4 25 OR ucast (a_offset (p_from p) AND 0xffff) OR sh (a_reg (p_to p)) 16))"

definition asm_39 :: "prog \<Rightarrow> (lnk, u32 list) eff" where
  "asm_39 p =
     seq (aclass (p_from p))
       (movm p (sh 0x4 25 OR sh 1 20 OR ucast (a_offset (p_to p) AND 0xffff)
                OR sh (a_reg (p_from p)) 16))"

definition asm_35 :: "prog \<Rightarrow> (lnk, u32 list) eff" where
  "asm_35 p =
     ret [sh 2 23 OR sh 0xf 16 OR sh 0 0 OR cond_bits (p_scond p)
          OR sh (a_reg (p_from p) mod 2) 22 OR sh (a_reg (p_to p)) 12]"

text \<open>The first word of the two moves to a status register.\<close>

definition msr_bits :: "u32 \<Rightarrow> u32" where
  "msr_bits sc =
     (sh 2 23 OR sh 0x29f 12 OR sh 0 4) XOR set_if (sc AND C_FBIT \<noteq> 0) (sh 0x010 12)"

definition asm_36 :: "prog \<Rightarrow> (lnk, u32 list) eff" where
  "asm_36 p =
     ret [msr_bits (p_scond p) OR cond_bits (p_scond p) OR sh (a_reg (p_to p) mod 2) 22
          OR sh (a_reg (p_from p)) 0]"

definition asm_37 :: "prog \<Rightarrow> (lnk, u32 list) eff" where
  "asm_37 p =
     seq (aclass (p_from p))
    (bind (gets instoffset) (\<lambda>off.
     ret [msr_bits (p_scond p) OR cond_bits (p_scond p) OR immrot off
          OR sh (a_reg (p_to p) mod 2) 22 OR sh (a_reg (p_from p)) 0]))"

definition asm_70 :: "prog \<Rightarrow> optab \<Rightarrow> (lnk, u32 list) eff" where
  "asm_70 p ot =
     seq (aclass (p_to p))
    (bind (gets instoffset) (\<lambda>off.
     bind (oshr (a_reg (p_from p)) off (base_reg (p_to p) ot) (p_scond p)) (\<lambda>o1. ret [o1])))"

definition load_kind :: "nat \<Rightarrow> u32" where
  "load_kind a = (if a = AMOVB then sh 1 5 OR sh 1 6 else if a = AMOVH then sh 1 6 else 0)"

definition asm_71 :: "prog \<Rightarrow> optab \<Rightarrow> (lnk, u32 list) eff" where
  "asm_71 p ot =
     seq (aclass (p_from p))
    (bind (gets instoffset) (\<lambda>off.
     bind (olhr off (base_reg (p_from p) ot) (a_reg (p_to p)) (p_scond p)) (\<lambda>o1.
     ret [o1 XOR load_kind (p_as p)])))"

definition asm_72 :: "prog \<Rightarrow> optab \<Rightarrow> (lnk, u32 list) eff" where
  "asm_72 p ot =
     mvl_then p (p_to p) (\<lambda>o1.
     bind (oshrr (a_reg (p_from p)) (of_nat REGTMP) (base_reg (p_to p) ot) (p_scond p)) (\<lambda>o2.
     ret [o1, o2]))"

definition asm_73 :: "prog \<Rightarrow> optab \<Rightarrow> (lnk, u32 list) eff" where
  "asm_73 p ot =
     mvl_then p (p_from p) (\<lambda>o1.
     bind (olhrr (of_nat REGTMP) (base_reg (p_from p) ot) (a_reg (p_to p)) (p_scond p)) (\<lambda>o2.
     ret [o1, o2 XOR load_kind (p_as p)]))"

definition asm_59 :: "prog \<Rightarrow> (lnk, u32 list) eff" where
  "asm_59 p =
     (if a_reg (p_from p) = R_NONE then
        seq (onlyif (p_as p \<noteq> AMOVW) (diag ''byte MOV from shifter operand'')) (asm_3 p)
      else
        seq (onlyif (bit (a_offset (p_from p)) 4) (diag ''bad shift in LDR''))
       (bind (olrr (p_as p) (p_scond p) (ucast (a_offset (p_from p))) (a_reg (p_from p))
                (a_reg (p_to p))) (\<lambda>o1. ret [o1])))"

definition asm_60 :: "prog \<Rightarrow> (lnk, u32 list) eff" where
  "asm_60 p =
     (if a_reg (p_from p) = R_NONE then
        seq (diag ''byte MOV from shifter operand'') (asm_3 p)
      else
        seq (onlyif (a_offset (p_from p) AND NOT 0xf \<noteq> 0) (diag ''bad shift in LDRSB''))
       (bind (olhrr (ucast (a_offset (p_from p))) (a_reg (p_from p)) (a_reg (p_to p)) (p_scond p))
          (\<lambda>o1. ret [o1 XOR (sh 1 5 OR sh 1 6)])))"

definition asm_61 :: "prog \<Rightarrow> (lnk, u32 list) eff" where
  "asm_61 p =
     seq (onlyif (a_reg (p_to p) = R_NONE) (diag ''MOV to shifter operand''))
    (bind (osrr (p_as p) (p_scond p) (a_reg (p_from p)) (ucast (a_offset (p_to p))) (a_reg (p_to p)))
       (\<lambda>o1. ret [o1]))"

definition asm_62 :: "prog \<Rightarrow> (lnk, u32 list) eff" where
  "asm_62 p =
     bind (olrr AMOVW (p_scond p) (of_nat (a_reg (p_from p))) REGPC REGPC) (\<lambda>o1.
     ret [o1 OR sh 2 7])"

definition asm_63 :: "prog \<Rightarrow> (lnk, u32 list) eff" where
  "asm_63 p =
     (case target_pc (p_cond p) of
        None \<Rightarrow> ret [0]
      | Some c \<Rightarrow>
          bind (gets dlm) (\<lambda>d.
          seq (onlyif d (dynreloc None (p_pc p) True)) (ret [ucast c])))"

section \<open>Dispatch and output\<close>

definition asm_words :: "prog \<Rightarrow> optab \<Rightarrow> (lnk, u32 list) eff" where
  "asm_words p ot =
     (let t = o_type ot in
      if t = 0 then ret []
      else if t = 11 then asm_11 p
      else if t = 1 then asm_1 p
      else if t = 2 then asm_2 p
      else if t = 3 then asm_3 p
      else if t = 8 then asm_8 p
      else if t = 9 then asm_9 p
      else if t = 14 then asm_14 p
      else if t = 58 then asm_58 p
      else if t = 15 then asm_15 p
      else if t = 13 then asm_13 p
      else if t = 12 then asm_12 p
      else if t = 5 then asm_5 p
      else if t = 6 then asm_6 p
      else if t = 7 then asm_7 p
      else if t = 21 then asm_21 p ot
      else if t = 31 then asm_31 p ot
      else if t = 20 then asm_20 p ot
      else if t = 30 then asm_30 p ot
      else if t = 40 then asm_40 p
      else if t = 4 then asm_4 p ot
      else if t = 34 then asm_34 p ot
      else if t = 22 then asm_22 p ot
      else if t = 32 then asm_32 p ot
      else if t = 23 then asm_23 p ot
      else if t = 33 then asm_33 p ot
      else if t = 10 then asm_10 p
      else if t = 41 then asm_41
      else if t = 64 then asm_64 p
      else if t = 65 \<or> t = 66 then asm_65_66 p ot
      else if t = 67 then asm_67 p
      else if t = 50 then asm_50 p ot
      else if t = 51 then asm_51 p ot
      else if t = 52 then asm_52 p ot
      else if t = 53 then asm_53 p ot
      else if t = 54 then asm_54 p
      else if t = 55 then asm_55 p
      else if t = 68 then asm_68 p
      else if t = 69 then asm_69 p
      else if t = 56 then asm_56 p
      else if t = 57 then asm_57 p
      else if t = 74 then asm_74 p
      else if t = 75 then asm_75 p
      else if t = 76 then asm_76 p
      else if t = 16 then asm_16
      else if t = 17 then asm_17 p
      else if t = 38 then asm_38 p
      else if t = 39 then asm_39 p
      else if t = 35 then asm_35 p
      else if t = 36 then asm_36 p
      else if t = 37 then asm_37 p
      else if t = 70 then asm_70 p ot
      else if t = 71 then asm_71 p ot
      else if t = 72 then asm_72 p ot
      else if t = 73 then asm_73 p ot
      else if t = 59 then asm_59 p
      else if t = 60 then asm_60 p
      else if t = 61 then asm_61 p
      else if t = 62 then asm_62 p
      else if t = 63 then asm_63 p
      else seq (diag ''unknown asm'') (ret []))"

fun put_words :: "nat \<Rightarrow> u32 list \<Rightarrow> (lnk, unit) eff" where
  "put_words 0 ws = ret ()"
| "put_words (Suc n) [] = seq (lputl 0) (put_words n [])"
| "put_words (Suc n) (w # ws) = seq (lputl w) (put_words n ws)"

definition asmout :: "prog \<Rightarrow> optab \<Rightarrow> (lnk, unit) eff" where
  "asmout p ot =
     bind (asm_words p ot) (\<lambda>ws.
     onlyif (o_size ot \<in> {4, 8, 12, 16, 20, 24}) (put_words (o_size ot div 4) ws))"

section \<open>Concrete programs\<close>

text \<open>A linker without symbols, rules and instructions to apply theorems to.\<close>

definition reg_adr :: "nat \<Rightarrow> adr" where
  "reg_adr r = \<lparr>a_type = D_REG, a_offset = 0, a_ieee = (0, 0), a_reg = r, a_symkind = N_NONE, a_sym = None, a_class = 0\<rparr>"

definition demo_lnk :: lnk where
  "demo_lnk = \<lparr>instoffset = 0, autosize = 0, INITDAT = 0x2000, dlm = False, vfp = False, debugA = False,
     syms = (\<lambda>_. \<lparr>s_value = 0, s_type = SNONE\<rparr>), rels = [], obuf = [], errs = []\<rparr>"

definition demo_op :: "nat \<Rightarrow> nat \<Rightarrow> optab" where
  "demo_op t n = \<lparr>o_as = 0, o_a1 = C_NONE, o_a2 = C_NONE, o_a3 = C_NONE, o_type = t, o_size = n, o_param = 0, o_flag = 0\<rparr>"

definition demo_prog :: "nat \<Rightarrow> adr \<Rightarrow> nat \<Rightarrow> adr \<Rightarrow> prog" where
  "demo_prog a f r t = \<lparr>p_as = a, p_from = f, p_to = t, p_reg = r, p_scond = 14, p_pc = 0x1000, p_cond = NoTarget, p_optab = 0\<rparr>"

lemmas demo_defs = demo_prog_def demo_op_def reg_adr_def demo_lnk_def

definition mem_adr :: "nat \<Rightarrow> u64 \<Rightarrow> adr" where
  "mem_adr r v = (reg_adr r)\<lparr>a_type := D_OREG, a_offset := v\<rparr>"

lemma mem_adr_sel:
  "a_type (mem_adr r v) = D_OREG" "a_symkind (mem_adr r v) = N_NONE" "a_reg (mem_adr r v) = r" "a_offset (mem_adr r v) = v"
  by (simp_all add: mem_adr_def reg_adr_def)

end
