(* ===== verification/Link5_Exec.thy ===== *)
theory Link5_Exec
  imports Arm_Run Link5_Asm
begin

text \<open>
  The linker against the machine: what the emulator of \<open>Arm_Run\<close> does when it reaches, in its
  memory, the words that the code generator of \<open>Link5_Asm\<close> has written.
\<close>

section \<open>Fields of instruction words\<close>

lemma bit_sh: "bit (sh x k) n \<longleftrightarrow> k \<le> n \<and> n < 32 \<and> bit x (n - k)"
  by (auto simp: sh_def bit_simps)

lemma bit_small: "x < 16 \<Longrightarrow> 4 \<le> n \<Longrightarrow> \<not> bit (x :: nat) n"
  using bit_take_bit_iff [of 4 x n] by (auto simp: take_bit_nat_eq_self)

lemma fieldI:
  fixes w :: u32
  assumes "x < 2 ^ n" and "\<And>j. j < n \<Longrightarrow> bit w (k + j) = bit x j"
  shows "unat (drop_bit k w AND mask n) = x"
proof (rule bit_eqI)
  fix j
  have "bit x j \<Longrightarrow> j < n" using assms(1) bit_take_bit_iff [of n x j] by (simp add: take_bit_nat_eq_self)
  then show "bit (unat (drop_bit k w AND mask n)) j = bit x j"
    using assms(2) [of j] bit_imp_le_length [of w "k + j"] by (auto simp: bit_unsigned_iff bit_simps)
qed

lemma fldI:
  assumes "x < 16" and "bit w k = bit x 0" and "bit w (k + 1) = bit x 1"
    and "bit w (k + 2) = bit x 2" and "bit w (k + 3) = bit x 3"
  shows "fld k w = x"
proof -
  have "(0xf :: u32) = mask 4" by (simp add: mask_eq_exp_minus_1)
  moreover have "bit w (k + j) = bit x j" if "j < 4" for j
    using that assms(2-) by (auto simp: less_Suc_eq numeral_eq_Suc)
  ultimately show ?thesis using fieldI [of x 4 w k] assms(1) by (simp add: fld_def)
qed

section \<open>One step of the machine\<close>

text \<open>
  \<open>same_machine\<close>: the registers, the conditions and the contents of memory agree; what else the
  emulator keeps (its TLB, pages brought in, counters) may differ. \<open>ready\<close> machines have a
  well-formed memory, no breakpoints and an aligned program counter.
\<close>

definition same_machine :: "host \<Rightarrow> arm \<Rightarrow> arm \<Rightarrow> bool" where
  "same_machine h s u \<longleftrightarrow> regs u = regs s \<and> mview h u = mview h s \<and> wf_mem u \<and> bplist u = [] \<and>
     membpt u = membpt s \<and> cbit u = cbit s \<and> compare_op u = compare_op s \<and> cc1 u = cc1 s \<and> cc2 u = cc2 s"

definition ready :: "arm \<Rightarrow> bool" where
  "ready s \<longleftrightarrow> wf_mem s \<and> bplist s = [] \<and> membpt s = 0 \<and> regs s 15 AND 3 = 0"

lemma fetch_ok:
  assumes "wf_mem s" and "a AND 3 = 0" and "mword h s a = Some w"
  shows "\<exists>t. ifetch h a s = (Inr w, t) \<and> transparent h s t \<and> counts s t"
proof -
  define s1 where "s1 = (if a \<ge> textbase s \<and> a < send (seg s ! 0) then
      (let k = unat (a - textbase s) div PROFGRAN in s\<lparr>iprof := (iprof s)[k := iprof s ! k + 1]\<rparr>) else s)"
  have s1: "transparent h s s1" "wf_mem s1"
    using assms(1) transparent_cong [of s1 s h] transparentD(1) [of h s s1]
    by (auto simp: s1_def Let_def cpu_def)
  have mv: "mview h s1 = mview h s" using transparentD(2) [OF s1(1) assms(1)] .
  obtain r t where f: "ifetch h a s = (r, t)" by (cases "ifetch h a s")
  have tc: "transparent h s t" "counts s t"
    using keepsD [OF ifetch_transparent f] keepsD [OF ifetch_counts f] .
  have e: "ifetch h a s = bind (page_of_vaddr h a) (\<lambda>va. rd_word va (pg_off a)) s1"
    using assms(2) by (simp add: ifetch_def seq_def s1_def)
  obtain b where b: "mview h s a = Some b" using assms(3) by (auto simp: mword_def split: option.splits)
  from s1(2) have "r = Inr w"
  proof (cases rule: page_of_vaddr_cases [where h = h and a = a])
    case (ok i off t' pg)
    have m: "mview h t' = mview h s" using transparentD(2) [OF ok(4) s1(2)] mv by simp
    note pb = page_byte(1) [OF ok(9) ok(6), of pg _ h, unfolded m]
    have "pg_off a + 3 < BY2PG" using aligned4_room [OF assms(2)] .
    then have "mview h s (a + of_nat j) = Some (pg ! (pg_off a + j))" if "j < 4" for j
      using pb [of j] ok(2,7) that by simp
    from this [of 0] this [of 1] this [of 2] this [of 3]
    have "mword h s a = Some (word_le (pg ! pg_off a) (pg ! (pg_off a + 1)) (pg ! (pg_off a + 2)) (pg ! (pg_off a + 3)))"
      by (simp add: mword_def)
    then show ?thesis using e f ok(3,7) assms(3)
      by (simp add: bind_def rd_word_def rd_va_def page_bytes_def)
  qed (use b mv in simp_all)
  with f tc show ?thesis by simp
qed

lemma seg_view: "seg t = seg s \<Longrightarrow> mview h t = mview h s" "seg t = seg s \<Longrightarrow> wf_mem t = wf_mem s"
  by (rule ext) (simp_all only: mview_def wf_mem_def)

text \<open>Fetching \<open>w\<close> and deciding its condition; \<open>u\<close> is the machine on which the handler runs.\<close>

lemma run_step_word:
  assumes "ready s" and "mword h s (ucast (regs s 15)) = Some w"
  obtains u where "same_machine h s u" and "instr_cond u = fld 28 w" and "instr u = w"
    and "fst (run_cond u) = Inr True \<Longrightarrow>
      \<exists>u'. same_machine h s u' \<and>
        (\<forall>t. itab h sys (arm_class w) w u' = (Inr (), t) \<and> bplist t = [] \<longrightarrow>
           run_step h sys s = (Inr (), setr 15 (regs t 15 + 4) t))"
    and "fst (run_cond u) = Inr False \<Longrightarrow> run_step h sys s = (Inr (), setr 15 (regs u 15 + 4) u)"
proof -
  define a where "a = (ucast (regs s 15) :: u64)"
  define s0 where "s0 = s\<lparr>ar := a\<rparr>"
  have m0: "mview h s0 = mview h s" "wf_mem s0 = wf_mem s"
    by (rule seg_view, simp add: s0_def)+
  have "mword h s0 a = Some w" using assms(2) m0(1) by (simp add: mword_def a_def)
  moreover have "wf_mem s0" "a AND 3 = 0"
    using assms(1) m0(2) by (simp_all add: ready_def a_def ucast_aligned)
  ultimately obtain t where t: "ifetch h a s0 = (Inr w, t)" "transparent h s0 t" "counts s0 t"
    using fetch_ok [of s0 a h w] by blast
  define u where "u = t\<lparr>instr := w, instr_opcode := arm_class w, instr_cond := fld 28 w\<rparr>"
  define u' where "u' = u\<lparr>icount := (icount u)(arm_class w := icount u (arm_class w) + 1)\<rparr>"
  have c: "cpu t = cpu s0" "wf_mem t" "mview h t = mview h s" "bplist t = []"
    using transparentD [OF t(2)] m0 assms(1) t(3) by (auto simp: ready_def counts_def s0_def)
  have mv: "mview h u = mview h t" "wf_mem u = wf_mem t" "mview h u' = mview h t" "wf_mem u' = wf_mem t"
    by (rule seg_view, simp add: u_def u'_def)+
  have sm: "same_machine h s u" "same_machine h s u'"
    using c mv by (simp_all add: same_machine_def cpu_def s0_def) (simp_all add: u_def u'_def)
  have rc: "snd (run_cond x) = x" for x
    by (simp add: run_cond_def runcmp_def runteq_def runtst_def undef_def Let_def split: compare_op.split)
  have st: "run_step h sys s = (bind run_cond (\<lambda>execute.
     seq (onlyif execute
            (seq (modify (\<lambda>s. s\<lparr>icount := (icount s)(arm_class w := icount s (arm_class w) + 1)\<rparr>))
                 (itab h sys (arm_class w) w)))
    (seq (modify (\<lambda>s. setr REGPC (regs s REGPC + 4) s))
         (bind (gets id) (\<lambda>s.
            onlyif (bplist s \<noteq> []) (brkchk h (ucast (regs s REGPC)) BInstruction)))))) u"
    using t(1) by (simp add: run_step_def seq_def bind_def a_def s0_def u_def)
  have setr_bp: "bplist (setr i v x) = bplist x" for i v x by (simp add: setr_def)
  show thesis
  proof (rule that [of u])
    assume "fst (run_cond u) = Inr False"
    then have "run_cond u = (Inr False, u)" using rc [of u] by (cases "run_cond u") simp
    then show "run_step h sys s = (Inr (), setr 15 (regs u 15 + 4) u)"
      using st sm(1) by (simp add: bind_def seq_def setr_bp same_machine_def)
  next
    assume "fst (run_cond u) = Inr True"
    then have "run_cond u = (Inr True, u)" using rc [of u] by (cases "run_cond u") simp
    then show "\<exists>u'. same_machine h s u' \<and>
        (\<forall>t. itab h sys (arm_class w) w u' = (Inr (), t) \<and> bplist t = [] \<longrightarrow>
           run_step h sys s = (Inr (), setr 15 (regs t 15 + 4) t))"
      using st sm(2) by (intro exI [of _ u']) (simp add: bind_def seq_def setr_bp u'_def)
  qed (use sm in \<open>simp_all add: u_def\<close>)
qed

section \<open>Decoding by bits\<close>

lemma clsI:
  fixes w :: u32
  assumes "x < 8" and "bit w 25 = bit x 0" and "bit w 26 = bit x 1" and "bit w 27 = bit x 2"
  shows "unat (drop_bit 25 w AND 7) = x"
proof -
  have "(7 :: u32) = mask 3" by (simp add: mask_eq_exp_minus_1)
  moreover have "bit w (25 + j) = bit x j" if "j < 3" for j
    using that assms(2-) by (auto simp: less_Suc_eq numeral_eq_Suc)
  ultimately show ?thesis using fieldI [of x 3 w 25] assms(1) by simp
qed

lemma unat_and_bit: "unat (drop_bit k w AND 1) = of_bool (bit w k)" for w :: u32
  by (cases "odd (drop_bit k w)") (simp_all only: and_one_eq mod_2_eq_odd bit_iff_odd_drop_bit, simp_all)

lemma bit_9: "bit (9 :: u32) 0" "bit (9 :: u32) 3" by simp_all

lemma not_bit4:
  assumes "\<not> bit w 4 \<or> \<not> bit w 7" shows "drop_bit 4 w AND 0xf \<noteq> (9 :: u32)" "(drop_bit 4 w AND 0xf) AND 9 \<noteq> (9 :: u32)"
proof -
  have "\<not> bit (drop_bit 4 w AND 0xf) 0 \<or> \<not> bit (drop_bit 4 w AND 0xf) 3"
    "\<not> bit ((drop_bit 4 w AND 0xf) AND 9) 0 \<or> \<not> bit ((drop_bit 4 w AND 0xf) AND 9) 3"
    using assms by (auto simp: bit_and_iff bit_drop_bit_eq)
  then show "drop_bit 4 w AND 0xf \<noteq> (9 :: u32)" "(drop_bit 4 w AND 0xf) AND 9 \<noteq> (9 :: u32)"
    using bit_9 by metis+
qed

lemma shift_field: "w AND push_bit 7 31 \<noteq> 0 \<longleftrightarrow> bit w 7 \<or> bit w 8 \<or> bit w 9 \<or> bit w 10 \<or> bit w 11" for w :: u32
proof -
  have "push_bit 7 (31 :: u32) = 2 ^ 7 OR 2 ^ 8 OR 2 ^ 9 OR 2 ^ 10 OR 2 ^ 11" by simp
  then have "w AND push_bit 7 31 = 0 \<longleftrightarrow> (w AND 2 ^ 7 = 0 \<and> w AND 2 ^ 8 = 0 \<and> w AND 2 ^ 9 = 0 \<and> w AND 2 ^ 10 = 0 \<and> w AND 2 ^ 11 = 0)"
    by (simp only: bit.conj_disj_distrib or_eq_0_iff)
  then show ?thesis by (simp only: and_exp_eq_0_iff_not_bit) blast
qed

lemma class_register:
  assumes "\<not> bit w 25" "\<not> bit w 26" "\<not> bit w 27" "\<not> bit w 4"
  shows "arm_class w = (if bit w 5 \<or> bit w 7 \<or> bit w 8 \<or> bit w 9 \<or> bit w 10 \<or> bit w 11 then 16 else 0) + fld 21 w"
proof -
  have "unat (drop_bit 25 w AND 7) = 0" by (rule clsI) (use assms in simp_all)
  then show ?thesis using not_bit4 [of w] assms(4) shift_field [of w] unfolding arm_class_def Let_def by auto
qed

lemma class_shift_register:
  assumes "\<not> bit w 25" "\<not> bit w 26" "\<not> bit w 27" "bit w 4" "\<not> bit w 7"
  shows "arm_class w = 32 + fld 21 w"
proof -
  have "unat (drop_bit 25 w AND 7) = 0" by (rule clsI) (use assms in simp_all)
  then show ?thesis using not_bit4 [of w] assms(4,5) unfolding arm_class_def Let_def by auto
qed

lemma class_immediate: "bit w 25 \<Longrightarrow> \<not> bit w 26 \<Longrightarrow> \<not> bit w 27 \<Longrightarrow> arm_class w = 48 + fld 21 w"
  using clsI [of 1 w] by (simp add: bit_0 arm_class_def Let_def)

lemma class_transfer:
  assumes "bit w 26" "\<not> bit w 27"
  shows "arm_class w \<in> {70 ..< 78}"
proof -
  have "unat (drop_bit 25 w AND 7) = (if bit w 25 then 3 else 2)"
    by (rule clsI) (use assms in \<open>simp_all add: bit_0\<close>)
  moreover have "unat (drop_bit 19 w AND 2) \<le> 2" using unat_and_le [of "drop_bit 19 w" 2] by simp
  ultimately show ?thesis by (auto simp: arm_class_def Let_def unat_and_bit)
qed

lemma class_branch: "bit w 25 \<Longrightarrow> \<not> bit w 26 \<Longrightarrow> bit w 27 \<Longrightarrow> arm_class w = 86 + of_bool (bit w 24)"
  using clsI [of 5 w] by (simp add: bit_0 arm_class_def Let_def unat_and_bit)

lemma class_block: "\<not> bit w 25 \<Longrightarrow> \<not> bit w 26 \<Longrightarrow> bit w 27 \<Longrightarrow> arm_class w = 84 + of_bool (bit w 20)"
  using clsI [of 4 w] by (simp add: bit_0 arm_class_def Let_def unat_and_bit)

lemma itab_class:
  "k < 16 \<Longrightarrow> itab h sys k w = Idp0 w" "k < 16 \<Longrightarrow> itab h sys (16 + k) w = Idp1 w"
  "k < 16 \<Longrightarrow> itab h sys (32 + k) w = Idp2 w" "k < 16 \<Longrightarrow> itab h sys (48 + k) w = Idp3 w"
  "c \<in> {70 ..< 78} \<Longrightarrow> itab h sys c w = Imem1 h w"
  "itab h sys (84 + of_bool b) w = Ilsm h w"
  "itab h sys (86 + of_bool b) w = (if b then Ibl w else Ib w)"
  by (simp_all add: itab_def)

section \<open>The bytes of the output\<close>

definition le_bytes :: "u32 \<Rightarrow> u8 list" where
  "le_bytes w = [ucast w, ucast (drop_bit 8 w), ucast (drop_bit 16 w), ucast (drop_bit 24 w)]"

lemma le_bytes_length [simp]: "length (le_bytes w) = 4"
  by (simp add: le_bytes_def)

text \<open>\<open>holds h s a bs\<close>: the machine's memory has the bytes \<open>bs\<close> from address \<open>a\<close> on.\<close>

definition holds :: "host \<Rightarrow> arm \<Rightarrow> u64 \<Rightarrow> u8 list \<Rightarrow> bool" where
  "holds h s a bs \<longleftrightarrow> (\<forall>i < length bs. mview h s (a + of_nat i) = Some (bs ! i))"

lemma holds_append: "holds h s a (bs @ cs) \<longleftrightarrow> holds h s a bs \<and> holds h s (a + of_nat (length bs)) cs"
proof
  assume a: "holds h s a (bs @ cs)"
  have "mview h s (a + of_nat i) = Some (bs ! i)" if "i < length bs" for i
    using a [unfolded holds_def, rule_format, of i] that by (simp only: nth_append length_append if_True trans_less_add1)
  moreover have "mview h s (a + of_nat (length bs) + of_nat i) = Some (cs ! i)" if "i < length cs" for i
    using a [unfolded holds_def, rule_format, of "length bs + i"] that
    by (simp only: nth_append_length_plus length_append nat_add_left_cancel_less of_nat_add add.assoc)
  ultimately show "holds h s a bs \<and> holds h s (a + of_nat (length bs)) cs" unfolding holds_def by blast
next
  assume a: "holds h s a bs \<and> holds h s (a + of_nat (length bs)) cs"
  have "mview h s (a + of_nat i) = Some ((bs @ cs) ! i)" if i: "i < length (bs @ cs)" for i
  proof (cases "i < length bs")
    case True
    then show ?thesis using a [unfolded holds_def] by (simp only: nth_append if_True)
  next
    case False
    then have j: "i = length bs + (i - length bs)" "i - length bs < length cs" using i by simp_all
    have "mview h s (a + of_nat (length bs) + of_nat (i - length bs)) = Some (cs ! (i - length bs))"
      using a j(2) unfolding holds_def by blast
    then show ?thesis by (subst j(1), subst (2) j(1)) (simp only: nth_append_length_plus of_nat_add add.assoc)
  qed
  then show "holds h s a (bs @ cs)" unfolding holds_def by blast
qed

lemma le_word: "word_le (ucast w) (ucast (drop_bit 8 w)) (ucast (drop_bit 16 w)) (ucast (drop_bit 24 w)) = w" for w :: u32
proof -
  have "(ucast (drop_bit k (ucast w :: u64)) :: u8) = ucast (drop_bit k w)" for k
    by (rule bit_word_eqI) (auto simp: bit_simps dest: bit_imp_le_length)
  from this [of 0] this [of 8] this [of 16] this [of 24] show ?thesis
    using word_le_bytes [of "ucast w"] by (simp add: ucast_64_32)
qed

lemma holds_word: "holds h s a (le_bytes w) \<Longrightarrow> mword h s a = Some w"
proof -
  assume a: "holds h s a (le_bytes w)"
  have "mview h s (a + of_nat i) = Some (le_bytes w ! i)" if "i < 4" for i
    using a that by (simp add: holds_def le_bytes_def)
  from this [of 0] this [of 1] this [of 2] this [of 3] show ?thesis
    by (simp add: mword_def le_bytes_def le_word)
qed

lemma lputl_bytes: "lputl w l = (Inr (), l\<lparr>obuf := obuf l @ le_bytes w\<rparr>)"
  by (simp add: lputl_def le_bytes_def)

lemma put_words_bytes: "put_words (length ws) ws l = (Inr (), l\<lparr>obuf := obuf l @ concat (map le_bytes ws)\<rparr>)"
  by (induction ws arbitrary: l) (simp_all add: seq_def bind_Inr [OF lputl_bytes])

lemma asmout_words:
  assumes "asm_words p ot l = (Inr ws, l')" and "o_size ot = 4 * length ws" and "ws \<noteq> []" and "length ws \<le> 6"
  shows "asmout p ot l = (Inr (), l'\<lparr>obuf := obuf l' @ concat (map le_bytes ws)\<rparr>)"
proof -
  have "length ws \<in> {1, 2, 3, 4, 5, 6}" using assms(3,4) by (cases "length ws") auto
  then have "o_size ot \<in> {4, 8, 12, 16, 20, 24}" using assms(2) by auto
  then show ?thesis using assms(1,2) put_words_bytes [of ws l'] by (simp add: asmout_def bind_def)
qed

section \<open>Instructions that change registers only\<close>

definition reg_effect :: "(nat \<Rightarrow> u32) \<Rightarrow> arm \<Rightarrow> arm \<Rightarrow> bool" where
  "reg_effect R u t \<longleftrightarrow> regs t = R \<and> seg t = seg u \<and> bplist t = bplist u \<and> membpt t = membpt u"

lemma aligned_next: "x AND 3 = 0 \<Longrightarrow> (x + 4) AND 3 = 0" for x :: u32
proof -
  have m: "(3 :: u32) = mask 2" by (simp add: mask_eq_exp_minus_1)
  have t: "x AND 3 = 0 \<longleftrightarrow> unat x mod 4 = 0" for x :: u32
    by (simp only: m and.commute [of x] flip: take_bit_eq_mask)
      (simp add: take_bit_eq_mod word_unat_eq_iff unat_mod_distrib)
  show "x AND 3 = 0 \<Longrightarrow> ?thesis"
    unfolding t by (simp add: unat_word_ariths mod_mod_cancel mod_add_left_eq [symmetric, of "unat x"])
qed

lemma always: "instr_cond u = 14 \<Longrightarrow> fst (run_cond u) = Inr True"
  by (simp add: run_cond_def runcmp_def runteq_def runtst_def Let_def split: compare_op.split)

lemma step_handler:
  assumes "ready s" and "mword h s (ucast (regs s 15)) = Some w" and "fld 28 w = 14"
    and "\<And>u. same_machine h s u \<Longrightarrow> \<exists>t. itab h sys (arm_class w) w u = (Inr (), t) \<and> bplist t = [] \<and> Q u t"
  shows "\<exists>u t. same_machine h s u \<and> Q u t \<and> run_step h sys s = (Inr (), setr 15 (regs t 15 + 4) t)"
proof -
  obtain u where u: "same_machine h s u" "instr_cond u = fld 28 w"
    "fst (run_cond u) = Inr True \<Longrightarrow>
      \<exists>u'. same_machine h s u' \<and>
        (\<forall>t. itab h sys (arm_class w) w u' = (Inr (), t) \<and> bplist t = [] \<longrightarrow>
           run_step h sys s = (Inr (), setr 15 (regs t 15 + 4) t))"
    using run_step_word [OF assms(1,2), of sys] by metis
  from u(3) always [of u] u(2) assms(3) obtain u' where u': "same_machine h s u'"
    "\<forall>t. itab h sys (arm_class w) w u' = (Inr (), t) \<and> bplist t = [] \<longrightarrow>
           run_step h sys s = (Inr (), setr 15 (regs t 15 + 4) t)" by auto
  from assms(4) [OF u'(1)] u' show ?thesis by blast
qed

lemma step_machine:
  assumes "ready s" and "mword h s (ucast (regs s 15)) = Some w" and "fld 28 w = 14"
    and "\<And>u. same_machine h s u \<Longrightarrow> \<exists>t. itab h sys (arm_class w) w u = (Inr (), t) \<and>
      wf_mem t \<and> regs t = R \<and> mview h t = M \<and> membpt t = 0 \<and> bplist t = []"
    and "R 15 AND 3 = 0"
  shows "\<exists>t. run_step h sys s = (Inr (), t) \<and> regs t = R(15 := R 15 + 4) \<and> mview h t = M \<and> ready t"
proof -
  let ?Q = "\<lambda>u t. wf_mem t \<and> regs t = R \<and> mview h t = M \<and> membpt t = 0 \<and> bplist t = []"
  have "\<exists>t. itab h sys (arm_class w) w u = (Inr (), t) \<and> bplist t = [] \<and> ?Q u t" if "same_machine h s u" for u
    using assms(4) [OF that] by auto
  from step_handler [OF assms(1-3), where Q = ?Q, OF this]
  obtain u t where t: "?Q u t" "run_step h sys s = (Inr (), setr 15 (regs t 15 + 4) t)" by blast
  have "bplist (setr 15 x t) = bplist t" for x by (simp add: setr_def)
  then show ?thesis using t aligned_next [OF assms(5)] by (intro exI [of _ "setr 15 (regs t 15 + 4) t"]) (simp add: ready_def)
qed

lemma step_regs:
  assumes "ready s" and "mword h s (ucast (regs s 15)) = Some w" and "fld 28 w = 14"
    and "\<And>u. same_machine h s u \<Longrightarrow> \<exists>t. itab h sys (arm_class w) w u = (Inr (), t) \<and> reg_effect R u t"
    and "R 15 AND 3 = 0"
  shows "\<exists>t. run_step h sys s = (Inr (), t) \<and> regs t = R(15 := R 15 + 4) \<and> mview h t = mview h s \<and> ready t"
proof (rule step_machine [where R = R, OF assms(1-3) _ assms(5)])
  fix u assume u: "same_machine h s u"
  then obtain t where t: "itab h sys (arm_class w) w u = (Inr (), t)" "reg_effect R u t" using assms(4) by blast
  have "mview h t = mview h u" "wf_mem t = wf_mem u"
    using seg_view [of t u] t(2) by (simp_all add: reg_effect_def)
  then show "\<exists>t. itab h sys (arm_class w) w u = (Inr (), t) \<and>
      wf_mem t \<and> regs t = R \<and> mview h t = mview h s \<and> membpt t = 0 \<and> bplist t = []"
    using t u assms(1) by (simp add: reg_effect_def same_machine_def ready_def)
qed

text \<open>
  What the data-processing opcodes mean: \<open>alu a x y\<close> is the result of opcode \<open>a\<close> on the first
  operand \<open>x\<close> and the middle operand \<open>y\<close>.
\<close>

definition alu :: "nat \<Rightarrow> u32 \<Rightarrow> u32 \<Rightarrow> u32 option" where
  "alu a x y = map_of
     [(AAND, y AND x), (AEOR, y XOR x), (ASUB, y - x), (ARSB, x - y), (AADD, y + x),
      (AORR, y OR x), (AMOVW, x), (ABIC, y AND NOT x), (AMVN, NOT x)] a"

definition dp_code :: "nat \<Rightarrow> nat" where
  "dp_code a = the (map_of
     [(AAND, 0x0), (AEOR, 0x1), (ASUB, 0x2), (ARSB, 0x3), (AADD, 0x4),
      (AORR, 0xc), (AMOVW, 0xd), (ABIC, 0xe), (AMVN, 0xf)] a)"

lemma alu_cases:
  assumes "alu a x y = Some v"
  shows "dp_code a < 16 \<and> map_of rrr_bits a = Some (sh (dp_code a) 21)"
  using assms by (auto simp: alu_def dp_code_def rrr_bits_def split: if_splits)

lemma dpex_alu:
  assumes "alu a x y = Some v" and "fld 21 w = dp_code a" and "\<not> bit w 20"
  shows "dpex w y x rd u = (Inr (), setr rd v u)"
  using assms by (auto simp: alu_def dp_code_def dpex_def Let_def seq_def split: if_splits)

lemma oprrr_plain:
  assumes "map_of rrr_bits a = Some b"
  shows "oprrr a 14 l = (Inr (sh 14 28 OR b), l)" "oprrr a 0x1e l = (Inr (sh 14 28 OR sh 1 20 OR b), l)"
  using assms by (simp_all add: oprrr_def Let_def seq_def cond_bits_def set_if_def sh_def flip: or.assoc)

section \<open>Register and immediate operations\<close>

lemma len64: "LENGTH(64) = 64" by simp

lemma high_bits: "v AND NOT 0xff \<noteq> 0 \<longleftrightarrow> (\<exists>n\<ge>8. n < LENGTH('a) \<and> bit v n)" for v :: "'a::len word"
proof -
  have "(0xff :: 'a word) = mask 8" by (simp add: mask_eq_exp_minus_1)
  then have "bit (v AND NOT 0xff) n \<longleftrightarrow> n < LENGTH('a) \<and> bit v n \<and> n \<ge> 8" for n
    by (simp only: bit_and_iff bit_not_iff bit_mask_iff) auto
  then show ?thesis unfolding word_eq_0_iff_bits by auto
qed

lemma immrot_loop_64: "v AND NOT 0xff \<noteq> (0 :: u64) \<Longrightarrow> immrot_loop k v = 0"
proof (induction k arbitrary: v)
  case (Suc k)
  obtain n where n: "n \<ge> 8" "n < 64" "bit v n" using Suc.prems [unfolded high_bits] by auto
  let ?v = "push_bit 2 v OR drop_bit 30 v"
  have "\<exists>m\<ge>8. m < 64 \<and> bit ?v m"
  proof (cases "n + 2 < 64")
    case True
    then show ?thesis using n by (intro exI [of _ "n + 2"]) (simp add: bit_simps)
  next
    case False
    then show ?thesis using n by (intro exI [of _ "n - 30"]) (auto simp: bit_simps)
  qed
  then have "immrot_loop k ?v = 0" by (intro Suc.IH) (simp only: high_bits len64)
  then show ?case using Suc.prems by (simp only: immrot_loop.simps if_False)
qed simp

lemma immrot_64: "immrot (v :: u64) = (if v AND NOT 0xff = 0 then push_bit 25 1 OR ucast v else 0)"
proof (cases "v AND NOT 0xff = 0")
  case True
  then show ?thesis by (simp only: immrot_def numeral_eq_Suc immrot_loop.simps if_True) simp
next
  case False
  then show ?thesis using immrot_loop_64 [OF False, of 16] by (simp only: immrot_def if_False)
qed

lemma fld0I: "x < 16 \<Longrightarrow> bit w 0 = bit x 0 \<Longrightarrow> bit w 1 = bit x 1 \<Longrightarrow> bit w 2 = bit x 2 \<Longrightarrow> bit w 3 = bit x 3 \<Longrightarrow> fld 0 w = x"
  by (rule fldI) (simp_all add: numeral_2_eq_2 numeral_3_eq_3)

lemma dp_word_fields:
  fixes k r d m :: nat
  assumes "k < 16" "r < 16" "d < 16" "m < 16"
  defines "w \<equiv> sh 14 28 OR sh k 21 OR sh r 16 OR sh d 12 OR sh m 0"
  shows "fld 28 w = 14" "fld 21 w = k" "fld 16 w = r" "fld 12 w = d" "fld 0 w = m" "\<not> bit w 20"
    "arm_class w = k"
proof -
  show f: "fld 28 w = 14" "fld 21 w = k" "fld 16 w = r" "fld 12 w = d"
    unfolding w_def by (rule fldI; simp add: assms bit_or_iff bit_sh bit_small)+
  show "fld 0 w = m" unfolding w_def by (rule fld0I; simp add: assms bit_or_iff bit_sh bit_small)
  show "\<not> bit w 20" by (simp add: w_def assms bit_or_iff bit_sh bit_small)
  have "\<not> bit w 25" "\<not> bit w 26" "\<not> bit w 27" "\<not> bit w 4" "\<not> bit w 5" "\<not> bit w 7" "\<not> bit w 8" "\<not> bit w 9" "\<not> bit w 10" "\<not> bit w 11"
    by (simp_all add: w_def assms bit_or_iff bit_sh bit_small)
  then show "arm_class w = k" using class_register [of w] f(2) by simp
qed

lemma bit_byte: "bit (ucast (b :: u8) :: u32) n \<longleftrightarrow> n < 8 \<and> bit b n"
  by (auto simp: bit_simps dest: bit_imp_le_length)

lemma imm_word_fields:
  fixes k r d :: nat and b :: u8
  assumes "k < 16" "r < 16" "d < 16"
  defines "w \<equiv> sh 14 28 OR sh k 21 OR sh 1 25 OR ucast b OR sh r 16 OR sh d 12"
  shows "fld 28 w = 14" "fld 21 w = k" "fld 16 w = r" "fld 12 w = d" "fld 8 w = 0" "\<not> bit w 20"
    "arm_class w = 48 + k" "w AND 0xff = ucast b"
proof -
  show f: "fld 28 w = 14" "fld 21 w = k" "fld 16 w = r" "fld 12 w = d" "fld 8 w = 0"
    unfolding w_def by (rule fldI; simp add: assms bit_or_iff bit_sh bit_small bit_byte)+
  show "\<not> bit w 20" by (simp add: w_def assms bit_or_iff bit_sh bit_small bit_byte)
  have "bit w 25" "\<not> bit w 26" "\<not> bit w 27"
    by (simp_all add: w_def assms bit_or_iff bit_sh bit_small bit_byte bit_0)
  then show "arm_class w = 48 + k" using class_immediate [of w] f(2) by simp
  have "(ucast w :: u8) = b"
    by (rule bit_word_eqI) (auto simp: w_def assms bit_or_iff bit_sh bit_small bit_byte bit_ucast_iff)
  then show "w AND 0xff = ucast b" by (simp add: and_0xff)
qed

lemma immrot_byte: "immrot (ucast (b :: u8) :: u64) = sh 1 25 OR ucast b"
proof -
  have "\<not> (\<exists>n\<ge>8. n < LENGTH(64) \<and> bit (ucast b :: u64) n)" by (auto simp: bit_ucast_iff dest: bit_imp_le_length)
  then have "(ucast b :: u64) AND NOT 0xff = 0" using high_bits [of "ucast b :: u64"] by blast
  moreover have "(ucast (ucast b :: u64) :: u32) = ucast b"
    by (rule bit_word_eqI) (auto simp: bit_simps dest: bit_imp_le_length)
  ultimately show ?thesis by (simp add: immrot_64 sh_def)
qed

lemma Idp0_alu:
  assumes "alu a (regs s (fld 0 w)) (regs s (fld 16 w)) = Some v" and "fld 21 w = dp_code a" and "\<not> bit w 20"
    and "fld 0 w \<noteq> 15" "fld 16 w \<noteq> 15" "fld 12 w \<noteq> 15" and "same_machine h s u"
  shows "\<exists>t. Idp0 w u = (Inr (), t) \<and> reg_effect ((regs s)(fld 12 w := v)) u t"
  using assms dpex_alu [OF assms(1-3)]
  by (simp add: Idp0_def Let_def operand_def compensate_def same_machine_def reg_effect_def seq_def bind_def setr_def)

lemma Idp3_alu:
  assumes "alu a (w AND 0xff) (regs s (fld 16 w)) = Some v" and "fld 21 w = dp_code a" and "\<not> bit w 20"
    and "fld 8 w = 0" "fld 16 w \<noteq> 15" "fld 12 w \<noteq> 15" and "same_machine h s u"
  shows "\<exists>t. Idp3 w u = (Inr (), t) \<and> reg_effect ((regs s)(fld 12 w := v)) u t"
  using assms dpex_alu [OF assms(1-3)] rot_field [of w]
  by (simp add: Idp3_def Let_def operand_def compensate_def same_machine_def reg_effect_def seq_def bind_def setr_def)

text \<open>The operands of an instruction \<^verbatim>\<open>OP from, [middle,] to\<close> on general registers below the pc.\<close>

definition dp_operands :: "prog \<Rightarrow> bool" where
  "dp_operands p \<longleftrightarrow> p_scond p = 14 \<and> a_type (p_to p) = D_REG \<and> a_reg (p_to p) < 15 \<and>
     (p_reg p < 15 \<or> p_reg p = R_NONE)"

lemma dp_reg_ok: "dp_operands p \<Longrightarrow> dp_reg p (a_reg (p_to p)) < 15"
  by (auto simp: dp_operands_def dp_reg_def reg2_def)

definition const_operand :: "adr \<Rightarrow> bool" where
  "const_operand a \<longleftrightarrow> a_type a = D_CONST \<and> a_reg a = R_NONE"

lemma aclass_const: "const_operand a \<Longrightarrow> \<exists>c. aclass a l = (Inr c, l\<lparr>instoffset := a_offset a\<rparr>)"
  by (simp add: const_operand_def aclass_def set_off_def seq_def Let_def)

text \<open>\<open>runs_to\<close>: where the machine's memory holds \<open>code\<close> at the program counter, one step goes to registers \<open>R\<close>.\<close>

definition runs_to :: "host \<Rightarrow> (arm, unit) eff option list \<Rightarrow> arm \<Rightarrow> u8 list \<Rightarrow> (nat \<Rightarrow> u32) \<Rightarrow> bool" where
  "runs_to h sys s code R \<longleftrightarrow> (holds h s (ucast (regs s 15)) code \<longrightarrow>
     (\<exists>t. run_step h sys s = (Inr (), t) \<and> regs t = R \<and> mview h t = mview h s \<and> ready t))"

lemma runs_to_word:
  assumes "ready s" and "fld 28 w = 14" and "R 15 AND 3 = 0"
    and "\<And>u. same_machine h s u \<Longrightarrow> \<exists>t. itab h sys (arm_class w) w u = (Inr (), t) \<and> reg_effect R u t"
  shows "runs_to h sys s (le_bytes w) (R(15 := R 15 + 4))"
  unfolding runs_to_def using step_regs [OF assms(1) _ assms(2,4,3)] holds_word by blast

lemma alu_middle:
  "alu (p_as p) x (f (dp_reg p rt)) = alu (p_as p) x (f (if p_reg p = R_NONE then rt else p_reg p))"
  by (simp add: alu_def dp_reg_def reg2_def)

lemma asm_1_word:
  assumes "dp_operands p" and "map_of rrr_bits (p_as p) = Some c"
  shows "asm_1 p l = (Inr [sh 14 28 OR c OR sh (dp_reg p (a_reg (p_to p))) 16 OR sh (a_reg (p_to p)) 12
    OR sh (a_reg (p_from p)) 0], l)"
  using assms by (simp add: asm_1_def dp_operands_def oprrr_plain bind_def to_reg_def Let_def or.assoc)

lemma asm_2_word:
  assumes "dp_operands p" and "map_of rrr_bits (p_as p) = Some c"
    and "const_operand (p_from p)" and "a_offset (p_from p) = ucast (b :: u8)"
  shows "asm_2 p l = (Inr [sh 14 28 OR c OR sh 1 25 OR ucast b OR sh (dp_reg p (a_reg (p_to p))) 16
    OR sh (a_reg (p_to p)) 12], l\<lparr>instoffset := ucast b\<rparr>)"
proof -
  obtain k where "aclass (p_from p) l = (Inr k, l\<lparr>instoffset := ucast b\<rparr>)"
    using aclass_const [OF assms(3), of l] assms(4) by auto
  then show ?thesis using assms(1,2)
    by (simp add: asm_2_def dp_operands_def oprrr_plain seq_def bind_def to_reg_def Let_def immrot_byte or.assoc)
qed

lemma dp_run:
  assumes "dp_operands p" and "ready s" and "alu (p_as p) x (regs s (dp_reg p (a_reg (p_to p)))) = Some v"
    and "asm_words p ot l = (Inr [w], l')" and "o_size ot = 4"
    and w: "fld 28 w = 14" "fld 21 w = dp_code (p_as p)" "fld 16 w = dp_reg p (a_reg (p_to p))"
      "fld 12 w = a_reg (p_to p)" "\<not> bit w 20"
    and "arm_class w = dp_code (p_as p) \<and> fld 0 w \<noteq> 15 \<and> x = regs s (fld 0 w) \<or>
      arm_class w = 48 + dp_code (p_as p) \<and> fld 8 w = 0 \<and> x = w AND 0xff"
  shows "asmout p ot l = (Inr (), l'\<lparr>obuf := obuf l' @ le_bytes w\<rparr>) \<and>
    runs_to h sys s (le_bytes w) ((regs s)(a_reg (p_to p) := v, 15 := regs s 15 + 4))"
proof
  show "asmout p ot l = (Inr (), l'\<lparr>obuf := obuf l' @ le_bytes w\<rparr>)"
    using asmout_words [OF assms(4)] assms(5) by simp
  note r = dp_reg_ok [OF assms(1)] alu_cases [OF assms(3)]
  have rt: "a_reg (p_to p) < 15" using assms(1) by (simp add: dp_operands_def)
  let ?R = "(regs s)(a_reg (p_to p) := v)"
  have "\<exists>t. itab h sys (arm_class w) w u = (Inr (), t) \<and> reg_effect ?R u t" if u: "same_machine h s u" for u
    using assms(11)
  proof
    assume a: "arm_class w = dp_code (p_as p) \<and> fld 0 w \<noteq> 15 \<and> x = regs s (fld 0 w)"
    then show ?thesis
      using Idp0_alu [of "p_as p" s w v h u] assms(3) w r rt u itab_class(1) [of "dp_code (p_as p)" h sys w] by auto
  next
    assume a: "arm_class w = 48 + dp_code (p_as p) \<and> fld 8 w = 0 \<and> x = w AND 0xff"
    then show ?thesis
      using Idp3_alu [of "p_as p" w s v h u] assms(3) w r rt u itab_class(4) [of "dp_code (p_as p)" h sys w] by auto
  qed
  moreover have "?R 15 = regs s 15" using rt by simp
  ultimately show "runs_to h sys s (le_bytes w) ((regs s)(a_reg (p_to p) := v, 15 := regs s 15 + 4))"
    using runs_to_word [OF assms(2) w(1), of ?R h sys] assms(2) by (simp only: ready_def)
qed

section \<open>A machine with code in its memory\<close>

text \<open>
  Concrete instances: \<open>code_machine bs r\<close> has the bytes \<open>bs\<close> at address \<open>0x1000\<close>, where its program
  counter stands, and \<open>emitted p ot\<close> is what \<^verbatim>\<open>asmout\<close> writes for \<open>p\<close>, so that the theorems below can
  be applied to programs that really run.
\<close>

definition code_machine :: "u8 list \<Rightarrow> (nat \<Rightarrow> u32) \<Rightarrow> arm" where
  "code_machine bs r = demo\<lparr>regs := r(15 := 0x1000),
     seg := [(new_seg Stack 0x1000 0x2000 0 0)\<lparr>table := [Some (fresh_page (take 64 bs))]\<rparr>]\<rparr>"

lemma code_machine_ready: "ready (code_machine bs r)"
  by (simp add: ready_def code_machine_def demo_def wf_mem_def seg_ok_def new_seg_def BY2PG_def)

lemma code_machine_regs: "regs (code_machine bs r) = r(15 := 0x1000)"
  by (simp add: code_machine_def)

lemma code_machine_cmp: "compare_op (code_machine bs r) = CCcmp"
  by (simp add: code_machine_def demo_def)

lemma code_machine_byte:
  assumes "k < 4096"
  shows "mview demo_host (code_machine bs r) (0x1000 + of_nat k) = Some (fresh_page (take 64 bs) ! k)"
proof -
  have u: "unat (0x1000 + of_nat k :: u64) = 0x1000 + k" using assms
    by (simp add: unat_word_ariths unat_of_nat take_bit_nat_def)
  then have "pg_off (0x1000 + of_nat k) = k" using assms by (simp add: pg_off_mod BY2PG_def)
  moreover have "page_no g (0x1000 + of_nat k) = 0" if "base g = 0x1000" for g
    using assms that by (simp add: page_no_def BY2PG_def unat_of_nat take_bit_nat_def)
  moreover have "(0x1000 :: u64) \<le> 0x1000 + of_nat k" "(0x1000 + of_nat k :: u64) < 0x2000"
    using u assms by (simp_all add: word_le_nat_alt word_less_nat_alt)
  ultimately show ?thesis by (simp add: mview_def code_machine_def new_seg_def seg_byte_def)
qed

lemma code_machine_holds: "length bs \<le> 64 \<Longrightarrow> holds demo_host (code_machine bs r) 0x1000 bs"
  by (simp add: holds_def code_machine_byte fresh_page_def BY2PG_def nth_append)

lemma code_machine_zero:
  assumes "64 \<le> k" and "k < 4096"
  shows "mview demo_host (code_machine bs r) (0x1000 + of_nat k) = Some 0"
  using assms code_machine_byte [OF assms(2)] by (simp add: fresh_page_def BY2PG_def nth_append)

definition emitted :: "prog \<Rightarrow> optab \<Rightarrow> u8 list" where
  "emitted p ot = obuf (snd (asmout p ot demo_lnk))"

lemma emittedI:
  "asmout p ot demo_lnk = (Inr (), l') \<Longrightarrow> obuf l' = obuf demo_lnk @ code \<Longrightarrow> emitted p ot = code"
  by (simp add: emitted_def demo_lnk_def)

lemma code_machine_word:
  assumes "64 \<le> k" and "k + 3 < 4096"
  shows "mword demo_host (code_machine bs r) (0x1000 + of_nat k) = Some 0"
  using assms code_machine_zero [of k bs r] code_machine_zero [of "k + 1" bs r] code_machine_zero [of "k + 2" bs r]
    code_machine_zero [of "k + 3" bs r]
  by (simp add: mword_def word_le_def ac_simps)

lemma code_machine_demo:
  assumes "n + 3 < 0x800"
  shows "mword demo_host (code_machine bs r) (0x1800 + of_nat n) = Some 0"
    and "mview demo_host (code_machine bs r) (0x1800 + of_nat n) = Some 0"
  using code_machine_word [of "0x800 + n" bs r] code_machine_zero [of "0x800 + n" bs r] assms by simp_all

section \<open>Operations on registers\<close>

text \<open>
  The words that \<^verbatim>\<open>asmout\<close> writes for a register operation (rule types 1 and 2: \<^verbatim>\<open>ADD\<close>, \<^verbatim>\<open>SUB\<close>,
  \<^verbatim>\<open>RSB\<close>, \<^verbatim>\<open>AND\<close>, \<^verbatim>\<open>ORR\<close>, \<^verbatim>\<open>EOR\<close>, \<^verbatim>\<open>BIC\<close>, \<^verbatim>\<open>MVN\<close> and \<^verbatim>\<open>MOVW\<close>, the first operand a register or a constant
  of eight bits) make the emulator compute the operation: whenever its memory holds the four bytes at
  the program counter, one step puts the result into the destination register, advances the program
  counter and changes no other register and no byte of memory.
\<close>

theorem operation_code_runs:
  fixes b :: u8
  assumes "dp_operands p" and "ready s" and "o_size ot = 4"
    and "o_type ot = 1 \<and> a_reg (p_from p) < 15 \<and> x = regs s (a_reg (p_from p)) \<or>
      o_type ot = 2 \<and> const_operand (p_from p) \<and> a_offset (p_from p) = ucast b \<and> x = ucast b"
    and "alu (p_as p) x (regs s (if p_reg p = R_NONE then a_reg (p_to p) else p_reg p)) = Some v"
  shows "\<exists>code l'. asmout p ot l = (Inr (), l') \<and> obuf l' = obuf l @ code \<and> errs l' = errs l \<and>
    length code = 4 \<and> runs_to h sys s code ((regs s)(a_reg (p_to p) := v, 15 := regs s 15 + 4))"
proof -
  let ?r = "dp_reg p (a_reg (p_to p))" and ?k = "dp_code (p_as p)"
  have v: "alu (p_as p) x (regs s ?r) = Some v" using assms(5) by (simp only: alu_middle)
  note k = alu_cases [OF v] and r = dp_reg_ok [OF assms(1)]
  have rt: "a_reg (p_to p) < 15" using assms(1) by (simp add: dp_operands_def)
  have len: "length (le_bytes w) = 4" for w by (simp add: le_bytes_def)
  from assms(4) show ?thesis
  proof
    assume t: "o_type ot = 1 \<and> a_reg (p_from p) < 15 \<and> x = regs s (a_reg (p_from p))"
    define w where "w = sh 14 28 OR sh ?k 21 OR sh ?r 16 OR sh (a_reg (p_to p)) 12 OR sh (a_reg (p_from p)) 0"
    have f: "fld 28 w = 14" "fld 21 w = ?k" "fld 16 w = ?r" "fld 12 w = a_reg (p_to p)"
        "fld 0 w = a_reg (p_from p)" "\<not> bit w 20" "arm_class w = ?k"
      unfolding w_def by (rule dp_word_fields; use k r rt t in simp)+
    have "asm_words p ot l = (Inr [w], l)"
      using t k asm_1_word [OF assms(1), of "sh ?k 21"] by (simp add: asm_words_def w_def)
    note d = dp_run [OF assms(1,2) v this assms(3) f(1-4,6), of h sys]
    show ?thesis
      by (intro exI [of _ "le_bytes w"] exI [of _ "l\<lparr>obuf := obuf l @ le_bytes w\<rparr>"])
        (use d f t in \<open>simp add: len\<close>)
  next
    assume t: "o_type ot = 2 \<and> const_operand (p_from p) \<and> a_offset (p_from p) = ucast b \<and> x = ucast b"
    define w where "w = sh 14 28 OR sh ?k 21 OR sh 1 25 OR ucast b OR sh ?r 16 OR sh (a_reg (p_to p)) 12"
    have f: "fld 28 w = 14" "fld 21 w = ?k" "fld 16 w = ?r" "fld 12 w = a_reg (p_to p)"
        "fld 8 w = 0" "\<not> bit w 20" "arm_class w = 48 + ?k" "w AND 0xff = ucast b"
      unfolding w_def by (rule imm_word_fields; use k r rt t in simp)+
    let ?l = "l\<lparr>instoffset := ucast b\<rparr>"
    have "asm_words p ot l = (Inr [w], ?l)"
      using t k asm_2_word [OF assms(1), of "sh ?k 21" b] by (simp add: asm_words_def w_def)
    note d = dp_run [OF assms(1,2) v this assms(3) f(1-4,6), of h sys]
    show ?thesis
      by (intro exI [of _ "le_bytes w"] exI [of _ "?l\<lparr>obuf := obuf ?l @ le_bytes w\<rparr>"])
        (use d f t in \<open>simp add: len\<close>)
  qed
qed

theorem operation_code_runs_witness:
  "\<exists>t. run_step demo_host [] (code_machine (emitted (demo_prog AADD (reg_adr 1) 2 (reg_adr 3)) (demo_op 1 4))
      (\<lambda>i. 10 * of_nat i)) = (Inr (), t) \<and> regs t 3 = 30 \<and> regs t 15 = 0x1004"
proof -
  let ?p = "demo_prog AADD (reg_adr 1) 2 (reg_adr 3)" and ?o = "demo_op 1 4"
  let ?m = "code_machine (emitted ?p ?o) (\<lambda>i. 10 * of_nat i)"
  have "dp_operands ?p" "o_size ?o = 4" "alu (p_as ?p) 10 (regs ?m (if p_reg ?p = R_NONE then a_reg (p_to ?p) else p_reg ?p)) = Some 30"
    "o_type ?o = 1 \<and> a_reg (p_from ?p) < 15 \<and> 10 = regs ?m (a_reg (p_from ?p))"
    by (simp_all add: dp_operands_def demo_defs code_machine_regs alu_def)
  from operation_code_runs [where h = demo_host and sys = "[]" and l = demo_lnk, OF this(1) code_machine_ready this(2) disjI1 [OF this(4)] this(3)]
  obtain code l' where c: "asmout ?p ?o demo_lnk = (Inr (), l')" "obuf l' = obuf demo_lnk @ code" "length code = 4"
    "runs_to demo_host [] ?m code ((regs ?m)(a_reg (p_to ?p) := 30, 15 := regs ?m 15 + 4))" by blast
  from emittedI [OF c(1,2)] c(3,4) code_machine_holds [of code]
  show ?thesis by (auto simp: runs_to_def code_machine_regs demo_defs)
qed

section \<open>Branches\<close>

lemma sint_bits:
  fixes v :: u64
  assumes "- (2 ^ k) \<le> sint v" and "sint v < 2 ^ k" and "k \<le> n" and "n < 64"
  shows "bit v n = bit v k"
proof -
  have t: "signed_take_bit k (sint v) = sint v" using assms(1,2) by (simp add: signed_take_bit_int_eq_self)
  have b: "bit (sint v) m = bit v m" if "m < 64" for m using that by (auto simp: bit_sint_iff)
  have "bit (sint v) n = bit (sint v) (min k n)" using bit_signed_take_bit_iff [of k "sint v" n] by (simp add: t)
  then show ?thesis using b [of n] b [of k] assms(3,4) by (simp add: min_def split: if_splits)
qed

lemma bit_branch_off: "bit (ucast (signed_drop_bit 2 v AND 0xffffff) :: u32) n \<longleftrightarrow> n < 24 \<and> bit (v :: u64) (n + 2)"
proof -
  have "(0xffffff :: u64) = mask 24" by (simp add: mask_eq_exp_minus_1)
  then show ?thesis by (simp only: bit_ucast_iff bit_and_iff bit_mask_iff) (auto simp: bit_sdrop64)
qed

lemma branch_distance:
  fixes v :: u64 and w :: u32
  assumes "v AND 3 = 0" and "- (2 ^ 25) \<le> sint v" and "sint v < 2 ^ 25"
    and w: "\<And>n. n < 24 \<Longrightarrow> bit w n = bit v (n + 2)"
  shows "4 * (scast (ucast w :: 24 word) :: u32) = ucast v"
proof -
  have low: "\<not> bit v n" if "n < 2" for n
  proof -
    have "(3 :: u64) = mask 2" by (simp add: mask_eq_exp_minus_1)
    then have "bit (v AND 3) n = bit v n" using that by (simp only: bit_and_iff bit_mask_iff) auto
    then show ?thesis using assms(1) by simp
  qed
  have "push_bit 2 (scast (ucast w :: 24 word) :: u32) = ucast v"
  proof (rule bit_word_eqI)
    fix n assume n: "n < LENGTH(32)"
    have "\<not> n < 2 \<Longrightarrow> Suc (Suc (n - 2)) = n" by simp
    then show "bit (push_bit 2 (scast (ucast w :: 24 word) :: u32)) n = bit (ucast v :: u32) n"
      using n low [of n] w [of "n - 2"] w [of 23] sint_bits [OF assms(2,3), of n]
      by (cases "n < 2"; cases "n < 26") (auto simp: bit_simps min_def)
  qed
  then show ?thesis by (simp add: push_bit_eq_mult mult.commute)
qed

definition bra_code :: "nat \<Rightarrow> nat \<Rightarrow> nat" where
  "bra_code a sc = (if a = ABL then sc mod 16 else the (map_of
     [(ABEQ, 0x0), (ABNE, 0x1), (ABHS, 0x2), (ABLO, 0x3), (ABMI, 0x4), (ABPL, 0x5), (ABVS, 0x6),
      (ABVC, 0x7), (ABHI, 0x8), (ABLS, 0x9), (ABGE, 0xa), (ABLT, 0xb), (ABGT, 0xc), (ABLE, 0xd),
      (AB, 0xe)] a))"

definition is_branch :: "nat \<Rightarrow> bool" where
  "is_branch a \<longleftrightarrow> AB \<le> a \<and> a \<le> ABL"

lemma is_branch_cases: "is_branch a \<Longrightarrow> a \<in> set [AB, ABEQ, ABNE, ABHS, ABLO, ABMI, ABPL, ABVS, ABVC, ABHI, ABLS, ABGE, ABLT, ABGT, ABLE, ABL]"
  by (simp add: is_branch_def) arith

lemma of_nat_sh: "of_nat k = sh k 0"
  by (simp add: sh_def)

lemma scond_field:
  assumes "k < 16"
  shows "(of_nat k :: u32) AND C_SCOND = of_nat k" "(of_nat k :: u32) AND 0xf0 = 0"
proof -
  have m: "(0xf :: u32) = mask 4" "(0xf0 :: u32) = push_bit 4 (mask 4)" by (simp_all add: mask_eq_exp_minus_1)
  have "bit k n \<Longrightarrow> n < 4" for n using bit_small [OF assms] by (meson not_less)
  then show "(of_nat k :: u32) AND C_SCOND = of_nat k" "(of_nat k :: u32) AND 0xf0 = 0"
    unfolding m of_nat_sh
    by (auto intro!: bit_word_eqI simp: bit_and_iff bit_sh bit_mask_iff bit_push_bit_iff) (meson not_less)
qed

lemma scond_flags: "(x :: u32) AND 0xf0 = 0 \<Longrightarrow> x AND C_SBIT = 0 \<and> x AND C_UBIT = 0 \<and> x AND C_PBIT = 0 \<and> x AND C_WBIT = 0 \<and>
    x AND (C_SBIT OR C_PBIT OR C_WBIT) = 0 \<and> x AND (C_PBIT OR C_WBIT) = 0"
proof -
  assume a: "x AND 0xf0 = 0"
  have "x AND y = (x AND 0xf0) AND y" if "0xf0 AND y = y" for y using that by (simp add: and.assoc)
  then show ?thesis using a by simp
qed

lemma opbra_word:
  assumes "is_branch a" and "k < 16" and "a \<noteq> ABL \<longrightarrow> k = 14"
  shows "opbra a (of_nat k) l = (Inr (sh (bra_code a k) 28 OR sh 5 25 OR set_if (a = ABL) (sh 1 24)), l) \<and> bra_code a k < 16"
proof (cases "a = ABL")
  case True
  note k = scond_field [OF assms(2)] scond_flags [OF scond_field(2) [OF assms(2)]]
  with True assms(2) show ?thesis
    by (simp add: opbra_def bra_code_def seq_def cond_bits_def set_if_def sh_def)
next
  case False
  then have "k = 14" using assms(3) by simp
  with False is_branch_cases [OF assms(1)] show ?thesis
    by (auto simp: opbra_def bra_code_def bra_bits_def seq_def set_if_def)
qed

lemma branch_word_fields:
  fixes k :: nat and b :: bool and v :: u64
  assumes "k < 16"
  defines "w \<equiv> sh k 28 OR sh 5 25 OR set_if b (sh 1 24) OR ucast (signed_drop_bit 2 v AND 0xffffff)"
  shows "fld 28 w = k" "arm_class w = 86 + of_bool b" "\<And>n. n < 24 \<Longrightarrow> bit w n = bit v (n + 2)"
proof -
  have c: "bit (set_if b (sh (Suc 0) 24)) n \<longleftrightarrow> b \<and> n = 24" for n
    using bit_1_iff [of "n - 24", where ?'a = nat] by (auto simp: set_if_def bit_sh)
  note bits = bit_or_iff bit_sh bit_small [OF assms(1)] bit_branch_off c
  show "fld 28 w = k" unfolding w_def by (rule fldI; simp add: assms bits)
  have "bit w 25" "\<not> bit w 26" "bit w 27" "bit w 24 = b" by (simp_all add: w_def bits bit_0)
  then show "arm_class w = 86 + of_bool b" using class_branch [of w] by simp
  show "bit w n = bit v (n + 2)" if "n < 24" for n using that by (simp add: w_def bits)
qed

lemma run_cond_same:
  assumes "same_machine h s u" and "instr_cond u = k" and "decides k s b"
  shows "fst (run_cond u) = Inr b"
  using assms by (auto simp: decides_def same_machine_def run_cond_def runcmp_def runteq_def runtst_def undef_def Let_def
      split: compare_op.splits if_splits)

text \<open>One step at a branch: \<open>b\<close> is what its condition decides, \<open>c\<close> the address it leads to.\<close>

lemma branch_step:
  assumes "ready s" and "mword h s (ucast (regs s 15)) = Some w" and "arm_class w = 86 + of_bool lk"
    and "decides (fld 28 w) s b" and "regs s 15 + 8 + 4 * scast (ucast w :: 24 word) = c" and "c AND 3 = 0"
  shows "\<exists>t. run_step h sys s = (Inr (), t) \<and> mview h t = mview h s \<and> ready t \<and>
    regs t = (if b then (if lk then (regs s)(14 := regs s 15 + 4, 15 := c) else (regs s)(15 := c))
              else (regs s)(15 := regs s 15 + 4))"
proof -
  obtain u where u: "same_machine h s u" "instr_cond u = fld 28 w"
    and tk: "fst (run_cond u) = Inr True \<Longrightarrow>
      \<exists>u'. same_machine h s u' \<and>
        (\<forall>t. itab h sys (arm_class w) w u' = (Inr (), t) \<and> bplist t = [] \<longrightarrow>
           run_step h sys s = (Inr (), setr 15 (regs t 15 + 4) t))"
    and nt: "fst (run_cond u) = Inr False \<Longrightarrow> run_step h sys s = (Inr (), setr 15 (regs u 15 + 4) u)"
    using run_step_word [OF assms(1,2), of sys] by metis
  have rc: "fst (run_cond u) = Inr b" by (rule run_cond_same [OF u assms(4)])
  have pc: "(regs s 15 + 4) AND 3 = 0" using assms(1) aligned_next by (simp add: ready_def)
  have bs: "bplist (setr i x y) = bplist y" for i x y by (simp add: setr_def)
  show ?thesis
  proof (cases b)
    case False
    then show ?thesis using nt rc u(1) assms(1) pc by (auto simp: same_machine_def ready_def bs)
  next
    case True
    then obtain u' where u': "same_machine h s u'"
      "\<forall>t. itab h sys (arm_class w) w u' = (Inr (), t) \<and> bplist t = [] \<longrightarrow>
           run_step h sys s = (Inr (), setr 15 (regs t 15 + 4) t)" using tk rc by auto
    have tg: "ucast (branch_target w u' - 4) = c - 4"
      using branch_target_exact [of w u'] assms(5) u'(1) by (simp add: same_machine_def ucast_down)
    let ?t = "if lk then setr 15 (c - 4) (setr 14 (regs u' 15 + 4) u') else setr 15 (c - 4) u'"
    have "itab h sys (arm_class w) w u' = (Inr (), ?t)"
      unfolding assms(3) itab_class(7) by (simp add: Ib_def Ibl_def seq_def tg)
    moreover have "bplist ?t = []" using u'(1) by (simp add: bs same_machine_def)
    ultimately have "run_step h sys s = (Inr (), setr 15 (regs ?t 15 + 4) ?t)" using u'(2) by blast
    then show ?thesis using True u'(1) assms(1,6) by (cases lk) (auto simp: same_machine_def ready_def bs)
  qed
qed

lemma aligned_uint: "x AND 3 = 0 \<longleftrightarrow> uint x mod 4 = 0" for x :: "'a::len word"
proof -
  have m: "(3 :: 'a word) = mask 2" by (simp add: mask_eq_exp_minus_1)
  have t: "x AND 3 = take_bit 2 x" by (simp only: m and.commute [of x] flip: take_bit_eq_mask)
  have "uint (take_bit 2 x) = uint x mod 4"
    using unsigned_take_bit_eq [of 2 x, where ?'a = int] by (simp only: take_bit_eq_mod [of 2 "uint x"]) simp
  then show ?thesis unfolding t by (metis unsigned_eq_0_iff)
qed

lemma branch_offset:
  fixes c pc :: u32
  defines "v \<equiv> (ucast c - ucast pc - 8 :: u64)"
  assumes "c AND 3 = 0" and "pc AND 3 = 0" and "- (2 ^ 25) \<le> uint c - uint pc - 8" and "uint c - uint pc - 8 < 2 ^ 25"
    and "\<And>n. n < 24 \<Longrightarrow> bit (w :: u32) n = bit v (n + 2)"
  shows "pc + 8 + 4 * scast (ucast w :: 24 word) = c"
proof -
  let ?x = "uint c - uint pc - 8"
  have v: "v = word_of_int ?x" by (simp add: v_def flip: uint_up_ucast)
  have s: "sint v = ?x" unfolding v sint_sbintrunc' using assms(4,5) by (simp add: signed_take_bit_int_eq_self)
  have "uint v = ?x mod 2 ^ 64" unfolding v by (simp only: uint_word_of_int len64)
  then have "uint v mod 4 = ?x mod 4" by (simp only:) (simp add: mod_mod_cancel)
  also have "\<dots> = 0" using assms(2,3) unfolding aligned_uint by presburger
  finally have "uint v mod 4 = 0" .
  then have "v AND 3 = 0" using aligned_uint [of v] by simp
  from branch_distance [OF this, of w] s assms(4-6) have "4 * (scast (ucast w :: 24 word) :: u32) = ucast v" by simp
  also have "\<dots> = c - pc - 8" unfolding v_def by (simp add: ucast_down ucast_64_32)
  finally show ?thesis by simp
qed

text \<open>
  A branch instruction at \<open>pc\<close> to an aligned target \<open>c\<close> within 32 megabytes, with condition field \<open>k\<close>
  (only \<^verbatim>\<open>BL\<close> may have one other than ``always'').
\<close>

definition branch_at :: "prog \<Rightarrow> optab \<Rightarrow> nat \<Rightarrow> u32 \<Rightarrow> u32 \<Rightarrow> bool" where
  "branch_at q oq k pc c \<longleftrightarrow> is_branch (p_as q) \<and> p_scond q = of_nat k \<and> k < 16 \<and> (p_as q = ABL \<or> k = 14) \<and>
     p_cond q = At (ucast c) \<and> p_pc q = ucast pc \<and> c AND 3 = 0 \<and>
     - (2 ^ 25) \<le> uint c - uint pc - 8 \<and> uint c - uint pc - 8 < 2 ^ 25 \<and> o_type oq = 5 \<and> o_size oq = 4"

lemma branch_word:
  assumes "branch_at q oq k pc c" and "pc AND 3 = 0"
  shows "\<exists>w. asmout q oq l = (Inr (), l\<lparr>obuf := obuf l @ le_bytes w\<rparr>) \<and> fld 28 w = bra_code (p_as q) k \<and>
    arm_class w = 86 + of_bool (p_as q = ABL) \<and> pc + 8 + 4 * scast (ucast w :: 24 word) = c"
proof -
  let ?v = "ucast c - ucast pc - 8 :: u64" and ?k = "bra_code (p_as q) k" and ?b = "p_as q = ABL"
  define w where "w = sh ?k 28 OR sh 5 25 OR set_if ?b (sh 1 24) OR ucast (signed_drop_bit 2 ?v AND 0xffffff)"
  have ob: "opbra (p_as q) (of_nat k) l = (Inr (sh ?k 28 OR sh 5 25 OR set_if ?b (sh 1 24)), l)" "?k < 16"
    using opbra_word [of "p_as q" k l] assms(1) by (auto simp: branch_at_def)
  note f = branch_word_fields [where k = ?k and b = ?b and v = ?v, OF ob(2), folded w_def]
  have "asm_words q oq l = (Inr [w], l)"
    using assms(1) ob(1) by (simp add: branch_at_def asm_words_def asm_5_def bind_def w_def or.assoc)
  from asmout_words [OF this] have "asmout q oq l = (Inr (), l\<lparr>obuf := obuf l @ le_bytes w\<rparr>)"
    using assms(1) by (simp add: branch_at_def)
  moreover have "pc + 8 + 4 * scast (ucast w :: 24 word) = c"
    by (rule branch_offset [OF _ assms(2) _ _ f(3)]) (use assms(1) in \<open>simp_all add: branch_at_def\<close>)
  ultimately show ?thesis using f by blast
qed

text \<open>
  The word for a branch (rule type 5) takes the emulator to the instruction the linker's \<^verbatim>\<open>cond\<close>
  pointer names when the condition holds and to the next instruction otherwise; \<^verbatim>\<open>BL\<close> also leaves the
  return address in \<^verbatim>\<open>R14\<close>. The target may lie anywhere in the 26-bit reach of the offset.
\<close>

theorem branch_code_runs:
  assumes "branch_at p ot k (regs s 15) c" and "ready s" and "decides (bra_code (p_as p) k) s b"
  shows "\<exists>code. asmout p ot l = (Inr (), l\<lparr>obuf := obuf l @ code\<rparr>) \<and> length code = 4 \<and>
    runs_to h sys s code
      (if b then (if p_as p = ABL then (regs s)(14 := regs s 15 + 4, 15 := c) else (regs s)(15 := c))
       else (regs s)(15 := regs s 15 + 4))"
proof -
  have pc: "regs s 15 AND 3 = 0" "c AND 3 = 0" using assms(1,2) by (simp_all add: ready_def branch_at_def)
  obtain w where e: "asmout p ot l = (Inr (), l\<lparr>obuf := obuf l @ le_bytes w\<rparr>)"
    and w: "fld 28 w = bra_code (p_as p) k" "arm_class w = 86 + of_bool (p_as p = ABL)"
      "regs s 15 + 8 + 4 * scast (ucast w :: 24 word) = c"
    using branch_word [OF assms(1) pc(1), of l] by blast
  have "runs_to h sys s (le_bytes w)
      (if b then (if p_as p = ABL then (regs s)(14 := regs s 15 + 4, 15 := c) else (regs s)(15 := c))
       else (regs s)(15 := regs s 15 + 4))"
    unfolding runs_to_def
    using branch_step [OF assms(2) _ w(2) _ w(3) pc(2), of h b sys] assms(3) w(1)
      holds_word [of h s "ucast (regs s 15)" w] by auto
  with e show ?thesis by (intro exI [of _ "le_bytes w"]) simp
qed

theorem branch_code_runs_witness:
  "\<exists>t. run_step demo_host [] (code_machine (emitted ((demo_prog ABL (reg_adr 0) R_NONE (reg_adr 0))\<lparr>p_cond := At 0x1800\<rparr>)
      (demo_op 5 4)) (\<lambda>_. 0)) = (Inr (), t) \<and> regs t 14 = 0x1004 \<and> regs t 15 = 0x1800"
proof -
  let ?p = "(demo_prog ABL (reg_adr 0) R_NONE (reg_adr 0))\<lparr>p_cond := At 0x1800\<rparr>" and ?o = "demo_op 5 4"
  let ?m = "code_machine (emitted ?p ?o) (\<lambda>_. 0)"
  have "branch_at ?p ?o 14 (regs ?m 15) 0x1800" "decides (bra_code (p_as ?p) 14) ?m True"
    by (simp_all add: branch_at_def is_branch_def demo_defs code_machine_regs decides_def bra_code_def run_cond_def
        code_machine_cmp runcmp_def)
  from branch_code_runs [where h = demo_host and sys = "[]" and l = demo_lnk, OF this(1) code_machine_ready this(2)]
  obtain code where c: "asmout ?p ?o demo_lnk = (Inr (), demo_lnk\<lparr>obuf := obuf demo_lnk @ code\<rparr>)" "length code = 4"
    "runs_to demo_host [] ?m code (if True then (if p_as ?p = ABL then (regs ?m)(14 := regs ?m 15 + 4, 15 := 0x1800)
      else (regs ?m)(15 := 0x1800)) else (regs ?m)(15 := regs ?m 15 + 4))" by blast
  have "emitted ?p ?o = code" by (rule emittedI [OF c(1)]) simp
  with c(2,3) code_machine_holds [of code] show ?thesis by (auto simp: runs_to_def code_machine_regs demo_defs)
qed

section \<open>Compare and branch\<close>

text \<open>What the conditional branches mean after \<^verbatim>\<open>CMP x, y\<close>.\<close>

definition br_taken :: "nat \<Rightarrow> u32 \<Rightarrow> u32 \<Rightarrow> bool option" where
  "br_taken a x y = map_of
     [(AB, True), (ABEQ, y = x), (ABNE, y \<noteq> x), (ABHS, x \<le> y), (ABLO, y < x), (ABHI, x < y), (ABLS, y \<le> x),
      (ABMI, sint (y - x) < 0), (ABPL, sint (y - x) \<ge> 0),
      (ABGE, sint x \<le> sint y), (ABLT, sint y < sint x), (ABGT, sint x < sint y), (ABLE, sint y \<le> sint x)] a"

lemma br_taken_cases:
  assumes "br_taken a x y = Some b"
  shows "is_branch a \<and> a \<noteq> ABL \<and> bra_code a 14 < 16 \<and> bra_code a 14 \<noteq> 6 \<and> bra_code a 14 \<noteq> 7 \<and>
    cond_passed (bra_code a 14) (flags_sub y x) = b"
proof -
  define N V where "N = (sint (y - x) < 0)" and "V = (sint (y - x) \<noteq> sint y - sint x)"
  have F: "flags_sub y x = (N, y = x, x \<le> y, V)"
    by (simp add: flags_sub_def N_def V_def Word.word_le_def)
  have ge: "(N = V) = (sint x \<le> sint y)" unfolding N_def V_def by (rule sub_signed)
  have e: "(y = x) = (sint y = sint x)" by (rule word_sint_eq_iff)
  have k: "cond_passed 4 (flags_sub y x) = (sint (y - x) < 0)" "cond_passed 5 (flags_sub y x) = (sint (y - x) \<ge> 0)"
    by (simp_all only: F) (auto simp: N_def)
  have c: "cond_passed 0 (flags_sub y x) = (y = x)" "cond_passed (Suc 0) (flags_sub y x) = (y \<noteq> x)"
    "cond_passed 2 (flags_sub y x) = (x \<le> y)" "cond_passed 3 (flags_sub y x) = (y < x)"
    "cond_passed 8 (flags_sub y x) = (x < y)" "cond_passed 9 (flags_sub y x) = (y \<le> x)"
    "cond_passed 10 (flags_sub y x) = (sint x \<le> sint y)" "cond_passed 11 (flags_sub y x) = (sint y < sint x)"
    "cond_passed 12 (flags_sub y x) = (sint x < sint y)" "cond_passed 13 (flags_sub y x) = (sint y \<le> sint x)"
    "cond_passed 14 (flags_sub y x)"
    using ge e by (simp_all add: F not_le) (auto simp: order.order_iff_strict)
  show ?thesis
    using assms by (auto simp: br_taken_def is_branch_def bra_code_def c k simp del: cond_passed.simps split: if_splits)
qed

lemma run_n_step: "run_step h sys s = (Inr (), t) \<Longrightarrow> run_n h sys (Suc n) s = run_n h sys n (t\<lparr>count := count t - 1\<rparr>)"
  by (simp add: seq_def bind_def)

lemma count_view: "mview h (t\<lparr>count := k\<rparr>) = mview h t" "wf_mem (t\<lparr>count := k\<rparr>) = wf_mem t" "ready (t\<lparr>count := k\<rparr>) = ready t"
  using seg_view [of "t\<lparr>count := k\<rparr>" t] by (simp_all add: ready_def)

lemma holds_view: "mview h t = mview h s \<Longrightarrow> holds h t a bs = holds h s a bs"
  by (simp add: holds_def)

lemma next_pc: "uint pc + 4 < 2 ^ 32 \<Longrightarrow> (ucast (pc + 4) :: u64) = ucast pc + 4" for pc :: u32
proof -
  assume a: "uint pc + 4 < 2 ^ 32"
  then have "uint (pc + 4) = uint pc + 4" by (simp add: uint_word_ariths)
  then show ?thesis
    using a uint_u32 [of pc] by (simp add: word_uint_eq_iff uint_word_ariths unsigned_ucast_eq take_bit_int_eq_self)
qed

lemma holds_next:
  assumes "holds h s (ucast pc) (le_bytes w @ bs)" and "uint pc + 4 < 2 ^ 32"
  shows "mword h s (ucast (pc :: u32)) = Some w" "holds h s (ucast (pc + 4)) bs"
  using assms(1) holds_word [of h s "ucast pc" w] next_pc [OF assms(2)] by (simp_all add: holds_append)

lemma cmp_word_fields:
  fixes r m :: nat
  assumes "r < 16" "m < 16"
  defines "w \<equiv> sh 14 28 OR (sh 10 21 OR sh 1 20) OR sh r 16 OR sh 0 12 OR sh m 0"
  shows "fld 28 w = 14" "fld 21 w = 10" "fld 16 w = r" "fld 12 w = 0" "fld 0 w = m" "bit w 20" "arm_class w = 10"
proof -
  have one: "bit (Suc 0) n \<longleftrightarrow> n = 0" for n using bit_1_iff [of n, where ?'a = nat] by simp
  note bits = bit_or_iff bit_sh bit_small one
  show f: "fld 28 w = 14" "fld 21 w = 10" "fld 16 w = r" "fld 12 w = 0"
    unfolding w_def by (rule fldI; simp add: assms bits)+
  show "fld 0 w = m" unfolding w_def by (rule fld0I; simp add: assms bits)
  show "bit w 20" by (simp add: w_def assms bits)
  have "\<not> bit w 25" "\<not> bit w 26" "\<not> bit w 27" "\<not> bit w 4" "\<not> bit w 5" "\<not> bit w 7" "\<not> bit w 8" "\<not> bit w 9" "\<not> bit w 10" "\<not> bit w 11"
    by (simp_all add: w_def assms bits)
  then show "arm_class w = 10" using class_register [of w] f(2) by simp
qed

lemma cmp_step:
  assumes "ready s" and "mword h s (ucast (regs s 15)) = Some w"
    and w: "fld 28 w = 14" "fld 21 w = 10" "fld 16 w < 15" "fld 0 w < 15" "fld 12 w = 0" "bit w 20" "arm_class w = 10"
  shows "\<exists>t. run_step h sys s = (Inr (), t) \<and> mview h t = mview h s \<and> ready t \<and>
    regs t = (regs s)(15 := regs s 15 + 4) \<and>
    compare_op t = CCcmp \<and> cc1 t = regs s (fld 16 w) \<and> cc2 t = regs s (fld 0 w)"
proof -
  let ?Q = "\<lambda>u t. t = set_cc (regs s (fld 16 w)) (regs s (fld 0 w)) CCcmp u"
  have "\<exists>t. itab h sys (arm_class w) w u = (Inr (), t) \<and> bplist t = [] \<and> ?Q u t" if "same_machine h s u" for u
    using that w itab_class(1) [of 10 h sys w]
    by (simp add: Idp0_def Let_def operand_def compensate_def dpex_def same_machine_def seq_def bind_def set_cc_def)
  from step_handler [OF assms(1,2) w(1), where Q = ?Q, OF this]
  obtain u t where t: "same_machine h s u" "?Q u t"
    "run_step h sys s = (Inr (), setr 15 (regs t 15 + 4) t)" by blast
  have "seg (setr 15 (regs t 15 + 4) t) = seg u" using t(2) by (simp add: set_cc_def)
  then show ?thesis
    using t assms(1) aligned_next [of "regs s 15"] seg_view(1) [of "setr 15 (regs t 15 + 4) t" u h] seg_view(2) [of "setr 15 (regs t 15 + 4) t" u]
    by (simp add: same_machine_def ready_def set_cc_def) (simp add: setr_def)
qed

text \<open>The instruction \<^verbatim>\<open>CMP Rf, Rn\<close>.\<close>

definition compare_at :: "prog \<Rightarrow> optab \<Rightarrow> bool" where
  "compare_at p ot \<longleftrightarrow> p_as p = ACMP \<and> p_scond p = 14 \<and> a_reg (p_from p) < 15 \<and> p_reg p < 15 \<and>
     a_type (p_to p) = D_NONE \<and> o_type ot = 1 \<and> o_size ot = 4"

lemma compare_word:
  assumes "compare_at p ot"
  shows "\<exists>w. asmout p ot l = (Inr (), l\<lparr>obuf := obuf l @ le_bytes w\<rparr>) \<and> fld 28 w = 14 \<and> fld 21 w = 10 \<and>
    fld 16 w = p_reg p \<and> fld 0 w = a_reg (p_from p) \<and> fld 12 w = 0 \<and> bit w 20 \<and> arm_class w = 10"
proof -
  have a: "p_reg p < 15" "a_reg (p_from p) < 15" using assms by (simp_all add: compare_at_def)
  define w where "w = sh 14 28 OR (sh 10 21 OR sh 1 20) OR sh (p_reg p) 16 OR sh 0 12 OR sh (a_reg (p_from p)) 0"
  have f: "fld 28 w = 14" "fld 21 w = 10" "fld 16 w = p_reg p" "fld 12 w = 0" "fld 0 w = a_reg (p_from p)" "bit w 20" "arm_class w = 10"
    unfolding w_def by (rule cmp_word_fields; use a in simp)+
  have b: "map_of rrr_bits ACMP = Some (sh 10 21 OR sh 1 20)" by (simp add: rrr_bits_def)
  have "asm_words p ot l = (Inr [w], l)"
    using assms oprrr_plain(1) [OF b, of l]
    by (simp add: asm_words_def compare_at_def asm_1_def bind_def to_reg_def dp_reg_def reg2_def Let_def w_def or.assoc)
  from asmout_words [OF this] f show ?thesis using assms by (intro exI [of _ w]) (simp add: compare_at_def)
qed

text \<open>
  C21: \<^verbatim>\<open>CMP\<close> followed by a conditional branch: the two words together decide the signed or unsigned
  comparison of the two registers as the branch's name says, and jump accordingly.
\<close>

theorem compare_branch_runs:
  assumes "compare_at p ot" and "branch_at q oq 14 (regs s 15 + 4) c" and "ready s" and "uint (regs s 15) + 4 < 2 ^ 32"
    and "br_taken (p_as q) (regs s (a_reg (p_from p))) (regs s (p_reg p)) = Some b"
  shows "\<exists>code. seq (asmout p ot) (asmout q oq) l = (Inr (), l\<lparr>obuf := obuf l @ code\<rparr>) \<and> length code = 8 \<and>
    (holds h s (ucast (regs s 15)) code \<longrightarrow>
      (\<exists>t. run_n h sys 2 s = (Inr (), t) \<and> mview h t = mview h s \<and>
        regs t = (regs s)(15 := if b then c else regs s 15 + 8)))"
proof -
  note bt = br_taken_cases [OF assms(5)]
  obtain w where e1: "asmout p ot l = (Inr (), l\<lparr>obuf := obuf l @ le_bytes w\<rparr>)"
    and w: "fld 28 w = 14" "fld 21 w = 10" "fld 16 w = p_reg p" "fld 0 w = a_reg (p_from p)" "fld 12 w = 0" "bit w 20" "arm_class w = 10"
    using compare_word [OF assms(1), of l] by blast
  let ?l = "l\<lparr>obuf := obuf l @ le_bytes w\<rparr>"
  have pc: "(regs s 15 + 4) AND 3 = 0" using assms(3) aligned_next by (simp add: ready_def)
  obtain x where e2: "asmout q oq ?l = (Inr (), ?l\<lparr>obuf := obuf ?l @ le_bytes x\<rparr>)"
    and x: "fld 28 x = bra_code (p_as q) 14" "arm_class x = 86 + of_bool False"
      "regs s 15 + 4 + 8 + 4 * scast (ucast x :: 24 word) = c"
    using branch_word [OF assms(2) pc, of ?l] bt by auto
  have run: "\<exists>t. run_n h sys 2 s = (Inr (), t) \<and> mview h t = mview h s \<and> regs t = (regs s)(15 := if b then c else regs s 15 + 8)"
    if hd: "holds h s (ucast (regs s 15)) (le_bytes w @ le_bytes x)"
  proof -
    have hw: "mword h s (ucast (regs s 15)) = Some w" "mword h s (ucast (regs s 15 + 4)) = Some x"
      using holds_next [OF hd assms(4)] holds_word by blast+
    obtain t where t: "run_step h sys s = (Inr (), t)" "mview h t = mview h s" "ready t" "regs t = (regs s)(15 := regs s 15 + 4)"
        "compare_op t = CCcmp" "cc1 t = regs s (p_reg p)" "cc2 t = regs s (a_reg (p_from p))"
      using cmp_step [OF assms(3) hw(1) w(1,2) _ _ w(5-7), of sys] w(3,4) assms(1) by (auto simp: compare_at_def)
    define t' where "t' = t\<lparr>count := count t - 1\<rparr>"
    have t': "ready t'" "mview h t' = mview h s" "regs t' = regs t" "compare_op t' = CCcmp" "cc1 t' = cc1 t" "cc2 t' = cc2 t"
      using t by (simp_all add: t'_def count_view)
    have "decides (fld 28 x) t' b" using decides_cmp [OF t'(4), of "bra_code (p_as q) 14"] bt t' t x(1) by simp
    from branch_step [OF t'(1) _ x(2) this, of h c sys] x(3) t' t hw(2) assms(2)
    obtain u where u: "run_step h sys t' = (Inr (), u)" "mview h u = mview h s"
        "regs u = (if b then (regs t)(15 := c) else (regs t)(15 := regs t 15 + 4))"
      by (auto simp: branch_at_def mword_def)
    have "run_n h sys 2 s = (Inr (), u\<lparr>count := count u - 1\<rparr>)"
      using run_n_step [OF t(1), of 1] run_n_step [OF u(1), of 0] by (simp add: numeral_2_eq_2 t'_def)
    then show ?thesis using u t(4) by (auto simp: count_view)
  qed
  show ?thesis
    by (intro exI [of _ "le_bytes w @ le_bytes x"]) (use e1 e2 run in \<open>simp add: seq_def bind_def\<close>)
qed

theorem compare_branch_runs_witness:
  "\<exists>code. obuf (snd (seq (asmout (demo_prog ACMP (reg_adr 1) 2 ((reg_adr 0)\<lparr>a_type := D_NONE\<rparr>)) (demo_op 1 4))
      (asmout ((demo_prog ABGT (reg_adr 0) R_NONE (reg_adr 0))\<lparr>p_cond := At 0x1800, p_pc := 0x1004\<rparr>) (demo_op 5 4)) demo_lnk)) = code \<and>
    (\<exists>t. run_n demo_host [] 2 (code_machine code (\<lambda>i. if i = 1 then - 3 else 7)) = (Inr (), t) \<and> regs t 15 = 0x1800)"
proof -
  let ?p = "demo_prog ACMP (reg_adr 1) 2 ((reg_adr 0)\<lparr>a_type := D_NONE\<rparr>)"
    and ?q = "(demo_prog ABGT (reg_adr 0) R_NONE (reg_adr 0))\<lparr>p_cond := At 0x1800, p_pc := 0x1004\<rparr>"
  define code where "code = obuf (snd (seq (asmout ?p (demo_op 1 4)) (asmout ?q (demo_op 5 4)) demo_lnk))"
  let ?m = "code_machine code (\<lambda>i. if i = 1 then - 3 else 7)"
  have "compare_at ?p (demo_op 1 4)" "branch_at ?q (demo_op 5 4) 14 (regs ?m 15 + 4) 0x1800" "uint (regs ?m 15) + 4 < 2 ^ 32"
    "br_taken (p_as ?q) (regs ?m (a_reg (p_from ?p))) (regs ?m (p_reg ?p)) = Some True"
    by (simp_all add: compare_at_def branch_at_def is_branch_def demo_defs code_machine_regs br_taken_def)
  from compare_branch_runs [where h = demo_host and sys = "[]" and l = demo_lnk, OF this(1,2) code_machine_ready this(3,4)]
  obtain c where c: "seq (asmout ?p (demo_op 1 4)) (asmout ?q (demo_op 5 4)) demo_lnk = (Inr (), demo_lnk\<lparr>obuf := obuf demo_lnk @ c\<rparr>)"
    "length c = 8" "holds demo_host ?m (ucast (regs ?m 15)) c \<longrightarrow>
      (\<exists>t. run_n demo_host [] 2 ?m = (Inr (), t) \<and> mview demo_host t = mview demo_host ?m \<and>
        regs t = (regs ?m)(15 := if True then 0x1800 else regs ?m 15 + 8))" by blast
  have "code = c" using c(1) by (simp add: code_def demo_lnk_def)
  then have "\<exists>t. run_n demo_host [] 2 ?m = (Inr (), t) \<and> regs t 15 = 0x1800"
    using c(2,3) code_machine_holds [of c] by (auto simp: code_machine_regs)
  then show ?thesis unfolding code_def by blast
qed

section \<open>Sequences of instructions\<close>

definition runs_n :: "host \<Rightarrow> (arm, unit) eff option list \<Rightarrow> nat \<Rightarrow> arm \<Rightarrow> u8 list \<Rightarrow> (nat \<Rightarrow> u32) \<Rightarrow> bool" where
  "runs_n h sys n s code R \<longleftrightarrow> (holds h s (ucast (regs s 15)) code \<longrightarrow>
     (\<exists>t. run_n h sys n s = (Inr (), t) \<and> regs t = R \<and> mview h t = mview h s \<and> ready t))"

lemma runs_n_0: "ready s \<Longrightarrow> runs_n h sys 0 s [] (regs s)"
  by (simp add: runs_n_def)

lemma runs_n_Suc:
  assumes "runs_to h sys s (le_bytes w) R1" and "uint (regs s 15) + 4 < 2 ^ 32" and "R1 15 = regs s 15 + 4"
    and "\<And>t. ready t \<Longrightarrow> regs t = R1 \<Longrightarrow> mview h t = mview h s \<Longrightarrow> runs_n h sys n t code R2"
  shows "runs_n h sys (Suc n) s (le_bytes w @ code) R2"
  unfolding runs_n_def
proof
  assume hd: "holds h s (ucast (regs s 15)) (le_bytes w @ code)"
  then obtain t where t: "run_step h sys s = (Inr (), t)" "regs t = R1" "mview h t = mview h s" "ready t"
    using assms(1) by (auto simp: runs_to_def holds_append)
  let ?t = "t\<lparr>count := count t - 1\<rparr>"
  have "runs_n h sys n ?t code R2" by (rule assms(4)) (use t in \<open>simp_all add: count_view\<close>)
  moreover have "holds h ?t (ucast (regs ?t 15)) code"
    using holds_next(2) [OF hd assms(2)] t assms(3) by (simp add: holds_def count_view)
  ultimately show "\<exists>t. run_n h sys (Suc n) s = (Inr (), t) \<and> regs t = R2 \<and> mview h t = mview h s \<and> ready t"
    using run_n_step [OF t(1), of n] t(3) by (auto simp: runs_n_def count_view)
qed

lemma runs_n_1:
  assumes "runs_to h sys s (le_bytes w) R" and "uint (regs s 15) + 4 < 2 ^ 32" and "R 15 = regs s 15 + 4"
  shows "runs_n h sys 1 s (le_bytes w) R"
proof -
  have "runs_n h sys 0 t [] R" if "ready t" "regs t = R" for t using runs_n_0 that by metis
  then show ?thesis using runs_n_Suc [OF assms, of 0 "[]" R] by simp
qed

section \<open>Shifts and extensions\<close>

text \<open>The constant shifts of a register: what the shifter of the machine computes for \<^verbatim>\<open>st\<close> and \<^verbatim>\<open>k\<close>.\<close>

definition shifted :: "nat \<Rightarrow> nat \<Rightarrow> u32 \<Rightarrow> u32" where
  "shifted st k v = (if st = 0 then push_bit k v else if st = 1 then drop_bit k v
     else if st = 2 then signed_drop_bit k v else word_rotr k v)"

lemma bit_small32: "x < 32 \<Longrightarrow> 5 \<le> n \<Longrightarrow> \<not> bit (x :: nat) n"
  using bit_take_bit_iff [of 5 x n] by (auto simp: take_bit_nat_eq_self)

lemma bit_small4: "x < 4 \<Longrightarrow> 2 \<le> n \<Longrightarrow> \<not> bit (x :: nat) n"
  using bit_take_bit_iff [of 2 x n] by (auto simp: take_bit_nat_eq_self)

lemma shift_word_fields:
  fixes st k d m :: nat
  assumes "st < 4" "0 < k" "k < 32" "d < 16" "m < 16"
  defines "w \<equiv> sh 14 28 OR sh 13 21 OR sh st 5 OR sh d 12 OR sh k 7 OR sh m 0"
  shows "fld 28 w = 14" "fld 21 w = 13" "fld 12 w = d" "fld 0 w = m" "\<not> bit w 20" "fld 16 w = 0"
    "arm_class w = 29" "unat (drop_bit 5 w AND 3) = st" "uint (drop_bit 7 w AND 0x1f) = int k"
proof -
  note bits = bit_or_iff bit_sh bit_small bit_small4 [OF assms(1)] bit_small32 [OF assms(3)]
  show f: "fld 28 w = 14" "fld 21 w = 13" "fld 12 w = d" "fld 16 w = 0"
    unfolding w_def by (rule fldI; simp add: assms bits)+
  show "fld 0 w = m" unfolding w_def by (rule fld0I; simp add: assms bits)
  show "\<not> bit w 20" by (simp add: w_def assms bits)
  have m: "(3 :: u32) = mask 2" "(0x1f :: u32) = mask 5" by (simp_all add: mask_eq_exp_minus_1)
  have c: "bit w 5 = bit st 0" "bit w 6 = bit st 1" "bit w 7 = bit k 0" "bit w 8 = bit k 1" "bit w 9 = bit k 2" "bit w 10 = bit k 3" "bit w 11 = bit k 4"
    by (simp_all add: w_def assms bits)
  have kb: "bit w (7 + j) = bit k j" if "j < 5" for j
    using that c by (auto simp: less_Suc_eq numeral_eq_Suc)
  have sb: "bit w (5 + j) = bit st j" if "j < 2" for j
    using that c by (auto simp: less_Suc_eq numeral_eq_Suc)
  show "unat (drop_bit 5 w AND 3) = st" unfolding m by (rule fieldI [OF _ sb]) (use assms in simp_all)
  have "unat (drop_bit 7 w AND 0x1f) = k" unfolding m by (rule fieldI [OF _ kb]) (use assms in simp_all)
  then show "uint (drop_bit 7 w AND 0x1f) = int k" by (metis uint_nat)
  have "\<exists>j<5. bit k j"
  proof (rule ccontr)
    assume "\<not> (\<exists>j<5. bit k j)"
    then have "\<not> bit k j" for j using bit_small32 [OF assms(3), of j] by (cases "j < 5") auto
    then have "k = 0" by (intro bit_eqI) simp
    then show False using assms(2) by simp
  qed
  then have "bit w 7 \<or> bit w 8 \<or> bit w 9 \<or> bit w 10 \<or> bit w 11"
    using c by (auto simp: less_Suc_eq numeral_eq_Suc)
  moreover have "\<not> bit w 25" "\<not> bit w 26" "\<not> bit w 27" "\<not> bit w 4" by (simp_all add: w_def assms bits)
  ultimately show "arm_class w = 29" using class_register [of w] f(2) by auto
qed

lemma shift_value:
  assumes "0 < k" and "k < 32"
  shows "\<exists>c. shift v st (int k) isreg u = (Inr (shifted st k v), u\<lparr>cout := c\<rparr>)"
  using assms by (simp add: shift_def Let_def seq_def set_cout_def shifted_def rotate_right) blast

definition shift_word :: "nat \<Rightarrow> nat \<Rightarrow> nat \<Rightarrow> nat \<Rightarrow> u32" where
  "shift_word st k d m = sh 14 28 OR sh 13 21 OR sh st 5 OR sh d 12 OR sh k 7 OR sh m 0"

lemma shift_runs:
  assumes "ready s" and "st < 4" "0 < k" "k < 32" "d < 15" "m < 15"
  shows "runs_to h sys s (le_bytes (shift_word st k d m)) ((regs s)(d := shifted st k (regs s m), 15 := regs s 15 + 4))"
proof -
  let ?w = "shift_word st k d m" and ?R = "(regs s)(d := shifted st k (regs s m))"
  have "d < 16" "m < 16" using assms by simp_all
  note f = shift_word_fields [OF assms(2-4) this, folded shift_word_def]
  have "\<exists>t. itab h sys (arm_class ?w) ?w u = (Inr (), t) \<and> reg_effect ?R u t" if u: "same_machine h s u" for u
  proof -
    obtain c where "shift (regs s m) st (int k) False u = (Inr (shifted st k (regs s m)), u\<lparr>cout := c\<rparr>)"
      using shift_value [OF assms(3,4)] by blast
    then have "Idp1 ?w u = (Inr (), setr d (shifted st k (regs s m)) (u\<lparr>cout := c\<rparr>))"
      using u assms(5,6) by (simp add: Idp1_def Let_def f operand_def compensate_def same_machine_def seq_def bind_def dpex_def)
    moreover have "itab h sys (arm_class ?w) ?w = Idp1 ?w" using itab_class(2) [of 13 h sys ?w] f by simp
    ultimately show ?thesis using u by (simp add: reg_effect_def same_machine_def setr_def)
  qed
  moreover have "?R 15 = regs s 15" using assms(5) by simp
  ultimately show ?thesis using runs_to_word [OF assms(1) f(1), of ?R h sys] assms(1) by (simp only: ready_def)
qed

lemma runs_two:
  assumes "ready s" and "uint (regs s 15) + 4 < 2 ^ 32"
    and "runs_to h sys s (le_bytes w1) R1" and "R1 15 = regs s 15 + 4" and "uint (R1 15) + 4 < 2 ^ 32"
    and "\<And>t. ready t \<Longrightarrow> regs t = R1 \<Longrightarrow> runs_to h sys t (le_bytes w2) R2" and "R2 15 = R1 15 + 4"
  shows "runs_n h sys 2 s (le_bytes w1 @ le_bytes w2) R2"
proof -
  have "runs_n h sys 1 t (le_bytes w2) R2" if "ready t" "regs t = R1" for t
    using runs_n_1 [OF assms(6) [OF that]] that assms(5,7) by simp
  then show ?thesis
    using runs_n_Suc [OF assms(3,2,4), of 1 "le_bytes w2" R2] by (simp add: numeral_2_eq_2)
qed

text \<open>What \<^verbatim>\<open>MOVB\<close>, \<^verbatim>\<open>MOVBU\<close>, \<^verbatim>\<open>MOVH\<close> and \<^verbatim>\<open>MOVHU\<close> of a register mean.\<close>

definition extended :: "nat \<Rightarrow> u32 \<Rightarrow> u32 option" where
  "extended a v = map_of
     [(AMOVB, scast (ucast v :: u8)), (AMOVBU, ucast (ucast v :: u8)),
      (AMOVH, scast (ucast v :: u16)), (AMOVHU, ucast (ucast v :: u16))] a"

lemma shift_pairs:
  "shifted 2 24 (shifted 0 24 v) = scast (ucast v :: u8)" "shifted 1 24 (shifted 0 24 v) = ucast (ucast v :: u8)"
  "shifted 2 16 (shifted 0 16 v) = scast (ucast v :: u16)" "shifted 1 16 (shifted 0 16 v) = ucast (ucast v :: u16)"
proof -
  show "shifted 2 24 (shifted 0 24 v) = scast (ucast v :: u8)" "shifted 2 16 (shifted 0 16 v) = scast (ucast v :: u16)"
    by (simp_all add: shifted_def sext8 sext16)
  show "shifted 1 24 (shifted 0 24 v) = ucast (ucast v :: u8)" "shifted 1 16 (shifted 0 16 v) = ucast (ucast v :: u16)"
    by (auto simp: shifted_def bit_simps intro!: bit_word_eqI)
qed

lemma oprrr_shift:
  "oprrr ASLL 14 l = (Inr (sh 14 28 OR (sh 13 21 OR sh 0 5)), l)"
  "oprrr ASRL 14 l = (Inr (sh 14 28 OR (sh 13 21 OR sh 1 5)), l)"
  "oprrr ASRA 14 l = (Inr (sh 14 28 OR (sh 13 21 OR sh 2 5)), l)"
  by (rule oprrr_plain, simp add: rrr_bits_def)+

definition ext_shift :: "nat \<Rightarrow> nat" where
  "ext_shift a = (if a = AMOVBU \<or> a = AMOVHU then 1 else 2)"

definition ext_size :: "nat \<Rightarrow> nat" where
  "ext_size a = (if a = AMOVB \<or> a = AMOVBU then 24 else 16)"

lemma ext_shifts:
  assumes "extended a x = Some v"
  shows "shifted (ext_shift a) (ext_size a) (shifted 0 (ext_size a) x) = v" "ext_shift a < 4" "0 < ext_size a" "ext_size a < 32"
proof -
  have "a \<in> {AMOVB, AMOVBU, AMOVH, AMOVHU}" using assms by (auto simp: extended_def split: if_splits)
  then show "shifted (ext_shift a) (ext_size a) (shifted 0 (ext_size a) x) = v" "ext_shift a < 4" "0 < ext_size a" "ext_size a < 32"
    using assms shift_pairs [of x] by (auto simp: extended_def ext_shift_def ext_size_def)
qed

lemma asm_14_words:
  assumes "p_scond p = 14"
  shows "asm_14 p l = (Inr [shift_word 0 (ext_size (p_as p)) (a_reg (p_to p)) (a_reg (p_from p)),
    shift_word (ext_shift (p_as p)) (ext_size (p_as p)) (a_reg (p_to p)) (a_reg (p_to p))], l)"
  using assms oprrr_shift [of l]
  by (simp add: asm_14_def bind_def Let_def shift_word_def ext_size_def ext_shift_def or.assoc)

lemma extension_runs:
  assumes "ready s" and "uint (regs s 15) + 8 < 2 ^ 32" and "d < 15" "m < 15" and "extended a (regs s m) = Some v"
  shows "runs_n h sys 2 s (le_bytes (shift_word 0 (ext_size a) d m) @ le_bytes (shift_word (ext_shift a) (ext_size a) d d))
    ((regs s)(d := v, 15 := regs s 15 + 8))"
proof -
  note e = ext_shifts [OF assms(5)]
  let ?R1 = "(regs s)(d := shifted 0 (ext_size a) (regs s m), 15 := regs s 15 + 4)"
  have pc: "uint (regs s 15 + 4) + 4 < 2 ^ 32" using assms(2) by (simp add: uint_word_ariths)
  show ?thesis
  proof (rule runs_two [OF assms(1)])
    show "runs_to h sys s (le_bytes (shift_word 0 (ext_size a) d m)) ?R1"
      using shift_runs [of s 0 "ext_size a" d m h sys] assms e by simp
    show "runs_to h sys t (le_bytes (shift_word (ext_shift a) (ext_size a) d d)) ((regs s)(d := v, 15 := regs s 15 + 8))"
      if "ready t" "regs t = ?R1" for t
      using shift_runs [of t "ext_shift a" "ext_size a" d d h sys] that assms(3) e by (simp add: fun_upd_twist add.commute)
  qed (use assms(2) pc in simp_all)
qed

lemma asm_58_word:
  assumes "p_scond p = 14" and "a_type (p_to p) = D_REG" and "a_reg (p_from p) < 15"
  shows "asm_58 p l = (Inr [sh 14 28 OR sh 0 21 OR sh 1 25 OR ucast (0xff :: u8) OR sh (a_reg (p_from p)) 16 OR sh (a_reg (p_to p)) 12], l)"
proof -
  have b: "map_of rrr_bits AAND = Some (sh 0 21)" by (simp add: rrr_bits_def)
  have i: "immrot (0xff :: u64) = sh 1 25 OR ucast (0xff :: u8)" using immrot_byte [of "0xff"] by simp
  show ?thesis using assms oprrr_plain(1) [OF b, of l] i
    by (simp add: asm_58_def bind_def Let_def to_reg_def reg2_def or.assoc)
qed

lemma zero_extend_runs:
  assumes "ready s" and "d < 15" "m < 15"
  shows "runs_to h sys s (le_bytes (sh 14 28 OR sh 0 21 OR sh 1 25 OR ucast (0xff :: u8) OR sh m 16 OR sh d 12))
    ((regs s)(d := ucast (ucast (regs s m) :: u8), 15 := regs s 15 + 4))"
proof -
  have "d < 16" "m < 16" using assms by simp_all
  define w where "w = sh 14 28 OR sh 0 21 OR sh 1 25 OR ucast (0xff :: u8) OR sh m 16 OR sh d 12"
  note f = imm_word_fields [of 0, OF _ \<open>m < 16\<close> \<open>d < 16\<close>, of "0xff", folded w_def, simplified]
  let ?R = "(regs s)(d := ucast (ucast (regs s m) :: u8))"
  have v: "alu AAND (w AND 0xff) (regs s (fld 16 w)) = Some (ucast (ucast (regs s m) :: u8))"
    using f by (simp add: alu_def and_0xff)
  have "\<exists>t. itab h sys (arm_class w) w u = (Inr (), t) \<and> reg_effect ?R u t" if "same_machine h s u" for u
    using Idp3_alu [OF v _ _ _ _ _ that] f assms(2,3) itab_class(4) [of 0 h sys w] by (simp add: dp_code_def)
  moreover have "?R 15 = regs s 15" using assms(2) by simp
  ultimately show ?thesis
    using runs_to_word [OF assms(1) f(1), of ?R h sys] assms(1) unfolding w_def by (simp only: ready_def)
qed

text \<open>
  The sign and zero extensions \<^verbatim>\<open>MOVB\<close>, \<^verbatim>\<open>MOVBU\<close>, \<^verbatim>\<open>MOVH\<close> and \<^verbatim>\<open>MOVHU\<close> between registers
  (rule types 14, a pair of shifts, and 58, an \<^verbatim>\<open>AND\<close>) extend the low byte or half word exactly.
\<close>

theorem extension_code_runs:
  assumes "p_scond p = 14" and "a_type (p_to p) = D_REG" and "a_reg (p_to p) < 15" and "a_reg (p_from p) < 15" and "ready s"
    and "uint (regs s 15) + 8 < 2 ^ 32"
    and "o_type ot = 14 \<and> o_size ot = 8 \<and> n = 2 \<or> o_type ot = 58 \<and> o_size ot = 4 \<and> p_as p = AMOVBU \<and> n = 1"
    and "extended (p_as p) (regs s (a_reg (p_from p))) = Some v"
  shows "\<exists>code. asmout p ot l = (Inr (), l\<lparr>obuf := obuf l @ code\<rparr>) \<and> length code = 4 * n \<and>
    runs_n h sys n s code ((regs s)(a_reg (p_to p) := v, 15 := regs s 15 + of_nat (4 * n)))"
  using assms(7)
proof
  assume t: "o_type ot = 14 \<and> o_size ot = 8 \<and> n = 2"
  let ?ws = "[shift_word 0 (ext_size (p_as p)) (a_reg (p_to p)) (a_reg (p_from p)),
    shift_word (ext_shift (p_as p)) (ext_size (p_as p)) (a_reg (p_to p)) (a_reg (p_to p))]"
  have "asm_words p ot l = (Inr ?ws, l)" using t asm_14_words [OF assms(1), of l] by (simp add: asm_words_def)
  from asmout_words [OF this] t extension_runs [OF assms(5,6,3,4,8), of h sys]
  show ?thesis by (intro exI [of _ "concat (map le_bytes ?ws)"]) simp
next
  assume t: "o_type ot = 58 \<and> o_size ot = 4 \<and> p_as p = AMOVBU \<and> n = 1"
  define w where "w = sh 14 28 OR sh 0 21 OR sh 1 25 OR ucast (0xff :: u8) OR sh (a_reg (p_from p)) 16 OR sh (a_reg (p_to p)) 12"
  have v: "v = ucast (ucast (regs s (a_reg (p_from p))) :: u8)" using assms(8) t by (simp add: extended_def)
  have "asm_words p ot l = (Inr [w], l)" using t asm_58_word [OF assms(1,2,4), of l] by (simp add: asm_words_def w_def)
  note e = asmout_words [OF this]
  let ?R = "(regs s)(a_reg (p_to p) := v, 15 := regs s 15 + 4)"
  have "runs_to h sys s (le_bytes w) ?R" using zero_extend_runs [OF assms(5,3,4), of h sys] v by (simp add: w_def)
  then have "runs_n h sys 1 s (le_bytes w) ?R"
    using runs_n_1 [of h sys s w ?R] assms(6) by simp
  with e t show ?thesis by (intro exI [of _ "le_bytes w"]) simp
qed

theorem extension_code_runs_witness:
  "\<exists>t. run_n demo_host [] 2 (code_machine (emitted (demo_prog AMOVB (reg_adr 1) R_NONE (reg_adr 2)) (demo_op 14 8)) (\<lambda>_. 0x1ff)) =
    (Inr (), t) \<and> regs t 2 = - 1 \<and> regs t 15 = 0x1008"
proof -
  let ?p = "demo_prog AMOVB (reg_adr 1) R_NONE (reg_adr 2)" and ?o = "demo_op 14 8"
  let ?m = "code_machine (emitted ?p ?o) (\<lambda>_. 0x1ff)"
  have "p_scond ?p = 14" "a_type (p_to ?p) = D_REG" "a_reg (p_to ?p) < 15" "a_reg (p_from ?p) < 15"
    "uint (regs ?m 15) + 8 < 2 ^ 32"
    "o_type ?o = 14 \<and> o_size ?o = 8 \<and> (2 :: nat) = 2" "extended (p_as ?p) (regs ?m (a_reg (p_from ?p))) = Some (- 1)"
    by (simp_all add: demo_defs code_machine_regs extended_def)
  from extension_code_runs [where h = demo_host and sys = "[]" and l = demo_lnk,
      OF this(1,2,3,4) code_machine_ready this(5) disjI1 [OF this(6)] this(7)]
  obtain code where c: "asmout ?p ?o demo_lnk = (Inr (), demo_lnk\<lparr>obuf := obuf demo_lnk @ code\<rparr>)" "length code = 4 * 2"
    "runs_n demo_host [] 2 ?m code ((regs ?m)(a_reg (p_to ?p) := - 1, 15 := regs ?m 15 + of_nat (4 * 2)))" by blast
  have "emitted ?p ?o = code" by (rule emittedI [OF c(1)]) simp
  with c(2,3) code_machine_holds [of code] show ?thesis by (auto simp: runs_n_def code_machine_regs demo_defs)
qed

section \<open>Loads and stores\<close>

text \<open>
  A memory operand \<^verbatim>\<open>O(R)\<close>, a local or a parameter; \<open>operand_off\<close> is the offset from its base register.
\<close>

definition mem_operand :: "adr \<Rightarrow> bool" where
  "mem_operand a \<longleftrightarrow> a_type a = D_OREG \<and> a_symkind a \<in> {N_NONE, N_LOCAL, N_PARAM}"

definition operand_off :: "adr \<Rightarrow> lnk \<Rightarrow> u64" where
  "operand_off a l = (case a_symkind a of N_NONE \<Rightarrow> a_offset a | N_LOCAL \<Rightarrow> autosize l + a_offset a
     | _ \<Rightarrow> autosize l + 4 + a_offset a)"

lemma aclass_mem: "mem_operand a \<Longrightarrow> \<exists>c. aclass a l = (Inr c, l\<lparr>instoffset := operand_off a l\<rparr>)"
  by (auto simp: mem_operand_def operand_off_def aclass_def set_off_def seq_def)

lemma small_offset:
  fixes v :: u64
  assumes "- 4096 < sint v" and "sint v < 4096"
  shows "unat (mag v) < 4096" "(if sint v \<ge> 0 then ucast (mag v) else - ucast (mag v)) = (ucast v :: u32)"
    "(scast (ucast v :: u32) :: u64) = v"
proof -
  have "uint (mag v) = \<bar>sint v\<bar>" using uint_abs [of v] by (simp add: mag_def)
  then have "int (unat (mag v)) = \<bar>sint v\<bar>" by (simp only: uint_nat)
  then show "unat (mag v) < 4096" using assms by linarith
  have "(ucast (- v) :: u32) = - ucast v" using ucast_down(2) [of 0 v] by simp
  then show "(if sint v \<ge> 0 then ucast (mag v) else - ucast (mag v)) = (ucast v :: u32)" by (simp add: mag_def)
  have v: "v = word_of_int (sint v)" by simp
  have "(ucast v :: u32) = word_of_int (sint v)" by (subst v) (rule ucast_of_int)
  then show "(scast (ucast v :: u32) :: u64) = v" using scast_in_range [of "sint v"] assms v by simp
qed

lemma bit_small_word: "unat x < 2 ^ k \<Longrightarrow> k \<le> n \<Longrightarrow> \<not> bit x n" for x :: "'a::len word"
  using unat_less_exp_iff [of x k] by blast

definition ldr_bits :: "bool \<Rightarrow> bool \<Rightarrow> bool \<Rightarrow> nat \<Rightarrow> nat \<Rightarrow> u32 \<Rightarrow> u32" where
  "ldr_bits up byte ld b rt m = sh 14 28 OR sh 1 24 OR sh 1 26 OR set_if ld (sh 1 20) OR set_if up (sh 1 23)
     OR set_if byte (sh 1 22) OR sh b 16 OR sh rt 12 OR m"

lemma bit_sh_1: "bit (sh 1 k) n \<longleftrightarrow> n = k \<and> n < 32" "bit (sh (Suc 0) k) n \<longleftrightarrow> n = k \<and> n < 32"
  using bit_1_iff [of "n - k", where ?'a = nat] by (auto simp: bit_sh)

lemma bit_set_if: "bit (set_if c w) n \<longleftrightarrow> c \<and> bit w n"
  by (simp add: set_if_def)

lemma ldr_fields:
  fixes up byte ld :: bool and b rt :: nat and m :: u32
  assumes "b < 16" "rt < 16" "unat m < 4096"
  defines "w \<equiv> ldr_bits up byte ld b rt m"
  shows "fld 28 w = 14" "fld 16 w = b" "fld 12 w = rt" "\<not> bit w 25" "bit w 24" "\<not> bit w 21" "bit w 23 = up" "bit w 22 = byte" "bit w 20 = ld"
    "arm_class w \<in> {70 ..< 78}" "w AND 0xfff = m"
proof -
  have m: "\<not> bit m n" if "12 \<le> n" for n using bit_small_word [of m 12 n] assms(3) that by simp
  note bits = ldr_bits_def bit_or_iff bit_sh_1 bit_set_if bit_sh bit_small bit_0 m
  show "fld 28 w = 14" "fld 16 w = b" "fld 12 w = rt" unfolding w_def by (rule fldI; simp add: assms bits)+
  show "\<not> bit w 25" "bit w 24" "\<not> bit w 21" "bit w 23 = up" "bit w 22 = byte" "bit w 20 = ld"
    by (simp_all add: w_def assms bits)
  have "bit w 26" "\<not> bit w 27" by (simp_all add: w_def assms bits)
  then show "arm_class w \<in> {70 ..< 78}" by (rule class_transfer)
  have k: "(0xfff :: u32) = mask 12" by (simp add: mask_eq_exp_minus_1)
  show "w AND 0xfff = m" unfolding k
  proof (rule bit_word_eqI)
    fix n assume "n < LENGTH(32)"
    show "bit (w AND mask 12) n = bit m n"
    proof (cases "n < 12")
      case True
      then show ?thesis by (simp add: w_def bit_and_iff bit_mask_iff bits)
    next
      case False
      then show ?thesis using m [of n] by (simp add: bit_and_iff bit_mask_iff)
    qed
  qed
qed

lemma olr_word:
  assumes "- 4096 < sint v" and "sint v < 4096" and "a \<in> {AMOVW, AMOVB, AMOVBU}"
  shows "olr a 14 v b rt l = (Inr (ldr_bits (sint v \<ge> 0) (a \<noteq> AMOVW) True b rt (ucast (mag v))), l)"
proof -
  have u: "unat (mag v) < 4096" by (rule small_offset(1) [OF assms(1,2)])
  then have "\<not> bit (mag v) 63" using bit_small_word [of "mag v" 12 63] by simp
  then have "sint (mag v) = uint (mag v)" using sint_eq_uint_bit [of "mag v"] by simp
  moreover have "uint (mag v) = \<bar>sint v\<bar>" using uint_abs [of v] by (simp add: mag_def)
  ultimately have "sint (mag v) < 4096" using assms(1,2) by linarith
  then have sp: "(2 ^ 12 \<le> sint (mag v)) = False" by simp
  have mb: "mode_bits 14 = sh 14 28 OR sh 1 24" by (simp add: mode_bits_def cond_bits_def set_if_def sh_def)
  have z: "((14 :: u32) AND C_SBIT \<noteq> 0) = False" "((14 :: u32) AND C_UBIT \<noteq> 0) = False" by simp_all
  have k: "(a \<noteq> AMOVB \<and> a \<noteq> AMOVBU \<and> a \<noteq> AMOVW) = False" "(a = AMOVB \<or> a = AMOVBU) = (a \<noteq> AMOVW)"
    using assms(3) by auto
  have t: "set_if True x = x" for x by (simp add: set_if_def)
  show ?thesis
    unfolding olr_def seq_def Let_def z sp k onlyif_False bind_ret_fun ret_simp mb ldr_bits_def t or.assoc ..
qed

lemma osr_word:
  assumes "- 4096 < sint v" and "sint v < 4096" and "a \<in> {AMOVW, AMOVB, AMOVBU}" and "b < 16" "rt < 16"
  shows "osr a 14 rt v b l = (Inr (ldr_bits (sint v \<ge> 0) (a \<noteq> AMOVW) False b rt (ucast (mag v))), l)"
proof -
  have "unat (ucast (mag v) :: u32) < 4096" using small_offset(1) [OF assms(1,2)] by (simp add: unsigned_ucast_eq take_bit_nat_eq_self)
  then have m: "\<not> bit (ucast (mag v) :: u32) n" if "12 \<le> n" for n using bit_small_word [of _ 12 n] that by simp
  have "ldr_bits up byte True b rt (ucast (mag v)) XOR sh 1 20 = ldr_bits up byte False b rt (ucast (mag v))" for up byte
  proof (rule bit_word_eqI)
    fix n assume "n < LENGTH(32)"
    show "bit (ldr_bits up byte True b rt (ucast (mag v)) XOR sh 1 20) n = bit (ldr_bits up byte False b rt (ucast (mag v))) n"
    proof (cases "n = 20")
      case True
      then show ?thesis
        by (simp add: ldr_bits_def bit_or_iff bit_xor_iff bit_sh_1 bit_set_if bit_sh bit_small bit_0 assms(4,5) m)
    next
      case False
      then show ?thesis by (auto simp: ldr_bits_def bit_or_iff bit_xor_iff bit_sh_1 bit_set_if)
    qed
  qed
  then show ?thesis by (simp add: osr_def olr_word [OF assms(1-3)] bind_def)
qed

text \<open>The transfer that a word \<open>ldr_bits\<close> with offset \<open>v\<close> from register \<open>b\<close> makes.\<close>

lemma ldr_bits_ea:
  fixes v :: u64 and byte ld :: bool
  assumes "- 4096 < sint v" and "sint v < 4096" and "b < 16" "rt < 16"
  defines "w \<equiv> ldr_bits (sint v \<ge> 0) byte ld b rt (ucast (mag v))"
  shows "ea w s = ucast (regs s b) + v" "write_back w R = R" "arm_class w \<in> {70 ..< 78}" "fld 28 w = 14" "fld 16 w = b"
    "fld 12 w = rt" "\<not> bit w 25" "bit w 22 = byte" "bit w 20 = ld"
proof -
  have "unat (ucast (mag v) :: u32) < 4096"
    using small_offset(1) [OF assms(1,2)] by (simp add: unsigned_ucast_eq take_bit_nat_eq_self)
  note f = ldr_fields [OF assms(3,4) this, where up = "sint v \<ge> 0" and byte = byte and ld = ld, folded w_def]
  have "mem_off w = ucast v" using f small_offset(2) [OF assms(1,2)] by (simp add: mem_off_def split: if_splits)
  then show "ea w s = ucast (regs s b) + v" using f small_offset(3) [OF assms(1,2)] by (simp add: ea_def)
  show "write_back w R = R" using f by (simp add: write_back_def)
  show "arm_class w \<in> {70 ..< 78}" "fld 28 w = 14" "fld 16 w = b" "fld 12 w = rt" "\<not> bit w 25" "bit w 22 = byte" "bit w 20 = ld"
    using f by blast+
qed

lemma keeps_bp: "keeps sane m \<Longrightarrow> m u = (r, t) \<Longrightarrow> bplist u = [] \<Longrightarrow> bplist t = []"
  using keepsD [of sane m u r t] by (simp add: sane_def counts_def)

lemma loaded_runs:
  assumes "ready s" and "- 4096 < sint v" and "sint v < 4096" and "b < 15" "rt < 15"
    and g: "\<And>u. same_machine h s u \<Longrightarrow> \<exists>u'. getmem_w h (ucast (regs s b) + v) u = (Inr x, u') \<and> transparent h u u'"
  shows "runs_to h sys s (le_bytes (ldr_bits (sint v \<ge> 0) False True b rt (ucast (mag v))))
    ((regs s)(rt := x, 15 := regs s 15 + 4))"
proof -
  let ?w = "ldr_bits (sint v \<ge> 0) False True b rt (ucast (mag v))" and ?R = "(regs s)(rt := x)"
  have "b < 16" "rt < 16" using assms by simp_all
  note f = ldr_bits_ea [OF assms(2,3) this, where byte = False and ld = True]
  have "\<exists>t. itab h sys (arm_class ?w) ?w u = (Inr (), t) \<and>
      wf_mem t \<and> regs t = ?R \<and> mview h t = mview h s \<and> membpt t = 0 \<and> bplist t = []" if u: "same_machine h s u" for u
  proof -
    have r: "regs u = regs s" "mview h u = mview h s" "wf_mem u" "membpt u = 0" "bplist u = []"
      using u assms(1) by (simp_all add: same_machine_def ready_def)
    have "ea ?w u = ucast (regs s b) + v" using f(1) [of u] r by simp
    then obtain u' where "getmem_w h (ea ?w u) u = (Inr x, u')" "transparent h u u'" using g [OF u] by auto
    with ldr_loaded [of ?w u h x u'] f r assms(4,5)
    obtain t where t: "Imem1 h ?w u = (Inr (), t)" "wf_mem t" "mview h t = mview h u" "regs t = ?R" "membpt t = membpt u"
      by auto
    have "bplist t = []" using keeps_bp [OF sane_memory(2) t(1) r(5)] .
    then show ?thesis using t r itab_class(5) [OF f(3), of h sys] by simp
  qed
  moreover have "?R 15 = regs s 15" "regs s 15 AND 3 = 0" using assms(1,5) by (simp_all add: ready_def)
  ultimately show ?thesis unfolding runs_to_def
    using step_machine [OF assms(1) _ f(4), of h sys ?R "mview h s"] holds_word [of h s "ucast (regs s 15)" ?w]
    by (metis (no_types, lifting))
qed

lemma store_runs:
  assumes "ready s" and "- 4096 < sint v" and "sint v < 4096" and "b < 15" "rt < 15"
    and "(ucast (regs s b) + v) AND 3 = 0" and "mview h s (ucast (regs s b) + v) \<noteq> None"
    and "holds h s (ucast (regs s 15)) (le_bytes (ldr_bits (sint v \<ge> 0) False False b rt (ucast (mag v))))"
  shows "\<exists>t. run_step h sys s = (Inr (), t) \<and> ready t \<and> regs t = (regs s)(15 := regs s 15 + 4) \<and>
    mview h t = mstore_w (mview h s) (ucast (regs s b) + v) (ucast (regs s rt))"
proof -
  let ?w = "ldr_bits (sint v \<ge> 0) False False b rt (ucast (mag v))"
  have "b < 16" "rt < 16" using assms by simp_all
  note f = ldr_bits_ea [OF assms(2,3) this, where byte = False and ld = False]
  let ?M = "mstore_w (mview h s) (ucast (regs s b) + v) (ucast (regs s rt))"
  have "\<exists>t. itab h sys (arm_class ?w) ?w u = (Inr (), t) \<and>
      wf_mem t \<and> regs t = regs s \<and> mview h t = ?M \<and> membpt t = 0 \<and> bplist t = []" if u: "same_machine h s u" for u
  proof -
    have r: "regs u = regs s" "mview h u = mview h s" "wf_mem u" "membpt u = 0" "bplist u = []"
      using u assms(1) by (simp_all add: same_machine_def ready_def)
    have e: "ea ?w u = ucast (regs s b) + v" using f(1) [of u] r by simp
    have "\<exists>t. Imem1 h ?w u = (Inr (), t) \<and> wf_mem t \<and> regs t = regs s \<and> mview h t = ?M \<and> membpt t = 0"
      using str_word [of ?w u h] f r e assms(4-7) by simp
    then obtain t where t: "Imem1 h ?w u = (Inr (), t)" "wf_mem t" "regs t = regs s" "mview h t = ?M" "membpt t = 0" by blast
    have "bplist t = []" using keeps_bp [OF sane_memory(2) t(1) r(5)] .
    then show ?thesis using t itab_class(5) [OF f(3), of h sys] by simp
  qed
  moreover have "regs s 15 AND 3 = 0" using assms(1) by (simp add: ready_def)
  ultimately show ?thesis
    using step_machine [OF assms(1) holds_word [OF assms(8)] f(4), of sys "regs s" ?M] by auto
qed

lemma aligned_load:
  assumes "a AND 3 = 0" and "mword h s a = Some x" and "same_machine h s u"
  shows "\<exists>u'. getmem_w h a u = (Inr x, u') \<and> transparent h u u'"
proof -
  have r: "mview h u = mview h s" "wf_mem u" using assms(3) by (simp_all add: same_machine_def)
  then have "mword h u a = Some x" using assms(2) by (simp add: mword_def)
  moreover obtain b where "mview h u a = Some b"
    using assms(2) r(1) by (auto simp: mword_def split: option.splits)
  ultimately show ?thesis using getmem_w_ok [OF r(2) assms(1)] by fastforce
qed

text \<open>\<open>mem_at p ot l a r\<close>: operand \<open>a\<close> of \<open>p\<close> is in memory near its base register, \<open>r\<close> is the other register.\<close>

definition mem_at :: "prog \<Rightarrow> optab \<Rightarrow> lnk \<Rightarrow> adr \<Rightarrow> nat \<Rightarrow> bool" where
  "mem_at p ot l a r \<longleftrightarrow> p_scond p = 14 \<and> mem_operand a \<and> base_reg a ot < 15 \<and> r < 15 \<and>
     - 4096 < sint (operand_off a l) \<and> sint (operand_off a l) < 4096"

definition mem_addr :: "adr \<Rightarrow> optab \<Rightarrow> lnk \<Rightarrow> arm \<Rightarrow> u64" where
  "mem_addr a ot l s = ucast (regs s (base_reg a ot)) + operand_off a l"

text \<open>
  The word for \<^verbatim>\<open>MOVW\<close> from memory (rule type 21: a register and an offset of at most twelve bits in
  either direction, an automatic variable or a parameter) loads the little-endian word at the
  operand's address.
\<close>

theorem load_code_runs:
  assumes "mem_at p ot l (p_from p) (a_reg (p_to p))" and "p_as p = AMOVW" and "o_type ot = 21" and "o_size ot = 4"
    and "ready s" and "mem_addr (p_from p) ot l s AND 3 = 0" and "mword h s (mem_addr (p_from p) ot l s) = Some x"
  shows "\<exists>code l'. asmout p ot l = (Inr (), l') \<and> obuf l' = obuf l @ code \<and> errs l' = errs l \<and> length code = 4 \<and>
    runs_to h sys s code ((regs s)(a_reg (p_to p) := x, 15 := regs s 15 + 4))"
proof -
  let ?v = "operand_off (p_from p) l" and ?b = "base_reg (p_from p) ot" and ?rt = "a_reg (p_to p)"
  have m: "mem_operand (p_from p)" "?b < 15" "?rt < 15" "- 4096 < sint ?v" "sint ?v < 4096" "p_scond p = 14"
    using assms(1) by (simp_all add: mem_at_def)
  define w where "w = ldr_bits (sint ?v \<ge> 0) False True ?b ?rt (ucast (mag ?v))"
  let ?l = "l\<lparr>instoffset := ?v\<rparr>"
  obtain c where "aclass (p_from p) l = (Inr c, ?l)" using aclass_mem [OF m(1), of l] by blast
  then have "asm_words p ot l = (Inr [w], ?l)"
    using assms(2,3) m(6) olr_word [OF m(4,5), of AMOVW ?b ?rt ?l]
    by (simp add: asm_words_def asm_21_def seq_def bind_def w_def)
  from asmout_words [OF this] have e: "asmout p ot l = (Inr (), ?l\<lparr>obuf := obuf ?l @ le_bytes w\<rparr>)" using assms(4) by simp
  have "runs_to h sys s (le_bytes w) ((regs s)(?rt := x, 15 := regs s 15 + 4))"
    unfolding w_def using loaded_runs [OF assms(5) m(4,5,2,3), of h x sys] aligned_load [OF assms(6,7)]
    by (simp add: mem_addr_def)
  with e show ?thesis by (intro exI [of _ "le_bytes w"] exI [of _ "?l\<lparr>obuf := obuf ?l @ le_bytes w\<rparr>"]) simp
qed

theorem load_code_runs_witness:
  "\<exists>t. run_step demo_host [] (code_machine (emitted (demo_prog AMOVW (mem_adr 1 (- 8)) R_NONE (reg_adr 2)) (demo_op 21 4)) (\<lambda>_. 0x1808)) =
    (Inr (), t) \<and> regs t 2 = 0 \<and> regs t 15 = 0x1004"
proof -
  let ?p = "demo_prog AMOVW (mem_adr 1 (- 8)) R_NONE (reg_adr 2)" and ?o = "demo_op 21 4"
  let ?m = "code_machine (emitted ?p ?o) (\<lambda>_. 0x1808)"
  have "mem_at ?p ?o demo_lnk (p_from ?p) (a_reg (p_to ?p))" "p_as ?p = AMOVW" "o_type ?o = 21" "o_size ?o = 4"
    and a: "mem_addr (p_from ?p) ?o demo_lnk ?m = 0x1800"
    by (simp_all add: mem_at_def mem_operand_def base_reg_def operand_off_def mem_adr_sel demo_defs mem_addr_def code_machine_regs)
  moreover have "mem_addr (p_from ?p) ?o demo_lnk ?m AND 3 = 0" "mword demo_host ?m (mem_addr (p_from ?p) ?o demo_lnk ?m) = Some 0"
    unfolding a using code_machine_demo [of 0] by simp_all
  ultimately obtain code l' where c: "asmout ?p ?o demo_lnk = (Inr (), l')" "obuf l' = obuf demo_lnk @ code" "length code = 4"
    and e: "runs_to demo_host [] ?m code ((regs ?m)(a_reg (p_to ?p) := 0, 15 := regs ?m 15 + 4))"
    using load_code_runs [OF _ _ _ _ code_machine_ready, where h = demo_host and sys = "[]" and l = demo_lnk] by blast
  with emittedI [OF c(1,2)] code_machine_holds [of code]
  show ?thesis by (auto simp: runs_to_def code_machine_regs demo_defs)
qed

text \<open>
  The word for \<^verbatim>\<open>MOVW\<close> to memory (rule type 20) stores the register at the operand's address, in
  the flat view of memory, and changes nothing else.
\<close>

theorem store_code_runs:
  assumes "mem_at p ot l (p_to p) (a_reg (p_from p))" and "p_as p = AMOVW" and "o_type ot = 20" and "o_size ot = 4"
    and "ready s" and "mem_addr (p_to p) ot l s AND 3 = 0" and "mview h s (mem_addr (p_to p) ot l s) \<noteq> None"
  shows "\<exists>code l'. asmout p ot l = (Inr (), l') \<and> obuf l' = obuf l @ code \<and> errs l' = errs l \<and> length code = 4 \<and>
    (holds h s (ucast (regs s 15)) code \<longrightarrow>
      (\<exists>t. run_step h sys s = (Inr (), t) \<and> ready t \<and> regs t = (regs s)(15 := regs s 15 + 4) \<and>
        mview h t = mstore_w (mview h s) (mem_addr (p_to p) ot l s) (ucast (regs s (a_reg (p_from p))))))"
proof -
  let ?v = "operand_off (p_to p) l" and ?b = "base_reg (p_to p) ot" and ?rt = "a_reg (p_from p)"
  have m: "mem_operand (p_to p)" "?b < 15" "?rt < 15" "- 4096 < sint ?v" "sint ?v < 4096" "p_scond p = 14"
    using assms(1) by (simp_all add: mem_at_def)
  define w where "w = ldr_bits (sint ?v \<ge> 0) False False ?b ?rt (ucast (mag ?v))"
  let ?l = "l\<lparr>instoffset := ?v\<rparr>"
  obtain c where "aclass (p_to p) l = (Inr c, ?l)" using aclass_mem [OF m(1), of l] by blast
  then have "asm_words p ot l = (Inr [w], ?l)"
    using assms(2,3) m(2,3,6) osr_word [OF m(4,5), of AMOVW ?b ?rt ?l]
    by (simp add: asm_words_def asm_20_def seq_def bind_def w_def)
  from asmout_words [OF this] have e: "asmout p ot l = (Inr (), ?l\<lparr>obuf := obuf ?l @ le_bytes w\<rparr>)" using assms(4) by simp
  note st = store_runs [OF assms(5) m(4,5,2,3), of h sys, folded w_def]
  show ?thesis
    by (intro exI [of _ "le_bytes w"] exI [of _ "?l\<lparr>obuf := obuf ?l @ le_bytes w\<rparr>"])
      (use e st assms(6,7) in \<open>simp add: mem_addr_def\<close>)
qed

theorem store_code_runs_witness:
  "\<exists>t. run_step demo_host [] (code_machine (emitted (demo_prog AMOVW (reg_adr 2) R_NONE (mem_adr 1 4)) (demo_op 20 4)) (\<lambda>_. 0x1808)) =
    (Inr (), t) \<and> mview demo_host t 0x180c = Some 8 \<and> mview demo_host t 0x180d = Some 0x18"
proof -
  let ?p = "demo_prog AMOVW (reg_adr 2) R_NONE (mem_adr 1 4)" and ?o = "demo_op 20 4"
  let ?m = "code_machine (emitted ?p ?o) (\<lambda>_. 0x1808)"
  have "mem_at ?p ?o demo_lnk (p_to ?p) (a_reg (p_from ?p))" "p_as ?p = AMOVW" "o_type ?o = 20" "o_size ?o = 4"
    and a: "mem_addr (p_to ?p) ?o demo_lnk ?m = 0x180c"
    by (simp_all add: mem_at_def mem_operand_def base_reg_def operand_off_def mem_adr_sel demo_defs mem_addr_def code_machine_regs)
  moreover have "mem_addr (p_to ?p) ?o demo_lnk ?m AND 3 = 0" "mview demo_host ?m (mem_addr (p_to ?p) ?o demo_lnk ?m) \<noteq> None"
    unfolding a using code_machine_demo [of 12] by simp_all
  ultimately obtain code l' where c: "asmout ?p ?o demo_lnk = (Inr (), l')" "obuf l' = obuf demo_lnk @ code" "length code = 4"
    and e: "holds demo_host ?m (ucast (regs ?m 15)) code \<longrightarrow>
      (\<exists>t. run_step demo_host [] ?m = (Inr (), t) \<and> ready t \<and> regs t = (regs ?m)(15 := regs ?m 15 + 4) \<and>
        mview demo_host t = mstore_w (mview demo_host ?m) (mem_addr (p_to ?p) ?o demo_lnk ?m) (ucast (regs ?m (a_reg (p_from ?p)))))"
    using store_code_runs [OF _ _ _ _ code_machine_ready, where h = demo_host and sys = "[]" and l = demo_lnk] by blast
  with emittedI [OF c(1,2)] code_machine_holds [of code] a
  show ?thesis by (auto simp: code_machine_regs demo_defs mstore_w_def)
qed

section \<open>Bytes and half words through the word load\<close>

text \<open>What a sub-word load returns: the byte, or the half word at an even address, extended.\<close>

definition sub_value :: "host \<Rightarrow> arm \<Rightarrow> u64 \<Rightarrow> nat \<Rightarrow> u32 option" where
  "sub_value h s a op =
     (if op = AMOVB then map_option scast (mview h s a)
      else if a AND 1 \<noteq> 0 then None
      else if op = AMOVH then map_option scast (mhalf h s a)
      else if op = AMOVHU then map_option ucast (mhalf h s a) else None)"

lemma addr_parts:
  fixes a :: u64
  obtains k where "k < 4" "unat (a AND 3) = k" "a = (a AND NOT 3) + of_nat k" "a AND 1 = 0 \<longleftrightarrow> even k"
proof
  have m: "(3 :: u64) = mask 2" by (simp add: mask_eq_exp_minus_1)
  let ?k = "unat (a AND 3)"
  show "unat (a AND 3) = ?k" ..
  show "?k < 4" using unat_and_le [of a 3] by simp
  have "a = (a AND NOT 3) + (a AND 3)"
    by (subst disjunctive_add) (auto simp: bit_simps bit_eq_iff m)
  then show "a = (a AND NOT 3) + of_nat ?k" by simp
  have "a AND 1 = 0 \<longleftrightarrow> even a" by (simp add: and_one_eq even_iff_mod_2_eq_zero)
  also have "\<dots> \<longleftrightarrow> even (a AND 3)" by (simp add: even_and_iff)
  also have "\<dots> \<longleftrightarrow> even ?k" by (metis bit_0 bit_unsigned_iff possible_bit_nat)
  finally show "a AND 1 = 0 \<longleftrightarrow> even ?k" .
qed

lemma rotated_bits:
  fixes w :: u32
  assumes "j + 8 * k < 32"
  shows "bit (word_rotr (8 * k) w) j = bit w (8 * k + j)"
  using assms by (simp add: bit_word_rotr_iff add.commute)

lemma word_le_byte:
  "j < 8 \<Longrightarrow> bit (word_le b0 b1 b2 b3) j = bit b0 j" "j < 8 \<Longrightarrow> bit (word_le b0 b1 b2 b3) (8 + j) = bit b1 j"
  "j < 8 \<Longrightarrow> bit (word_le b0 b1 b2 b3) (16 + j) = bit b2 j" "j < 8 \<Longrightarrow> bit (word_le b0 b1 b2 b3) (24 + j) = bit b3 j"
  by (auto simp: word_le_def bit_simps dest: bit_imp_le_length)

lemma any_load:
  assumes "mword h s (a AND NOT 3) = Some w" and "same_machine h s u"
  shows "\<exists>u'. getmem_w h a u = (Inr (word_rotr (8 * unat (a AND 3)) w), u') \<and> transparent h u u'"
proof -
  have al: "(a AND NOT 3) AND 3 = 0" by (rule bit_word_eqI) (auto simp: bit_simps)
  obtain u' where u': "getmem_w h (a AND NOT 3) u = (Inr w, u')" "transparent h u u'"
    using aligned_load [OF al assms] by blast
  show ?thesis
  proof (cases "a AND 3 = 0")
    case True
    obtain k where k: "unat (a AND 3) = k" "a = (a AND NOT 3) + of_nat k" by (rule addr_parts [of a])
    have z: "of_nat k = (0 :: u64)" using k(1) True by simp
    have "a AND NOT 3 = a" using k(2) [symmetric] by (simp only: z add_0_right)
    then show ?thesis using u' by (simp only: True unat_0 mult_0_right word_rotr_0) blast
  next
    case False
    then show ?thesis using u' getmem_w_unaligned [OF False, of h u] by (simp add: bind_def)
  qed
qed

lemma mword_bytes:
  assumes "mword h s a = Some w"
  obtains b0 b1 b2 b3 where "mview h s a = Some b0" "mview h s (a + 1) = Some b1" "mview h s (a + 2) = Some b2"
    "mview h s (a + 3) = Some b3" "w = word_le b0 b1 b2 b3"
  using assms by (auto simp: mword_def split: option.splits)

lemma low_byte:
  assumes "mword h s (a AND NOT 3) = Some w"
  shows "mview h s a = Some (ucast (word_rotr (8 * unat (a AND 3)) w))"
proof -
  obtain k where k: "k < 4" "unat (a AND 3) = k" "a = (a AND NOT 3) + of_nat k" by (rule addr_parts [of a])
  obtain b0 b1 b2 b3 where b: "mview h s (a AND NOT 3) = Some b0" "mview h s ((a AND NOT 3) + 1) = Some b1"
      "mview h s ((a AND NOT 3) + 2) = Some b2" "mview h s ((a AND NOT 3) + 3) = Some b3" "w = word_le b0 b1 b2 b3"
    by (rule mword_bytes [OF assms])
  have "mview h s ((a AND NOT 3) + of_nat k) = Some ([b0, b1, b2, b3] ! k)"
    using k(1) b by (auto simp: less_Suc_eq numeral_eq_Suc)
  then have "mview h s a = Some ([b0, b1, b2, b3] ! k)" by (simp only: k(3) [symmetric])
  moreover have "(ucast (word_rotr (8 * k) w) :: u8) = [b0, b1, b2, b3] ! k"
  proof (rule bit_word_eqI)
    fix j assume j: "j < LENGTH(8)"
    then have "bit (word_rotr (8 * k) w) j = bit w (8 * k + j)" using k(1) by (intro rotated_bits) simp
    moreover have "k \<in> {0, 1, 2, 3}" using k(1) by auto
    ultimately show "bit (ucast (word_rotr (8 * k) w) :: u8) j = bit ([b0, b1, b2, b3] ! k) j"
      using j b(5) word_le_byte [of j b0 b1 b2 b3] by (auto simp: bit_ucast_iff)
  qed
  ultimately show ?thesis using k(2) by simp
qed

lemma low_half:
  assumes "mword h s (a AND NOT 3) = Some w" and "a AND 1 = 0"
  shows "mhalf h s a = Some (ucast (word_rotr (8 * unat (a AND 3)) w))"
proof -
  obtain k where k: "k < 4" "unat (a AND 3) = k" "a = (a AND NOT 3) + of_nat k" "a AND 1 = 0 \<longleftrightarrow> even k"
    by (rule addr_parts [of a])
  have "even k" using k(4) assms(2) by simp
  with k(1) have k02: "k = 0 \<or> k = 2" by presburger
  obtain b0 b1 b2 b3 where b: "mview h s (a AND NOT 3) = Some b0" "mview h s ((a AND NOT 3) + 1) = Some b1"
      "mview h s ((a AND NOT 3) + 2) = Some b2" "mview h s ((a AND NOT 3) + 3) = Some b3" "w = word_le b0 b1 b2 b3"
    by (rule mword_bytes [OF assms(1)])
  define H where "H = (push_bit 8 (ucast ([b0, b1, b2, b3] ! (k + 1))) OR ucast ([b0, b1, b2, b3] ! k) :: u16)"
  have "mhalf h s ((a AND NOT 3) + of_nat k) = Some H"
    using k02 b by (elim disjE) (simp_all add: mhalf_def add.assoc H_def)
  then have "mhalf h s a = Some H" by (simp only: k(3) [symmetric])
  moreover have "(ucast (word_rotr (8 * k) w) :: u16) = H"
  proof (rule bit_word_eqI)
    fix j assume j: "j < LENGTH(16)"
    then have r: "bit (word_rotr (8 * k) w) j = bit w (8 * k + j)" using k02 by (intro rotated_bits) auto
    show "bit (ucast (word_rotr (8 * k) w) :: u16) j = bit H j"
    proof (cases "j < 8")
      case True
      then show ?thesis
        using j r b(5) k02 word_le_byte [of j b0 b1 b2 b3] by (auto simp: bit_simps H_def)
    next
      case False
      define i where "i = j - 8"
      have i: "j = 8 + i" "i < 8" using False j by (simp_all add: i_def)
      then show ?thesis
        using r b(5) k02 word_le_byte [of i b0 b1 b2 b3] by (auto simp: bit_simps H_def dest: bit_imp_le_length)
    qed
  qed
  ultimately show ?thesis using k(2) by simp
qed

lemma sub_value_low:
  assumes "mword h s (a AND NOT 3) = Some w" and "sub_value h s a op = Some v"
  shows "extended op (word_rotr (8 * unat (a AND 3)) w) = Some v"
  using assms(2) low_byte [OF assms(1)] low_half [OF assms(1)]
  by (auto simp: sub_value_def extended_def split: if_splits)

lemma asm_22_words:
  assumes "mem_at p ot l (p_from p) (a_reg (p_to p))" and "p_as p \<in> {AMOVB, AMOVH, AMOVHU}"
  shows "asm_22 p ot l = (Inr [ldr_bits (sint (operand_off (p_from p) l) \<ge> 0) False True (base_reg (p_from p) ot) (a_reg (p_to p))
      (ucast (mag (operand_off (p_from p) l))),
    shift_word 0 (ext_size (p_as p)) (a_reg (p_to p)) (a_reg (p_to p)),
    shift_word (ext_shift (p_as p)) (ext_size (p_as p)) (a_reg (p_to p)) (a_reg (p_to p))],
    l\<lparr>instoffset := operand_off (p_from p) l\<rparr>)"
proof -
  let ?l = "l\<lparr>instoffset := operand_off (p_from p) l\<rparr>"
  have m: "mem_operand (p_from p)" "p_scond p = 14" "- 4096 < sint (operand_off (p_from p) l)" "sint (operand_off (p_from p) l) < 4096"
    using assms(1) by (simp_all add: mem_at_def)
  obtain c where c: "aclass (p_from p) l = (Inr c, ?l)" using aclass_mem [OF m(1), of l] by blast
  have sz: "ext_size (p_as p) = (if p_as p = AMOVB then 24 else 16)" "ext_shift (p_as p) = (if p_as p = AMOVHU then 1 else 2)"
    using assms(2) by (auto simp: ext_size_def ext_shift_def)
  show ?thesis
    using c m(2) olr_word [OF m(3,4), of AMOVW "base_reg (p_from p) ot" "a_reg (p_to p)" ?l] oprrr_shift [of ?l] sz
    by (simp add: asm_22_def seq_def bind_def Let_def shift_word_def or.assoc)
qed

text \<open>
  C26: the three words for a signed byte or a half word load (rule type 22: a word load, whose result
  an unaligned address rotates, and two shifts) yield the extended byte or aligned half word.
\<close>

theorem subword_load_code_runs:
  assumes "mem_at p ot l (p_from p) (a_reg (p_to p))" and "p_as p \<in> {AMOVB, AMOVH, AMOVHU}" and "o_type ot = 22" and "o_size ot = 12"
    and "ready s" and "uint (regs s 15) + 12 < 2 ^ 32" and "mword h s (mem_addr (p_from p) ot l s AND NOT 3) \<noteq> None"
    and "sub_value h s (mem_addr (p_from p) ot l s) (p_as p) = Some v"
  shows "\<exists>code l'. asmout p ot l = (Inr (), l') \<and> obuf l' = obuf l @ code \<and> errs l' = errs l \<and> length code = 12 \<and>
    runs_n h sys 3 s code ((regs s)(a_reg (p_to p) := v, 15 := regs s 15 + 12))"
proof -
  let ?v = "operand_off (p_from p) l" and ?b = "base_reg (p_from p) ot" and ?rt = "a_reg (p_to p)" and ?a = "mem_addr (p_from p) ot l s"
  obtain w where w: "mword h s (?a AND NOT 3) = Some w" using assms(7) by blast
  define x where "x = word_rotr (8 * unat (?a AND 3)) w"
  have m: "?b < 15" "?rt < 15" "- 4096 < sint ?v" "sint ?v < 4096" using assms(1) by (simp_all add: mem_at_def)
  define w1 w2 w3 where "w1 = ldr_bits (sint ?v \<ge> 0) False True ?b ?rt (ucast (mag ?v))"
    and "w2 = shift_word 0 (ext_size (p_as p)) ?rt ?rt" and "w3 = shift_word (ext_shift (p_as p)) (ext_size (p_as p)) ?rt ?rt"
  let ?l = "l\<lparr>instoffset := ?v\<rparr>"
  have "asm_words p ot l = (Inr [w1, w2, w3], ?l)"
    using assms(3) asm_22_words [OF assms(1,2)] by (simp add: asm_words_def w1_def w2_def w3_def)
  from asmout_words [OF this] have e: "asmout p ot l = (Inr (), ?l\<lparr>obuf := obuf ?l @ le_bytes w1 @ le_bytes w2 @ le_bytes w3\<rparr>)"
    using assms(4) by simp
  let ?R1 = "(regs s)(?rt := x, 15 := regs s 15 + 4)" and ?R = "(regs s)(?rt := v, 15 := regs s 15 + 12)"
  have r1: "runs_to h sys s (le_bytes w1) ?R1"
    unfolding w1_def
    by (rule loaded_runs [OF assms(5) m(3,4,1,2)]) (rule any_load [OF w, folded x_def, unfolded mem_addr_def])
  have v: "extended (p_as p) x = Some v" unfolding x_def by (rule sub_value_low [OF w assms(8)])
  have "uint (regs s 15 + 4) + 8 < 2 ^ 32" using assms(6) by (simp add: uint_word_ariths)
  moreover have "?R1(?rt := v, 15 := ?R1 15 + 8) = ?R" by (rule ext) (simp add: add.assoc)
  ultimately have r2: "runs_n h sys 2 t (le_bytes w2 @ le_bytes w3) ?R" if "ready t" "regs t = ?R1" for t
    unfolding w2_def w3_def using extension_runs [OF that(1), of ?rt ?rt "p_as p" v h sys] v m(2) that(2) by simp
  have "runs_n h sys (Suc 2) s (le_bytes w1 @ le_bytes w2 @ le_bytes w3) ?R"
    by (rule runs_n_Suc [OF r1 _ _ r2]) (use assms(6) in simp_all)
  then have "runs_n h sys 3 s (le_bytes w1 @ le_bytes w2 @ le_bytes w3) ?R" by simp
  with e show ?thesis
    by (intro exI [of _ "le_bytes w1 @ le_bytes w2 @ le_bytes w3"] exI [of _ "?l\<lparr>obuf := obuf ?l @ le_bytes w1 @ le_bytes w2 @ le_bytes w3\<rparr>"]) simp
qed

theorem subword_load_code_runs_witness:
  "\<exists>t. run_n demo_host [] 3 (code_machine (emitted (demo_prog AMOVH (mem_adr 1 2) R_NONE (reg_adr 2)) (demo_op 22 12)) (\<lambda>_. 0x1800)) =
    (Inr (), t) \<and> regs t 2 = 0 \<and> regs t 15 = 0x100c"
proof -
  let ?p = "demo_prog AMOVH (mem_adr 1 2) R_NONE (reg_adr 2)" and ?o = "demo_op 22 12"
  let ?m = "code_machine (emitted ?p ?o) (\<lambda>_. 0x1800)"
  have "mem_at ?p ?o demo_lnk (p_from ?p) (a_reg (p_to ?p))" "p_as ?p \<in> {AMOVB, AMOVH, AMOVHU}" "o_type ?o = 22" "o_size ?o = 12"
    "uint (regs ?m 15) + 12 < 2 ^ 32" and a: "mem_addr (p_from ?p) ?o demo_lnk ?m = 0x1802"
    by (simp_all add: mem_at_def mem_operand_def base_reg_def operand_off_def mem_adr_sel demo_defs mem_addr_def code_machine_regs)
  moreover have "mword demo_host ?m (mem_addr (p_from ?p) ?o demo_lnk ?m AND NOT 3) \<noteq> None"
    "sub_value demo_host ?m (mem_addr (p_from ?p) ?o demo_lnk ?m) (p_as ?p) = Some 0"
    unfolding a using code_machine_demo [of 0] code_machine_demo(2) [of 2] code_machine_demo(2) [of 3]
    by (simp_all add: sub_value_def mhalf_def demo_defs)
  ultimately obtain code l' where c: "asmout ?p ?o demo_lnk = (Inr (), l')" "obuf l' = obuf demo_lnk @ code" "length code = 12"
    and e: "runs_n demo_host [] 3 ?m code ((regs ?m)(a_reg (p_to ?p) := 0, 15 := regs ?m 15 + 12))"
    using subword_load_code_runs [OF _ _ _ _ code_machine_ready, where h = demo_host and sys = "[]" and l = demo_lnk] by blast
  with emittedI [OF c(1,2)] code_machine_holds [of code]
  show ?thesis by (auto simp: runs_n_def code_machine_regs demo_defs)
qed

section \<open>Block transfers\<close>

text \<open>The words of \<^verbatim>\<open>MOVM.DB.W [regs], (Rb)\<close> and \<^verbatim>\<open>MOVM.IA.W (Rb), [regs]\<close>.\<close>

definition movm_word :: "bool \<Rightarrow> u16 \<Rightarrow> nat \<Rightarrow> u32" where
  "movm_word ld rl b = sh 4 25 OR set_if ld (sh 1 20) OR ucast rl OR sh b 16 OR sh 14 28
     OR set_if (\<not> ld) (sh 1 24) OR set_if ld (sh 1 23) OR sh 1 21"

lemma movm_fields:
  assumes "b < 16"
  shows "\<not> ld \<Longrightarrow> push_inst (movm_word ld rl b)" "ld \<Longrightarrow> pop_inst (movm_word ld rl b)" "fld 16 (movm_word ld rl b) = b"
    "fld 28 (movm_word ld rl b) = 14" "reg_list (movm_word ld rl b) = filter (bit rl) [0..<16]"
    "itab h sys (arm_class (movm_word ld rl b)) (movm_word ld rl b) = Ilsm h (movm_word ld rl b)"
proof -
  have r: "bit (ucast rl :: u32) n \<longleftrightarrow> n < 16 \<and> bit rl n" for n
    by (auto simp: bit_simps dest: bit_imp_le_length)
  note bits = movm_word_def bit_or_iff bit_sh_1 bit_set_if bit_sh bit_small bit_0 r
  show "\<not> ld \<Longrightarrow> push_inst (movm_word ld rl b)" "ld \<Longrightarrow> pop_inst (movm_word ld rl b)"
    using assms by (simp_all add: push_inst_def pop_inst_def bits)
  show "fld 16 (movm_word ld rl b) = b" "fld 28 (movm_word ld rl b) = 14" by (rule fldI; simp add: bits assms)+
  have k: "(0xffff :: u32) = mask 16" by (simp add: mask_eq_exp_minus_1)
  have "bit (movm_word ld rl b AND 0xffff) n = bit rl n" if "n < 16" for n
    unfolding k using that by (simp add: bit_and_iff bit_mask_iff bits)
  then show "reg_list (movm_word ld rl b) = filter (bit rl) [0..<16]"
    unfolding reg_list_def by (intro filter_cong) auto
  have "\<not> bit (movm_word ld rl b) 25" "\<not> bit (movm_word ld rl b) 26" "bit (movm_word ld rl b) 27"
    using assms by (simp_all add: bits)
  from class_block [OF this]
  show "itab h sys (arm_class (movm_word ld rl b)) (movm_word ld rl b) = Ilsm h (movm_word ld rl b)"
    by (simp only: itab_class(6))
qed

definition push_at :: "prog \<Rightarrow> u16 \<Rightarrow> nat \<Rightarrow> bool" where
  "push_at p rl b \<longleftrightarrow> p_scond p = 0x6e \<and> const_operand (p_from p) \<and> a_offset (p_from p) = ucast rl \<and>
     a_type (p_to p) = D_OREG \<and> a_symkind (p_to p) = N_NONE \<and> a_offset (p_to p) = 0 \<and> a_reg (p_to p) = b"

definition pop_at :: "prog \<Rightarrow> u16 \<Rightarrow> nat \<Rightarrow> bool" where
  "pop_at q rl b \<longleftrightarrow> p_scond q = 0xce \<and> const_operand (p_to q) \<and> a_offset (p_to q) = ucast rl \<and>
     a_type (p_from q) = D_OREG \<and> a_symkind (p_from q) = N_NONE \<and> a_offset (p_from q) = 0 \<and> a_reg (p_from q) = b"

lemma movm_masked: "(ucast ((ucast (rl :: u16) :: u64) AND 0xffff) :: u32) = ucast rl"
proof -
  have m: "(0xffff :: u64) = mask 16" by (simp add: mask_eq_exp_minus_1)
  show ?thesis unfolding m by (rule bit_word_eqI) (auto simp: bit_simps dest: bit_imp_le_length)
qed

lemma movm_flags:
  "cond_bits 0x6e = sh 14 28" "((0x6e :: u32) AND C_PBIT \<noteq> 0) = True" "((0x6e :: u32) AND C_UBIT \<noteq> 0) = False"
  "((0x6e :: u32) AND C_SBIT \<noteq> 0) = False" "((0x6e :: u32) AND C_WBIT \<noteq> 0) = True"
  "cond_bits 0xce = sh 14 28" "((0xce :: u32) AND C_PBIT \<noteq> 0) = False" "((0xce :: u32) AND C_UBIT \<noteq> 0) = True"
  "((0xce :: u32) AND C_SBIT \<noteq> 0) = False" "((0xce :: u32) AND C_WBIT \<noteq> 0) = True"
  by (simp_all add: cond_bits_def sh_def)

lemma movm_run:
  assumes "p_scond p = sc"
  shows "movm p w (l\<lparr>instoffset := 0\<rparr>) =
    (Inr [w OR cond_bits sc OR set_if (sc AND C_PBIT \<noteq> 0) (sh 1 24) OR set_if (sc AND C_UBIT \<noteq> 0) (sh 1 23)
      OR set_if (sc AND C_SBIT \<noteq> 0) (sh 1 22) OR set_if (sc AND C_WBIT \<noteq> 0) (sh 1 21)], l\<lparr>instoffset := 0\<rparr>)"
  unfolding movm_def assms by (simp add: seq_def)

lemma movm_asm:
  assumes "push_at p rl b" and "pop_at q rl b"
  shows "asm_38 p l = (Inr [movm_word False rl b], l\<lparr>instoffset := 0\<rparr>)"
    "asm_39 q l = (Inr [movm_word True rl b], l\<lparr>instoffset := 0\<rparr>)"
proof -
  have cl: "aclass a l = (Inr (oregclass 0), l\<lparr>instoffset := 0\<rparr>)" if "a_type a = D_OREG" "a_symkind a = N_NONE" "a_offset a = 0" for a
    using that by (simp add: aclass_def set_off_def seq_def)
  have t: "set_if True w = w" "set_if False w = 0" for w by (simp_all add: set_if_def)
  have p: "aclass (p_to p) l = (Inr (oregclass 0), l\<lparr>instoffset := 0\<rparr>)" "p_scond p = 0x6e" "a_offset (p_from p) = ucast rl" "a_reg (p_to p) = b"
    using assms(1) cl by (simp_all add: push_at_def)
  have q: "aclass (p_from q) l = (Inr (oregclass 0), l\<lparr>instoffset := 0\<rparr>)" "p_scond q = 0xce" "a_offset (p_to q) = ucast rl" "a_reg (p_from q) = b"
    using assms(2) cl by (simp_all add: pop_at_def)
  show "asm_38 p l = (Inr [movm_word False rl b], l\<lparr>instoffset := 0\<rparr>)"
    unfolding asm_38_def seq_def bind_Inr [where m = "aclass (p_to p)" and s = l, OF p(1)] movm_run [OF p(2)] movm_flags t p(3,4) movm_masked movm_word_def
    by (simp add: t ac_simps)
  show "asm_39 q l = (Inr [movm_word True rl b], l\<lparr>instoffset := 0\<rparr>)"
    unfolding asm_39_def seq_def bind_Inr [where m = "aclass (p_from q)" and s = l, OF q(1)] movm_run [OF q(2)] movm_flags t q(3,4) movm_masked movm_word_def
    by (simp add: t ac_simps)
qed

text \<open>
  C27: the words for \<^verbatim>\<open>MOVM.DB.W\<close> and \<^verbatim>\<open>MOVM.IA.W\<close> (rule types 38 and 39) with the same register list and
  base are inverse: the second restores every register of the list and the base, whatever the
  registers hold in between, provided memory is as the first left it.
\<close>

theorem push_pop_code:
  fixes rl :: u16
  assumes "push_at p rl b" and "pop_at q rl b" and "b < 15" and "\<not> bit rl b" and "\<not> bit rl 15"
    and "wf_mem s" and "membpt s = 0" and "regs s b AND 3 = 0" and "4 * length (filter (bit rl) [0..<16]) \<le> unat (regs s b)"
    and "\<And>k. k < length (filter (bit rl) [0..<16]) \<Longrightarrow> mview h s (ucast (regs s b) - 4 - 4 * of_nat k) \<noteq> None"
  shows "\<exists>v w. asm_38 p l = (Inr [v], l\<lparr>instoffset := 0\<rparr>) \<and> asm_39 q l = (Inr [w], l\<lparr>instoffset := 0\<rparr>) \<and>
    (\<exists>t. itab h sys (arm_class v) v s = (Inr (), t) \<and> wf_mem t \<and>
      (\<forall>u. wf_mem u \<and> mview h u = mview h t \<and> regs u b = regs t b \<longrightarrow>
        (\<exists>t'. itab h sys (arm_class w) w u = (Inr (), t') \<and>
          (\<forall>i. regs t' i = (if i < 16 \<and> bit rl i \<or> i = b then regs s i else regs u i)))))"
proof -
  let ?v = "movm_word False rl b" and ?w = "movm_word True rl b" and ?L = "filter (bit rl) [0..<16]"
  have "b < 16" using assms(3) by simp
  note f = movm_fields [OF this, where rl = rl]
  have n: "15 \<notin> set ?L" "b \<notin> set ?L" using assms(4,5) by auto
  have "\<exists>t. Ilsm h ?v s = (Inr (), t) \<and>
    (\<forall>u. wf_mem u \<and> mview h u = mview h t \<and> regs u b = regs t b \<longrightarrow>
      (\<exists>t'. Ilsm h ?w u = (Inr (), t') \<and> (\<forall>i \<in> set ?L \<union> {b}. regs t' i = regs s i) \<and>
        (\<forall>i. i \<notin> set ?L \<union> {b} \<longrightarrow> regs t' i = regs u i)))"
    using push_pop [of ?v ?w s h] f n assms(6-10) by simp
  then obtain t where t: "Ilsm h ?v s = (Inr (), t)"
    "\<And>u. wf_mem u \<and> mview h u = mview h t \<and> regs u b = regs t b \<Longrightarrow>
      \<exists>t'. Ilsm h ?w u = (Inr (), t') \<and> (\<forall>i \<in> set ?L \<union> {b}. regs t' i = regs s i) \<and>
        (\<forall>i. i \<notin> set ?L \<union> {b} \<longrightarrow> regs t' i = regs u i)" by blast
  have "\<exists>t'. itab h sys (arm_class ?w) ?w u = (Inr (), t') \<and>
      (\<forall>i. regs t' i = (if i < 16 \<and> bit rl i \<or> i = b then regs s i else regs u i))"
    if u: "wf_mem u \<and> mview h u = mview h t \<and> regs u b = regs t b" for u
  proof -
    obtain t' where "Ilsm h ?w u = (Inr (), t')" "\<forall>i \<in> set ?L \<union> {b}. regs t' i = regs s i"
      "\<forall>i. i \<notin> set ?L \<union> {b} \<longrightarrow> regs t' i = regs u i" using t(2) [OF u] by blast
    then show ?thesis unfolding f(6) by (intro exI [of _ t']) auto
  qed
  moreover have "itab h sys (arm_class ?v) ?v s = (Inr (), t)" unfolding f(6) by (rule t(1))
  moreover have "wf_mem t" using keepsD [OF sane_memory(4) t(1)] assms(6) by (simp add: sane_def)
  ultimately show ?thesis using movm_asm [OF assms(1,2), of l]
    by - (rule exI [of _ ?v], rule exI [of _ ?w], intro conjI, assumption, assumption, rule exI [of _ t], intro conjI allI impI, assumption, assumption)
qed

theorem push_pop_code_witness:
  "\<exists>v w t. asm_38 ((demo_prog AMOVM ((reg_adr R_NONE)\<lparr>a_type := D_CONST, a_offset := 6\<rparr>) R_NONE (mem_adr 13 0))\<lparr>p_scond := 0x6e\<rparr>)
      demo_lnk = (Inr [v], demo_lnk) \<and>
    asm_39 ((demo_prog AMOVM (mem_adr 13 0) R_NONE ((reg_adr R_NONE)\<lparr>a_type := D_CONST, a_offset := 6\<rparr>))\<lparr>p_scond := 0xce\<rparr>)
      demo_lnk = (Inr [w], demo_lnk) \<and>
    itab demo_host [] (arm_class v) v (code_machine [] (\<lambda>_. 0x1808)) = (Inr (), t) \<and>
    (\<exists>t'. itab demo_host [] (arm_class w) w (t\<lparr>regs := (regs t)(1 := 0, 2 := 0)\<rparr>) = (Inr (), t') \<and>
      regs t' 1 = 0x1808 \<and> regs t' 2 = 0x1808 \<and> regs t' 13 = 0x1808)"
proof -
  let ?p = "(demo_prog AMOVM ((reg_adr R_NONE)\<lparr>a_type := D_CONST, a_offset := 6\<rparr>) R_NONE (mem_adr 13 0))\<lparr>p_scond := 0x6e\<rparr>"
    and ?q = "(demo_prog AMOVM (mem_adr 13 0) R_NONE ((reg_adr R_NONE)\<lparr>a_type := D_CONST, a_offset := 6\<rparr>))\<lparr>p_scond := 0xce\<rparr>"
    and ?m = "code_machine [] (\<lambda>_. 0x1808)"
  have rl: "filter (bit (6 :: u16)) [0..<16] = [1, 2]" by (simp add: upt_rec)
  have "push_at ?p 6 13" "pop_at ?q 6 13" "(13 :: nat) < 15" "\<not> bit (6 :: u16) 13" "\<not> bit (6 :: u16) 15"
    "wf_mem ?m" "membpt ?m = 0" "regs ?m 13 AND 3 = 0" "4 * length (filter (bit (6 :: u16)) [0..<16]) \<le> unat (regs ?m 13)"
    using code_machine_ready [of "[]" "\<lambda>_. 0x1808"] rl
    by (simp_all add: push_at_def pop_at_def const_operand_def mem_adr_sel demo_defs ready_def code_machine_regs)
  moreover have "mview demo_host ?m (ucast (regs ?m 13) - 4 - 4 * of_nat k) \<noteq> None" if "k < length (filter (bit (6 :: u16)) [0..<16])" for k
  proof -
    have "k = 0 \<or> k = 1" using that rl by auto
    then show ?thesis using code_machine_demo(2) [of 0] code_machine_demo(2) [of 4] by (auto simp: code_machine_regs)
  qed
  ultimately obtain v w t where v: "asm_38 ?p demo_lnk = (Inr [v], demo_lnk\<lparr>instoffset := 0\<rparr>)" "asm_39 ?q demo_lnk = (Inr [w], demo_lnk\<lparr>instoffset := 0\<rparr>)"
      "itab demo_host [] (arm_class v) v ?m = (Inr (), t)" "wf_mem t"
    and u: "\<And>u. wf_mem u \<and> mview demo_host u = mview demo_host t \<and> regs u 13 = regs t 13 \<Longrightarrow>
      (\<exists>t'. itab demo_host [] (arm_class w) w u = (Inr (), t') \<and>
        (\<forall>i. regs t' i = (if i < 16 \<and> bit (6 :: u16) i \<or> i = 13 then regs ?m i else regs u i)))"
    using push_pop_code [of ?p 6 13 ?q ?m demo_host demo_lnk "[]"] by blast
  let ?u = "t\<lparr>regs := (regs t)(1 := 0, 2 := 0)\<rparr>"
  have "wf_mem ?u = wf_mem t" "mview demo_host ?u = mview demo_host t" "regs ?u 13 = regs t 13"
    by (simp_all add: wf_mem_def mview_def fun_eq_iff split: option.split)
  with u [of ?u] v show ?thesis by (auto simp: code_machine_regs demo_lnk_def)
qed

section \<open>Rotated immediates\<close>

lemma rotr_full: "word_rotr (32 * j) v = v" for v :: u32
  by (rule bit_word_eqI) (simp add: bit_word_rotr_iff)

lemma rotr_back: "word_rotr (2 * j) (word_rotr (30 * j) v) = v" for v :: u32
  using rotr_full [of j v] by (simp add: word_rotr_word_rotr_eq)

definition imm_bits :: "nat \<Rightarrow> u32 \<Rightarrow> u32" where
  "imm_bits i x = push_bit 25 1 OR push_bit 8 (of_nat i) OR x"

lemma immrot_step: "push_bit 2 v OR drop_bit 30 v = word_rotr 30 v" for v :: u32
  using rotate_right [of 30 v] by simp

lemma immrot_loop_32:
  fixes v :: u32
  assumes "k \<le> 16"
  shows "(\<forall>j < k. word_rotr (30 * j) v AND NOT 0xff \<noteq> 0) \<and> immrot_loop k v = 0 \<or>
    (\<exists>j < k. word_rotr (30 * j) v AND NOT 0xff = 0 \<and> immrot_loop k v = imm_bits (16 - k + j) (word_rotr (30 * j) v))"
  using assms
proof (induction k arbitrary: v)
  case (Suc k)
  show ?case
  proof (cases "v AND NOT 0xff = 0")
    case True
    then have "immrot_loop (Suc k) v = imm_bits (16 - Suc k + 0) (word_rotr (30 * 0) v)"
      by (simp only: immrot_loop.simps if_True imm_bits_def) (simp add: word_rotr_0)
    with True show ?thesis by (intro disjI2 exI [of _ 0]) (simp only: mult_0_right word_rotr_0 zero_less_Suc simp_thms)
  next
    case False
    let ?v = "word_rotr 30 v"
    have l: "immrot_loop (Suc k) v = immrot_loop k ?v" using False by (simp only: immrot_loop.simps if_False immrot_step)
    have r: "word_rotr (30 * j) ?v = word_rotr (30 * Suc j) v" for j by (simp add: word_rotr_word_rotr_eq add.commute)
    have k: "16 - k + j = 16 - Suc k + Suc j" for j using Suc.prems by simp
    from Suc.IH [of ?v] Suc.prems
    consider (none) "\<forall>j < k. word_rotr (30 * Suc j) v AND NOT 0xff \<noteq> 0" "immrot_loop k ?v = 0"
      | (found) j where "j < k" "word_rotr (30 * Suc j) v AND NOT 0xff = 0"
          "immrot_loop k ?v = imm_bits (16 - Suc k + Suc j) (word_rotr (30 * Suc j) v)"
      unfolding r k by (meson Suc_leD)
    then show ?thesis
    proof cases
      case none
      have "word_rotr (30 * j) v AND NOT 0xff \<noteq> 0" if "j < Suc k" for j
      proof (cases j)
        case 0
        then show ?thesis using False by (simp only: mult_0_right word_rotr_0 not_False_eq_True)
      next
        case (Suc i)
        then show ?thesis using none(1) that by blast
      qed
      then have "\<forall>j < Suc k. word_rotr (30 * j) v AND NOT 0xff \<noteq> 0" by blast
      with none(2) l show ?thesis by (intro disjI1 conjI) (assumption, simp only:)
    next
      case (found j)
      then show ?thesis unfolding l by (intro disjI2 exI [of _ "Suc j"]) (simp only: Suc_less_eq simp_thms)
    qed
  qed
qed simp

lemma imm_bits_fields:
  assumes "i < 16" and "x AND NOT 0xff = 0"
  shows "imm_bits i x \<noteq> 0" "fld 8 (imm_bits i x) = i" "imm_bits i x AND 0xff = x" "bit (imm_bits i x) 25"
proof -
  have x: "\<not> bit x n" if "8 \<le> n" for n using assms(2) high_bits [of x] that bit_imp_le_length [of x n] by blast
  have e: "imm_bits i x = sh 1 25 OR sh i 8 OR x" by (simp add: imm_bits_def sh_def)
  note bits = e bit_or_iff bit_sh_1 bit_sh bit_small bit_0 x
  show b: "bit (imm_bits i x) 25" by (simp add: bits)
  then show "imm_bits i x \<noteq> 0" by auto
  show "fld 8 (imm_bits i x) = i" by (rule fldI; simp add: bits assms(1))
  have k: "(0xff :: u32) = mask 8" by (simp add: mask_eq_exp_minus_1)
  show "imm_bits i x AND 0xff = x" unfolding k
  proof (rule bit_word_eqI)
    fix n assume "n < LENGTH(32)"
    show "bit (imm_bits i x AND mask 8) n = bit x n"
      using x [of n] by (cases "n < 8") (auto simp: bit_and_iff bit_mask_iff e bit_or_iff bit_sh)
  qed
qed

lemma immrot_64_range: "immrot x \<noteq> 0 \<longleftrightarrow> unat x < 256" for x :: u64
proof -
  have "x AND NOT 0xff = 0 \<longleftrightarrow> unat x < 256"
    using high_bits [of x] unat_less_exp_iff [of x 8] bit_imp_le_length [of x] by auto
  moreover have "push_bit 25 1 OR ucast x \<noteq> (0 :: u32)" if "unat x < 256"
  proof -
    have "bit (push_bit 25 1 OR ucast x :: u32) 25" by (simp add: bit_or_iff bit_push_bit_iff)
    then show ?thesis by auto
  qed
  ultimately show ?thesis by (simp only: immrot_64) simp
qed

text \<open>
  C36: \<^verbatim>\<open>immrot\<close> on a 32-bit \<^verbatim>\<open>ulong\<close> accepts exactly the eight-bit values rotated right by an even
  amount, and the fields it returns denote the value; on a 64-bit \<^verbatim>\<open>ulong\<close>, where its rotation
  \<^verbatim>\<open>(v<<2) | (v>>30)\<close> is not one, it accepts exactly the values below 256.
\<close>

theorem immediates_exact:
  fixes v :: u32 and x :: u64
  shows "(immrot v = 0 \<longleftrightarrow> (\<nexists>i b. i < 16 \<and> v = word_rotr (2 * i) (ucast (b :: u8)))) \<and>
    (immrot v \<noteq> 0 \<longrightarrow> bit (immrot v) 25 \<and> word_rotr (2 * fld 8 (immrot v)) (immrot v AND 0xff) = v) \<and>
    (immrot x \<noteq> 0 \<longleftrightarrow> unat x < 256)"
proof -
  have n: "w AND NOT 0xff = 0" if "w = ucast (b :: u8)" for w :: u32 and b
  proof -
    have "\<not> (\<exists>n\<ge>8. n < LENGTH(32) \<and> bit (ucast b :: u32) n)" by (auto simp: bit_ucast_iff dest: bit_imp_le_length)
    then show ?thesis using high_bits [of w] that by blast
  qed
  have c: "w = ucast (ucast w :: u8)" if "w AND NOT 0xff = 0" for w :: u32
  proof (rule bit_word_eqI)
    fix k assume "k < LENGTH(32)"
    then show "bit w k = bit (ucast (ucast w :: u8) :: u32) k"
      using that high_bits [of w] by (cases "k < 8") (auto simp: bit_ucast_iff)
  qed
  consider (none) "\<forall>j < 16. word_rotr (30 * j) v AND NOT 0xff \<noteq> 0" "immrot v = 0"
    | (found) j where "j < 16" "word_rotr (30 * j) v AND NOT 0xff = 0" "immrot v = imm_bits j (word_rotr (30 * j) v)"
    using immrot_loop_32 [of 16 v] by (auto simp: immrot_def)
  then have 1: "(immrot v = 0 \<longleftrightarrow> (\<nexists>i b. i < 16 \<and> v = word_rotr (2 * i) (ucast (b :: u8)))) \<and>
    (immrot v \<noteq> 0 \<longrightarrow> bit (immrot v) 25 \<and> word_rotr (2 * fld 8 (immrot v)) (immrot v AND 0xff) = v)"
  proof cases
    case none
    have False if "i < 16" "v = word_rotr (2 * i) (ucast (b :: u8))" for i b
    proof -
      have "word_rotr (30 * i) v = ucast b"
        using that(2) rotr_full [of i "ucast b"] by (simp add: word_rotr_word_rotr_eq)
      then show False using none(1) that(1) n by blast
    qed
    then show ?thesis using none(2) by blast
  next
    case (found j)
    note f = imm_bits_fields [OF found(1,2), folded found(3)]
    have "v = word_rotr (2 * j) (ucast (ucast (word_rotr (30 * j) v) :: u8))"
      using c [OF found(2)] rotr_back [of j v] by simp
    then show ?thesis using f found(1) rotr_back [of j v] by auto
  qed
  with immrot_64_range [of x] show ?thesis by blast
qed

theorem immediates_exact_witness:
  "immrot (0x3fc :: u32) \<noteq> 0 \<and> word_rotr (2 * fld 8 (immrot (0x3fc :: u32))) (immrot (0x3fc :: u32) AND 0xff) = 0x3fc \<and>
   immrot (0x3fc :: u64) = 0"
proof -
  have "(0x3fc :: u32) = word_rotr (2 * 15) (ucast (0xff :: u8))" by code_simp
  moreover have "(15 :: nat) < 16" by simp
  ultimately have "immrot (0x3fc :: u32) \<noteq> 0" using immediates_exact [of "0x3fc" 0] by blast
  then show ?thesis using immediates_exact [of "0x3fc" "0x3fc"] by simp
qed

section \<open>Half words at relocatable addresses\<close>

lemma diag_counts: "length (errs l) < 20 \<Longrightarrow> diag m l = (Inr (), l\<lparr>errs := m # errs l\<rparr>)"
  by (simp add: diag_def seq_def)

lemma olr_halfword:
  assumes "a = AMOVH \<or> a = AMOVHU" and "length (errs l) < 20"
  shows "\<exists>w. olr a 14 0 b rt l = (Inr w, l\<lparr>errs := ''expect move operation'' # errs l\<rparr>)"
  using assms by (auto simp: olr_def seq_def mag_def bind_def diag_counts)

text \<open>A literal in the pool, within reach of the load that fetches it.\<close>

definition pool_at :: "prog \<Rightarrow> u64 \<Rightarrow> bool" where
  "pool_at p c \<longleftrightarrow> p_scond p = 14 \<and> p_cond p = At c \<and> - 4096 < sint (c - p_pc p - 8) \<and> sint (c - p_pc p - 8) < 4096"

lemma omvl_pool:
  assumes "pool_at p c"
  shows "omvl p a dr l = (Inr (ldr_bits (sint (c - p_pc p - 8) \<ge> 0) False True 15 dr (ucast (mag (c - p_pc p - 8)))), l)"
  using assms olr_word [of "c - p_pc p - 8" AMOVW 15 dr l] by (simp add: pool_at_def omvl_def target_pc_def)

lemma ldr_bits_nonzero: "ldr_bits up byte ld b rt m \<noteq> 0"
proof -
  have "bit (ldr_bits up byte ld b rt m) 24" by (simp add: ldr_bits_def bit_or_iff bit_sh_1)
  then show ?thesis by auto
qed

lemma mvl_then_pool:
  assumes "pool_at p c"
  shows "\<exists>w. mvl_then p a k l = k w l"
  using omvl_pool [OF assms, of a REGTMP l] ldr_bits_nonzero by (auto simp: mvl_then_def bind_def)

text \<open>
  A half word moved from or to a relocatable address (rule types 66 and 67) is rejected: the
  generator passes \<^verbatim>\<open>MOVH\<close> or \<^verbatim>\<open>MOVHU\<close> to \<^verbatim>\<open>olr\<close>/\<^verbatim>\<open>osr\<close>, which report \<^verbatim>\<open>expect move operation\<close> once
  for the load and twice for the store.
\<close>

theorem halfword_address_rejected:
  assumes "p_as p = AMOVH \<or> p_as p = AMOVHU" and "pool_at p c" and "length (errs l) < 19" and "o_type ot = 66"
  shows "(\<exists>ws. asm_65_66 p ot l = (Inr ws, l\<lparr>errs := ''expect move operation'' # errs l\<rparr>)) \<and>
    (\<exists>ws. asm_67 p l = (Inr ws, l\<lparr>errs := ''expect move operation'' # ''expect move operation'' # errs l\<rparr>))"
proof
  let ?m = "''expect move operation''" and ?l = "l\<lparr>errs := ''expect move operation'' # errs l\<rparr>"
  have sc: "p_scond p = 14" using assms(2) by (simp add: pool_at_def)
  note h = olr_halfword [OF assms(1)]
  have a: "oprrr AADD 14 k = (Inr (sh 14 28 OR sh 4 21), k)" for k by (rule oprrr_plain) (simp add: rrr_bits_def)
  obtain w where w: "olr (p_as p) 14 0 REGTMP (a_reg (p_to p)) l = (Inr w, ?l)" using h [of l] assms(3) by auto
  obtain o1 where d: "asm_65_66 p ot l =
     bind (olr (p_as p) (p_scond p) 0 REGTMP (a_reg (p_to p))) (\<lambda>o2.
     if o_type ot = 65 then ret [o1, o2]
     else
       bind (oprrr ASLL (p_scond p)) (\<lambda>o3.
       bind (oprrr (if p_as p = AMOVBU \<or> p_as p = AMOVHU then ASRL else ASRA) (p_scond p)) (\<lambda>o4.
       let r = a_reg (p_to p); k = (if p_as p = AMOVB \<or> p_as p = AMOVBU then 24 else 16)
       in ret [o1, o2, o3 OR sh r 0 OR sh r 12 OR sh k 7, o4 OR sh r 0 OR sh r 12 OR sh k 7]))) l"
    unfolding asm_65_66_def using mvl_then_pool [OF assms(2), of "p_from p" _ l] by blast
  show "\<exists>ws. asm_65_66 p ot l = (Inr ws, ?l)"
    unfolding d sc using w assms(4) by (simp add: bind_def oprrr_shift Let_def)
  obtain x where x: "olr (p_as p) 14 0 REGTMP (a_reg (p_from p)) l = (Inr x, ?l)" using h [of l] assms(3) by auto
  obtain y where y: "olr (p_as p) 14 0 REGTMP (a_reg (p_from p)) ?l = (Inr y, l\<lparr>errs := ?m # ?m # errs l\<rparr>)"
    using h [of ?l] assms(3) by auto
  obtain o1 where e: "asm_67 p l = (let rf = a_reg (p_from p) in
     bind (osr (p_as p) (p_scond p) rf 0 REGTMP) (\<lambda>o2.
     bind (oprrr ASRL (p_scond p)) (\<lambda>o3.
     bind (oprrr AADD (p_scond p)) (\<lambda>o4.
     bind (osr (p_as p) (p_scond p) rf 0 REGTMP) (\<lambda>o5.
     bind (oprrr ASRL (p_scond p)) (\<lambda>o6.
     ret [o1, o2, o3 OR sh 8 7 OR sh rf 0 OR sh rf 12 OR sh 1 6,
          o4 OR sh REGTMP 12 OR sh REGTMP 16 OR immrot (1 :: u64), o5,
          o6 OR sh 24 7 OR sh rf 0 OR sh rf 12 OR sh 1 6]))))) l)"
    unfolding asm_67_def Let_def using mvl_then_pool [OF assms(2), of "p_to p" _ l] by blast
  show "\<exists>ws. asm_67 p l = (Inr ws, l\<lparr>errs := ?m # ?m # errs l\<rparr>)"
    unfolding e Let_def sc osr_def using x y by (simp add: bind_def oprrr_shift a)
qed

theorem halfword_address_rejected_witness:
  "\<exists>ws. asm_67 ((demo_prog AMOVH (reg_adr 1) R_NONE (mem_adr 2 0))\<lparr>p_cond := At 0x1100\<rparr>) demo_lnk =
    (Inr ws, demo_lnk\<lparr>errs := [''expect move operation'', ''expect move operation'']\<rparr>)"
proof -
  let ?p = "(demo_prog AMOVH (reg_adr 1) R_NONE (mem_adr 2 0))\<lparr>p_cond := At 0x1100\<rparr>"
  have "p_as ?p = AMOVH \<or> p_as ?p = AMOVHU" "pool_at ?p 0x1100" "length (errs demo_lnk) < 19" "o_type (demo_op 66 16) = 66"
    by (simp_all add: demo_defs pool_at_def)
  from halfword_address_rejected [OF this] show ?thesis by (simp add: demo_lnk_def)
qed

end
