(* ===== verification/Qsort.thy ===== *)
theory Qsort
  imports Goken_Prelude "HOL-Library.Multiset"
begin

text \<open>
  The sorting routine of the C library, \<^verbatim>\<open>lib_core/libc/port/qsort.c\<close>. The array is a list of bytes;
  pointers into it are byte offsets and an access outside the list is \<open>None\<close>, as is a loop that
  does not end. The \<^verbatim>\<open>long\<close> values of the routine wrap at the width of a \<^verbatim>\<open>long\<close>, whose size is a
  parameter. The routine is proved to sort the elements, through the same algorithm on a list
  of elements.
\<close>

section \<open>The routine on bytes\<close>

record Sort =
  cmp_fn :: "u8 list \<Rightarrow> u8 list \<Rightarrow> int"
  swap_fn :: "int \<Rightarrow> int \<Rightarrow> int \<Rightarrow> u8 list \<Rightarrow> u8 list option"
  es_of :: int

definition load :: "int \<Rightarrow> int \<Rightarrow> u8 list \<Rightarrow> u8 list option" where
  "load i k m = (if 0 \<le> i \<and> i + k \<le> int (length m) then Some (take (nat k) (drop (nat i) m)) else None)"

definition store :: "int \<Rightarrow> u8 list \<Rightarrow> u8 list \<Rightarrow> u8 list option" where
  "store i bs m =
     (if 0 \<le> i \<and> i + int (length bs) \<le> int (length m)
      then Some (take (nat i) m @ bs @ drop (nat i + length bs) m) else None)"

text \<open>One exchange of \<open>k\<close> bytes: \<^verbatim>\<open>c = *i; *i++ = *j; *j++ = c\<close>.\<close>

definition exchange :: "int \<Rightarrow> int \<Rightarrow> int \<Rightarrow> u8 list \<Rightarrow> u8 list option" where
  "exchange k i j m =
     Option.bind (load i k m) (\<lambda>c. Option.bind (load j k m) (\<lambda>d.
     Option.bind (store i d m) (store j c)))"

text \<open>
  \<open>sz\<close> is \<^verbatim>\<open>sizeof(long)\<close>; \<open>long_of sz x\<close> is the value a \<^verbatim>\<open>long\<close> has after it is
  assigned the result \<open>x\<close> of an operation on \<^verbatim>\<open>long\<close> operands.
\<close>

definition long_of :: "int \<Rightarrow> int \<Rightarrow> int" where
  "long_of sz x = signed_take_bit (8 * nat sz - 1) x"

partial_function (option) swapb :: "int \<Rightarrow> int \<Rightarrow> int \<Rightarrow> int \<Rightarrow> u8 list \<Rightarrow> u8 list option" where
  "swapb sz i j es m =
     Option.bind (exchange 1 i j m) (\<lambda>m.
     let es = long_of sz (es - 1) in
     if es \<noteq> 0 then swapb sz (i + 1) (j + 1) es m else Some m)"

partial_function (option) swapi :: "int \<Rightarrow> int \<Rightarrow> int \<Rightarrow> int \<Rightarrow> u8 list \<Rightarrow> u8 list option" where
  "swapi sz i j es m =
     Option.bind (exchange sz i j m) (\<lambda>m.
     let es = long_of sz (es - sz) in
     if es \<noteq> 0 then swapi sz (i + sz) (j + sz) es m else Some m)"

definition call_cmp :: "Sort \<Rightarrow> int \<Rightarrow> int \<Rightarrow> u8 list \<Rightarrow> int option" where
  "call_cmp p i j m = Option.bind (load i (es_of p) m) (\<lambda>x. Option.bind (load j (es_of p) m) (\<lambda>y. Some (cmp_fn p x y)))"

definition pivot :: "int \<Rightarrow> int \<Rightarrow> int \<Rightarrow> Sort \<Rightarrow> u8 list \<Rightarrow> int option" where
  "pivot sz a n p m =
     (let j = long_of sz (n div 6 * es_of p); pi = a + j; j = long_of sz (j + j); pj = pi + j; pk = pj + j in
      Option.bind (call_cmp p pi pj m) (\<lambda>c.
      if c < 0 then
        Option.bind (call_cmp p pi pk m) (\<lambda>c.
        if c < 0 then Option.bind (call_cmp p pj pk m) (\<lambda>c. if c < 0 then Some pj else Some pk)
        else Some pi)
      else
        Option.bind (call_cmp p pj pk m) (\<lambda>c.
        if c < 0 then Option.bind (call_cmp p pi pk m) (\<lambda>c. if c < 0 then Some pi else Some pk)
        else Some pj)))"

text \<open>The three loops of a partition of \<^verbatim>\<open>qsorts\<close>.\<close>

partial_function (option) scan_up :: "Sort \<Rightarrow> int \<Rightarrow> int \<Rightarrow> u8 list \<Rightarrow> int \<Rightarrow> int option" where
  "scan_up p a pn m pi =
     (let pi = pi + es_of p in
      if pi < pn then Option.bind (call_cmp p pi a m) (\<lambda>c. if c < 0 then scan_up p a pn m pi else Some pi)
      else Some pi)"

partial_function (option) scan_down :: "Sort \<Rightarrow> int \<Rightarrow> u8 list \<Rightarrow> int \<Rightarrow> int option" where
  "scan_down p a m pj =
     (let pj = pj - es_of p in
      if pj > a then Option.bind (call_cmp p pj a m) (\<lambda>c. if c > 0 then scan_down p a m pj else Some pj)
      else Some pj)"

partial_function (option) part_loop :: "Sort \<Rightarrow> int \<Rightarrow> int \<Rightarrow> int \<Rightarrow> int \<Rightarrow> u8 list \<Rightarrow> (u8 list \<times> int) option" where
  "part_loop p a pn pi pj m =
     Option.bind (scan_up p a pn m pi) (\<lambda>pi.
     Option.bind (scan_down p a m pj) (\<lambda>pj.
     if pj < pi then Some (m, pj)
     else Option.bind (swap_fn p pi pj (es_of p) m) (\<lambda>m. part_loop p a pn pi pj m)))"

partial_function (option) qsorts :: "int \<Rightarrow> Sort \<Rightarrow> int \<Rightarrow> int \<Rightarrow> u8 list \<Rightarrow> u8 list option" where
  "qsorts sz p a n m =
     (if n > 1 then
        let es = es_of p in
        Option.bind (if n > 10 then pivot sz a n p m else Some (a + long_of sz (n div 2 * es))) (\<lambda>pi.
        Option.bind (swap_fn p a pi es m) (\<lambda>m.
        let pn = a + long_of sz (n * es) in
        Option.bind (part_loop p a pn a pn m) (\<lambda>(m, pj).
        Option.bind (swap_fn p a pj es m) (\<lambda>m.
        let j = long_of sz (long_of sz (pj - a) div es); n = long_of sz (long_of sz (n - j) - 1);
            ar = a + long_of sz (long_of sz (j + 1) * es) in
        if j \<ge> n then Option.bind (qsorts sz p a j m) (\<lambda>m. qsorts sz p ar n m)
        else Option.bind (qsorts sz p ar n m) (\<lambda>m. qsorts sz p a j m)))))
      else Some m)"

definition qsort :: "int \<Rightarrow> u64 \<Rightarrow> int \<Rightarrow> int \<Rightarrow> (u8 list \<Rightarrow> u8 list \<Rightarrow> int) \<Rightarrow> u8 list \<Rightarrow> u8 list option" where
  "qsort sz va n es cmp m =
     qsorts sz \<lparr>cmp_fn = cmp, swap_fn = (if uint (va OR word_of_int es) mod sz \<noteq> 0 then swapb sz else swapi sz),
                es_of = es\<rparr> 0 n m"

section \<open>The routine on elements\<close>

definition eswap :: "nat \<Rightarrow> nat \<Rightarrow> 'a list \<Rightarrow> 'a list" where
  "eswap i j xs = xs[i := xs ! j, j := xs ! i]"

definition epivot :: "('a \<Rightarrow> 'a \<Rightarrow> int) \<Rightarrow> nat \<Rightarrow> nat \<Rightarrow> 'a list \<Rightarrow> nat" where
  "epivot cmp a n xs =
     (let i = a + n div 6; j = a + 3 * (n div 6); k = a + 5 * (n div 6) in
      if cmp (xs ! i) (xs ! j) < 0 then
        if cmp (xs ! i) (xs ! k) < 0 then if cmp (xs ! j) (xs ! k) < 0 then j else k else i
      else if cmp (xs ! j) (xs ! k) < 0 then if cmp (xs ! i) (xs ! k) < 0 then i else k else j)"

function eup :: "('a \<Rightarrow> 'a \<Rightarrow> int) \<Rightarrow> nat \<Rightarrow> nat \<Rightarrow> 'a list \<Rightarrow> nat \<Rightarrow> nat" where
  "eup cmp a n xs i = (if i + 1 < n \<and> cmp (xs ! (i + 1)) (xs ! a) < 0 then eup cmp a n xs (i + 1) else i + 1)"
  by auto
termination by (relation "measure (\<lambda>(cmp, a, n, xs, i). n - i)") auto

fun edown :: "('a \<Rightarrow> 'a \<Rightarrow> int) \<Rightarrow> nat \<Rightarrow> 'a list \<Rightarrow> nat \<Rightarrow> nat" where
  "edown cmp a xs 0 = 0"
| "edown cmp a xs (Suc j) = (if a < j \<and> cmp (xs ! j) (xs ! a) > 0 then edown cmp a xs j else j)"

declare eup.simps [simp del]

lemma edown_le: "edown cmp a xs j \<le> j - 1"
  by (induction cmp a xs j rule: edown.induct) auto

lemma eup_greater: "i < eup cmp a n xs i"
  by (induction cmp a n xs i rule: eup.induct) (subst eup.simps, auto)

function epart :: "('a \<Rightarrow> 'a \<Rightarrow> int) \<Rightarrow> nat \<Rightarrow> nat \<Rightarrow> nat \<Rightarrow> nat \<Rightarrow> 'a list \<Rightarrow> 'a list \<times> nat" where
  "epart cmp a n i j xs =
     (let i' = eup cmp a n xs i; j' = edown cmp a xs j in
      if j' < i' then (xs, j') else epart cmp a n i' j' (eswap i' j' xs))"
  by auto
termination
  apply (relation "measure (\<lambda>(cmp, a, n, i, j, xs). j)")
  subgoal by simp
  subgoal for cmp a n i j xs using edown_le [of cmp a xs j] eup_greater [of i cmp a n xs] by auto
  done

declare epart.simps [simp del]

lemma epart_less: "n > 0 \<Longrightarrow> j \<le> n \<Longrightarrow> snd (epart cmp a n i j xs) < n"
proof (induction cmp a n i j xs rule: epart.induct)
  case (1 cmp a n i j xs)
  then show ?case using edown_le [of cmp a xs j] by (subst epart.simps) (auto simp: Let_def)
qed

definition estart :: "('a \<Rightarrow> 'a \<Rightarrow> int) \<Rightarrow> nat \<Rightarrow> nat \<Rightarrow> 'a list \<Rightarrow> 'a list" where
  "estart cmp a n xs = eswap a (if n > 10 then epivot cmp a n xs else a + n div 2) xs"

function eqsorts :: "('a \<Rightarrow> 'a \<Rightarrow> int) \<Rightarrow> nat \<Rightarrow> nat \<Rightarrow> 'a list \<Rightarrow> 'a list" where
  "eqsorts cmp a n xs =
     (if n > 1 then
        (case epart cmp a (a + n) a (a + n) (estart cmp a n xs) of (ys, pj) \<Rightarrow>
          let zs = eswap a pj ys; j = pj - a; k = n - j - 1 in
          if j \<ge> k then eqsorts cmp (a + j + 1) k (eqsorts cmp a j zs)
          else eqsorts cmp a j (eqsorts cmp (a + j + 1) k zs))
      else xs)"
  by auto
termination
  apply (relation "measure (\<lambda>(cmp, a, n, xs). n)")
  subgoal by simp
  subgoal for cmp a n xs using epart_less [of "a + n" "a + n" cmp a a "estart cmp a n xs"] by (auto simp: prod_eq_iff)
  subgoal by (auto simp: prod_eq_iff)
  subgoal by (auto simp: prod_eq_iff)
  subgoal for cmp a n xs using epart_less [of "a + n" "a + n" cmp a a "estart cmp a n xs"] by (auto simp: prod_eq_iff)
  done

declare eqsorts.simps [simp del]

section \<open>Permutation and frame\<close>

lemma eswap_length [simp]: "length (eswap i j xs) = length xs"
  by (simp add: eswap_def)

lemma eswap_nth:
  "i < length xs \<Longrightarrow> j < length xs \<Longrightarrow> k < length xs \<Longrightarrow>
    eswap i j xs ! k = (if k = j then xs ! i else if k = i then xs ! j else xs ! k)"
  by (simp add: eswap_def nth_list_update)

text \<open>\<open>moves a n xs ys\<close>: \<open>ys\<close> is a rearrangement of \<open>xs\<close> inside the eslice of \<open>n\<close> elements from \<open>a\<close>.\<close>

definition moves :: "nat \<Rightarrow> nat \<Rightarrow> 'a list \<Rightarrow> 'a list \<Rightarrow> bool" where
  "moves a n xs ys \<longleftrightarrow> length ys = length xs \<and> take a ys = take a xs \<and> drop (a + n) ys = drop (a + n) xs \<and>
     mset (take n (drop a ys)) = mset (take n (drop a xs))"

lemma moves_refl: "moves a n xs xs"
  by (simp add: moves_def)

lemma moves_trans: "moves a n xs ys \<Longrightarrow> moves a n ys zs \<Longrightarrow> moves a n xs zs"
  by (simp add: moves_def)

lemma moves_mset: "moves a n xs ys \<Longrightarrow> mset ys = mset xs"
proof -
  assume m: "moves a n xs ys"
  have split: "mset zs = mset (take a zs) + mset (take n (drop a zs)) + mset (drop (a + n) zs)" for zs :: "'a list"
    using append_take_drop_id [of a zs] append_take_drop_id [of n "drop a zs"]
    by (metis add.assoc drop_drop mset_append add.commute)
  show ?thesis using m by (subst (1 2) split) (simp add: moves_def)
qed

lemma moves_eswap:
  assumes "a \<le> i" "i < a + n" "a \<le> j" "j < a + n" "a + n \<le> length xs"
  shows "moves a n xs (eswap i j xs)"
proof -
  have "take n (drop a (eswap i j xs)) = eswap (i - a) (j - a) (take n (drop a xs))"
    using assms by (intro nth_equalityI) (auto simp: eswap_nth)
  moreover have "mset (eswap (i - a) (j - a) (take n (drop a xs))) = mset (take n (drop a xs))"
    unfolding eswap_def by (rule mset_swap) (use assms in auto)
  ultimately show ?thesis using assms by (simp add: moves_def eswap_def)
qed

lemma moves_sub:
  assumes "moves b k xs ys" "a \<le> b" "b + k \<le> a + n" "a + n \<le> length xs"
  shows "moves a n xs ys"
proof -
  let ?c = "a + n - (b + k)"
  have split: "take n (drop a zs) = take (b - a) (drop a zs) @ take k (drop b zs) @ take ?c (drop (b + k) zs)" for zs :: "'a list"
  proof -
    have "take n (drop a zs) = take (b - a) (drop a zs) @ take (n - (b - a)) (drop b zs)"
      using assms(2,3) take_add [of "b - a" "n - (b - a)" "drop a zs"] by simp
    moreover have "take (n - (b - a)) (drop b zs) = take k (drop b zs) @ take ?c (drop (b + k) zs)"
      using assms(2,3) take_add [of k ?c "drop b zs"] by (simp add: add.commute)
    ultimately show ?thesis by simp
  qed
  have e: "take b ys = take b xs" "drop (b + k) ys = drop (b + k) xs" using assms(1) by (simp_all add: moves_def)
  have "take a ys = take a xs" using arg_cong [OF e(1), of "take a"] assms(2) by (simp add: min_absorb1)
  moreover have "drop (a + n) ys = drop (a + n) xs" using arg_cong [OF e(2), of "drop ?c"] assms(3) by simp
  moreover have "take (b - a) (drop a ys) = take (b - a) (drop a xs)"
    using arg_cong [OF e(1), of "drop a"] assms(2) by (simp add: drop_take)
  ultimately show ?thesis using assms(1) e(2) unfolding moves_def by (subst (1 2) split) simp
qed

section \<open>A partition\<close>

lemma eup_spec:
  "i < n \<Longrightarrow> eup cmp a n xs i \<le> n \<and> (\<forall>k. i < k \<and> k < eup cmp a n xs i \<longrightarrow> cmp (xs ! k) (xs ! a) < 0) \<and>
    (eup cmp a n xs i < n \<longrightarrow> cmp (xs ! eup cmp a n xs i) (xs ! a) \<ge> 0)"
proof (induction cmp a n xs i rule: eup.induct)
  case (1 cmp a n xs i)
  show ?case
  proof (cases "i + 1 < n \<and> cmp (xs ! (i + 1)) (xs ! a) < 0")
    case True
    then have e: "eup cmp a n xs i = eup cmp a n xs (i + 1)" by (subst eup.simps) simp
    have "cmp (xs ! k) (xs ! a) < 0" if "i < k" "k < eup cmp a n xs (i + 1)" for k
      using 1(1) [OF True] True that by (cases "k = i + 1") auto
    then show ?thesis using 1(1) [OF True] True unfolding e by simp
  next
    case False
    then have e: "eup cmp a n xs i = i + 1" by (subst eup.simps) (simp only: if_False)
    show ?thesis using False 1(2) unfolding e by auto
  qed
qed

lemma edown_spec:
  "a < j \<Longrightarrow> a \<le> edown cmp a xs j \<and> edown cmp a xs j < j \<and>
    (\<forall>k. edown cmp a xs j < k \<and> k < j \<longrightarrow> cmp (xs ! k) (xs ! a) > 0) \<and>
    (a < edown cmp a xs j \<longrightarrow> cmp (xs ! edown cmp a xs j) (xs ! a) \<le> 0)"
proof (induction cmp a xs j rule: edown.induct)
  case (2 cmp a xs j)
  then show ?case by (cases "a < j \<and> cmp (xs ! j) (xs ! a) > 0") (auto simp: less_Suc_eq)
qed simp

text \<open>
  The state of the partition between two rounds: the elements up to \<open>i\<close> are at most the pivot
  at \<open>a\<close>, those from \<open>j\<close> on at least.
\<close>

definition part_inv :: "('a \<Rightarrow> 'a \<Rightarrow> int) \<Rightarrow> nat \<Rightarrow> nat \<Rightarrow> nat \<Rightarrow> nat \<Rightarrow> 'a list \<Rightarrow> bool" where
  "part_inv cmp a n i j xs \<longleftrightarrow> a \<le> i \<and> i < n \<and> a < j \<and> j \<le> n \<and> n \<le> length xs \<and>
     (\<forall>k. a < k \<and> k \<le> i \<longrightarrow> cmp (xs ! k) (xs ! a) \<le> 0) \<and> (\<forall>k. j \<le> k \<and> k < n \<longrightarrow> cmp (xs ! k) (xs ! a) \<ge> 0)"

definition parted :: "('a \<Rightarrow> 'a \<Rightarrow> int) \<Rightarrow> nat \<Rightarrow> nat \<Rightarrow> nat \<Rightarrow> 'a list \<Rightarrow> bool" where
  "parted cmp a n j ys \<longleftrightarrow> a \<le> j \<and> j < n \<and> (\<forall>k. a < k \<and> k \<le> j \<longrightarrow> cmp (ys ! k) (ys ! a) \<le> 0) \<and>
     (\<forall>k. j < k \<and> k < n \<longrightarrow> cmp (ys ! k) (ys ! a) \<ge> 0)"

lemma part_inv_step:
  assumes "part_inv cmp a n i j xs" and "i' = eup cmp a n xs i" and "j' = edown cmp a xs j"
  shows "if j' < i' then parted cmp a n j' xs
    else part_inv cmp a n i' j' (eswap i' j' xs) \<and> a < i' \<and> i' < n \<and> a < j' \<and> j' < n"
proof -
  have u: "i < i'" "i' \<le> n" "\<And>k. i < k \<Longrightarrow> k < i' \<Longrightarrow> cmp (xs ! k) (xs ! a) \<le> 0"
      "i' < n \<Longrightarrow> cmp (xs ! i') (xs ! a) \<ge> 0"
    and d: "a \<le> j'" "j' < j" "\<And>k. j' < k \<Longrightarrow> k < j \<Longrightarrow> cmp (xs ! k) (xs ! a) \<ge> 0"
      "a < j' \<Longrightarrow> cmp (xs ! j') (xs ! a) \<le> 0"
    using assms eup_spec [of i n cmp a xs] edown_spec [of a j cmp xs] eup_greater [of i cmp a n xs]
    by (auto simp: part_inv_def less_imp_le)
  have l: "cmp (xs ! k) (xs ! a) \<le> 0" if "a < k" "k < i'" for k
    using u(3) [of k] assms(1) that by (cases "k \<le> i") (auto simp: part_inv_def)
  have r: "cmp (xs ! k) (xs ! a) \<ge> 0" if "j' < k" "k < n" for k
    using d(3) [of k] assms(1) that by (cases "j \<le> k") (auto simp: part_inv_def)
  have b: "a \<le> i" "j \<le> n" "n \<le> length xs" using assms(1) by (simp_all add: part_inv_def)
  show ?thesis
  proof (cases "j' < i'")
    case True then show ?thesis using l r d(1,2) b by (auto simp: parted_def)
  next
    case False
    then have i: "a < i'" "i' < n" "a < j'" "j' < n" "i' \<le> j'" using u(1) d(2) b by auto
    have k: "eswap i' j' xs ! k = (if k = j' then xs ! i' else if k = i' then xs ! j' else xs ! k)" if "k < n" for k
      using i that b by (simp add: eswap_nth)
    have "part_inv cmp a n i' j' (eswap i' j' xs)"
      using i b l r u(4) d(4) by (auto simp: part_inv_def k)
    then show ?thesis using False i by simp
  qed
qed

lemma epart_spec:
  "part_inv cmp a n i j xs \<Longrightarrow> epart cmp a n i j xs = (ys, j') \<Longrightarrow>
    parted cmp a n j' ys \<and> moves a (n - a) xs ys"
proof (induction cmp a n i j xs rule: epart.induct)
  case (1 cmp a n i j xs)
  let ?i = "eup cmp a n xs i" and ?j = "edown cmp a xs j"
  note st = part_inv_step [OF 1(2) refl refl]
  show ?case
  proof (cases "?j < ?i")
    case True
    then have "ys = xs" "j' = ?j" using 1(3) by (auto simp: epart.simps [of cmp a n i j] Let_def)
    then show ?thesis using True st by (simp add: moves_refl)
  next
    case False
    then have s: "part_inv cmp a n ?i ?j (eswap ?i ?j xs)" "a < ?i" "?i < n" "a < ?j" "?j < n" using st by simp_all
    have "epart cmp a n ?i ?j (eswap ?i ?j xs) = (ys, j')" using False 1(3) by (simp add: epart.simps [of cmp a n i j] Let_def)
    note IH = 1(1) [OF refl refl False s(1) this]
    have "moves a (n - a) xs (eswap ?i ?j xs)"
      using s(2-5) 1(2) by (intro moves_eswap) (auto simp: part_inv_def)
    then show ?thesis using IH moves_trans by blast
  qed
qed

section \<open>Sorting\<close>

text \<open>What the comparison function has to be: the sign of a total preorder.\<close>

locale total_cmp =
  fixes cmp :: "'a \<Rightarrow> 'a \<Rightarrow> int"
  assumes cmp_sym: "cmp x y < 0 \<longleftrightarrow> cmp y x > 0"
    and cmp_trans: "cmp x y \<le> 0 \<Longrightarrow> cmp y z \<le> 0 \<Longrightarrow> cmp x z \<le> 0"
begin

lemma cmp_refl: "cmp x x \<le> 0"
  using cmp_sym [of x x] by linarith

lemma cmp_flip: "cmp x y \<ge> 0 \<longleftrightarrow> cmp y x \<le> 0"
  using cmp_sym [of x y] by linarith

end

text \<open>Differences of keys are such comparisons, and so is one comparison after another.\<close>

lemma total_cmp_diff: "total_cmp (\<lambda>x y. f x - f y)" "total_cmp (\<lambda>x y. f y - f x)"
  by (unfold_locales; linarith)+

lemma total_cmp_lex:
  assumes "total_cmp f" and "total_cmp g"
  shows "total_cmp (\<lambda>x y. if f x y \<noteq> 0 then f x y else g x y)"
proof
  note F = total_cmp.cmp_sym [OF assms(1)] total_cmp.cmp_trans [OF assms(1)] and
    G = total_cmp.cmp_sym [OF assms(2)] total_cmp.cmp_trans [OF assms(2)]
  have z: "f x y = 0 \<longleftrightarrow> f y x = 0" for x y using F(1) [of x y] F(1) [of y x] by linarith
  show "((if f x y \<noteq> 0 then f x y else g x y) < 0) = (0 < (if f y x \<noteq> 0 then f y x else g y x))" for x y
    using F(1) [of x y] G(1) [of x y] z [of x y] by auto
  fix x y w
  assume a: "(if f x y \<noteq> 0 then f x y else g x y) \<le> 0" "(if f y w \<noteq> 0 then f y w else g y w) \<le> 0"
  then have le: "f x y \<le> 0" "f y w \<le> 0" "f x w \<le> 0" using F(2) [of x y w] by (auto split: if_splits)
  show "(if f x w \<noteq> 0 then f x w else g x w) \<le> 0"
  proof (cases "f x w = 0")
    case True
    then have wx: "f w x \<le> 0" using z by simp
    have "f w y \<le> 0" "f y x \<le> 0" using F(2) [OF wx le(1)] F(2) [OF le(2) wx] by simp_all
    then have "f x y = 0" "f y w = 0" using le F(1) [of x y] F(1) [of y w] by linarith+
    then show ?thesis using True a G(2) [of x y w] by simp
  qed (use le in simp)
qed

definition eslice :: "nat \<Rightarrow> nat \<Rightarrow> 'a list \<Rightarrow> 'a list" where
  "eslice a n xs = take n (drop a xs)"

lemma moves_slice_set: "moves a n xs ys \<Longrightarrow> set (eslice a n ys) = set (eslice a n xs)"
  unfolding moves_def eslice_def using mset_eq_setD by blast

lemma moves_slice_outside:
  assumes "moves b k xs ys" and "a + n \<le> b \<or> b + k \<le> a"
  shows "eslice a n ys = eslice a n xs"
proof -
  from assms(2) show ?thesis
  proof
    assume l: "a + n \<le> b"
    have "take b ys = take b xs" using assms(1) by (simp add: moves_def)
    from arg_cong [OF this, of "\<lambda>zs. take n (drop a zs)"] l show ?thesis by (simp add: eslice_def drop_take min.absorb1)
  next
    assume l: "b + k \<le> a"
    have "drop (b + k) ys = drop (b + k) xs" using assms(1) by (simp add: moves_def)
    from arg_cong [OF this, of "\<lambda>zs. take n (drop (a - (b + k)) zs)"] l show ?thesis by (simp add: eslice_def)
  qed
qed

lemma moves_nth: "moves a n xs ys \<Longrightarrow> k < a \<or> a + n \<le> k \<and> k < length xs \<Longrightarrow> ys ! k = xs ! k"
proof -
  assume m: "moves a n xs ys" and k: "k < a \<or> a + n \<le> k \<and> k < length xs"
  have "take a ys ! k = take a xs ! k" "drop (a + n) ys ! (k - (a + n)) = drop (a + n) xs ! (k - (a + n))"
    "length ys = length xs"
    using m by (simp_all add: moves_def)
  then show ?thesis using k by auto
qed

lemma slice_split:
  assumes "a + n \<le> length xs" and "a \<le> p" and "p < a + n"
  shows "eslice a n xs = eslice a (p - a) xs @ xs ! p # eslice (p + 1) (a + n - p - 1) xs"
proof -
  have "n = (p - a) + Suc (a + n - p - 1)" using assms by simp
  then have "eslice a n xs = take (p - a) (drop a xs) @ take (Suc (a + n - p - 1)) (drop p xs)"
    unfolding eslice_def using take_add [of "p - a" "Suc (a + n - p - 1)" "drop a xs"] assms(2) by simp
  also have "take (Suc (a + n - p - 1)) (drop p xs) = xs ! p # eslice (p + 1) (a + n - p - 1) xs"
    using assms(1,3) by (simp add: eslice_def Cons_nth_drop_Suc [symmetric])
  finally show ?thesis by (simp add: eslice_def)
qed

lemma slice_set: "a + n \<le> length xs \<Longrightarrow> x \<in> set (eslice a n xs) \<Longrightarrow> \<exists>k. a \<le> k \<and> k < a + n \<and> x = xs ! k"
proof -
  assume "a + n \<le> length xs" "x \<in> set (eslice a n xs)"
  then obtain i where "i < n" "x = xs ! (a + i)" by (auto simp: eslice_def in_set_conv_nth)
  then show ?thesis by (intro exI [of _ "a + i"]) simp
qed

lemma estart_spec:
  assumes "1 < n" and "a + n \<le> length xs"
  shows "part_inv cmp a (a + n) a (a + n) (estart cmp a n xs)" and "moves a n xs (estart cmp a n xs)"
proof -
  have "a + n div 2 < a + n" "n > 10 \<Longrightarrow> epivot cmp a n xs < a + n" "n > 10 \<Longrightarrow> a \<le> epivot cmp a n xs"
    using assms(1) by (auto simp: epivot_def Let_def)
  then show "moves a n xs (estart cmp a n xs)" unfolding estart_def using assms by (intro moves_eswap) auto
  show "part_inv cmp a (a + n) a (a + n) (estart cmp a n xs)" using assms by (simp add: part_inv_def estart_def)
qed

text \<open>One round: partition the eslice, put the pivot at its place \<open>p\<close>.\<close>

lemma round_spec:
  assumes "1 < n" and "a + n \<le> length xs" and "epart cmp a (a + n) a (a + n) (estart cmp a n xs) = (ys, p)"
  defines "zs \<equiv> eswap a p ys"
  shows "a \<le> p" and "p < a + n" and "moves a n xs zs"
    and "\<And>k. a \<le> k \<Longrightarrow> k < p \<Longrightarrow> (\<And>x. cmp x x \<le> 0) \<Longrightarrow> cmp (zs ! k) (zs ! p) \<le> 0"
    and "\<And>k. p < k \<Longrightarrow> k < a + n \<Longrightarrow> cmp (zs ! k) (zs ! p) \<ge> 0"
proof -
  note s = estart_spec [OF assms(1,2), of cmp]
  have "parted cmp a (a + n) p ys \<and> moves a n (estart cmp a n xs) ys" using epart_spec [OF s(1) assms(3)] by simp
  then have p: "a \<le> p" "p < a + n" "\<And>k. a < k \<Longrightarrow> k \<le> p \<Longrightarrow> cmp (ys ! k) (ys ! a) \<le> 0"
      "\<And>k. p < k \<Longrightarrow> k < a + n \<Longrightarrow> cmp (ys ! k) (ys ! a) \<ge> 0" and m: "moves a n xs ys"
    using moves_trans [OF s(2)] by (auto simp: parted_def)
  have l: "length ys = length xs" using m by (simp add: moves_def)
  have z: "zs ! k = (if k = p then ys ! a else if k = a then ys ! p else ys ! k)" if "k < a + n" for k
    using that p(1,2) l assms(2) unfolding zs_def by (simp add: eswap_nth)
  show "a \<le> p" "p < a + n" by (fact p)+
  show "moves a n xs zs" unfolding zs_def
    using m p(1,2) l assms(2) by (intro moves_trans [OF m] moves_eswap) auto
  show "cmp (zs ! k) (zs ! p) \<le> 0" if "a \<le> k" "k < p" "\<And>x. cmp x x \<le> 0" for k
    using p(2) p(3) [of p] p(3) [of k] that by (simp add: z)
  show "cmp (zs ! k) (zs ! p) \<ge> 0" if "p < k" "k < a + n" for k
    using p(1,2) p(4) [of k] that by (simp add: z)
qed

lemma eqsorts_round:
  assumes "1 < n" and "epart cmp a (a + n) a (a + n) (estart cmp a n xs) = (ys, p)"
  shows "eqsorts cmp a n xs = (let zs = eswap a p ys; k = n - (p - a) - 1 in
    if k \<le> p - a then eqsorts cmp (a + (p - a) + 1) k (eqsorts cmp a (p - a) zs)
    else eqsorts cmp a (p - a) (eqsorts cmp (a + (p - a) + 1) k zs))"
  using assms by (simp add: eqsorts.simps [of cmp a n] Let_def)

lemma eqsorts_moves: "a + n \<le> length xs \<Longrightarrow> moves a n xs (eqsorts cmp a n xs)"
proof (induction n arbitrary: a xs rule: less_induct)
  case (less n)
  show ?case
  proof (cases "n > 1")
    case False then show ?thesis by (simp add: eqsorts.simps [of cmp a n] moves_refl)
  next
    case True
    obtain ys p where e: "epart cmp a (a + n) a (a + n) (estart cmp a n xs) = (ys, p)" by fastforce
    note r = round_spec(1-3) [OF True less(2) e]
    let ?z = "eswap a p ys" and ?j = "p - a" and ?k = "n - (p - a) - 1"
    have l: "length ?z = length xs" using r(3) by (simp add: moves_def)
    have m1: "moves a n u (eqsorts cmp a ?j u)" if "length u = length xs" for u
      using r(1,2) less(2) that by (intro moves_sub [OF less(1)]) auto
    have m2: "moves a n u (eqsorts cmp (a + ?j + 1) ?k u)" if "length u = length xs" for u
      using r(1,2) less(2) that True by (intro moves_sub [OF less(1)]) auto
    have len: "moves a n u v \<Longrightarrow> length v = length u" for u v :: "'a list" by (simp add: moves_def)
    show ?thesis unfolding eqsorts_round [OF True e] Let_def
      using moves_trans [OF r(3)] moves_trans [OF m1 [OF l] m2] moves_trans [OF m2 [OF l] m1] len [OF m1 [OF l]] len [OF m2 [OF l]] l
      by simp
  qed
qed

context total_cmp
begin

lemma sorted_join:
  assumes "a \<le> p" "p < a + n" "a + n \<le> length z" "length v = length z" "v ! p = z ! p"
    and "\<And>k. a \<le> k \<Longrightarrow> k < p \<Longrightarrow> cmp (z ! k) (z ! p) \<le> 0" "\<And>k. p < k \<Longrightarrow> k < a + n \<Longrightarrow> cmp (z ! k) (z ! p) \<ge> 0"
    and "set (eslice a (p - a) v) = set (eslice a (p - a) z)" "set (eslice (p + 1) (a + n - p - 1) v) = set (eslice (p + 1) (a + n - p - 1) z)"
    and "sorted_wrt (\<lambda>x y. cmp x y \<le> 0) (eslice a (p - a) v)" "sorted_wrt (\<lambda>x y. cmp x y \<le> 0) (eslice (p + 1) (a + n - p - 1) v)"
  shows "sorted_wrt (\<lambda>x y. cmp x y \<le> 0) (eslice a n v)"
proof -
  have l: "cmp x (z ! p) \<le> 0" if x: "x \<in> set (eslice a (p - a) v)" for x
  proof -
    obtain k where "a \<le> k" "k < a + (p - a)" "x = z ! k" using slice_set [of a "p - a" z x] x assms(1-3,8) by auto
    then show ?thesis using assms(1,6) by simp
  qed
  have r: "cmp (z ! p) y \<le> 0" if y: "y \<in> set (eslice (p + 1) (a + n - p - 1) v)" for y
  proof -
    obtain k where "p + 1 \<le> k" "k < p + 1 + (a + n - p - 1)" "y = z ! k"
      using slice_set [of "p + 1" "a + n - p - 1" z y] y assms(1-3,9) by auto
    then show ?thesis using assms(7) [of k] cmp_flip by simp
  qed
  have "eslice a n v = eslice a (p - a) v @ z ! p # eslice (p + 1) (a + n - p - 1) v"
    using slice_split [of a n v p] assms(1-5) by simp
  then show ?thesis using l r cmp_trans [of _ "z ! p"] assms(10,11) by (simp only: sorted_wrt_append) auto
qed

lemma eqsorts_sorted:
  "a + n \<le> length xs \<Longrightarrow> sorted_wrt (\<lambda>x y. cmp x y \<le> 0) (eslice a n (eqsorts cmp a n xs))"
proof (induction n arbitrary: a xs rule: less_induct)
  case (less n)
  show ?case
  proof (cases "n > 1")
    case False
    then have "length (eslice a n (eqsorts cmp a n xs)) \<le> 1" by (simp add: eslice_def)
    then show ?thesis by (cases "eslice a n (eqsorts cmp a n xs)") auto
  next
    case True
    obtain ys p where e: "epart cmp a (a + n) a (a + n) (estart cmp a n xs) = (ys, p)" by fastforce
    note r = round_spec [OF True less(2) e]
    define z j k b where "z = eswap a p ys" and "j = p - a" and "k = a + n - p - 1" and "b = p + 1"
    have jk: "a + j = p" "j < n" "k < n" "b + k = a + n" "n - (p - a) - 1 = k" "a + (p - a) + 1 = b"
      using r(1,2) True by (auto simp: j_def k_def b_def)
    have l: "length z = length xs" using r(3) by (simp add: z_def moves_def)
    have m: "moves a j u (eqsorts cmp a j u)" "moves b k u (eqsorts cmp b k u)"
      "sorted_wrt (\<lambda>x y. cmp x y \<le> 0) (eslice a j (eqsorts cmp a j u))"
      "sorted_wrt (\<lambda>x y. cmp x y \<le> 0) (eslice b k (eqsorts cmp b k u))" if "length u = length xs" for u
      using eqsorts_moves [of a j u cmp] eqsorts_moves [of b k u cmp] less(1) [of j a u] less(1) [of k b u] jk less(2) that by auto
    have key: "sorted_wrt (\<lambda>x y. cmp x y \<le> 0) (eslice a n v)"
      if u: "length u = length xs" "length v = length xs"
        "moves a j z u \<and> moves b k u v \<and> eslice a j v = eslice a j u \<and> eslice b k u = eslice b k z \<or>
         moves b k z u \<and> moves a j u v \<and> eslice b k v = eslice b k u \<and> eslice a j u = eslice a j z"
        and s: "sorted_wrt (\<lambda>x y. cmp x y \<le> 0) (eslice a j v)" "sorted_wrt (\<lambda>x y. cmp x y \<le> 0) (eslice b k v)" for u v
    proof (rule sorted_join [of a p n z v])
      have n: "moves a j w w' \<or> moves b k w w' \<Longrightarrow> w' ! p = w ! p" if "length w = length xs" for w w'
        using moves_nth [of a j w w' p] moves_nth [of b k w w' p] that jk(1) r(2) less(2) by (auto simp: b_def)
      show "v ! p = z ! p" using u(3) n [OF l, of u] n [OF u(1), of v] by presburger
      show "set (eslice a (p - a) v) = set (eslice a (p - a) z)" "set (eslice (p + 1) (a + n - p - 1) v) = set (eslice (p + 1) (a + n - p - 1) z)"
        using u(3) moves_slice_set [of a j z u] moves_slice_set [of b k z u] moves_slice_set [of a j u v]
          moves_slice_set [of b k u v]
        unfolding j_def b_def k_def by presburger+
      show "sorted_wrt (\<lambda>x y. cmp x y \<le> 0) (eslice a (p - a) v)" "sorted_wrt (\<lambda>x y. cmp x y \<le> 0) (eslice (p + 1) (a + n - p - 1) v)"
        using s by (simp_all add: j_def b_def k_def)
    qed (use r less(2) l u(2) cmp_refl z_def in auto)
    have o: "eslice a j v = eslice a j u" if "moves b k u v" for u v using moves_slice_outside [OF that, of a j] jk b_def by simp
    have o': "eslice b k v = eslice b k u" if "moves a j u v" for u v using moves_slice_outside [OF that, of b k] jk b_def by simp
    have len: "moves c i u v \<Longrightarrow> length v = length u" for c i and u v :: "'a list" by (simp add: moves_def)
    let ?A = "eqsorts cmp a j" and ?B = "eqsorts cmp b k"
    have lA: "length (?A z) = length xs" and lB: "length (?B z) = length xs" using m(1,2) [OF l] len l by auto
    have "sorted_wrt (\<lambda>x y. cmp x y \<le> 0) (eslice a n (?B (?A z)))"
      using key [of "?A z" "?B (?A z)"] m [OF l] m [OF lA] o [OF m(2) [OF lA]] o' [OF m(1) [OF l]] len [OF m(2) [OF lA]] lA by simp
    moreover have "sorted_wrt (\<lambda>x y. cmp x y \<le> 0) (eslice a n (?A (?B z)))"
      using key [of "?B z" "?A (?B z)"] m [OF l] m [OF lB] o' [OF m(1) [OF lB]] o [OF m(2) [OF l]] len [OF m(1) [OF lB]] lB by simp
    ultimately show ?thesis unfolding eqsorts_round [OF True e] jk Let_def by (simp add: z_def j_def)
  qed
qed

end

section \<open>From bytes to elements\<close>

text \<open>An array of elements of \<open>es\<close> bytes is the concatenation of its elements.\<close>

definition blocks :: "nat \<Rightarrow> u8 list list \<Rightarrow> bool" where
  "blocks es xs \<longleftrightarrow> 0 < es \<and> (\<forall>x \<in> set xs. length x = es)"

lemma blocks_length: "blocks es xs \<Longrightarrow> length (concat xs) = length xs * es"
  by (induction xs) (auto simp: blocks_def)

lemma blocks_nth: "blocks es xs \<Longrightarrow> k < length xs * es \<Longrightarrow> concat xs ! k = xs ! (k div es) ! (k mod es)"
proof (induction xs arbitrary: k)
  case (Cons x xs)
  have x: "length x = es" "0 < es" "blocks es xs" using Cons(2) by (auto simp: blocks_def)
  show ?case
  proof (cases "k < es")
    case False
    then have "k - es < length xs * es" "k div es = Suc ((k - es) div es)" "(k - es) mod es = k mod es"
      using Cons(3) x(2) by (auto simp: le_div_geq le_mod_geq)
    then show ?thesis using False Cons(1) [OF x(3)] x(1) by (simp add: nth_append)
  qed (simp add: nth_append x(1))
qed simp

lemma blocks_eswap: "blocks es xs \<Longrightarrow> i < length xs \<Longrightarrow> j < length xs \<Longrightarrow> blocks es (eswap i j xs)"
  by (auto simp: blocks_def eswap_def set_conv_nth nth_list_update)

lemma blocks_moves: "blocks es xs \<Longrightarrow> moves a n xs ys \<Longrightarrow> blocks es ys"
  using moves_mset [of a n xs ys] mset_eq_setD [of ys xs] by (simp add: blocks_def)

lemma block_fits: "i < n \<Longrightarrow> i * es + es \<le> n * (es :: nat)"
  using mult_le_mono1 [of "Suc i" n es] by simp

lemma load_block:
  assumes "blocks es xs" and "i < length xs"
  shows "load (int (i * es)) (int es) (concat xs) = Some (xs ! i)"
proof -
  have l: "length (concat xs) = length xs * es" "length (xs ! i) = es" "0 < es"
    using assms blocks_length by (auto simp: blocks_def)
  note f = block_fits [OF assms(2), of es]
  have "take es (drop (i * es) (concat xs)) = xs ! i"
  proof (rule nth_equalityI)
    fix k assume "k < length (take es (drop (i * es) (concat xs)))"
    then have k: "k < es" by simp
    moreover have "drop (i * es) (concat xs) ! k = concat xs ! (i * es + k)" using f l assms(2) by (intro nth_drop) simp
    moreover have "i * es + k < length xs * es" using f k by simp
    ultimately show "take es (drop (i * es) (concat xs)) ! k = xs ! i ! k" using l(3) blocks_nth [OF assms(1)] by simp
  qed (use f l in simp)
  then show ?thesis using f l by (simp add: load_def nat_mult_distrib flip: of_nat_mult of_nat_add)
qed

text \<open>The exchange of \<open>s\<close> bytes at \<open>i\<close> and \<open>j\<close>, byte by byte.\<close>

definition swap_pos :: "nat \<Rightarrow> nat \<Rightarrow> nat \<Rightarrow> nat \<Rightarrow> nat" where
  "swap_pos s i j k = (if j \<le> k \<and> k < j + s then i + k - j else if i \<le> k \<and> k < i + s then j + k - i else k)"

definition swapped :: "nat \<Rightarrow> nat \<Rightarrow> nat \<Rightarrow> u8 list \<Rightarrow> u8 list" where
  "swapped s i j m = map (\<lambda>k. m ! swap_pos s i j k) [0..<length m]"

definition apart :: "nat \<Rightarrow> nat \<Rightarrow> nat \<Rightarrow> u8 list \<Rightarrow> bool" where
  "apart s i j m \<longleftrightarrow> (i = j \<or> i + s \<le> j \<or> j + s \<le> i) \<and> i + s \<le> length m \<and> j + s \<le> length m"

lemma exchange_swapped:
  assumes "apart s i j m"
  shows "exchange (int s) (int i) (int j) m = Some (swapped s i j m)"
proof -
  have b: "i + s \<le> length m" "j + s \<le> length m" using assms by (simp_all add: apart_def)
  then have "load (int i) (int s) m = Some (take s (drop i m))" "load (int j) (int s) m = Some (take s (drop j m))"
    by (simp_all add: load_def)
  moreover define m1 where "m1 = take i m @ take s (drop j m) @ drop (i + s) m"
  moreover have "store (int i) (take s (drop j m)) m = Some m1" using b by (simp add: store_def m1_def)
  moreover have "store (int j) (take s (drop i m)) m1 = Some (take j m1 @ take s (drop i m) @ drop (j + s) m1)"
    using b by (simp add: store_def m1_def)
  moreover have "take j m1 @ take s (drop i m) @ drop (j + s) m1 = swapped s i j m"
  proof (rule nth_equalityI)
    show "length (take j m1 @ take s (drop i m) @ drop (j + s) m1) = length (swapped s i j m)"
      using b by (simp add: m1_def swapped_def)
    fix k assume "k < length (take j m1 @ take s (drop i m) @ drop (j + s) m1)"
    then have k: "k < length m" using b by (simp add: m1_def)
    have m1: "m1 ! k = (if i \<le> k \<and> k < i + s then m ! (j + k - i) else m ! k)" "length m1 = length m"
      using b k by (auto simp: m1_def nth_append)
    show "(take j m1 @ take s (drop i m) @ drop (j + s) m1) ! k = swapped s i j m ! k"
      using b k m1 by (auto simp: nth_append swapped_def swap_pos_def)
  qed
  ultimately show ?thesis by (simp add: exchange_def)
qed

lemma swapped_length [simp]: "length (swapped s i j m) = length m"
  by (simp add: swapped_def)

lemma swap_pos_cases:
  "j \<le> k \<Longrightarrow> k < j + s \<Longrightarrow> swap_pos s i j k = i + k - j"
  "i \<le> k \<Longrightarrow> k < i + s \<Longrightarrow> k < j \<or> j + s \<le> k \<Longrightarrow> swap_pos s i j k = j + k - i"
  "k < i \<or> i + s \<le> k \<Longrightarrow> k < j \<or> j + s \<le> k \<Longrightarrow> swap_pos s i j k = k"
  by (auto simp: swap_pos_def)

lemma swap_pos_split:
  assumes "i = j \<or> i + (s + t) \<le> j \<or> j + (s + t) \<le> i"
  shows "swap_pos s i j (swap_pos t (i + s) (j + s) k) = swap_pos (s + t) i j k"
proof (cases "i = j")
  case True then show ?thesis by (simp add: swap_pos_def)
next
  case False
  then have d: "i + (s + t) \<le> j \<or> j + (s + t) \<le> i" using assms by simp
  consider "j \<le> k" "k < j + s" | "j + s \<le> k" "k < j + s + t" | "i \<le> k" "k < i + s" | "i + s \<le> k" "k < i + s + t"
    | "k < i \<or> i + s + t \<le> k" "k < j \<or> j + s + t \<le> k" by linarith
  then show ?thesis
  proof cases
    case 1
    have "swap_pos t (i + s) (j + s) k = k" by (rule swap_pos_cases(3)) (use 1 d in linarith)+
    then show ?thesis using 1 by (simp add: swap_pos_cases(1))
  next
    case 2
    have "swap_pos t (i + s) (j + s) k = i + k - j" using 2 by (simp add: swap_pos_cases(1))
    moreover have "swap_pos s i j (i + k - j) = i + k - j" by (rule swap_pos_cases(3)) (use 2 d in linarith)+
    ultimately show ?thesis using 2 by (simp add: swap_pos_cases(1))
  next
    case 3
    have "swap_pos t (i + s) (j + s) k = k" by (rule swap_pos_cases(3)) (use 3 d in linarith)+
    moreover have "swap_pos s i j k = j + k - i" "swap_pos (s + t) i j k = j + k - i" using 3 d by (auto intro!: swap_pos_cases(2))
    ultimately show ?thesis by simp
  next
    case 4
    have "swap_pos t (i + s) (j + s) k = j + s + k - (i + s)" by (rule swap_pos_cases(2)) (use 4 d in linarith)+
    moreover have "swap_pos s i j (j + k - i) = j + k - i" by (rule swap_pos_cases(3)) (use 4 d in linarith)+
    moreover have "swap_pos (s + t) i j k = j + k - i" by (rule swap_pos_cases(2)) (use 4 d in linarith)+
    ultimately show ?thesis by simp
  next
    case 5
    have "swap_pos t (i + s) (j + s) k = k" by (rule swap_pos_cases(3)) (use 5 d in linarith)+
    moreover have "swap_pos s i j k = k" "swap_pos (s + t) i j k = k" using 5 d by (auto intro!: swap_pos_cases(3))
    ultimately show ?thesis by simp
  qed
qed

lemma swapped_split:
  assumes "apart (s + t) i j m"
  shows "swapped t (i + s) (j + s) (swapped s i j m) = swapped (s + t) i j m"
proof (rule nth_equalityI)
  fix k assume "k < length (swapped t (i + s) (j + s) (swapped s i j m))"
  then have k: "k < length m" by simp
  then have "swap_pos t (i + s) (j + s) k < length m" using assms by (auto simp: swap_pos_def apart_def)
  then show "swapped t (i + s) (j + s) (swapped s i j m) ! k = swapped (s + t) i j m ! k"
    using k assms swap_pos_split [of i j s t k] by (simp add: swapped_def apart_def)
qed simp

text \<open>Sizes a \<^verbatim>\<open>long\<close> holds; on them its arithmetic is that of the integers.\<close>

definition fits :: "int \<Rightarrow> nat \<Rightarrow> bool" where
  "fits sz x \<longleftrightarrow> int x < 2 ^ (8 * nat sz - 1)"

lemma fits_le: "fits sz x \<Longrightarrow> y \<le> x \<Longrightarrow> fits sz y"
  by (simp add: fits_def)

lemma long_of_fits: "fits sz x \<Longrightarrow> long_of sz (int x) = int x"
  unfolding fits_def long_of_def by (rule signed_take_bit_int_eq_self) (simp_all add: order_trans [of _ 0])

lemma swap_loop:
  assumes "\<And>i j es m. f i j es m = Option.bind (exchange (int s) i j m)
      (\<lambda>m. let es = long_of sz (es - int s) in if es \<noteq> 0 then f (i + int s) (j + int s) es m else Some m)"
    and "0 < s" and "apart (s * Suc t) i j m" and "fits sz (s * Suc t)"
  shows "f (int i) (int j) (int (s * Suc t)) m = Some (swapped (s * Suc t) i j m)"
  using assms(3,4)
proof (induction t arbitrary: i j m)
  case 0
  then show ?case using long_of_fits [OF fits_le [OF 0(2)], of 0]
    by (subst assms(1)) (simp add: exchange_swapped)
next
  case (Suc t)
  let ?m = "swapped s i j m"
  have a: "apart s i j m" "apart (s * Suc t) (i + s) (j + s) ?m" using Suc(2) by (auto simp: apart_def)
  have "f (int i) (int j) (int (s * Suc (Suc t))) m = f (int (i + s)) (int (j + s)) (int (s * Suc t)) ?m"
  proof -
    have "int (s * Suc (Suc t)) - int s = int (s * Suc t)" "s * Suc t \<noteq> 0" using assms(2) by (simp_all add: algebra_simps)
    moreover have "long_of sz (int (s * Suc t)) = int (s * Suc t)"
      by (rule long_of_fits [OF fits_le [OF Suc(3)]]) simp
    ultimately show ?thesis by (subst assms(1)) (simp add: exchange_swapped [OF a(1)] del: mult_Suc_right of_nat_mult)
  qed
  also have "\<dots> = Some (swapped (s * Suc t) (i + s) (j + s) ?m)" by (rule Suc(1) [OF a(2) fits_le [OF Suc(3)]]) simp
  also have "swapped (s * Suc t) (i + s) (j + s) ?m = swapped (s * Suc (Suc t)) i j m"
    using swapped_split [of s "s * Suc t" i j m] Suc(2) by simp
  finally show ?case .
qed

lemma swapped_blocks:
  assumes "blocks es xs" and "i < length xs" and "j < length xs"
  shows "apart es (i * es) (j * es) (concat xs)" and "swapped es (i * es) (j * es) (concat xs) = concat (eswap i j xs)"
proof -
  note f = block_fits [OF assms(2), of es] block_fits [OF assms(3), of es] and l = blocks_length [OF assms(1)]
  have es: "0 < es" using assms(1) by (simp add: blocks_def)
  show "apart es (i * es) (j * es) (concat xs)"
    using f l block_fits [of i j es] block_fits [of j i es] by (auto simp: apart_def linorder_neq_iff)
  show "swapped es (i * es) (j * es) (concat xs) = concat (eswap i j xs)"
  proof (rule nth_equalityI)
    note bs = blocks_eswap [OF assms]
    show "length (swapped es (i * es) (j * es) (concat xs)) = length (concat (eswap i j xs))"
      using l blocks_length [OF bs] by simp
    fix k assume "k < length (swapped es (i * es) (j * es) (concat xs))"
    then have k: "k < length xs * es" "k < length (concat xs)" using l by simp_all
    have q: "k div es < length xs" using k(1) es by (simp add: div_less_iff_less_mult)
    have c: "q * es \<le> k \<and> k < q * es + es \<longleftrightarrow> k div es = q" for q
      using es by (metis add.commute div_nat_eqI dividend_less_div_times div_times_less_eq_dividend mult.commute mult_Suc)
    have r: "concat xs ! (p * es + k - q * es) = xs ! p ! (k mod es)" if "k div es = q" "p < length xs" for p q
    proof -
      have "q * es + k mod es = k" using that(1) by (metis div_mult_mod_eq)
      then have "p * es + k - q * es = p * es + k mod es" by simp
      moreover have "p * es + k mod es < length xs * es" using block_fits [OF that(2), of es] mod_less_divisor [OF es, of k] by linarith
      ultimately show ?thesis using es by (simp add: blocks_nth [OF assms(1)])
    qed
    show "swapped es (i * es) (j * es) (concat xs) ! k = concat (eswap i j xs) ! k"
      using k q r [of j i] r [of i j] assms(2,3) blocks_nth [OF assms(1) k(1)] blocks_nth [OF bs, of k]
      by (simp add: swapped_def swap_pos_def c eswap_nth)
  qed
qed

text \<open>What \<^verbatim>\<open>qsorts\<close> needs of the exchange routine; both routines have it.\<close>

definition swaps :: "nat \<Rightarrow> (int \<Rightarrow> int \<Rightarrow> int \<Rightarrow> u8 list \<Rightarrow> u8 list option) \<Rightarrow> bool" where
  "swaps es sw \<longleftrightarrow> (\<forall>xs i j. blocks es xs \<longrightarrow> i < length xs \<longrightarrow> j < length xs \<longrightarrow>
     sw (int (i * es)) (int (j * es)) (int es) (concat xs) = Some (concat (eswap i j xs)))"

lemma swaps_loop:
  assumes "\<And>i j es m. f i j es m = Option.bind (exchange (int s) i j m)
      (\<lambda>m. let es = long_of sz (es - int s) in if es \<noteq> 0 then f (i + int s) (j + int s) es m else Some m)"
    and "0 < s" and "0 < es" and "s dvd es" and "fits sz es"
  shows "swaps es f"
proof -
  obtain t where t: "es = s * Suc t" using assms(3,4) by (metis dvdE gr0_implies_Suc gr_zeroI mult_0_right)
  show ?thesis unfolding swaps_def using swap_loop [where f = f and s = s and sz = sz, OF assms(1,2)] swapped_blocks t assms(5) by metis
qed

lemma swaps_swapb: "0 < es \<Longrightarrow> fits sz es \<Longrightarrow> swaps es (swapb sz)"
  by (rule swaps_loop [where s = 1 and sz = sz]) (subst swapb.simps, simp_all cong: if_cong)

lemma swaps_swapi: "0 < es \<Longrightarrow> 0 < sz \<Longrightarrow> sz dvd es \<Longrightarrow> fits (int sz) es \<Longrightarrow> swaps es (swapi (int sz))"
  by (rule swaps_loop [where s = sz and sz = "int sz"]) (subst swapi.simps, simp_all)

definition sorts_blocks :: "nat \<Rightarrow> Sort \<Rightarrow> bool" where
  "sorts_blocks es p \<longleftrightarrow> 0 < es \<and> es_of p = int es \<and> swaps es (swap_fn p)"

lemma call_cmp_block:
  assumes "blocks es xs" and "es_of p = int es" and "i < length xs" and "j < length xs"
  shows "call_cmp p (int (i * es)) (int (j * es)) (concat xs) = Some (cmp_fn p (xs ! i) (xs ! j))"
  using load_block [OF assms(1,3)] load_block [OF assms(1,4)] by (simp add: call_cmp_def assms(2))

lemma block_order: "0 < es \<Longrightarrow> int (i * es) < int (j * es) \<longleftrightarrow> i < j"
  by simp

lemma scan_up_block:
  assumes "sorts_blocks es p" and "blocks es xs" and "n \<le> length xs" and "a < length xs"
  shows "scan_up p (int (a * es)) (int (n * es)) (concat xs) (int (i * es)) = Some (int (eup (cmp_fn p) a n xs i * es))"
proof (induction "n - i" arbitrary: i rule: less_induct)
  case less
  have e: "int (i * es) + es_of p = int ((i + 1) * es)" "0 < es" "es_of p = int es" using assms(1) by (simp_all add: sorts_blocks_def)
  note o = block_order [OF e(2), of "i + 1" n]
  show ?case
  proof (cases "i + 1 < n")
    case True
    then have "call_cmp p (int ((i + 1) * es)) (int (a * es)) (concat xs) = Some (cmp_fn p (xs ! (i + 1)) (xs ! a))"
      by (intro call_cmp_block [OF assms(2) e(3)]) (use assms(3,4) in auto)
    then show ?thesis using True less [of "i + 1"] o
      by (subst scan_up.simps, subst eup.simps) (simp only: Let_def e(1) if_True bind.bind_lunit simp_thms if_split, simp add: algebra_simps)
  next
    case False
    then show ?thesis using o by (subst scan_up.simps, subst eup.simps) (simp only: Let_def e(1) if_False simp_thms)
  qed
qed

lemma scan_down_block:
  assumes "sorts_blocks es p" and "blocks es xs" and "a < length xs"
  shows "0 < j \<Longrightarrow> j \<le> length xs \<Longrightarrow>
    scan_down p (int (a * es)) (concat xs) (int (j * es)) = Some (int (edown (cmp_fn p) a xs j * es))"
proof (induction j)
  case (Suc j)
  have e: "int (Suc j * es) - es_of p = int (j * es)" "0 < es" "es_of p = int es" using assms(1) by (simp_all add: sorts_blocks_def)
  note o = block_order [OF e(2), of a j]
  show ?case
  proof (cases "a < j")
    case True
    then have "call_cmp p (int (j * es)) (int (a * es)) (concat xs) = Some (cmp_fn p (xs ! j) (xs ! a))"
      using call_cmp_block [OF assms(2) e(3)] assms(3) Suc(3) by simp
    then show ?thesis using True Suc o
      by (subst scan_down.simps) (simp only: Let_def e(1) if_True bind.bind_lunit simp_thms if_split edown.simps, simp)
  next
    case False
    then show ?thesis using o by (subst scan_down.simps) (simp only: Let_def e(1) if_False simp_thms edown.simps)
  qed
qed simp

lemma part_loop_block:
  assumes "sorts_blocks es p" and "part_inv (cmp_fn p) a n i j xs" and "blocks es xs"
  shows "part_loop p (int (a * es)) (int (n * es)) (int (i * es)) (int (j * es)) (concat xs) =
    map_option (\<lambda>(ys, k). (concat ys, int (k * es))) (Some (epart (cmp_fn p) a n i j xs))"
  using assms(2,3)
proof (induction j arbitrary: i xs rule: less_induct)
  case (less j)
  define c i' j' where "c = cmp_fn p" and "i' = eup c a n xs i" and "j' = edown c a xs j"
  have es: "0 < es" "es_of p = int es" "swaps es (swap_fn p)" using assms(1) by (simp_all add: sorts_blocks_def)
  have b: "n \<le> length xs" "a < length xs" "0 < j" "j \<le> length xs" using less(2) by (auto simp: part_inv_def)
  have u: "scan_up p (int (a * es)) (int (n * es)) (concat xs) (int (i * es)) = Some (int (i' * es))"
    using scan_up_block [OF assms(1) less(3) b(1,2)] by (simp only: i'_def c_def)
  have d: "scan_down p (int (a * es)) (concat xs) (int (j * es)) = Some (int (j' * es))"
    using scan_down_block [OF assms(1) less(3) b(2-4)] by (simp only: j'_def c_def)
  have step: "if j' < i' then parted c a n j' xs
    else part_inv c a n i' j' (eswap i' j' xs) \<and> a < i' \<and> i' < n \<and> a < j' \<and> j' < n"
    using part_inv_step [OF less(2) refl refl] by (simp only: i'_def j'_def c_def)
  show ?case
  proof (cases "j' < i'")
    case True
    then have "epart c a n i j xs = (xs, j')" by (simp add: epart.simps [of c] Let_def i'_def [symmetric] j'_def [symmetric])
    then show ?thesis using True block_order [OF es(1), of j' i'] u d by (subst part_loop.simps) (simp add: c_def)
  next
    case False
    then have s: "part_inv c a n i' j' (eswap i' j' xs)" "i' < length xs" "j' < length xs" using step b by auto
    have e: "epart c a n i j xs = epart c a n i' j' (eswap i' j' xs)"
      using False by (subst epart.simps) (simp add: Let_def i'_def [symmetric] j'_def [symmetric])
    have w: "swap_fn p (int (i' * es)) (int (j' * es)) (int es) (concat xs) = Some (concat (eswap i' j' xs))"
      using es(3) less(3) s(2,3) by (simp add: swaps_def)
    have "j' < j" using edown_le [of c a xs j] b(3) by (simp add: j'_def)
    note IH = less(1) [OF this s(1) [unfolded c_def] blocks_eswap [OF less(3) s(2,3)]]
    show ?thesis using False block_order [OF es(1), of j' i'] u d w IH e
      by (subst part_loop.simps) (simp add: c_def es(2))
  qed
qed

lemma pivot_block:
  assumes "es_of p = int es" and "blocks es xs" and "10 < n" and "a + n \<le> length xs" and "fits sz (n * es)"
  shows "pivot sz (int (a * es)) (int n) p (concat xs) = Some (int (epivot (cmp_fn p) a n xs * es))"
proof -
  let ?q = "n div 6"
  have f: "fits sz (?q * es)" "fits sz (?q * es + ?q * es)"
    by (rule fits_le [OF assms(5)]; simp flip: distrib_right; linarith)+
  have q: "long_of sz (int n div 6 * int es) = int (?q * es)"
    "long_of sz (int (?q * es) + int (?q * es)) = int (?q * es) + int (?q * es)"
    using long_of_fits [OF f(1)] long_of_fits [OF f(2)] by (simp_all add: zdiv_int)
  have o: "int (a * es) + int (?q * es) = int ((a + ?q) * es)"
    "int ((a + ?q) * es) + (int (?q * es) + int (?q * es)) = int ((a + 3 * ?q) * es)"
    "int ((a + 3 * ?q) * es) + (int (?q * es) + int (?q * es)) = int ((a + 5 * ?q) * es)"
    by (simp_all add: algebra_simps)
  have b: "a + ?q < length xs" "a + 3 * ?q < length xs" "a + 5 * ?q < length xs" using assms(3,4) by linarith+
  show ?thesis unfolding pivot_def epivot_def Let_def assms(1) q o
    by (simp only: call_cmp_block [OF assms(2,1) b(1,2)] call_cmp_block [OF assms(2,1) b(1,3)] call_cmp_block [OF assms(2,1) b(2,3)]
        bind.bind_lunit if_distrib [of "\<lambda>k. Some (int (k * es))"])
qed

text \<open>\<^verbatim>\<open>qsorts\<close> on bytes is the element version, for any comparison function.\<close>

lemma qsorts_block:
  assumes "sorts_blocks es p"
  shows "blocks es xs \<Longrightarrow> a + n \<le> length xs \<Longrightarrow> fits sz (n * es) \<Longrightarrow>
    qsorts sz p (int (a * es)) (int n) (concat xs) = Some (concat (eqsorts (cmp_fn p) a n xs))"
proof (induction n arbitrary: a xs rule: less_induct)
  case (less n)
  define c where "c = cmp_fn p"
  have es: "0 < es" "es_of p = int es" "swaps es (swap_fn p)" using assms by (simp_all add: sorts_blocks_def)
  show ?case
  proof (cases "n > 1")
    case False then show ?thesis by (subst qsorts.simps, subst eqsorts.simps) simp
  next
    case True
    obtain ys p' where e: "epart c a (a + n) a (a + n) (estart c a n xs) = (ys, p')" by fastforce
    note r = round_spec(1-3) [OF True less(3) e] and st = estart_spec [OF True less(3), of c]
    let ?q = "if n > 10 then epivot c a n xs else a + n div 2"
    have q: "?q < length xs" using True less(3) by (auto simp: epivot_def Let_def)
    have long: "long_of sz (int x) = int x" if "x \<le> n * es" for x
      using long_of_fits [OF fits_le [OF less(4) that]] .
    have pn: "int (a * es) + long_of sz (int n * es_of p) = int ((a + n) * es)"
      using long [of "n * es"] by (simp add: es(2) algebra_simps)
    have p1: "(if int n > 10 then pivot sz (int (a * es)) (int n) p (concat xs) else Some (int (a * es) + long_of sz (int n div 2 * es_of p))) = Some (int (?q * es))"
      using pivot_block [OF es(2) less(2) _ less(3,4)] long [of "n div 2 * es"]
      by (simp add: c_def es(2) zdiv_int algebra_simps)
    have sw: "swap_fn p (int (i * es)) (int (j * es)) (es_of p) (concat xs) = Some (concat (eswap i j xs))"
      if "blocks es xs" "i < length xs" "j < length xs" for i j xs using es(2,3) that by (simp add: swaps_def)
    have bs: "blocks es (estart c a n xs)" "length (estart c a n xs) = length xs"
      using blocks_moves [OF less(2) st(2)] st(2) by (simp_all add: moves_def)
    have p2: "part_loop p (int (a * es)) (int ((a + n) * es)) (int (a * es)) (int ((a + n) * es)) (concat (estart c a n xs)) = Some (concat ys, int (p' * es))"
      using part_loop_block [OF assms st(1) [unfolded c_def]] bs(1) e by (simp add: c_def)
    have m: "moves a n xs ys" using epart_spec [OF st(1) e] moves_trans [OF st(2)] by simp
    have yb: "blocks es ys" "length ys = length xs" using blocks_moves [OF less(2) m] m by (simp_all add: moves_def)
    define z j k where "z = eswap a p' ys" and "j = p' - a" and "k = n - j - 1"
    have z: "blocks es z" "length z = length xs" using blocks_eswap [OF yb(1), of a p'] yb(2) r less(3) by (simp_all add: z_def)
    have j: "long_of sz (long_of sz (int (p' * es) - int (a * es)) div es_of p) = int j"
      "long_of sz (long_of sz (int n - int j) - 1) = int k"
      "int (a * es) + long_of sz (long_of sz (int j + 1) * es_of p) = int ((a + j + 1) * es)" "j < n" "k < n" "a + j \<le> length xs" "a + j + 1 + k \<le> length xs"
    proof -
      have jn: "j < n" using r(1,2) by (auto simp: j_def)
      have le: "x \<le> n \<Longrightarrow> x \<le> n * es" "x \<le> n \<Longrightarrow> x * es \<le> n * es" for x
        using es(1) by (auto intro: order_trans [of _ n])
      have "int (p' * es) - int (a * es) = int (j * es)" using r(1) by (simp add: j_def algebra_simps of_nat_diff)
      then show "long_of sz (long_of sz (int (p' * es) - int (a * es)) div es_of p) = int j"
        using es(1,2) jn long [OF le(2), of j] long [OF le(1), of j] by simp
      have "int n - int j = int (n - j)" "int (n - j) - 1 = int k" using jn by (simp_all add: k_def of_nat_diff)
      then show "long_of sz (long_of sz (int n - int j) - 1) = int k"
        using long [OF le(1), of "n - j"] long [OF le(1), of k] by (simp only: k_def diff_le_self le_diff_conv le_add1 le_add2 simp_thms)
      have "long_of sz (int (j + 1)) = int (j + 1)" "long_of sz (int ((j + 1) * es)) = int ((j + 1) * es)"
        using jn by (intro long le; simp)+
      then show "int (a * es) + long_of sz (long_of sz (int j + 1) * es_of p) = int ((a + j + 1) * es)"
        by (simp add: es(2) algebra_simps)
      show "j < n" "k < n" "a + j \<le> length xs" "a + j + 1 + k \<le> length xs" using r(1,2) less(3) True by (auto simp: j_def k_def)
    qed
    have G: "qsorts sz p (int (b * es)) (int l) (concat u) = Some (concat (eqsorts c b l u))"
      "blocks es (eqsorts c b l u)" "length (eqsorts c b l u) = length u"
      if "l < n" "blocks es u" "b + l \<le> length u" for b l u
      using less(1) [OF that fits_le [OF less(4)]] that(1) blocks_moves [OF that(2) eqsorts_moves [OF that(3), of c]] eqsorts_moves [OF that(3), of c]
      by (simp_all add: c_def moves_def)
    let ?A = "eqsorts c a j" and ?B = "eqsorts c (a + j + 1) k"
    note A = G [OF j(4) _, of _ a] and B = G [OF j(5) _, of _ "a + j + 1"]
    have AB: "qsorts sz p (int (a * es)) (int j) (concat z) = Some (concat (?A z))"
      "qsorts sz p (int ((a + j + 1) * es)) (int k) (concat (?A z)) = Some (concat (?B (?A z)))"
      "qsorts sz p (int ((a + j + 1) * es)) (int k) (concat z) = Some (concat (?B z))"
      "qsorts sz p (int (a * es)) (int j) (concat (?B z)) = Some (concat (?A (?B z)))"
      using A(1) [OF z(1)] B(1) [OF A(2) [OF z(1)]] B(1) [OF z(1)] A(1) [OF B(2) [OF z(1)]] A(3) [OF z(1)] B(3) [OF z(1)] z(2) j(6,7)
      by simp_all
    have "qsorts sz p (int (a * es)) (int n) (concat xs) =
      (if int k \<le> int j then Option.bind (qsorts sz p (int (a * es)) (int j) (concat z)) (qsorts sz p (int ((a + j + 1) * es)) (int k))
       else Option.bind (qsorts sz p (int ((a + j + 1) * es)) (int k) (concat z)) (qsorts sz p (int (a * es)) (int j)))"
    proof -
      have t: "1 < int n" using True by simp
      have s1: "swap_fn p (int (a * es)) (int (?q * es)) (es_of p) (concat xs) = Some (concat (estart c a n xs))"
        unfolding estart_def by (rule sw [OF less(2) _ q]) (use r less(3) in simp)
      have s2: "swap_fn p (int (a * es)) (int (p' * es)) (es_of p) (concat ys) = Some (concat z)"
        unfolding z_def by (rule sw [OF yb(1)]) (use r less(3) yb(2) in simp_all)
      show ?thesis
        by (subst qsorts.simps) (simp only: t if_True Let_def p1 bind.bind_lunit s1 pn p2 prod.case s2 j(1-3))
    qed
    then show ?thesis unfolding c_def [symmetric] eqsorts_round [OF True e] Let_def j_def [symmetric] k_def [symmetric] z_def [symmetric]
      by (simp only: AB bind.bind_lunit of_nat_le_iff if_distrib [of "\<lambda>u. Some (concat u)"])
  qed
qed

section \<open>The interface\<close>

text \<open>What a client relies on: \<open>sort\<close> rearranges, and sorts when the comparison is a total preorder.\<close>

locale sorter =
  fixes sort :: "('a \<Rightarrow> 'a \<Rightarrow> int) \<Rightarrow> 'a list \<Rightarrow> 'a list"
  assumes sort_mset: "mset (sort cmp xs) = mset xs"
    and sort_sorted: "total_cmp cmp \<Longrightarrow> sorted_wrt (\<lambda>x y. cmp x y \<le> 0) (sort cmp xs)"
begin

lemma sort_set: "set (sort cmp xs) = set xs"
  using mset_eq_setD [OF sort_mset] .

lemma sort_length: "length (sort cmp xs) = length xs"
  using arg_cong [OF sort_mset, of size] by simp

text \<open>A table whose keys are a function of the comparison is grouped by key.\<close>

lemma sort_groups:
  assumes "total_cmp cmp" and "\<And>x y. cmp x y \<le> 0 \<Longrightarrow> key x \<le> (key y :: 'k :: linorder)"
  shows "sorted (map key (sort cmp xs))"
  using sort_sorted [OF assms(1)] assms(2) unfolding sorted_map by (rule sorted_wrt_mono_rel [rotated]) simp

end

definition eqsort :: "('a \<Rightarrow> 'a \<Rightarrow> int) \<Rightarrow> 'a list \<Rightarrow> 'a list" where
  "eqsort cmp xs = eqsorts cmp 0 (length xs) xs"

interpretation qs: sorter eqsort
proof
  show "mset (eqsort cmp xs) = mset xs" for cmp :: "'a \<Rightarrow> 'a \<Rightarrow> int" and xs
    unfolding eqsort_def by (rule moves_mset [OF eqsorts_moves]) simp
  show "total_cmp cmp \<Longrightarrow> sorted_wrt (\<lambda>x y. cmp x y \<le> 0) (eqsort cmp xs)" for cmp :: "'a \<Rightarrow> 'a \<Rightarrow> int" and xs
    using total_cmp.eqsorts_sorted [of cmp 0 "length xs" xs] eqsorts_moves [of 0 "length xs" xs cmp]
    by (simp add: eqsort_def eslice_def moves_def)
qed

section \<open>Properties\<close>

lemma qsort_swaps:
  assumes "0 < es" and "k \<le> 64" and "fits (2 ^ k) es"
  shows "swaps es (if uint (va OR word_of_int (int es) :: u64) mod 2 ^ k \<noteq> 0 then swapb (2 ^ k) else swapi (2 ^ k))"
proof (cases "uint (va OR word_of_int (int es) :: u64) mod 2 ^ k = 0")
  case True
  have "take_bit k (int es) = 0"
  proof (rule bit_eqI)
    fix j
    have "\<not> bit (take_bit k (uint (va OR word_of_int (int es) :: u64))) j" using True by (simp add: take_bit_eq_mod)
    moreover have "bit (word_of_int (int es) :: u64) j \<longleftrightarrow> j < LENGTH(64) \<and> bit (int es) j" by (rule bit_word_of_int_iff)
    ultimately show "bit (take_bit k (int es)) j = bit (0 :: int) j"
      using assms(2) by (auto simp: bit_take_bit_iff bit_uint_iff bit_or_iff)
  qed
  then have "int (2 ^ k) dvd int es" by (simp add: take_bit_eq_mod mod_eq_0_iff_dvd)
  then have "2 ^ k dvd es" by (simp only: int_dvd_int_iff)
  then show ?thesis using True swaps_swapi [OF assms(1), of "2 ^ k"] assms(3) by simp
qed (simp add: swaps_swapb [OF assms(1,3)])

lemma qsort_elements:
  assumes "blocks es xs" and "n \<le> length xs" and "k \<le> 64" and "int n * int es < 2 ^ (8 * 2 ^ k - 1)"
  shows "qsort (2 ^ k) va (int n) (int es) cmp (concat xs) = Some (concat (eqsorts cmp 0 n xs))"
proof (cases "n = 0")
  case True
  then show ?thesis by (simp add: qsort_def qsorts.simps eqsorts.simps)
next
  case False
  have n: "fits (2 ^ k) (n * es)" using assms(4) by (simp add: fits_def nat_power_eq)
  have f: "fits (2 ^ k) es" by (rule fits_le [OF n]) (use False in simp)
  have es: "0 < es" using assms(1) by (simp add: blocks_def)
  let ?p = "\<lparr>cmp_fn = cmp, swap_fn = (if uint (va OR word_of_int (int es)) mod 2 ^ k \<noteq> 0 then swapb (2 ^ k) else swapi (2 ^ k)), es_of = int es\<rparr>"
  have "sorts_blocks es ?p" using qsort_swaps [OF es assms(3) f, of va] es by (simp add: sorts_blocks_def)
  from qsorts_block [OF this assms(1), of 0 n] assms(2) n show ?thesis by (simp add: qsort_def)
qed

text \<open>
  C7: sorting a whole array whose size in bytes is a \<^verbatim>\<open>long\<close>. For elements of any
  positive size, any alignment of the array and \<^verbatim>\<open>sizeof(long)\<close> any power of two, \<^verbatim>\<open>qsort\<close> with a
  comparison function that is the sign of a total preorder ends, never touches a byte outside the
  array, and leaves a permutation of the elements in ascending order. For a larger array the
  \<^verbatim>\<open>long\<close> product \<^verbatim>\<open>n*es\<close> wraps.
\<close>

theorem qsort_sorts:
  assumes "blocks es xs" and "k \<le> 64" and "int (length xs) * int es < 2 ^ (8 * 2 ^ k - 1)"
    and "total_cmp cmp"
  shows "\<exists>ys. qsort (2 ^ k) va (int (length xs)) (int es) cmp (concat xs) = Some (concat ys) \<and>
    blocks es ys \<and> mset ys = mset xs \<and> sorted_wrt (\<lambda>x y. cmp x y \<le> 0) ys"
proof (intro exI conjI)
  show "qsort (2 ^ k) va (int (length xs)) (int es) cmp (concat xs) = Some (concat (eqsort cmp xs))"
    using qsort_elements [OF assms(1) order_refl assms(2,3)] by (simp add: eqsort_def)
  show "blocks es (eqsort cmp xs)" using assms(1) by (simp add: blocks_def qs.sort_set)
  show "mset (eqsort cmp xs) = mset xs" by (rule qs.sort_mset)
  show "sorted_wrt (\<lambda>x y. cmp x y \<le> 0) (eqsort cmp xs)" by (rule qs.sort_sorted [OF assms(4)])
qed

theorem qsort_sorts_witness:
  "\<exists>ys. qsort (2 ^ 3) 0x1000 3 1 (\<lambda>x y. int (unat (hd x)) - int (unat (hd y))) [7, 9, 2] = Some (concat ys) \<and>
    mset ys = mset [[7], [9], [2]] \<and> sorted_wrt (\<lambda>x y. int (unat (hd x)) - int (unat (hd y)) \<le> 0) ys"
proof -
  have b: "blocks 1 [[7], [9], [2]]" and c: "total_cmp (\<lambda>x y. int (unat (hd x :: u8)) - int (unat (hd y)))"
    by (simp_all add: blocks_def) (unfold_locales, auto)
  from qsort_sorts [OF b _ _ c, of 3 "0x1000"] show ?thesis by auto
qed

text \<open>
  C28: with a comparison function of any kind, even an inconsistent one, \<^verbatim>\<open>qsort\<close> on the
  first \<open>n\<close> elements of an array ends, stays inside them and permutes them, as long as their
  size in bytes, the product \<^verbatim>\<open>n*es\<close> of the source, is a \<^verbatim>\<open>long\<close>.
\<close>

theorem qsort_safe:
  assumes "blocks es xs" and "n \<le> length xs" and "k \<le> 64" and "int n * int es < 2 ^ (8 * 2 ^ k - 1)"
  shows "\<exists>ys. qsort (2 ^ k) va (int n) (int es) cmp (concat xs) = Some (concat ys) \<and> blocks es ys \<and>
    mset (take n ys) = mset (take n xs) \<and> drop n ys = drop n xs"
proof -
  have "moves 0 n xs (eqsorts cmp 0 n xs)" using assms(2) by (intro eqsorts_moves) simp
  from this blocks_moves [OF assms(1) this] show ?thesis
    by (intro exI [of _ "eqsorts cmp 0 n xs"]) (simp add: qsort_elements [OF assms] moves_def)
qed

theorem qsort_safe_witness:
  "\<exists>ys. qsort (2 ^ 2) 0x1001 2 2 (\<lambda>x y. - 1) [1, 2, 3, 4, 5, 6] = Some (concat ys) \<and> drop 2 ys = [[5, 6]]"
proof -
  have "blocks 2 [[1, 2], [3, 4], [5, 6]]" by (simp add: blocks_def)
  from qsort_safe [OF this, of 2 2 "0x1001" "\<lambda>x y. - 1"] show ?thesis by auto
qed

end
