(* ===== verification/Link5_Optab.thy ===== *)
theory Link5_Optab
  imports Link5_Asm Qsort
begin

text \<open>
  The rules of the ARM linker: the table of \<^verbatim>\<open>linkers/5l/optab.c\<close>, its preparation \<^verbatim>\<open>buildop\<close> and the
  search \<^verbatim>\<open>oplook\<close> of \<^verbatim>\<open>span.c\<close>. Pointers into the table are indices. The main results say that the
  search through sorted ranges with a cache of class comparisons finds the least matching rule of
  the table, whatever order the sort leaves equal keys in.
\<close>

section \<open>The table\<close>

abbreviation (input) LFROM :: u32 where "LFROM \<equiv> 1"
abbreviation (input) LTO :: u32 where "LTO \<equiv> 2"
abbreviation (input) LPOOL :: u32 where "LPOOL \<equiv> 4"
abbreviation (input) V4 :: u32 where "V4 \<equiv> 8"
abbreviation (input) VFP :: u32 where "VFP \<equiv> 16"

definition rule :: "nat \<Rightarrow> nat \<Rightarrow> nat \<Rightarrow> nat \<Rightarrow> nat \<Rightarrow> nat \<Rightarrow> nat \<Rightarrow> u32 \<Rightarrow> optab" where
  "rule a c1 c2 c3 t n p f =
     \<lparr>o_as = a, o_a1 = c1, o_a2 = c2, o_a3 = c3, o_type = t, o_size = n, o_param = p, o_flag = f\<rparr>"

definition optab_rows1 :: "optab list" where
  "optab_rows1 =
    [rule ATEXT C_LEXT C_NONE C_LCON 0 0 0 0,
     rule ATEXT C_LEXT C_REG C_LCON 0 0 0 0,
     rule AWORD C_NONE C_NONE C_LCON 11 4 0 0,
     rule AWORD C_NONE C_NONE C_LEXT 11 4 0 0,
     rule AADD C_REG C_REG C_REG 1 4 0 0,
     rule AADD C_REG C_NONE C_REG 1 4 0 0,
     rule AMOVW C_REG C_NONE C_REG 1 4 0 0,
     rule AMVN C_REG C_NONE C_REG 1 4 0 0,
     rule ACMP C_REG C_REG C_NONE 1 4 0 0,
     rule AADD C_RCON C_REG C_REG 2 4 0 0,
     rule AADD C_RCON C_NONE C_REG 2 4 0 0,
     rule AMOVW C_RCON C_NONE C_REG 2 4 0 0,
     rule AMVN C_RCON C_NONE C_REG 2 4 0 0,
     rule ACMP C_RCON C_REG C_NONE 2 4 0 0,
     rule AADD C_SHIFT C_REG C_REG 3 4 0 0,
     rule AADD C_SHIFT C_NONE C_REG 3 4 0 0,
     rule AMVN C_SHIFT C_NONE C_REG 3 4 0 0,
     rule ACMP C_SHIFT C_REG C_NONE 3 4 0 0,
     rule ASLL C_RCON C_REG C_REG 8 4 0 0,
     rule ASLL C_RCON C_NONE C_REG 8 4 0 0,
     rule ASLL C_REG C_NONE C_REG 9 4 0 0,
     rule ASLL C_REG C_REG C_REG 9 4 0 0,
     rule AMOVB C_REG C_NONE C_REG 14 8 0 0,
     rule AMOVBU C_REG C_NONE C_REG 58 4 0 0,
     rule AMOVH C_REG C_NONE C_REG 14 8 0 0,
     rule AMOVHU C_REG C_NONE C_REG 14 8 0 0,
     rule AMUL C_REG C_REG C_REG 15 4 0 0,
     rule AMUL C_REG C_NONE C_REG 15 4 0 0,
     rule AADD C_NCON C_REG C_REG 13 8 0 0,
     rule AADD C_NCON C_NONE C_REG 13 8 0 0,
     rule AMVN C_NCON C_NONE C_REG 13 8 0 0,
     rule ACMP C_NCON C_REG C_NONE 13 8 0 0,
     rule AADD C_LCON C_REG C_REG 13 8 0 LFROM,
     rule AADD C_LCON C_NONE C_REG 13 8 0 LFROM,
     rule AMVN C_LCON C_NONE C_REG 13 8 0 LFROM,
     rule ACMP C_LCON C_REG C_NONE 13 8 0 LFROM,
     rule AMOVW C_NCON C_NONE C_REG 12 4 0 0,
     rule AMOVW C_LCON C_NONE C_REG 12 4 0 LFROM,
     rule AB C_NONE C_NONE C_BRANCH 5 4 0 LPOOL,
     rule ABL C_NONE C_NONE C_BRANCH 5 4 0 0,
     rule ABEQ C_NONE C_NONE C_BRANCH 5 4 0 0,
     rule AB C_NONE C_NONE C_ROREG 6 4 0 LPOOL,
     rule ABL C_NONE C_NONE C_ROREG 7 8 0 0,
     rule AMOVW C_SEXT C_NONE C_REG 21 4 REGSB 0,
     rule AMOVW C_SAUTO C_NONE C_REG 21 4 REGSP 0,
     rule AMOVW C_SOREG C_NONE C_REG 21 4 0 0,
     rule AMOVBU C_SEXT C_NONE C_REG 21 4 REGSB 0,
     rule AMOVBU C_SAUTO C_NONE C_REG 21 4 REGSP 0,
     rule AMOVBU C_SOREG C_NONE C_REG 21 4 0 0,
     rule AMOVW C_LEXT C_NONE C_REG 31 8 REGSB LFROM,
     rule AMOVW C_LAUTO C_NONE C_REG 31 8 REGSP LFROM,
     rule AMOVW C_LOREG C_NONE C_REG 31 8 0 LFROM,
     rule AMOVBU C_LEXT C_NONE C_REG 31 8 REGSB LFROM,
     rule AMOVBU C_LAUTO C_NONE C_REG 31 8 REGSP LFROM,
     rule AMOVBU C_LOREG C_NONE C_REG 31 8 0 LFROM,
     rule AMOVW C_REG C_NONE C_SEXT 20 4 REGSB 0,
     rule AMOVW C_REG C_NONE C_SAUTO 20 4 REGSP 0,
     rule AMOVW C_REG C_NONE C_SOREG 20 4 0 0,
     rule AMOVBU C_REG C_NONE C_SEXT 20 4 REGSB 0,
     rule AMOVBU C_REG C_NONE C_SAUTO 20 4 REGSP 0,
     rule AMOVBU C_REG C_NONE C_SOREG 20 4 0 0,
     rule AMOVW C_REG C_NONE C_LEXT 30 8 REGSB LTO,
     rule AMOVW C_REG C_NONE C_LAUTO 30 8 REGSP LTO,
     rule AMOVW C_REG C_NONE C_LOREG 30 8 0 LTO,
     rule AMOVBU C_REG C_NONE C_LEXT 30 8 REGSB LTO,
     rule AMOVBU C_REG C_NONE C_LAUTO 30 8 REGSP LTO,
     rule AMOVBU C_REG C_NONE C_LOREG 30 8 0 LTO]"

definition optab_rows2 :: "optab list" where
  "optab_rows2 =
    [rule AMOVB C_REG C_NONE C_SEXT 20 4 REGSB 0,
     rule AMOVB C_REG C_NONE C_SAUTO 20 4 REGSP 0,
     rule AMOVB C_REG C_NONE C_SOREG 20 4 0 0,
     rule AMOVB C_REG C_NONE C_LEXT 30 8 REGSB LTO,
     rule AMOVB C_REG C_NONE C_LAUTO 30 8 REGSP LTO,
     rule AMOVB C_REG C_NONE C_LOREG 30 8 0 LTO,
     rule ASWPW C_SOREG C_REG C_REG 40 4 0 0,
     rule AMOVW C_RECON C_NONE C_REG 4 4 REGSB 0,
     rule AMOVW C_RACON C_NONE C_REG 4 4 REGSP 0,
     rule AMOVW C_LACON C_NONE C_REG 34 8 REGSP LFROM,
     rule AMOVH C_SEXT C_NONE C_REG 22 12 REGSB 0,
     rule AMOVH C_SAUTO C_NONE C_REG 22 12 REGSP 0,
     rule AMOVH C_SOREG C_NONE C_REG 22 12 0 0,
     rule AMOVHU C_SEXT C_NONE C_REG 22 12 REGSB 0,
     rule AMOVHU C_SAUTO C_NONE C_REG 22 12 REGSP 0,
     rule AMOVHU C_SOREG C_NONE C_REG 22 12 0 0,
     rule AMOVB C_SEXT C_NONE C_REG 22 12 REGSB 0,
     rule AMOVB C_SAUTO C_NONE C_REG 22 12 REGSP 0,
     rule AMOVB C_SOREG C_NONE C_REG 22 12 0 0,
     rule AMOVH C_LEXT C_NONE C_REG 32 16 REGSB LFROM,
     rule AMOVH C_LAUTO C_NONE C_REG 32 16 REGSP LFROM,
     rule AMOVH C_LOREG C_NONE C_REG 32 16 0 LFROM,
     rule AMOVHU C_LEXT C_NONE C_REG 32 16 REGSB LFROM,
     rule AMOVHU C_LAUTO C_NONE C_REG 32 16 REGSP LFROM,
     rule AMOVHU C_LOREG C_NONE C_REG 32 16 0 LFROM,
     rule AMOVB C_LEXT C_NONE C_REG 32 16 REGSB LFROM,
     rule AMOVB C_LAUTO C_NONE C_REG 32 16 REGSP LFROM,
     rule AMOVB C_LOREG C_NONE C_REG 32 16 0 LFROM,
     rule AMOVH C_REG C_NONE C_SEXT 23 12 REGSB 0,
     rule AMOVH C_REG C_NONE C_SAUTO 23 12 REGSP 0,
     rule AMOVH C_REG C_NONE C_SOREG 23 12 0 0,
     rule AMOVHU C_REG C_NONE C_SEXT 23 12 REGSB 0,
     rule AMOVHU C_REG C_NONE C_SAUTO 23 12 REGSP 0,
     rule AMOVHU C_REG C_NONE C_SOREG 23 12 0 0,
     rule AMOVH C_REG C_NONE C_LEXT 33 24 REGSB LTO,
     rule AMOVH C_REG C_NONE C_LAUTO 33 24 REGSP LTO,
     rule AMOVH C_REG C_NONE C_LOREG 33 24 0 LTO,
     rule AMOVHU C_REG C_NONE C_LEXT 33 24 REGSB LTO,
     rule AMOVHU C_REG C_NONE C_LAUTO 33 24 REGSP LTO,
     rule AMOVHU C_REG C_NONE C_LOREG 33 24 0 LTO,
     rule ASWI C_NONE C_NONE C_NONE 10 4 0 0,
     rule ASWI C_NONE C_NONE C_LCON 10 4 0 0,
     rule ASWI C_NONE C_NONE C_LOREG 10 4 0 0,
     rule ARFE C_NONE C_NONE C_NONE 41 4 0 0,
     rule ATEXT C_ADDR C_NONE C_LCON 0 0 0 0,
     rule ATEXT C_ADDR C_REG C_LCON 0 0 0 0,
     rule AWORD C_NONE C_NONE C_ADDR 11 4 0 0,
     rule AMOVW C_REG C_NONE C_ADDR 64 8 0 LTO,
     rule AMOVB C_REG C_NONE C_ADDR 64 8 0 LTO,
     rule AMOVBU C_REG C_NONE C_ADDR 64 8 0 LTO,
     rule AMOVW C_ADDR C_NONE C_REG 65 8 0 LFROM,
     rule AMOVBU C_ADDR C_NONE C_REG 65 8 0 LFROM,
     rule AMOVB C_ADDR C_NONE C_REG 66 16 0 LFROM,
     rule AMOVH C_ADDR C_NONE C_REG 66 16 0 LFROM,
     rule AMOVHU C_ADDR C_NONE C_REG 66 16 0 LFROM,
     rule AMOVH C_REG C_NONE C_ADDR 67 24 0 LTO,
     rule AMOVHU C_REG C_NONE C_ADDR 67 24 0 LTO,
     rule AMOVF C_FREG C_NONE C_FEXT 50 4 REGSB 0,
     rule AMOVF C_FREG C_NONE C_FAUTO 50 4 REGSP 0,
     rule AMOVF C_FREG C_NONE C_FOREG 50 4 0 0,
     rule AMOVF C_FEXT C_NONE C_FREG 51 4 REGSB 0,
     rule AMOVF C_FAUTO C_NONE C_FREG 51 4 REGSP 0,
     rule AMOVF C_FOREG C_NONE C_FREG 51 4 0 0,
     rule AMOVF C_FREG C_NONE C_LEXT 52 12 REGSB LTO,
     rule AMOVF C_FREG C_NONE C_LAUTO 52 12 REGSP LTO,
     rule AMOVF C_FREG C_NONE C_LOREG 52 12 0 LTO,
     rule AMOVF C_LEXT C_NONE C_FREG 53 12 REGSB LFROM,
     rule AMOVF C_LAUTO C_NONE C_FREG 53 12 REGSP LFROM,
     rule AMOVF C_LOREG C_NONE C_FREG 53 12 0 LFROM,
     rule AMOVF C_FREG C_NONE C_ADDR 68 8 0 LTO,
     rule AMOVF C_ADDR C_NONE C_FREG 69 8 0 LFROM,
     rule AADDF C_FREG C_NONE C_FREG 54 4 0 0,
     rule AADDF C_FREG C_REG C_FREG 54 4 0 0,
     rule AADDF C_FCON C_NONE C_FREG 54 4 0 0,
     rule AADDF C_FCON C_REG C_FREG 54 4 0 0,
     rule AMOVF C_FCON C_NONE C_FREG 54 4 0 0,
     rule AMOVF C_FREG C_NONE C_FREG 54 4 0 0,
     rule ACMPF C_FREG C_REG C_NONE 54 4 0 0,
     rule ACMPF C_FCON C_REG C_NONE 54 4 0 0,
     rule AMOVFW C_FREG C_NONE C_REG 55 4 0 0,
     rule AMOVFW C_REG C_NONE C_FREG 55 4 0 0,
     rule AMOVW C_REG C_NONE C_FCR 56 4 0 0]"

definition optab_rows3 :: "optab list" where
  "optab_rows3 =
    [rule AMOVW C_FCR C_NONE C_REG 57 4 0 0,
     rule AADDF C_FREG C_NONE C_FREG 74 4 0 VFP,
     rule AADDF C_FREG C_REG C_FREG 74 4 0 VFP,
     rule AMOVF C_FREG C_NONE C_FREG 74 4 0 VFP,
     rule ACMPF C_FREG C_REG C_NONE 75 8 0 VFP,
     rule ACMPF C_FCON C_REG C_NONE 75 8 0 VFP,
     rule AMOVFW C_FREG C_NONE C_REG 76 8 0 VFP,
     rule AMOVFW C_REG C_NONE C_FREG 76 8 0 VFP,
     rule ADIV C_REG C_REG C_REG 16 4 0 0,
     rule ADIV C_REG C_NONE C_REG 16 4 0 0,
     rule AMULL C_REG C_REG C_REGREG 17 4 0 0,
     rule AMOVM C_LCON C_NONE C_SOREG 38 4 0 0,
     rule AMOVM C_SOREG C_NONE C_LCON 39 4 0 0,
     rule AMOVW C_PSR C_NONE C_REG 35 4 0 0,
     rule AMOVW C_REG C_NONE C_PSR 36 4 0 0,
     rule AMOVW C_RCON C_NONE C_PSR 37 4 0 0,
     rule AMOVH C_REG C_NONE C_HEXT 70 4 REGSB V4,
     rule AMOVH C_REG C_NONE C_HAUTO 70 4 REGSP V4,
     rule AMOVH C_REG C_NONE C_HOREG 70 4 0 V4,
     rule AMOVHU C_REG C_NONE C_HEXT 70 4 REGSB V4,
     rule AMOVHU C_REG C_NONE C_HAUTO 70 4 REGSP V4,
     rule AMOVHU C_REG C_NONE C_HOREG 70 4 0 V4,
     rule AMOVB C_HEXT C_NONE C_REG 71 4 REGSB V4,
     rule AMOVB C_HAUTO C_NONE C_REG 71 4 REGSP V4,
     rule AMOVB C_HOREG C_NONE C_REG 71 4 0 V4,
     rule AMOVH C_HEXT C_NONE C_REG 71 4 REGSB V4,
     rule AMOVH C_HAUTO C_NONE C_REG 71 4 REGSP V4,
     rule AMOVH C_HOREG C_NONE C_REG 71 4 0 V4,
     rule AMOVHU C_HEXT C_NONE C_REG 71 4 REGSB V4,
     rule AMOVHU C_HAUTO C_NONE C_REG 71 4 REGSP V4,
     rule AMOVHU C_HOREG C_NONE C_REG 71 4 0 V4,
     rule AMOVH C_REG C_NONE C_LEXT 72 8 REGSB (LTO OR V4),
     rule AMOVH C_REG C_NONE C_LAUTO 72 8 REGSP (LTO OR V4),
     rule AMOVH C_REG C_NONE C_LOREG 72 8 0 (LTO OR V4),
     rule AMOVHU C_REG C_NONE C_LEXT 72 8 REGSB (LTO OR V4),
     rule AMOVHU C_REG C_NONE C_LAUTO 72 8 REGSP (LTO OR V4),
     rule AMOVHU C_REG C_NONE C_LOREG 72 8 0 (LTO OR V4),
     rule AMOVB C_LEXT C_NONE C_REG 73 8 REGSB (LFROM OR V4),
     rule AMOVB C_LAUTO C_NONE C_REG 73 8 REGSP (LFROM OR V4),
     rule AMOVB C_LOREG C_NONE C_REG 73 8 0 (LFROM OR V4),
     rule AMOVH C_LEXT C_NONE C_REG 73 8 REGSB (LFROM OR V4),
     rule AMOVH C_LAUTO C_NONE C_REG 73 8 REGSP (LFROM OR V4),
     rule AMOVH C_LOREG C_NONE C_REG 73 8 0 (LFROM OR V4),
     rule AMOVHU C_LEXT C_NONE C_REG 73 8 REGSB (LFROM OR V4),
     rule AMOVHU C_LAUTO C_NONE C_REG 73 8 REGSP (LFROM OR V4),
     rule AMOVHU C_LOREG C_NONE C_REG 73 8 0 (LFROM OR V4),
     rule AMOVW C_SHIFT C_NONE C_REG 59 4 0 0,
     rule AMOVBU C_SHIFT C_NONE C_REG 59 4 0 0,
     rule AMOVB C_SHIFT C_NONE C_REG 60 4 0 0,
     rule AMOVW C_REG C_NONE C_SHIFT 61 4 0 0,
     rule AMOVB C_REG C_NONE C_SHIFT 61 4 0 0,
     rule AMOVBU C_REG C_NONE C_SHIFT 61 4 0 0,
     rule ACASE C_REG C_NONE C_NONE 62 4 0 0,
     rule ABCASE C_NONE C_NONE C_BRANCH 63 4 0 0]"

definition optab_rows :: "optab list" where
  "optab_rows = (optab_rows1 @ optab_rows2 @ optab_rows3) @ [rule AXXX C_NONE C_NONE C_NONE 0 4 0 0]"

section \<open>Operand classes\<close>

text \<open>\<open>cmp a b\<close>: a rule of class \<open>a\<close> takes an operand of class \<open>b\<close>.\<close>

function cmp :: "nat \<Rightarrow> nat \<Rightarrow> bool" where
  "cmp a b \<longleftrightarrow> a = b \<or>
     (if a = C_LCON then b = C_RCON \<or> b = C_NCON
      else if a = C_SROREG then cmp C_SOREG b \<or> cmp C_ROREG b
      else if a = C_SOREG \<or> a = C_ROREG then b = C_SROREG \<or> cmp C_HFOREG b
      else if a = C_LOREG then cmp C_SROREG b
      else if a = C_SEXT then cmp C_HFEXT b
      else if a = C_LEXT then cmp C_SEXT b
      else if a = C_SAUTO then cmp C_HFAUTO b
      else if a = C_LAUTO then cmp C_SAUTO b
      else if a = C_LACON then b = C_RACON
      else if a = C_HFEXT then b = C_HEXT \<or> b = C_FEXT
      else if a = C_FEXT \<or> a = C_HEXT then b = C_HFEXT
      else if a = C_HFAUTO then b = C_HAUTO \<or> b = C_FAUTO
      else if a = C_FAUTO \<or> a = C_HAUTO then b = C_HFAUTO
      else if a = C_HFOREG then b = C_HOREG \<or> b = C_FOREG
      else if a = C_FOREG \<or> a = C_HOREG then b = C_HFOREG
      else False)"
  by auto
termination
  by (relation "measure (\<lambda>(a, b). if a = C_LOREG then 3 else if a = C_SROREG \<or> a = C_LEXT \<or> a = C_LAUTO then 2
      else if a = C_SOREG \<or> a = C_ROREG \<or> a = C_SEXT \<or> a = C_SAUTO then 1 else 0)") auto

declare cmp.simps [simp del]

definition ocmp :: "optab \<Rightarrow> optab \<Rightarrow> int" where
  "ocmp p1 p2 =
     (let n = int (o_as p1) - int (o_as p2) in if n \<noteq> 0 then n else
      let n = uint (o_flag p2 AND V4) - uint (o_flag p1 AND V4) in if n \<noteq> 0 then n else
      let n = uint (o_flag p2 AND VFP) - uint (o_flag p1 AND VFP) in if n \<noteq> 0 then n else
      let n = int (o_a1 p1) - int (o_a1 p2) in if n \<noteq> 0 then n else
      let n = int (o_a2 p1) - int (o_a2 p2) in if n \<noteq> 0 then n else
      let n = int (o_a3 p1) - int (o_a3 p2) in if n \<noteq> 0 then n else 0)"

section \<open>Preparation\<close>

text \<open>The tables the search uses: the sorted rules, \<^verbatim>\<open>oprange\<close> (\<^verbatim>\<open>nil\<close> is \<open>None\<close>) and \<^verbatim>\<open>xcmp\<close>.\<close>

record tables =
  rules :: "optab list"
  oprange :: "nat \<Rightarrow> (nat \<times> nat) option"
  xcmp :: "nat \<Rightarrow> nat \<Rightarrow> bool"

definition build_xcmp :: "nat \<Rightarrow> nat \<Rightarrow> bool" where
  "build_xcmp i n \<longleftrightarrow> i < C_GOK \<and> n < C_GOK \<and> cmp n i"

text \<open>
  The loop that switches rules off: the rules it went over, which are the ones that are sorted, and
  the rest of the table.
\<close>

fun adjust :: "bool \<Rightarrow> bool \<Rightarrow> optab list \<Rightarrow> optab list \<times> optab list" where
  "adjust vf v4 [] = ([], [])"
| "adjust vf v4 (r # rs) =
     (if o_as r = AXXX then ([], r # rs)
      else
        let r = (if o_flag r AND VFP \<noteq> 0 \<and> \<not> vf then r\<lparr>o_as := AXXX\<rparr> else r) in
        if o_flag r AND V4 \<noteq> 0 \<and> \<not> v4 then ([], r\<lparr>o_as := AXXX\<rparr> # rs)
        else case adjust vf v4 rs of (a, b) \<Rightarrow> (r # a, b))"

function run_end :: "optab list \<Rightarrow> nat \<Rightarrow> nat \<Rightarrow> nat option" where
  "run_end rs r i =
     (if i < length rs then if o_as (rs ! i) = r then run_end rs r (i + 1) else Some i else None)"
  by auto
termination by (relation "measure (\<lambda>(rs, r, i). length rs - i)") auto

declare run_end.simps [simp del]

text \<open>The opcodes that share the range of a representative; \<open>None\<close> is an unknown opcode.\<close>

definition opsets :: "(nat \<times> nat list) list" where
  "opsets =
    [(AXXX, []), (ATEXT, []), (AWORD, []),
     (AADD, [ASUB, AAND, AEOR, AORR, AADC, ASBC, ARSC, ARSB, ABIC]),
     (ACMP, [ATST, ATEQ, ACMN]),
     (AMVN, []),
     (ASLL, [ASRL, ASRA]),
     (AMUL, [AMULU]),
     (AB, []), (ABL, []),
     (ABEQ, [ABNE, ABHS, ABLO, ABMI, ABPL, ABVS, ABVC, ABHI, ABLS, ABGE, ABLT, ABGT, ABLE]),
     (AMOVW, []), (AMOVB, []), (AMOVBU, []), (AMOVH, []), (AMOVHU, []),
     (ASWPW, [ASWPBU]),
     (ASWI, []), (ARFE, []),
     (AADDF, [AADDD, ASUBF, ASUBD, AMULF, AMULD, ADIVF, ADIVD, AMOVFD, AMOVDF]),
     (ACMPF, [ACMPD]),
     (AMOVF, [AMOVD]),
     (AMOVFW, [AMOVWF, AMOVWD, AMOVDW]),
     (ADIV, [AMOD, AMODU, ADIVU]),
     (AMULL, [AMULA, AMULAL, AMULLU, AMULALU]),
     (AMOVM, []),
     (ACASE, []), (ABCASE, [])]"

definition opset :: "nat \<Rightarrow> nat list option" where
  "opset r = map_of opsets r"

lemma run_end_greater: "run_end rs r i = Some j \<Longrightarrow> i \<le> j \<and> (o_as (rs ! i) = r \<longrightarrow> i < j)"
proof (induction rs r i rule: run_end.induct)
  case (1 rs r i)
  then show ?case by (cases "i < length rs"; cases "o_as (rs ! i) = r") (auto simp: run_end.simps [of rs r i])
qed

function build_ranges :: "optab list \<Rightarrow> nat \<Rightarrow> nat \<Rightarrow> (nat \<Rightarrow> (nat \<times> nat) option) \<Rightarrow> (lnk, nat \<Rightarrow> (nat \<times> nat) option) eff" where
  "build_ranges rs n i rng =
     (if i < n then
        case run_end rs (o_as (rs ! i)) i of
          None \<Rightarrow> raise Trap
        | Some j \<Rightarrow>
            (case opset (o_as (rs ! i)) of
               None \<Rightarrow> seq (diag ''unknown op in build'') (raise (Fatal ''errorexit''))
             | Some os \<Rightarrow> build_ranges rs n j (\<lambda>r. if r \<in> set (o_as (rs ! i) # os) then Some (i, j) else rng r))
      else ret rng)"
  by auto
termination
  apply (relation "measure (\<lambda>(rs, n, i, rng). n - i)")
  subgoal by simp
  subgoal for rs n i rng j using run_end_greater [of rs "o_as (rs ! i)" i j] by auto
  done

declare build_ranges.simps [simp del]

definition buildop :: "bool \<Rightarrow> bool \<Rightarrow> optab list \<Rightarrow> (lnk, tables) eff" where
  "buildop debugf debugh tab =
     seq (modify (\<lambda>s. s\<lparr>vfp := debugf\<rparr>))
     (case adjust debugf (\<not> debugh) tab of (a, b) \<Rightarrow>
        let rs = eqsort ocmp a @ b in
        bind (build_ranges rs (length a) 0 (\<lambda>_. None)) (\<lambda>rng.
        ret \<lparr>rules = rs, oprange = rng, xcmp = build_xcmp\<rparr>))"

section \<open>The search\<close>

function find_rule :: "optab list \<Rightarrow> (optab \<Rightarrow> bool) \<Rightarrow> nat \<Rightarrow> nat \<Rightarrow> nat option" where
  "find_rule rs f i e = (if i < e then if f (rs ! i) then Some i else find_rule rs f (i + 1) e else None)"
  by auto
termination by (relation "measure (\<lambda>(rs, f, i, e). e - i)") auto

declare find_rule.simps [simp del]

text \<open>The class of an operand, remembered in the operand.\<close>

definition class_of :: "adr \<Rightarrow> (lnk, adr \<times> nat) eff" where
  "class_of a =
     (if a_class a = 0 then bind (aclass a) (\<lambda>c. ret (a\<lparr>a_class := c + 1\<rparr>, c))
      else ret (a, a_class a - 1))"

text \<open>
  \<^verbatim>\<open>oplook\<close>: the index of the rule and the program with its memory of classes and rule. After the
  diagnostic the result is the end of the range, or the first rule where there is no range.
\<close>

definition oplook :: "tables \<Rightarrow> prog \<Rightarrow> (lnk, prog \<times> nat) eff" where
  "oplook t p =
     (if p_optab p \<noteq> 0 then ret (p, p_optab p - 1)
      else
        bind (class_of (p_from p)) (\<lambda>(f, a1).
        bind (class_of (p_to p)) (\<lambda>(d, a3).
        let p = p\<lparr>p_from := f, p_to := d\<rparr>;
            a2 = (if p_reg p \<noteq> R_NONE then C_REG else C_NONE) in
        case oprange t (p_as p) of
          None \<Rightarrow> seq (diag ''illegal combination'') (ret (p, 0))
        | Some (i, e) \<Rightarrow>
            (case find_rule (rules t) (\<lambda>r. o_a2 r = a2 \<and> xcmp t a1 (o_a1 r) \<and> xcmp t a3 (o_a3 r)) i e of
               Some k \<Rightarrow> ret (p\<lparr>p_optab := k + 1\<rparr>, k)
             | None \<Rightarrow> seq (diag ''illegal combination'') (ret (p, e))))))"

section \<open>The sorted table\<close>

interpretation oc: total_cmp ocmp
proof -
  have "total_cmp (\<lambda>(p1 :: optab) p2.
     if int (o_as p1) - int (o_as p2) \<noteq> 0 then int (o_as p1) - int (o_as p2) else
     if uint (o_flag p2 AND V4) - uint (o_flag p1 AND V4) \<noteq> 0 then uint (o_flag p2 AND V4) - uint (o_flag p1 AND V4) else
     if uint (o_flag p2 AND VFP) - uint (o_flag p1 AND VFP) \<noteq> 0 then uint (o_flag p2 AND VFP) - uint (o_flag p1 AND VFP) else
     if int (o_a1 p1) - int (o_a1 p2) \<noteq> 0 then int (o_a1 p1) - int (o_a1 p2) else
     if int (o_a2 p1) - int (o_a2 p2) \<noteq> 0 then int (o_a2 p1) - int (o_a2 p2) else
     int (o_a3 p1) - int (o_a3 p2))"
    by (intro total_cmp_lex total_cmp_diff)
  moreover have "ocmp = (\<lambda>p1 p2.
     if int (o_as p1) - int (o_as p2) \<noteq> 0 then int (o_as p1) - int (o_as p2) else
     if uint (o_flag p2 AND V4) - uint (o_flag p1 AND V4) \<noteq> 0 then uint (o_flag p2 AND V4) - uint (o_flag p1 AND V4) else
     if uint (o_flag p2 AND VFP) - uint (o_flag p1 AND VFP) \<noteq> 0 then uint (o_flag p2 AND VFP) - uint (o_flag p1 AND VFP) else
     if int (o_a1 p1) - int (o_a1 p2) \<noteq> 0 then int (o_a1 p1) - int (o_a1 p2) else
     if int (o_a2 p1) - int (o_a2 p2) \<noteq> 0 then int (o_a2 p1) - int (o_a2 p2) else
     int (o_a3 p1) - int (o_a3 p2))"
    by (intro ext) (simp add: ocmp_def Let_def)
  ultimately show "total_cmp ocmp" by (simp only:)
qed

lemma ocmp_opcode: "ocmp p q \<le> 0 \<Longrightarrow> o_as p \<le> o_as q"
  by (simp add: ocmp_def Let_def split: if_splits)

lemma sorted_rules: "sorted (map o_as (eqsort ocmp a))"
  by (rule qs.sort_groups [OF oc.total_cmp_axioms ocmp_opcode])

section \<open>Ranges\<close>

lemma run_end_spec:
  "i \<le> m \<Longrightarrow> m < length rs \<Longrightarrow> o_as (rs ! m) \<noteq> r \<Longrightarrow>
    \<exists>j. run_end rs r i = Some j \<and> i \<le> j \<and> j \<le> m \<and> (\<forall>k. i \<le> k \<and> k < j \<longrightarrow> o_as (rs ! k) = r) \<and> o_as (rs ! j) \<noteq> r"
proof (induction "m - i" arbitrary: i)
  case 0
  then show ?case by (subst run_end.simps) auto
next
  case (Suc d)
  show ?case
  proof (cases "o_as (rs ! i) = r")
    case True
    then have "run_end rs r i = run_end rs r (i + 1)" using Suc(2-4) by (subst run_end.simps) simp
    moreover have "d = m - (i + 1)" "i + 1 \<le> m" using Suc(2,3) by simp_all
    ultimately obtain j where "run_end rs r i = Some j" "i + 1 \<le> j" "j \<le> m"
      "\<And>k. i + 1 \<le> k \<Longrightarrow> k < j \<Longrightarrow> o_as (rs ! k) = r" "o_as (rs ! j) \<noteq> r"
      using Suc(1) [of "i + 1"] Suc(4,5) by auto
    moreover have "o_as (rs ! k) = r" if "i \<le> k" "k < j" for k
      using calculation(4) [of k] True that by (cases "k = i") auto
    ultimately show ?thesis by auto
  next
    case False
    then show ?thesis using Suc(2-4) by (subst run_end.simps) auto
  qed
qed

text \<open>The opcodes that a rule of opcode \<open>r\<close> serves.\<close>

definition served :: "nat \<Rightarrow> nat set" where
  "served r = (case opset r of None \<Rightarrow> {} | Some os \<Rightarrow> set (r # os))"

text \<open>A table as \<^verbatim>\<open>buildop\<close> leaves it: grouped by opcode, every opcode known, and ended by another one.\<close>

definition grouped :: "optab list \<Rightarrow> nat \<Rightarrow> bool" where
  "grouped rs n \<longleftrightarrow> n < length rs \<and> (\<forall>i j. i \<le> j \<and> j < n \<longrightarrow> o_as (rs ! i) \<le> o_as (rs ! j)) \<and>
     (\<forall>i < n. opset (o_as (rs ! i)) \<noteq> None) \<and> (0 < n \<longrightarrow> o_as (rs ! (n - 1)) \<noteq> o_as (rs ! n)) \<and>
     (\<forall>i j. i < n \<and> j < n \<and> o_as (rs ! i) \<noteq> o_as (rs ! j) \<longrightarrow> served (o_as (rs ! i)) \<inter> served (o_as (rs ! j)) = {})"

text \<open>\<open>covers\<close>: an opcode served from \<open>i\<close> on has the range of its rules.\<close>

definition covers :: "optab list \<Rightarrow> nat \<Rightarrow> nat \<Rightarrow> nat \<Rightarrow> (nat \<times> nat) option \<Rightarrow> (nat \<times> nat) option \<Rightarrow> bool" where
  "covers rs n i a old new \<longleftrightarrow>
     (if \<exists>k. i \<le> k \<and> k < n \<and> a \<in> served (o_as (rs ! k))
      then \<exists>s e. new = Some (s, e) \<and> i \<le> s \<and> s < e \<and> e \<le> n \<and> (\<forall>k. i \<le> k \<and> k < n \<longrightarrow> (s \<le> k \<and> k < e \<longleftrightarrow> a \<in> served (o_as (rs ! k))))
      else new = old)"

lemma build_ranges_spec:
  assumes "grouped rs n"
  shows "\<exists>rng'. build_ranges rs n i rng l = (Inr rng', l) \<and> (\<forall>a. covers rs n i a (rng a) (rng' a))"
proof (induction "n - i" arbitrary: i rng rule: less_induct)
  case less
  have g1: "n < length rs" and g2: "\<And>i j. i \<le> j \<Longrightarrow> j < n \<Longrightarrow> o_as (rs ! i) \<le> o_as (rs ! j)"
    and g3: "\<And>i. i < n \<Longrightarrow> opset (o_as (rs ! i)) \<noteq> None" and g4: "0 < n \<Longrightarrow> o_as (rs ! (n - 1)) \<noteq> o_as (rs ! n)"
    and g5: "\<And>i j. i < n \<Longrightarrow> j < n \<Longrightarrow> o_as (rs ! i) \<noteq> o_as (rs ! j) \<Longrightarrow> served (o_as (rs ! i)) \<inter> served (o_as (rs ! j)) = {}"
    using assms unfolding grouped_def by blast+
  show ?case
  proof (cases "i < n")
    case False
    then show ?thesis by (subst build_ranges.simps) (auto simp: covers_def ret_def)
  next
    case True
    let ?r = "o_as (rs ! i)"
    obtain os where os: "opset ?r = Some os" using g3 [OF True] by blast
    obtain m where "i \<le> m" "m < length rs" "o_as (rs ! m) \<noteq> ?r" "m \<le> n"
    proof (cases "o_as (rs ! n) = ?r")
      case e: True
      have "o_as (rs ! (n - 1)) \<noteq> o_as (rs ! n)" using g4 True by simp
      moreover have "i \<le> n - 1" "n - 1 < length rs" "n - 1 \<le> n" using True g1 by auto
      ultimately show thesis using that [of "n - 1"] e by simp
    qed (use that [of n] g1 True in simp)
    with run_end_spec [OF this(1-3)] obtain j where j: "run_end rs ?r i = Some j" "i \<le> j" "j \<le> n"
      "\<And>k. i \<le> k \<Longrightarrow> k < j \<Longrightarrow> o_as (rs ! k) = ?r" "o_as (rs ! j) \<noteq> ?r" using le_trans by blast
    have ij: "i < j" using j(2,5) by (cases "i = j") auto
    have later: "?r < o_as (rs ! k)" if "j \<le> k" "k < n" for k
    proof -
      have "?r \<le> o_as (rs ! j)" "o_as (rs ! j) \<le> o_as (rs ! k)" using g2 [of i j] g2 [of j k] that ij by simp_all
      then show ?thesis using j(5) by simp
    qed
    let ?rng = "\<lambda>r. if r \<in> set (?r # os) then Some (i, j) else rng r"
    have "build_ranges rs n i rng l = build_ranges rs n j ?rng l"
      using True j(1) os by (subst build_ranges.simps) simp
    moreover have "n - j < n - i" using True ij by simp
    from less [OF this, of ?rng] obtain rng' where r: "build_ranges rs n j ?rng l = (Inr rng', l)" "\<And>a. covers rs n j a (?rng a) (rng' a)"
      by blast
    moreover have "covers rs n i a (rng a) (rng' a)" for a
    proof (cases "a \<in> served ?r")
      case True2: True
      have "a \<notin> served (o_as (rs ! k))" if "j \<le> k" "k < n" for k
      proof -
        have "served (o_as (rs ! k)) \<inter> served ?r = {}" using g5 [of k i] later [OF that] that True by simp
        then show ?thesis using True2 by blast
      qed
      then have nk: "\<not> (\<exists>k. j \<le> k \<and> k < n \<and> a \<in> served (o_as (rs ! k)))" by blast
      have "rng' a = Some (i, j)" using r(2) [of a] True2 os unfolding covers_def if_not_P [OF nk] by (simp add: served_def)
      moreover have "i \<le> k \<and> k < j \<longleftrightarrow> a \<in> served (o_as (rs ! k))" if "i \<le> k" "k < n" for k
        using nk j(4) [of k] True2 that by (cases "k < j") auto
      moreover have ex: "\<exists>k. i \<le> k \<and> k < n \<and> a \<in> served (o_as (rs ! k))" using True True2 by blast
      ultimately show ?thesis unfolding covers_def if_P [OF ex] using ij j(3) by blast
    next
      case False
      have "a \<notin> served (o_as (rs ! k))" if "i \<le> k" "k < j" for k using False j(4) [OF that] by simp
      then have n: "j \<le> k" if "i \<le> k" "a \<in> served (o_as (rs ! k))" for k using that not_le by blast
      have o: "?rng a = rng a" using False os by (simp add: served_def)
      have e: "(\<exists>k. i \<le> k \<and> k < n \<and> a \<in> served (o_as (rs ! k))) \<longleftrightarrow> (\<exists>k. j \<le> k \<and> k < n \<and> a \<in> served (o_as (rs ! k)))"
        using n le_trans [OF j(2)] by blast
      show ?thesis
      proof (cases "\<exists>k. j \<le> k \<and> k < n \<and> a \<in> served (o_as (rs ! k))")
        case t: True
        then obtain s' e' where se: "rng' a = Some (s', e')" "j \<le> s'" "s' < e'" "e' \<le> n"
          "\<And>k. j \<le> k \<Longrightarrow> k < n \<Longrightarrow> (s' \<le> k \<and> k < e' \<longleftrightarrow> a \<in> served (o_as (rs ! k)))"
          using r(2) [of a] unfolding covers_def if_P [OF t] by blast
        have "s' \<le> k \<and> k < e' \<longleftrightarrow> a \<in> served (o_as (rs ! k))" if "i \<le> k" "k < n" for k
          using se(2) se(5) [of k] n [of k] that by (cases "k < j") auto
        moreover have "i \<le> s'" using se(2) ij by simp
        moreover have ex: "\<exists>k. i \<le> k \<and> k < n \<and> a \<in> served (o_as (rs ! k))" using t e by blast
        ultimately show ?thesis unfolding covers_def if_P [OF ex] using se(1,3,4) by blast
      next
        case f: False
        have "rng' a = ?rng a" using r(2) [of a] unfolding covers_def if_not_P [OF f] .
        moreover have ne: "\<not> (\<exists>k. i \<le> k \<and> k < n \<and> a \<in> served (o_as (rs ! k)))" using f e by blast
        ultimately show ?thesis unfolding covers_def if_not_P [OF ne] using o by (simp only:)
      qed
    qed
    ultimately show ?thesis using r(1) by (intro exI [of _ rng']) simp
  qed
qed

section \<open>The prepared tables\<close>

text \<open>The representative of an opcode.\<close>

definition rep :: "nat \<Rightarrow> nat" where
  "rep a = (case find (\<lambda>(r, os). a = r \<or> a \<in> set os) opsets of Some (r, os) \<Rightarrow> r | None \<Rightarrow> a)"

lemma opsets_disjoint: "distinct (concat (map (\<lambda>(r, os). r # os) opsets))"
  by (simp add: opsets_def)

lemma disjoint_families:
  "distinct (concat (map (\<lambda>(r, os). r # os) fs)) \<Longrightarrow> map_of fs r = Some os \<Longrightarrow> a = r \<or> a \<in> set os \<Longrightarrow>
    find (\<lambda>(r, os). a = r \<or> a \<in> set os) fs = Some (r, os)"
proof (induction fs)
  case (Cons f fs)
  obtain r' os' where f: "f = (r', os')" by fastforce
  show ?case
  proof (cases "r' = r")
    case True then show ?thesis using Cons f by simp
  next
    case False
    then have m: "map_of fs r = Some os" using Cons(3) f by simp
    have "a \<in> set (concat (map (\<lambda>(r, os). r # os) fs))" using map_of_SomeD [OF m] Cons(4) by force
    moreover have "set (r' # os') \<inter> set (concat (map (\<lambda>(r, os). r # os) fs)) = {}"
      using Cons(2) by (simp only: f list.map concat.simps distinct_append case_prod_conv)
    ultimately have "a \<notin> set (r' # os')" by (meson disjoint_iff)
    then have "a \<noteq> r'" "a \<notin> set os'" by simp_all
    then show ?thesis using Cons m f by simp
  qed
qed simp

lemma served_rep: "a \<in> served r \<Longrightarrow> rep a = r"
  using disjoint_families [OF opsets_disjoint, of r _ a]
  by (auto simp: served_def opset_def rep_def split: option.splits)

lemma served_self: "opset r \<noteq> None \<Longrightarrow> a \<in> served r \<longleftrightarrow> rep a = r"
proof
  assume o: "opset r \<noteq> None" and r: "rep a = r"
  show "a \<in> served r"
  proof (cases "find (\<lambda>(r, os). a = r \<or> a \<in> set os) opsets")
    case None
    then have "a = r" using r by (simp add: rep_def)
    then show ?thesis using o by (auto simp: served_def)
  next
    case (Some x)
    then obtain q os where x: "x = (q, os)" by fastforce
    have "q = r" using Some r x by (simp add: rep_def)
    moreover from Some x obtain i where "i < length opsets" "opsets ! i = (q, os)" "a = q \<or> a \<in> set os"
      by (auto simp: find_Some_iff)
    then have "(q, os) \<in> set opsets" "a = q \<or> a \<in> set os" using nth_mem [of i opsets] by simp_all
    moreover have "distinct (map fst opsets)" by (simp add: opsets_def)
    ultimately show ?thesis by (auto simp: served_def opset_def)
  qed
qed (rule served_rep)

definition known :: "optab list \<Rightarrow> bool" where
  "known tab \<longleftrightarrow> list_all (\<lambda>r. opset (o_as r) \<noteq> None \<and> o_a1 r < C_GOK \<and> o_a3 r < C_GOK) tab \<and> list_ex (\<lambda>r. o_as r = AXXX) tab"

lemma opset_AXXX: "opset AXXX = Some []"
  by (simp add: opset_def opsets_def)

lemma adjust_known:
  "list_all (\<lambda>r. opset (o_as r) \<noteq> None \<and> o_a1 r < C_GOK \<and> o_a3 r < C_GOK) tab \<Longrightarrow>
    list_all (\<lambda>r. opset (o_as r) \<noteq> None \<and> o_a1 r < C_GOK \<and> o_a3 r < C_GOK) (fst (adjust vf v4 tab))"
  by (induction tab) (auto simp: Let_def opset_AXXX split: prod.splits)

lemma adjust_end: "list_ex (\<lambda>r. o_as r = AXXX) tab \<Longrightarrow> \<exists>r rs. snd (adjust vf v4 tab) = r # rs \<and> o_as r = AXXX"
  by (induction tab) (auto simp: Let_def split: prod.splits)

text \<open>\<open>prepared t rs\<close>: the tables hold the rules \<open>rs\<close>, in order, with their ranges and the cache.\<close>

definition prepared :: "tables \<Rightarrow> optab list \<Rightarrow> bool" where
  "prepared t rs \<longleftrightarrow> list_all (\<lambda>r. opset (o_as r) \<noteq> None \<and> o_a1 r < C_GOK \<and> o_a3 r < C_GOK) rs \<and>
     mset (take (length rs) (rules t)) = mset rs \<and>
     sorted_wrt (\<lambda>p q. ocmp p q \<le> 0) (take (length rs) (rules t)) \<and> length rs < length (rules t) \<and>
     (\<forall>a. covers (rules t) (length rs) 0 a None (oprange t a)) \<and> xcmp t = build_xcmp"

lemma eqsort_grouped:
  assumes "list_all (\<lambda>r. opset (o_as r) \<noteq> None \<and> o_a1 r < C_GOK \<and> o_a3 r < C_GOK) a" and "o_as r = AXXX"
    and "list_ex (\<lambda>r. o_as r \<noteq> AXXX) a"
  shows "grouped (eqsort ocmp a @ r # b) (length a)"
proof -
  let ?s = "eqsort ocmp a"
  have l: "length ?s = length a" by (rule qs.sort_length)
  have st: "o_as (?s ! i) \<le> o_as (?s ! j)" if "i \<le> j" "j < length a" for i j
    using sorted_nth_mono [OF sorted_rules [of a], of i j] that l by simp
  obtain q where q: "q \<in> set ?s" "o_as q \<noteq> AXXX" using assms(3) by (auto simp: list_ex_iff qs.sort_set)
  then obtain k where k: "k < length a" "?s ! k = q" using l by (auto simp: in_set_conv_nth)
  then have "k \<le> length a - 1" "length a - 1 < length a" by auto
  from st [OF this] have "0 < o_as (?s ! (length a - 1))" using k(2) q(2) by simp
  moreover have kn: "opset (o_as (?s ! i)) \<noteq> None" if "i < length a" for i
    using assms(1) nth_mem [of i ?s] that l by (auto simp: list_all_iff qs.sort_set)
  moreover have "served (o_as (?s ! i)) \<inter> served (o_as (?s ! j)) = {}" if "o_as (?s ! i) \<noteq> o_as (?s ! j)" for i j
  proof (rule ccontr)
    assume "served (o_as (?s ! i)) \<inter> served (o_as (?s ! j)) \<noteq> {}"
    then obtain x where "x \<in> served (o_as (?s ! i))" "x \<in> served (o_as (?s ! j))" by blast
    then show False using served_rep [of x "o_as (?s ! i)"] served_rep [of x "o_as (?s ! j)"] that by simp
  qed
  ultimately show ?thesis using st l assms(2) by (auto simp: grouped_def nth_append)
qed

lemma buildop_prepared:
  assumes "known tab" and "list_ex (\<lambda>r. o_as r \<noteq> AXXX) (fst (adjust debugf (\<not> debugh) tab))"
  shows "\<exists>t. buildop debugf debugh tab l = (Inr t, l\<lparr>vfp := debugf\<rparr>) \<and> prepared t (fst (adjust debugf (\<not> debugh) tab))"
proof -
  define a where "a = fst (adjust debugf (\<not> debugh) tab)"
  obtain r b where b: "snd (adjust debugf (\<not> debugh) tab) = r # b" "o_as r = AXXX"
    using adjust_end assms(1) unfolding known_def by blast
  then have ab: "adjust debugf (\<not> debugh) tab = (a, r # b)" unfolding a_def by (metis prod.collapse)
  have k: "list_all (\<lambda>r. opset (o_as r) \<noteq> None \<and> o_a1 r < C_GOK \<and> o_a3 r < C_GOK) a"
    unfolding a_def by (rule adjust_known) (use assms(1) in \<open>simp add: known_def\<close>)
  let ?rs = "eqsort ocmp a @ r # b"
  note g = eqsort_grouped [OF k b(2) assms(2) [folded a_def], of b]
  obtain rng where rng: "build_ranges ?rs (length a) 0 (\<lambda>_. None) (l\<lparr>vfp := debugf\<rparr>) = (Inr rng, l\<lparr>vfp := debugf\<rparr>)"
    "\<And>x. covers ?rs (length a) 0 x None (rng x)"
    using build_ranges_spec [OF g, of 0 "\<lambda>_. None" "l\<lparr>vfp := debugf\<rparr>"] by blast
  let ?t = "\<lparr>rules = ?rs, oprange = rng, xcmp = build_xcmp\<rparr>"
  have "buildop debugf debugh tab l = (Inr ?t, l\<lparr>vfp := debugf\<rparr>)"
    by (simp add: buildop_def ab seq_def modify_def bind_def rng(1) Let_def ret_def)
  moreover have "prepared ?t a"
    using k rng(2) qs.sort_sorted [OF oc.total_cmp_axioms, of a] by (simp add: prepared_def qs.sort_length qs.sort_mset)
  ultimately show ?thesis unfolding a_def by blast
qed

lemma prepared_range:
  assumes "prepared t rs"
  shows "case oprange t a of
      None \<Rightarrow> \<forall>k < length rs. o_as (rules t ! k) \<noteq> rep a
    | Some (s, e) \<Rightarrow> s < e \<and> e \<le> length rs \<and> (\<forall>k < length rs. s \<le> k \<and> k < e \<longleftrightarrow> o_as (rules t ! k) = rep a)"
proof -
  define n where "n = length rs"
  note p = assms [unfolded prepared_def, folded n_def]
  have sv: "a \<in> served (o_as (rules t ! k)) \<longleftrightarrow> o_as (rules t ! k) = rep a" if "k < n" for k
  proof -
    have l: "n \<le> length (rules t)" using p by simp
    have "rules t ! k \<in> set (take n (rules t))" using that unfolding nth_image [OF l, symmetric] by auto
    then have "rules t ! k \<in> set rs" using p mset_eq_setD by blast
    then show ?thesis using p served_self by (fastforce simp: list_all_iff)
  qed
  have c: "covers (rules t) n 0 a None (oprange t a)" using p by blast
  show ?thesis
  proof (cases "\<exists>k. 0 \<le> k \<and> k < n \<and> a \<in> served (o_as (rules t ! k))")
    case True
    then show ?thesis using c sv unfolding covers_def if_P [OF True] n_def by auto
  next
    case False
    then show ?thesis using c sv unfolding covers_def if_not_P [OF False] n_def by auto
  qed
qed

section \<open>The search finds the least rule\<close>

lemma cmp_gok: "a < C_GOK \<Longrightarrow> \<not> cmp a C_GOK"
  by (simp add: cmp.simps)

lemma xcmp_exact: "a < C_GOK \<Longrightarrow> c \<le> C_GOK \<Longrightarrow> build_xcmp c a \<longleftrightarrow> cmp a c"
  using cmp_gok [of a] by (cases "c = C_GOK") (auto simp: build_xcmp_def)

definition candidates :: "optab list \<Rightarrow> nat \<Rightarrow> nat \<Rightarrow> nat \<Rightarrow> nat \<Rightarrow> optab list" where
  "candidates rs a a1 a2 a3 = filter (\<lambda>r. o_as r = rep a \<and> o_a2 r = a2 \<and> cmp (o_a1 r) a1 \<and> cmp (o_a3 r) a3) rs"

lemma find_rule_spec:
  "case find_rule rs f i e of
     Some k \<Rightarrow> i \<le> k \<and> k < e \<and> f (rs ! k) \<and> (\<forall>m. i \<le> m \<and> m < k \<longrightarrow> \<not> f (rs ! m))
   | None \<Rightarrow> \<forall>m. i \<le> m \<and> m < e \<longrightarrow> \<not> f (rs ! m)"
proof (induction rs f i e rule: find_rule.induct)
  case (1 rs f i e)
  show ?case
  proof (cases "i < e \<and> \<not> f (rs ! i)")
    case True
    then have e: "find_rule rs f i e = find_rule rs f (i + 1) e" by (subst find_rule.simps) simp
    have s: "(\<forall>m. i \<le> m \<and> m < x \<longrightarrow> \<not> f (rs ! m)) \<longleftrightarrow> (\<forall>m. i + 1 \<le> m \<and> m < x \<longrightarrow> \<not> f (rs ! m))" if "i < x" for x
      using True that by (metis Suc_eq_plus1 Suc_leI le_eq_less_or_eq le_less_trans lessI less_imp_le_nat)
    show ?thesis using 1 True unfolding e by (auto simp: s split: option.splits)
  next
    case False
    then show ?thesis by (subst find_rule.simps) auto
  qed
qed

text \<open>The search, without the classes: the range of the opcode, then the first rule that fits.\<close>

lemma lookup_least:
  fixes a2 :: nat
  assumes "prepared t rs" and "a1 \<le> C_GOK" and "a3 \<le> C_GOK" and "a \<noteq> AXXX"
  defines "C \<equiv> candidates rs a a1 a2 a3"
  defines "look \<equiv> \<lambda>(i, e). find_rule (rules t) (\<lambda>r. o_a2 r = a2 \<and> xcmp t a1 (o_a1 r) \<and> xcmp t a3 (o_a3 r)) i e"
  shows "case Option.bind (oprange t a) look of
     Some k \<Rightarrow> k < length rs \<and> rules t ! k \<in> set C \<and> (\<forall>r \<in> set C. ocmp (rules t ! k) r \<le> 0)
   | None \<Rightarrow> C = []"
proof -
  define n where "n = length rs"
  have p: "list_all (\<lambda>r. opset (o_as r) \<noteq> None \<and> o_a1 r < C_GOK \<and> o_a3 r < C_GOK) rs"
    "mset (take n (rules t)) = mset rs" "sorted_wrt (\<lambda>p q. ocmp p q \<le> 0) (take n (rules t))" "n < length (rules t)"
    "covers (rules t) n 0 a None (oprange t a)" "xcmp t = build_xcmp"
    using assms(1) by (auto simp: prepared_def n_def)
  have st: "set rs = set (take n (rules t))" using mset_eq_setD [OF p(2)] by simp
  have row: "opset (o_as (rules t ! k)) \<noteq> None \<and> o_a1 (rules t ! k) < C_GOK \<and> o_a3 (rules t ! k) < C_GOK" if "k < n" for k
  proof -
    have "rules t ! k \<in> set rs" using that p(4) unfolding st by (auto simp: in_set_conv_nth)
    then show ?thesis using p(1) by (auto simp: list_all_iff)
  qed
  have fit: "(o_a2 r = a2 \<and> xcmp t a1 (o_a1 r) \<and> xcmp t a3 (o_a3 r)) \<longleftrightarrow> (o_a2 r = a2 \<and> cmp (o_a1 r) a1 \<and> cmp (o_a3 r) a3)"
    if "r = rules t ! k" "k < n" for r k
    using row [OF that(2)] xcmp_exact [OF _ assms(2)] xcmp_exact [OF _ assms(3)] that(1) p(6) by simp
  have mem: "r \<in> set C \<longleftrightarrow> (\<exists>k<n. r = rules t ! k \<and> a \<in> served (o_as r) \<and> o_a2 r = a2 \<and> xcmp t a1 (o_a1 r) \<and> xcmp t a3 (o_a3 r))" for r
  proof -
    have sv: "o_as (rules t ! k) = rep a \<longleftrightarrow> a \<in> served (o_as (rules t ! k))" if "k < n" for k
      using served_self [of "o_as (rules t ! k)" a] row [OF that] by auto
    have rs: "x \<in> set rs \<longleftrightarrow> (\<exists>k<n. x = rules t ! k)" for x
      unfolding st nth_image [OF less_imp_le [OF p(4)], symmetric] by auto
    have "r \<in> set C \<longleftrightarrow> (\<exists>k<n. r = rules t ! k \<and> (o_as r = rep a \<and> o_a2 r = a2 \<and> cmp (o_a1 r) a1 \<and> cmp (o_a3 r) a3))"
      unfolding C_def candidates_def set_filter mem_Collect_eq rs by blast
    also have "\<dots> \<longleftrightarrow> (\<exists>k<n. r = rules t ! k \<and> a \<in> served (o_as r) \<and> o_a2 r = a2 \<and> xcmp t a1 (o_a1 r) \<and> xcmp t a3 (o_a3 r))"
    proof (rule ex_cong1)
      fix k
      show "(k < n \<and> r = rules t ! k \<and> (o_as r = rep a \<and> o_a2 r = a2 \<and> cmp (o_a1 r) a1 \<and> cmp (o_a3 r) a3)) =
        (k < n \<and> r = rules t ! k \<and> a \<in> served (o_as r) \<and> o_a2 r = a2 \<and> xcmp t a1 (o_a1 r) \<and> xcmp t a3 (o_a3 r))"
        using sv [of k] fit [of r k] by (cases "k < n"; cases "r = rules t ! k") simp_all
    qed
    finally show ?thesis .
  qed
  show ?thesis
  proof (cases "\<exists>k. 0 \<le> k \<and> k < n \<and> a \<in> served (o_as (rules t ! k))")
    case False
    then have "oprange t a = None" using p(5) by (simp add: covers_def)
    moreover have "r \<notin> set C" for r
    proof
      assume "r \<in> set C"
      then obtain k where "k < n" "r = rules t ! k" "a \<in> served (o_as r)" unfolding mem by blast
      then show False using False by simp
    qed
    ultimately show ?thesis by (cases C) auto
  next
    case True
    then obtain i e where r: "oprange t a = Some (i, e)" "i < e" "e \<le> n"
      "\<And>k. k < n \<Longrightarrow> i \<le> k \<and> k < e \<longleftrightarrow> a \<in> served (o_as (rules t ! k))"
      using p(5) unfolding covers_def if_P [OF True] by blast
    let ?f = "\<lambda>r. o_a2 r = a2 \<and> xcmp t a1 (o_a1 r) \<and> xcmp t a3 (o_a3 r)"
    have mem': "r \<in> set C \<longleftrightarrow> (\<exists>k. i \<le> k \<and> k < e \<and> r = rules t ! k \<and> ?f r)" for r
    proof -
      have "k < n \<and> a \<in> served (o_as (rules t ! k)) \<longleftrightarrow> i \<le> k \<and> k < e" for k using r(3) r(4) [of k] by (cases "k < n") auto
      then have "(k < n \<and> r = rules t ! k \<and> a \<in> served (o_as r) \<and> ?f r) = (i \<le> k \<and> k < e \<and> r = rules t ! k \<and> ?f r)" for k
        by (cases "r = rules t ! k") auto
      then show ?thesis unfolding mem by (rule ex_cong1)
    qed
    have look: "Option.bind (oprange t a) look = find_rule (rules t) ?f i e" by (simp add: r(1) look_def)
    show ?thesis
    proof (cases "find_rule (rules t) ?f i e")
      case None
      then have "\<forall>m. i \<le> m \<and> m < e \<longrightarrow> \<not> ?f (rules t ! m)" using find_rule_spec [where rs = "rules t" and f = ?f and i = i and e = e] by simp
      then have "r \<notin> set C" for r unfolding mem' by blast
      then have "C = []" by (cases C) auto
      then show ?thesis using look None by simp
    next
      case (Some k)
      then have k: "i \<le> k" "k < e" "?f (rules t ! k)" "\<And>m. i \<le> m \<Longrightarrow> m < k \<Longrightarrow> \<not> ?f (rules t ! m)"
        using find_rule_spec [where rs = "rules t" and f = ?f and i = i and e = e] by simp_all
      have "ocmp (rules t ! k) q \<le> 0" if q: "q \<in> set C" for q
      proof -
        obtain m where m: "i \<le> m" "m < e" "q = rules t ! m" "?f q" using q mem' by blast
        then have "k \<le> m" using k(4) [of m] by (meson not_le)
        show ?thesis
        proof (cases "k = m")
          case False
          then show ?thesis using sorted_wrt_nth_less [OF p(3), of k m] \<open>k \<le> m\<close> m(2,3) r(3) p(4) by simp
        qed (use m(3) oc.cmp_refl in simp)
      qed
      moreover have "rules t ! k \<in> set C" using mem' k(1-3) by blast
      ultimately show ?thesis using look Some k(2) r(3) by (simp add: n_def)
    qed
  qed
qed

lemma set_off_bound: "set_off v c l = (Inr x, l') \<Longrightarrow> x = c"
  by (auto simp: set_off_def ret_def elim!: seqE)

lemma class_bounds: "offclass v C_HFEXT C_FEXT C_HEXT C_SEXT C_LEXT \<le> C_GOK"
  "offclass v C_HFAUTO C_FAUTO C_HAUTO C_SAUTO C_LAUTO \<le> C_GOK" "oregclass v \<le> C_GOK" "aconsize v \<le> C_GOK"
  by (simp_all add: offclass_def oregclass_def aconsize_def Let_def)

lemma aclass_bound: "aclass a l = (Inr c, l') \<Longrightarrow> c \<le> C_GOK"
  unfolding aclass_def aclass_ext_def aclass_addr_ext_def Let_def
  by (auto simp: ret_def class_bounds dest!: set_off_bound elim!: bindE seqE split: operand_kind.splits sym_kind.splits option.splits if_splits)

lemma class_of_bound:
  assumes "class_of a l = (Inr (a', c), l')" and "a_class a \<le> C_GOK + 1"
  shows "c \<le> C_GOK"
  using assms aclass_bound by (auto simp: class_of_def ret_def elim!: bindE split: if_splits)

lemma oplook_prepared:
  assumes "prepared t rs" and "p_optab p = 0" and "p_as p \<noteq> AXXX"
    and "class_of (p_from p) l = (Inr (f, a1), l1)" and "class_of (p_to p) l1 = (Inr (d, a3), l2)"
    and "a1 \<le> C_GOK" and "a3 \<le> C_GOK"
  defines "C \<equiv> candidates rs (p_as p) a1 (if p_reg p \<noteq> R_NONE then C_REG else C_NONE) a3"
  shows "if C = [] then \<exists>k. oplook t p l = seq (diag ''illegal combination'') (ret (p\<lparr>p_from := f, p_to := d\<rparr>, k)) l2
    else \<exists>k. oplook t p l = (Inr (p\<lparr>p_from := f, p_to := d, p_optab := k + 1\<rparr>, k), l2) \<and> k < length rs \<and>
      rules t ! k \<in> set C \<and> (\<forall>r \<in> set C. ocmp (rules t ! k) r \<le> 0)"
proof -
  let ?a2 = "if p_reg p \<noteq> R_NONE then C_REG else C_NONE"
  let ?look = "\<lambda>(i, e). find_rule (rules t) (\<lambda>r. o_a2 r = ?a2 \<and> xcmp t a1 (o_a1 r) \<and> xcmp t a3 (o_a3 r)) i e"
  note L = lookup_least [OF assms(1,6,7,3), of ?a2, folded C_def]
  have o: "oplook t p l = (case oprange t (p_as p) of
      None \<Rightarrow> seq (diag ''illegal combination'') (ret (p\<lparr>p_from := f, p_to := d\<rparr>, 0)) l2
    | Some (i, e) \<Rightarrow> (case ?look (i, e) of
         Some k \<Rightarrow> (Inr (p\<lparr>p_from := f, p_to := d, p_optab := k + 1\<rparr>, k), l2)
       | None \<Rightarrow> seq (diag ''illegal combination'') (ret (p\<lparr>p_from := f, p_to := d\<rparr>, e)) l2))"
    using assms(2,4,5) by (simp add: oplook_def bind_def Let_def ret_def split: option.split)
  show ?thesis
  proof (cases "Option.bind (oprange t (p_as p)) ?look")
    case None
    then have C: "C = []" using L by simp
    show ?thesis
    proof (cases "oprange t (p_as p)")
      case (Some r)
      obtain i e where "r = (i, e)" by fastforce
      then show ?thesis using None C o Some by auto
    qed (use C o in auto)
  next
    case (Some k)
    then obtain i e where "oprange t (p_as p) = Some (i, e)" "?look (i, e) = Some k" by (auto simp: bind_eq_Some_conv)
    then show ?thesis using o L Some by auto
  qed
qed

section \<open>The rules of the linker\<close>

lemma rule_sel [simp]:
  "o_as (rule a c1 c2 c3 t n p f) = a" "o_a1 (rule a c1 c2 c3 t n p f) = c1" "o_a2 (rule a c1 c2 c3 t n p f) = c2"
  "o_a3 (rule a c1 c2 c3 t n p f) = c3" "o_type (rule a c1 c2 c3 t n p f) = t" "o_size (rule a c1 c2 c3 t n p f) = n"
  "o_param (rule a c1 c2 c3 t n p f) = p" "o_flag (rule a c1 c2 c3 t n p f) = f"
  by (simp_all add: rule_def)

lemma adjust_filter:
  assumes "a \<noteq> AXXX" and "list_all (\<lambda>r. o_as r \<noteq> AXXX) rs" and "o_as e = AXXX"
  shows "filter (\<lambda>r. o_as r = a) (fst (adjust False True (rs @ [e]))) =
    filter (\<lambda>r. o_flag r AND VFP = 0) (filter (\<lambda>r. o_as r = a) rs)"
  using assms(2)
proof (induction rs)
  case (Cons r rs)
  then show ?case using assms(1) by (auto simp: Let_def split: prod.splits)
qed (use assms in simp)

lemma optab_live: "list_all (\<lambda>r. o_as r \<noteq> AXXX) (optab_rows1 @ optab_rows2 @ optab_rows3)"
  by (simp add: optab_rows1_def optab_rows2_def optab_rows3_def)

lemma optab_known: "known optab_rows"
  unfolding known_def by code_simp

text \<open>Without floating-point unit and with the half-word instructions, the linker's default.\<close>

definition default_rules :: "optab list" where
  "default_rules = fst (adjust False True optab_rows)"

lemma default_filter:
  "a \<noteq> AXXX \<Longrightarrow> filter (\<lambda>r. o_as r = a) default_rules =
    filter (\<lambda>r. o_flag r AND VFP = 0) (filter (\<lambda>r. o_as r = a) (optab_rows1 @ optab_rows2 @ optab_rows3))"
  unfolding default_rules_def optab_rows_def by (rule adjust_filter [OF _ optab_live]) simp_all

lemma rows_AADD: "filter (\<lambda>r. o_as r = AADD) default_rules =
    [rule AADD C_REG C_REG C_REG 1 4 0 0,
     rule AADD C_REG C_NONE C_REG 1 4 0 0,
     rule AADD C_RCON C_REG C_REG 2 4 0 0,
     rule AADD C_RCON C_NONE C_REG 2 4 0 0,
     rule AADD C_SHIFT C_REG C_REG 3 4 0 0,
     rule AADD C_SHIFT C_NONE C_REG 3 4 0 0,
     rule AADD C_NCON C_REG C_REG 13 8 0 0,
     rule AADD C_NCON C_NONE C_REG 13 8 0 0,
     rule AADD C_LCON C_REG C_REG 13 8 0 LFROM,
     rule AADD C_LCON C_NONE C_REG 13 8 0 LFROM]"
  by (simp add: default_filter optab_rows1_def optab_rows2_def optab_rows3_def)

lemma rows_AMOVW: "filter (\<lambda>r. o_as r = AMOVW) default_rules =
    [rule AMOVW C_REG C_NONE C_REG 1 4 0 0,
     rule AMOVW C_RCON C_NONE C_REG 2 4 0 0,
     rule AMOVW C_NCON C_NONE C_REG 12 4 0 0,
     rule AMOVW C_LCON C_NONE C_REG 12 4 0 LFROM,
     rule AMOVW C_SEXT C_NONE C_REG 21 4 REGSB 0,
     rule AMOVW C_SAUTO C_NONE C_REG 21 4 REGSP 0,
     rule AMOVW C_SOREG C_NONE C_REG 21 4 0 0,
     rule AMOVW C_LEXT C_NONE C_REG 31 8 REGSB LFROM,
     rule AMOVW C_LAUTO C_NONE C_REG 31 8 REGSP LFROM,
     rule AMOVW C_LOREG C_NONE C_REG 31 8 0 LFROM,
     rule AMOVW C_REG C_NONE C_SEXT 20 4 REGSB 0,
     rule AMOVW C_REG C_NONE C_SAUTO 20 4 REGSP 0,
     rule AMOVW C_REG C_NONE C_SOREG 20 4 0 0,
     rule AMOVW C_REG C_NONE C_LEXT 30 8 REGSB LTO,
     rule AMOVW C_REG C_NONE C_LAUTO 30 8 REGSP LTO,
     rule AMOVW C_REG C_NONE C_LOREG 30 8 0 LTO,
     rule AMOVW C_RECON C_NONE C_REG 4 4 REGSB 0,
     rule AMOVW C_RACON C_NONE C_REG 4 4 REGSP 0,
     rule AMOVW C_LACON C_NONE C_REG 34 8 REGSP LFROM,
     rule AMOVW C_REG C_NONE C_ADDR 64 8 0 LTO,
     rule AMOVW C_ADDR C_NONE C_REG 65 8 0 LFROM,
     rule AMOVW C_REG C_NONE C_FCR 56 4 0 0,
     rule AMOVW C_FCR C_NONE C_REG 57 4 0 0,
     rule AMOVW C_PSR C_NONE C_REG 35 4 0 0,
     rule AMOVW C_REG C_NONE C_PSR 36 4 0 0,
     rule AMOVW C_RCON C_NONE C_PSR 37 4 0 0,
     rule AMOVW C_SHIFT C_NONE C_REG 59 4 0 0,
     rule AMOVW C_REG C_NONE C_SHIFT 61 4 0 0]"
  by (simp add: default_filter optab_rows1_def optab_rows2_def optab_rows3_def)

lemma rows_AMVN: "filter (\<lambda>r. o_as r = AMVN) default_rules =
    [rule AMVN C_REG C_NONE C_REG 1 4 0 0,
     rule AMVN C_RCON C_NONE C_REG 2 4 0 0,
     rule AMVN C_SHIFT C_NONE C_REG 3 4 0 0,
     rule AMVN C_NCON C_NONE C_REG 13 8 0 0,
     rule AMVN C_LCON C_NONE C_REG 13 8 0 LFROM]"
  by (simp add: default_filter optab_rows1_def optab_rows2_def optab_rows3_def)

lemma rows_ACMP: "filter (\<lambda>r. o_as r = ACMP) default_rules =
    [rule ACMP C_REG C_REG C_NONE 1 4 0 0,
     rule ACMP C_RCON C_REG C_NONE 2 4 0 0,
     rule ACMP C_SHIFT C_REG C_NONE 3 4 0 0,
     rule ACMP C_NCON C_REG C_NONE 13 8 0 0,
     rule ACMP C_LCON C_REG C_NONE 13 8 0 LFROM]"
  by (simp add: default_filter optab_rows1_def optab_rows2_def optab_rows3_def)

lemma rows_AB: "filter (\<lambda>r. o_as r = AB) default_rules =
    [rule AB C_NONE C_NONE C_BRANCH 5 4 0 LPOOL,
     rule AB C_NONE C_NONE C_ROREG 6 4 0 LPOOL]"
  by (simp add: default_filter optab_rows1_def optab_rows2_def optab_rows3_def)

lemma rows_ABL: "filter (\<lambda>r. o_as r = ABL) default_rules =
    [rule ABL C_NONE C_NONE C_BRANCH 5 4 0 0,
     rule ABL C_NONE C_NONE C_ROREG 7 8 0 0]"
  by (simp add: default_filter optab_rows1_def optab_rows2_def optab_rows3_def)

lemma rows_ABEQ: "filter (\<lambda>r. o_as r = ABEQ) default_rules =
    [rule ABEQ C_NONE C_NONE C_BRANCH 5 4 0 0]"
  by (simp add: default_filter optab_rows1_def optab_rows2_def optab_rows3_def)

lemma adjust_first: "list_ex (\<lambda>r. o_as r \<noteq> AXXX) (fst (adjust f v optab_rows))"
  by (simp add: optab_rows_def optab_rows1_def split: prod.split)

lemma built_prepared:
  assumes "buildop debugf debugh optab_rows l = (Inr t, l')"
  shows "prepared t (fst (adjust debugf (\<not> debugh) optab_rows))"
  using buildop_prepared [OF optab_known adjust_first, of debugf debugh l] assms by auto

section \<open>What a class promises\<close>

lemma bit_nonzero: "bit w k \<Longrightarrow> w \<noteq> (0 :: u32)"
  by auto

lemma immaddr_nonzero: "immaddr v \<noteq> 0 \<longleftrightarrow> \<bar>sint v\<bar> \<le> 0xfff"
proof -
  have "ucast x OR push_bit 24 1 OR push_bit 23 1 \<noteq> (0 :: u32)" "ucast x OR push_bit 24 1 \<noteq> (0 :: u32)" for x :: u64
    by (rule bit_nonzero [of _ 24], simp add: bit_simps)+
  then show ?thesis by (auto simp: immaddr_def)
qed

lemma immhalf_nonzero: "immhalf v \<noteq> 0 \<longleftrightarrow> \<bar>sint v\<bar> \<le> 0xff"
proof -
  have "ucast x OR push_bit 24 1 OR push_bit 23 1 \<noteq> (0 :: u32)" "ucast x OR push_bit 24 1 \<noteq> (0 :: u32)" for x :: u64
    by (rule bit_nonzero [of _ 24], simp add: bit_simps)+
  then show ?thesis by (auto simp: immhalf_def)
qed

lemma float_mask: "w AND 0xC03 = 0 \<longleftrightarrow> \<not> bit w 0 \<and> \<not> bit w 1 \<and> \<not> bit w 10 \<and> \<not> bit w 11" for w :: u32
proof -
  have b: "bit (0xC03 :: u32) k \<longleftrightarrow> k \<in> {0, 1, 10, 11}" for k
  proof -
    have c: "(0xC03 :: u32) = mask 2 OR push_bit 10 (mask 2)" by (simp add: mask_eq_exp_minus_1)
    have "k < 2 \<or> 10 \<le> k \<and> k - 10 < 2 \<longleftrightarrow> k \<in> {0, 1, 10, 11}" by auto
    then show ?thesis unfolding c by (auto simp: bit_simps)
  qed
  have "w AND 0xC03 = 0 \<longleftrightarrow> (\<forall>k. \<not> (bit w k \<and> bit (0xC03 :: u32) k))" by (auto simp: bit_eq_iff bit_and_iff)
  then show ?thesis unfolding b by blast
qed

lemma float_bits:
  fixes x :: u64
  assumes "0 \<le> sint x" and "sint x \<le> 0xfff"
  shows "immfloat (ucast (x AND 0xfff) OR m) \<longleftrightarrow> immfloat m \<and> sint x \<le> 0x3fc \<and> 4 dvd sint x"
proof -
  define n where "n = nat (sint x)"
  have n: "sint x = int n" "n < 4096" using assms by (simp_all add: n_def)
  have "x = of_int (sint x)" by simp
  then have x: "x = of_nat n" unfolding n(1) by simp
  have k: "(0xfff :: u64) = mask 12" by (simp add: mask_eq_exp_minus_1)
  have b: "bit (ucast (x AND 0xfff) :: u32) k \<longleftrightarrow> bit n k" if "k < 12" for k
    unfolding k x using that by (simp add: bit_simps)
  have "\<not> bit n 0 \<and> \<not> bit n 1 \<and> \<not> bit n 10 \<and> \<not> bit n 11 \<longleftrightarrow> n \<le> 0x3fc \<and> 4 dvd n"
  proof -
    have q: "even q \<and> even (q div 2) \<longleftrightarrow> 4 dvd q" for q :: nat by presburger
    have "n div 1024 < 4" using n(2) by simp
    then have "4 dvd n div 1024 \<longleftrightarrow> n < 1024" by (auto simp: dvd_def)
    moreover have "n div 2048 = n div 1024 div 2" by (simp add: div_mult2_eq [symmetric])
    moreover have "4 dvd n \<Longrightarrow> n < 1024 \<longleftrightarrow> n \<le> 0x3fc" by (auto simp: dvd_def)
    ultimately show ?thesis using q [of n] q [of "n div 1024"] by (auto simp: bit_iff_odd)
  qed
  moreover have "(4 :: int) dvd int n \<longleftrightarrow> 4 dvd n" using int_dvd_int_iff [of 4 n] by simp
  ultimately show ?thesis using n(1) by (auto simp: immfloat_def float_mask bit_or_iff b)
qed

lemma immfloat_addr:
  assumes "\<bar>sint v\<bar> \<le> 0xfff"
  shows "immfloat (immaddr v) \<longleftrightarrow> \<bar>sint v\<bar> \<le> 0x3fc \<and> 4 dvd sint v"
proof (cases "sint v \<ge> 0")
  case True
  have "immfloat (push_bit 24 1 OR push_bit 23 1)" by (simp add: immfloat_def float_mask bit_simps)
  then show ?thesis using True assms float_bits [of v "push_bit 24 1 OR push_bit 23 1"] by (simp add: immaddr_def)
next
  case False
  have "sint (- v) = signed_take_bit 63 (- sint v)" by (simp add: sint_word_ariths)
  also have "\<dots> = - sint v" using False assms by (intro signed_take_bit_int_eq_self) simp_all
  finally have s: "sint (- v) = - sint v" .
  have "immfloat (push_bit 24 1)" by (simp add: immfloat_def float_mask bit_simps)
  then show ?thesis using False assms float_bits [of "- v" "push_bit 24 1"] by (simp add: immaddr_def s)
qed

lemmas class_cases = oregclass_def offclass_def Let_def immaddr_nonzero immhalf_nonzero immfloat_addr

section \<open>Properties\<close>

lemma oplook_chooses:
  assumes "prepared t rs" and "p_optab p = 0" and "p_as p \<noteq> AXXX"
    and "class_of (p_from p) l = (Inr (f, a1), l1)" and "class_of (p_to p) l1 = (Inr (d, a3), l2)"
    and "a1 \<le> C_GOK" and "a3 \<le> C_GOK"
    and "candidates rs (p_as p) a1 (if p_reg p \<noteq> R_NONE then C_REG else C_NONE) a3 = r # qs"
    and "\<And>q. q \<in> set qs \<Longrightarrow> ocmp r q < 0"
  shows "\<exists>k. oplook t p l = (Inr (p\<lparr>p_from := f, p_to := d, p_optab := k + 1\<rparr>, k), l2) \<and> rules t ! k = r"
proof -
  obtain k where k: "oplook t p l = (Inr (p\<lparr>p_from := f, p_to := d, p_optab := k + 1\<rparr>, k), l2)"
    "rules t ! k \<in> set (r # qs)" "ocmp (rules t ! k) r \<le> 0"
    using oplook_prepared [OF assms(1-7)] unfolding assms(8) by auto
  then have "rules t ! k = r" using assms(9) [of "rules t ! k"] oc.cmp_sym [of r "rules t ! k"] by auto
  with k(1) show ?thesis by blast
qed

text \<open>
  C29: with every setting of the two flags \<^verbatim>\<open>buildop\<close> succeeds on the table of
  \<^verbatim>\<open>optab.c\<close>: its rules, less the ones the flags switch off, end up sorted by \<^verbatim>\<open>ocmp\<close>, and the range
  of every opcode is exactly the rules of its representative.
\<close>

theorem buildop_builds:
  "\<exists>t. buildop debugf debugh optab_rows l = (Inr t, l\<lparr>vfp := debugf\<rparr>) \<and>
    (let rs = fst (adjust debugf (\<not> debugh) optab_rows); n = length rs in
     mset (take n (rules t)) = mset rs \<and> sorted_wrt (\<lambda>p q. ocmp p q \<le> 0) (take n (rules t)) \<and>
     (\<forall>a. case oprange t a of
            None \<Rightarrow> \<forall>k < n. o_as (rules t ! k) \<noteq> rep a
          | Some (s, e) \<Rightarrow> s < e \<and> e \<le> n \<and> (\<forall>k < n. s \<le> k \<and> k < e \<longleftrightarrow> o_as (rules t ! k) = rep a)))"
proof -
  let ?rs = "fst (adjust debugf (\<not> debugh) optab_rows)"
  obtain t where t: "buildop debugf debugh optab_rows l = (Inr t, l\<lparr>vfp := debugf\<rparr>)" "prepared t ?rs"
    using buildop_prepared [OF optab_known adjust_first] by blast
  show ?thesis using t(1) prepared_range [OF t(2)] t(2) [unfolded prepared_def] unfolding Let_def by blast
qed

theorem buildop_builds_witness:
  "\<exists>t. buildop False False optab_rows demo_lnk = (Inr t, demo_lnk) \<and>
    sorted_wrt (\<lambda>p q. ocmp p q \<le> 0) (take (length default_rules) (rules t))"
  using buildop_builds [of False False demo_lnk] by (auto simp: demo_lnk_def default_rules_def Let_def)

text \<open>
  C8: for the tables that \<^verbatim>\<open>buildop\<close> makes, the search with ranges and cached class
  comparisons returns, among all rules of the table for the opcode whose classes admit the operands
  by \<^verbatim>\<open>cmp\<close>, one that is least by \<^verbatim>\<open>ocmp\<close>, remembers it and the classes in the instruction, and
  reports an illegal combination exactly when there is none.
\<close>

theorem oplook_least_rule:
  assumes "buildop debugf debugh optab_rows l0 = (Inr t, l0')" and "p_optab p = 0" and "p_as p \<noteq> AXXX"
    and "class_of (p_from p) l = (Inr (f, a1), l1)" and "class_of (p_to p) l1 = (Inr (d, a3), l2)"
    and "a1 \<le> C_GOK" and "a3 \<le> C_GOK"
  defines "C \<equiv> candidates (fst (adjust debugf (\<not> debugh) optab_rows)) (p_as p) a1 (if p_reg p \<noteq> R_NONE then C_REG else C_NONE) a3"
  shows "if C = [] then \<exists>k. oplook t p l = seq (diag ''illegal combination'') (ret (p\<lparr>p_from := f, p_to := d\<rparr>, k)) l2
    else \<exists>k. oplook t p l = (Inr (p\<lparr>p_from := f, p_to := d, p_optab := k + 1\<rparr>, k), l2) \<and>
      rules t ! k \<in> set C \<and> (\<forall>r \<in> set C. ocmp (rules t ! k) r \<le> 0)"
  using oplook_prepared [OF built_prepared [OF assms(1)] assms(2-7), folded C_def] by auto

lemma candidates_rows:
  "rep a = r \<Longrightarrow> filter (\<lambda>x. o_as x = r) rs = ws \<Longrightarrow>
    candidates rs a a1 a2 a3 = filter (\<lambda>x. o_a2 x = a2 \<and> cmp (o_a1 x) a1 \<and> cmp (o_a3 x) a3) ws"
  by (auto simp: candidates_def)

theorem oplook_least_rule_witness:
  "\<exists>t k p'. buildop False False optab_rows demo_lnk = (Inr t, demo_lnk) \<and>
    oplook t (demo_prog ASUB (reg_adr 1) 2 (reg_adr 3)) demo_lnk = (Inr (p', k), demo_lnk) \<and>
    rules t ! k = rule AADD C_REG C_REG C_REG 1 4 0 0"
proof -
  let ?p = "demo_prog ASUB (reg_adr 1) 2 (reg_adr 3)"
  obtain t where t: "buildop False False optab_rows demo_lnk = (Inr t, demo_lnk)"
    using buildop_prepared [OF optab_known adjust_first, of False False demo_lnk] by (auto simp: demo_lnk_def)
  have r: "rep ASUB = AADD" by (simp add: rep_def opsets_def)
  have c: "class_of (p_from ?p) demo_lnk = (Inr ((reg_adr 1)\<lparr>a_class := 2\<rparr>, C_REG), demo_lnk)"
    "class_of (p_to ?p) demo_lnk = (Inr ((reg_adr 3)\<lparr>a_class := 2\<rparr>, C_REG), demo_lnk)"
    by (simp_all add: class_of_def demo_prog_def reg_adr_def aclass_def bind_def ret_def)
  have "candidates (fst (adjust False (\<not> False) optab_rows)) ASUB C_REG C_REG C_REG = [rule AADD C_REG C_REG C_REG 1 4 0 0]"
    using candidates_rows [OF r rows_AADD [unfolded default_rules_def]] by (simp add: cmp.simps)
  with oplook_least_rule [OF t _ _ c] t show ?thesis by (auto simp: demo_prog_def)
qed

text \<open>
  C37: which offsets the classes of memory operands stand for. A rule for \<^verbatim>\<open>C_SOREG\<close>
  is chosen for exactly the offsets of a load or store, one for \<^verbatim>\<open>C_HOREG\<close> for those of a half-word
  transfer and one for \<^verbatim>\<open>C_FOREG\<close> for those of a floating-point transfer; \<^verbatim>\<open>C_LOREG\<close> takes them all; and
  so for variables on the stack and in the data segment.
\<close>

theorem memory_classes_exact:
  "(cmp C_SOREG (oregclass v) \<longleftrightarrow> \<bar>sint v\<bar> \<le> 0xfff) \<and> (cmp C_HOREG (oregclass v) \<longleftrightarrow> \<bar>sint v\<bar> \<le> 0xff) \<and>
   (cmp C_FOREG (oregclass v) \<longleftrightarrow> \<bar>sint v\<bar> \<le> 0x3fc \<and> 4 dvd sint v) \<and> cmp C_LOREG (oregclass v) \<and>
   (let c = offclass v C_HFAUTO C_FAUTO C_HAUTO C_SAUTO C_LAUTO in
    (cmp C_SAUTO c \<longleftrightarrow> \<bar>sint v\<bar> \<le> 0xfff) \<and> (cmp C_HAUTO c \<longleftrightarrow> \<bar>sint v\<bar> \<le> 0xff) \<and>
    (cmp C_FAUTO c \<longleftrightarrow> \<bar>sint v\<bar> \<le> 0x3fc \<and> 4 dvd sint v) \<and> cmp C_LAUTO c) \<and>
   (let c = offclass v C_HFEXT C_FEXT C_HEXT C_SEXT C_LEXT in
    (cmp C_SEXT c \<longleftrightarrow> \<bar>sint v\<bar> \<le> 0xfff) \<and> (cmp C_HEXT c \<longleftrightarrow> \<bar>sint v\<bar> \<le> 0xff) \<and>
    (cmp C_FEXT c \<longleftrightarrow> \<bar>sint v\<bar> \<le> 0x3fc \<and> 4 dvd sint v) \<and> cmp C_LEXT c)"
  unfolding Let_def by (intro conjI) (auto simp: class_cases cmp.simps)

end
