(* ===== verification/Link5_Link.thy ===== *)
theory Link5_Link
  imports Link5_Exec Link5_Optab
begin

text \<open>
  The linker as a whole against the machine: an instruction goes through the choice of its rule
  (\<open>Link5_Optab\<close>) and the code generator (\<open>Link5_Asm\<close>), and the emulator (\<open>Arm_Run\<close>) executes what was
  written. Nothing about the rule is assumed here.
\<close>

section \<open>One instruction through the linker\<close>

definition generate :: "tables \<Rightarrow> prog \<Rightarrow> (lnk, unit) eff" where
  "generate t p = bind (oplook t p) (\<lambda>(p, k). asmout p (rules t ! k))"

definition fresh_prog :: "prog \<Rightarrow> bool" where
  "fresh_prog p \<longleftrightarrow> p_optab p = 0 \<and> a_class (p_from p) = 0 \<and> a_class (p_to p) = 0"

lemma default_prepared: "buildop False False optab_rows l0 = (Inr t, l0') \<Longrightarrow> prepared t default_rules"
  using built_prepared [of False False] by (simp add: default_rules_def)

lemma default_builds: "\<exists>t. buildop False False optab_rows demo_lnk = (Inr t, demo_lnk)"
  using buildop_prepared [OF optab_known adjust_first, of False False demo_lnk] by (auto simp: demo_lnk_def)

lemma class_of_fresh: "a_class a = 0 \<Longrightarrow> aclass a l = (Inr c, l') \<Longrightarrow> class_of a l = (Inr (a\<lparr>a_class := c + 1\<rparr>, c), l')"
  by (simp add: class_of_def bind_def ret_def)

lemma class_reg: "a_type a = D_REG \<Longrightarrow> aclass a l = (Inr C_REG, l)"
  by (simp add: aclass_def ret_def)

lemma class_byte: "const_operand a \<Longrightarrow> a_offset a = ucast (b :: u8) \<Longrightarrow> aclass a l = (Inr C_RCON, l\<lparr>instoffset := ucast b\<rparr>)"
proof -
  assume a: "const_operand a" "a_offset a = ucast b"
  have "unat (ucast b :: u64) = unat b" by (simp add: unsigned_ucast_eq take_bit_nat_eq_self_iff less_trans [OF unat_less])
  then have "unat (ucast b :: u64) < 256" using unat_less [of b] by simp
  then have "immrot (ucast b :: u64) \<noteq> 0" using immrot_64_range by blast
  then show ?thesis using a by (simp add: const_operand_def aclass_def set_off_def seq_def bind_def modify_def ret_def)
qed

text \<open>An instruction whose candidates have a least rule \<open>r\<close> is generated by that rule.\<close>

lemma generate_rule:
  assumes "buildop False False optab_rows l0 = (Inr t, l0')" and "fresh_prog p" and "p_as p \<noteq> AXXX"
    and "aclass (p_from p) l = (Inr a1, l1)" and "aclass (p_to p) l1 = (Inr a3, l2)"
    and "rep (p_as p) = rp" and "filter (\<lambda>x. o_as x = rp) default_rules = ws"
    and "filter (\<lambda>x. o_a2 x = (if p_reg p \<noteq> R_NONE then C_REG else C_NONE) \<and> cmp (o_a1 x) a1 \<and> cmp (o_a3 x) a3) ws = r # qs"
    and "\<And>q. q \<in> set qs \<Longrightarrow> ocmp r q < 0"
  shows "\<exists>k. generate t p l = asmout (p\<lparr>p_from := (p_from p)\<lparr>a_class := a1 + 1\<rparr>, p_to := (p_to p)\<lparr>a_class := a3 + 1\<rparr>, p_optab := k + 1\<rparr>) r l2"
proof -
  have c: "class_of (p_from p) l = (Inr ((p_from p)\<lparr>a_class := a1 + 1\<rparr>, a1), l1)" "class_of (p_to p) l1 = (Inr ((p_to p)\<lparr>a_class := a3 + 1\<rparr>, a3), l2)"
    using assms(2,4,5) class_of_fresh by (simp_all add: fresh_prog_def)
  have b: "a1 \<le> C_GOK" "a3 \<le> C_GOK" using aclass_bound [OF assms(4)] aclass_bound [OF assms(5)] by simp_all
  have o: "p_optab p = 0" using assms(2) by (simp add: fresh_prog_def)
  have "candidates default_rules (p_as p) a1 (if p_reg p \<noteq> R_NONE then C_REG else C_NONE) a3 = r # qs"
    unfolding candidates_rows [OF assms(6,7)] by (rule assms(8))
  from oplook_chooses [OF default_prepared [OF assms(1)] o assms(3) c b this assms(9)]
  show ?thesis by (auto simp: generate_def bind_def)
qed

section \<open>Register operations\<close>

lemma alu_rep:
  assumes "alu a x y = Some v"
  shows "a \<noteq> AXXX \<and> (a \<in> {AMOVW, AMVN} \<and> rep a = a \<or> a \<notin> {AMOVW, AMVN} \<and> rep a = AADD)"
  using assms by (auto simp: alu_def rep_def opsets_def split: if_splits)

lemma operation_rule:
  assumes "rp = AADD \<or> rp = AMOVW \<and> a2 = C_NONE \<or> rp = AMVN \<and> a2 = C_NONE" and "a2 = C_NONE \<or> a2 = C_REG"
    and "a1 = C_REG \<and> ty = 1 \<or> a1 = C_RCON \<and> ty = 2"
  shows "\<exists>qs. filter (\<lambda>x. o_a2 x = a2 \<and> cmp (o_a1 x) a1 \<and> cmp (o_a3 x) C_REG) (filter (\<lambda>x. o_as x = rp) default_rules) =
    rule rp a1 a2 C_REG ty 4 0 0 # qs \<and> (\<forall>q \<in> set qs. ocmp (rule rp a1 a2 C_REG ty 4 0 0) q < 0)"
proof -
  consider "rp = AADD" | "rp = AMOVW" "a2 = C_NONE" | "rp = AMVN" "a2 = C_NONE" using assms(1) by blast
  then show ?thesis
  proof cases
    case 1
    then show ?thesis using assms(2,3) by (elim disjE conjE) (simp_all add: rows_AADD cmp.simps ocmp_def)
  next
    case 2
    then show ?thesis using assms(3) by (elim disjE conjE) (simp_all add: rows_AMOVW cmp.simps ocmp_def)
  next
    case 3
    then show ?thesis using assms(3) by (elim disjE conjE) (simp_all add: rows_AMVN cmp.simps ocmp_def)
  qed
qed

text \<open>
  C5: an \<^verbatim>\<open>ADD\<close>, \<^verbatim>\<open>SUB\<close>, \<^verbatim>\<open>RSB\<close>, \<^verbatim>\<open>AND\<close>, \<^verbatim>\<open>ORR\<close>, \<^verbatim>\<open>EOR\<close>, \<^verbatim>\<open>BIC\<close>, \<^verbatim>\<open>MVN\<close> or \<^verbatim>\<open>MOVW\<close> with a
  register or an eight-bit constant as first operand, taken through the prepared tables, the search
  and the code generator, becomes four bytes without a diagnostic; where the emulator's memory holds
  them at the program counter, one step puts the result into the destination, advances the program
  counter and changes no other register and no byte of memory.
\<close>

theorem linked_operation_runs:
  fixes b :: u8
  assumes "buildop False False optab_rows l0 = (Inr t, l0')" and "fresh_prog p" and "dp_operands p"
    and "p_as p \<in> {AMOVW, AMVN} \<longrightarrow> p_reg p = R_NONE" and "ready s"
    and "a_type (p_from p) = D_REG \<and> a_reg (p_from p) < 15 \<and> x = regs s (a_reg (p_from p)) \<or>
      const_operand (p_from p) \<and> a_offset (p_from p) = ucast b \<and> x = ucast b"
    and "alu (p_as p) x (regs s (if p_reg p = R_NONE then a_reg (p_to p) else p_reg p)) = Some v"
  shows "\<exists>code l'. generate t p l = (Inr (), l') \<and> obuf l' = obuf l @ code \<and> errs l' = errs l \<and> length code = 4 \<and>
    runs_to h sys s code ((regs s)(a_reg (p_to p) := v, 15 := regs s 15 + 4))"
proof -
  note ar = alu_rep [OF assms(7)]
  let ?a2 = "if p_reg p \<noteq> R_NONE then C_REG else C_NONE"
  obtain a1 l1 and ty :: nat where c: "aclass (p_from p) l = (Inr a1, l1)" "obuf l1 = obuf l" "errs l1 = errs l"
    "a1 = C_REG \<and> ty = 1 \<and> a_reg (p_from p) < 15 \<and> x = regs s (a_reg (p_from p)) \<or>
     a1 = C_RCON \<and> ty = 2 \<and> const_operand (p_from p) \<and> a_offset (p_from p) = ucast b \<and> x = ucast b"
    using assms(6) class_reg [of "p_from p" l] class_byte [of "p_from p" b l] by fastforce
  have d: "aclass (p_to p) l1 = (Inr C_REG, l1)" using assms(3) class_reg by (simp add: dp_operands_def)
  have a2: "?a2 = C_NONE \<or> ?a2 = C_REG" and ty: "a1 = C_REG \<and> ty = 1 \<or> a1 = C_RCON \<and> ty = 2" using c(4) by auto
  have "rep (p_as p) = AADD \<or> rep (p_as p) = AMOVW \<and> ?a2 = C_NONE \<or> rep (p_as p) = AMVN \<and> ?a2 = C_NONE"
    using ar assms(4) by auto
  from operation_rule [OF this a2 ty] obtain qs where q: "filter (\<lambda>x. o_a2 x = ?a2 \<and> cmp (o_a1 x) a1 \<and> cmp (o_a3 x) C_REG) (filter (\<lambda>x. o_as x = rep (p_as p)) default_rules) =
      rule (rep (p_as p)) a1 ?a2 C_REG ty 4 0 0 # qs" "\<And>q. q \<in> set qs \<Longrightarrow> ocmp (rule (rep (p_as p)) a1 ?a2 C_REG ty 4 0 0) q < 0"
    by blast
  have "p_as p \<noteq> AXXX" using ar by blast
  from generate_rule [OF assms(1,2) this c(1) d refl refl q]
  obtain k where g: "generate t p l = asmout (p\<lparr>p_from := (p_from p)\<lparr>a_class := a1 + 1\<rparr>, p_to := (p_to p)\<lparr>a_class := C_REG + 1\<rparr>, p_optab := k + 1\<rparr>)
      (rule (rep (p_as p)) a1 ?a2 C_REG ty 4 0 0) l1" by blast
  let ?p = "p\<lparr>p_from := (p_from p)\<lparr>a_class := a1 + 1\<rparr>, p_to := (p_to p)\<lparr>a_class := C_REG + 1\<rparr>, p_optab := k + 1\<rparr>"
    and ?r = "rule (rep (p_as p)) a1 ?a2 C_REG ty 4 0 0"
  have "dp_operands ?p" "o_size ?r = 4"
    "o_type ?r = 1 \<and> a_reg (p_from ?p) < 15 \<and> x = regs s (a_reg (p_from ?p)) \<or>
      o_type ?r = 2 \<and> const_operand (p_from ?p) \<and> a_offset (p_from ?p) = ucast b \<and> x = ucast b"
    "alu (p_as ?p) x (regs s (if p_reg ?p = R_NONE then a_reg (p_to ?p) else p_reg ?p)) = Some v"
    using assms(3,7) c(4) by (simp_all add: dp_operands_def const_operand_def, auto)
  from operation_code_runs [where h = h and sys = sys and l = l1, OF this(1) assms(5) this(2-4)]
  show ?thesis unfolding g using c(2,3) by simp
qed

theorem linked_operation_runs_witness:
  "\<exists>t code u. buildop False False optab_rows demo_lnk = (Inr t, demo_lnk) \<and>
    code = obuf (snd (generate t (demo_prog ASUB (reg_adr 1) 2 (reg_adr 3)) demo_lnk)) \<and>
    run_step demo_host [] (code_machine code (\<lambda>i. 10 * of_nat i)) = (Inr (), u) \<and> regs u 3 = 10 \<and> regs u 15 = 0x1004"
proof -
  let ?p = "demo_prog ASUB (reg_adr 1) 2 (reg_adr 3)"
  obtain t where t: "buildop False False optab_rows demo_lnk = (Inr t, demo_lnk)" using default_builds by blast
  define code where "code = obuf (snd (generate t ?p demo_lnk))"
  let ?m = "code_machine code (\<lambda>i. 10 * of_nat i)"
  have "fresh_prog ?p" "dp_operands ?p" "p_as ?p \<in> {AMOVW, AMVN} \<longrightarrow> p_reg ?p = R_NONE"
    "a_type (p_from ?p) = D_REG \<and> a_reg (p_from ?p) < 15 \<and> 10 = regs ?m (a_reg (p_from ?p))"
    "alu (p_as ?p) 10 (regs ?m (if p_reg ?p = R_NONE then a_reg (p_to ?p) else p_reg ?p)) = Some 10"
    by (simp_all add: fresh_prog_def dp_operands_def demo_defs code_machine_regs alu_def)
  from linked_operation_runs [where h = demo_host and sys = "[]" and l = demo_lnk,
      OF t this(1-3) code_machine_ready disjI1 [OF this(4)] this(5)]
  obtain c l' where c: "generate t ?p demo_lnk = (Inr (), l')" "obuf l' = obuf demo_lnk @ c" "length c = 4"
    "runs_to demo_host [] ?m c ((regs ?m)(a_reg (p_to ?p) := 10, 15 := regs ?m 15 + 4))" by blast
  have "code = c" using c(1,2) by (simp add: code_def demo_lnk_def)
  then have "\<exists>u. run_step demo_host [] ?m = (Inr (), u) \<and> regs u 3 = 10 \<and> regs u 15 = 0x1004"
    using c(3,4) code_machine_holds [of c] by (auto simp: runs_to_def code_machine_regs demo_defs)
  then show ?thesis using t code_def by blast
qed

section \<open>Loads and stores\<close>

definition small_class :: "adr \<Rightarrow> nat \<Rightarrow> bool" where
  "small_class a c \<longleftrightarrow> (if a_symkind a = N_NONE then c \<in> {C_HOREG, C_FOREG, C_HFOREG, C_SOREG, C_SROREG}
     else c \<in> {C_HAUTO, C_FAUTO, C_HFAUTO, C_SAUTO})"

lemma oreg_small: "\<bar>sint v\<bar> \<le> 0xfff \<Longrightarrow> oregclass v \<in> {C_HOREG, C_FOREG, C_HFOREG, C_SOREG, C_SROREG}"
  using immaddr_nonzero [of v] by (simp add: oregclass_def Let_def)

lemma auto_small: "\<bar>sint v\<bar> \<le> 0xfff \<Longrightarrow> offclass v C_HFAUTO C_FAUTO C_HAUTO C_SAUTO C_LAUTO \<in> {C_HAUTO, C_FAUTO, C_HFAUTO, C_SAUTO}"
  using immaddr_nonzero [of v] by (simp add: offclass_def Let_def)

lemma class_mem:
  assumes "mem_operand a" and "\<bar>sint (operand_off a l)\<bar> \<le> 0xfff"
  shows "\<exists>c. aclass a l = (Inr c, l\<lparr>instoffset := operand_off a l\<rparr>) \<and> small_class a c"
proof -
  have t: "a_type a = D_OREG" "a_symkind a = N_NONE \<or> a_symkind a = N_LOCAL \<or> a_symkind a = N_PARAM"
    using assms(1) by (auto simp: mem_operand_def)
  note e = aclass_def set_off_def seq_def bind_def modify_def ret_def gets_def
  from t(2) show ?thesis
  proof (elim disjE)
    assume k: "a_symkind a = N_NONE"
    then have "\<bar>sint (a_offset a)\<bar> \<le> 0xfff" using assms(2) by (simp add: operand_off_def)
    from oreg_small [OF this] show ?thesis using t(1) k by (simp add: e operand_off_def small_class_def)
  next
    assume k: "a_symkind a = N_LOCAL"
    then have "\<bar>sint (autosize l + a_offset a)\<bar> \<le> 0xfff" using assms(2) by (simp add: operand_off_def)
    from auto_small [OF this] show ?thesis using t(1) k by (simp add: e operand_off_def small_class_def)
  next
    assume k: "a_symkind a = N_PARAM"
    then have "\<bar>sint (autosize l + 4 + a_offset a)\<bar> \<le> 0xfff" using assms(2) by (simp add: operand_off_def)
    from auto_small [OF this] show ?thesis using t(1) k by (simp add: e operand_off_def small_class_def)
  qed
qed

lemma small_cmp:
  assumes "small_class a c" and "x \<notin> {C_HOREG, C_FOREG, C_HFOREG, C_ROREG, C_SROREG, C_HAUTO, C_FAUTO, C_HFAUTO}"
  shows "cmp x c \<longleftrightarrow> (if a_symkind a = N_NONE then x = C_SOREG \<or> x = C_LOREG else x = C_SAUTO \<or> x = C_LAUTO)"
proof (cases "a_symkind a = N_NONE")
  case True
  then consider "c = C_HOREG" | "c = C_FOREG" | "c = C_HFOREG" | "c = C_SOREG" | "c = C_SROREG" using assms(1) by (auto simp: small_class_def)
  then show ?thesis using assms(2) True by cases (simp_all add: cmp.simps)
next
  case False
  then consider "c = C_HAUTO" | "c = C_FAUTO" | "c = C_HFAUTO" | "c = C_SAUTO" using assms(1) by (auto simp: small_class_def)
  then show ?thesis using assms(2) False by cases (simp_all add: cmp.simps)
qed

definition mem_rule :: "adr \<Rightarrow> nat \<times> nat" where
  "mem_rule a = (if a_symkind a = N_NONE then (C_SOREG, 0) else (C_SAUTO, REGSP))"

lemma cmp_reg: "cmp c C_REG \<longleftrightarrow> c = C_REG"
  by (simp add: cmp.simps)

lemma load_rows:
  "filter (\<lambda>x. o_a2 x = C_NONE \<and> cmp (o_a1 x) c \<and> cmp (o_a3 x) C_REG) (filter (\<lambda>x. o_as x = AMOVW) default_rules) =
    filter (\<lambda>x. cmp (o_a1 x) c)
    [rule AMOVW C_REG C_NONE C_REG 1 4 0 0,
     rule AMOVW C_RCON C_NONE C_REG 2 4 0 0,
     rule AMOVW C_NCON C_NONE C_REG 12 4 0 0,
     rule AMOVW C_LCON C_NONE C_REG 12 4 0 LFROM,
     rule AMOVW C_SEXT C_NONE C_REG 21 4 REGSB 0,
     rule AMOVW C_SAUTO C_NONE C_REG 21 4 REGSP 0,
     rule AMOVW C_SOREG C_NONE C_REG 21 4 0 0,
     rule AMOVW C_LEXT C_NONE C_REG 31 8 REGSB LFROM,
     rule AMOVW C_LAUTO C_NONE C_REG 31 8 REGSP LFROM,
     rule AMOVW C_LOREG C_NONE C_REG 31 8 0 LFROM,
     rule AMOVW C_RECON C_NONE C_REG 4 4 REGSB 0,
     rule AMOVW C_RACON C_NONE C_REG 4 4 REGSP 0,
     rule AMOVW C_LACON C_NONE C_REG 34 8 REGSP LFROM,
     rule AMOVW C_ADDR C_NONE C_REG 65 8 0 LFROM,
     rule AMOVW C_FCR C_NONE C_REG 57 4 0 0,
     rule AMOVW C_PSR C_NONE C_REG 35 4 0 0,
     rule AMOVW C_SHIFT C_NONE C_REG 59 4 0 0]"
proof -
  have "filter (\<lambda>x. o_a2 x = C_NONE \<and> o_a3 x = C_REG) (filter (\<lambda>x. o_as x = AMOVW) default_rules) =
    [rule AMOVW C_REG C_NONE C_REG 1 4 0 0,
     rule AMOVW C_RCON C_NONE C_REG 2 4 0 0,
     rule AMOVW C_NCON C_NONE C_REG 12 4 0 0,
     rule AMOVW C_LCON C_NONE C_REG 12 4 0 LFROM,
     rule AMOVW C_SEXT C_NONE C_REG 21 4 REGSB 0,
     rule AMOVW C_SAUTO C_NONE C_REG 21 4 REGSP 0,
     rule AMOVW C_SOREG C_NONE C_REG 21 4 0 0,
     rule AMOVW C_LEXT C_NONE C_REG 31 8 REGSB LFROM,
     rule AMOVW C_LAUTO C_NONE C_REG 31 8 REGSP LFROM,
     rule AMOVW C_LOREG C_NONE C_REG 31 8 0 LFROM,
     rule AMOVW C_RECON C_NONE C_REG 4 4 REGSB 0,
     rule AMOVW C_RACON C_NONE C_REG 4 4 REGSP 0,
     rule AMOVW C_LACON C_NONE C_REG 34 8 REGSP LFROM,
     rule AMOVW C_ADDR C_NONE C_REG 65 8 0 LFROM,
     rule AMOVW C_FCR C_NONE C_REG 57 4 0 0,
     rule AMOVW C_PSR C_NONE C_REG 35 4 0 0,
     rule AMOVW C_SHIFT C_NONE C_REG 59 4 0 0]"
    by (simp add: rows_AMOVW)
  from arg_cong [OF this, of "filter (\<lambda>x. cmp (o_a1 x) c)"] show ?thesis
    unfolding filter_filter cmp_reg by (simp only: conj_ac)
qed

lemma store_rows:
  "filter (\<lambda>x. o_a2 x = C_NONE \<and> cmp (o_a1 x) C_REG \<and> cmp (o_a3 x) c) (filter (\<lambda>x. o_as x = AMOVW) default_rules) =
    filter (\<lambda>x. cmp (o_a3 x) c)
    [rule AMOVW C_REG C_NONE C_REG 1 4 0 0,
     rule AMOVW C_REG C_NONE C_SEXT 20 4 REGSB 0,
     rule AMOVW C_REG C_NONE C_SAUTO 20 4 REGSP 0,
     rule AMOVW C_REG C_NONE C_SOREG 20 4 0 0,
     rule AMOVW C_REG C_NONE C_LEXT 30 8 REGSB LTO,
     rule AMOVW C_REG C_NONE C_LAUTO 30 8 REGSP LTO,
     rule AMOVW C_REG C_NONE C_LOREG 30 8 0 LTO,
     rule AMOVW C_REG C_NONE C_ADDR 64 8 0 LTO,
     rule AMOVW C_REG C_NONE C_FCR 56 4 0 0,
     rule AMOVW C_REG C_NONE C_PSR 36 4 0 0,
     rule AMOVW C_REG C_NONE C_SHIFT 61 4 0 0]"
proof -
  have "filter (\<lambda>x. o_a2 x = C_NONE \<and> o_a1 x = C_REG) (filter (\<lambda>x. o_as x = AMOVW) default_rules) =
    [rule AMOVW C_REG C_NONE C_REG 1 4 0 0,
     rule AMOVW C_REG C_NONE C_SEXT 20 4 REGSB 0,
     rule AMOVW C_REG C_NONE C_SAUTO 20 4 REGSP 0,
     rule AMOVW C_REG C_NONE C_SOREG 20 4 0 0,
     rule AMOVW C_REG C_NONE C_LEXT 30 8 REGSB LTO,
     rule AMOVW C_REG C_NONE C_LAUTO 30 8 REGSP LTO,
     rule AMOVW C_REG C_NONE C_LOREG 30 8 0 LTO,
     rule AMOVW C_REG C_NONE C_ADDR 64 8 0 LTO,
     rule AMOVW C_REG C_NONE C_FCR 56 4 0 0,
     rule AMOVW C_REG C_NONE C_PSR 36 4 0 0,
     rule AMOVW C_REG C_NONE C_SHIFT 61 4 0 0]"
    by (simp add: rows_AMOVW)
  from arg_cong [OF this, of "filter (\<lambda>x. cmp (o_a3 x) c)"] show ?thesis
    unfolding filter_filter cmp_reg by (simp only: conj_ac)
qed

lemma load_rule:
  assumes "small_class a c"
  shows "\<exists>qs. filter (\<lambda>x. o_a2 x = C_NONE \<and> cmp (o_a1 x) c \<and> cmp (o_a3 x) C_REG) (filter (\<lambda>x. o_as x = AMOVW) default_rules) =
      rule AMOVW (fst (mem_rule a)) C_NONE C_REG 21 4 (snd (mem_rule a)) 0 # qs \<and>
      (\<forall>q \<in> set qs. ocmp (rule AMOVW (fst (mem_rule a)) C_NONE C_REG 21 4 (snd (mem_rule a)) 0) q < 0)"
  unfolding load_rows by (cases "a_symkind a = N_NONE") (simp_all add: small_cmp [OF assms] mem_rule_def ocmp_def)

lemma store_rule:
  assumes "small_class a c"
  shows "\<exists>qs. filter (\<lambda>x. o_a2 x = C_NONE \<and> cmp (o_a1 x) C_REG \<and> cmp (o_a3 x) c) (filter (\<lambda>x. o_as x = AMOVW) default_rules) =
      rule AMOVW C_REG C_NONE (fst (mem_rule a)) 20 4 (snd (mem_rule a)) 0 # qs \<and>
      (\<forall>q \<in> set qs. ocmp (rule AMOVW C_REG C_NONE (fst (mem_rule a)) 20 4 (snd (mem_rule a)) 0) q < 0)"
  unfolding store_rows by (cases "a_symkind a = N_NONE") (simp_all add: small_cmp [OF assms] mem_rule_def ocmp_def)

definition base_of :: "adr \<Rightarrow> nat" where
  "base_of a = (if a_reg a = R_NONE then snd (mem_rule a) else a_reg a)"

definition addr_of :: "adr \<Rightarrow> lnk \<Rightarrow> arm \<Rightarrow> u64" where
  "addr_of a l s = ucast (regs s (base_of a)) + operand_off a l"

text \<open>A \<^verbatim>\<open>MOVW\<close> between register \<open>r\<close> and the memory operand \<open>a\<close>, near enough for one instruction.\<close>

definition movw_at :: "prog \<Rightarrow> adr \<Rightarrow> adr \<Rightarrow> lnk \<Rightarrow> bool" where
  "movw_at p a r l \<longleftrightarrow> fresh_prog p \<and> p_as p = AMOVW \<and> p_reg p = R_NONE \<and> p_scond p = 14 \<and> mem_operand a \<and>
     base_of a < 15 \<and> a_type r = D_REG \<and> a_reg r < 15 \<and> \<bar>sint (operand_off a l)\<bar> \<le> 0xfff"

lemma rep_MOVW: "rep AMOVW = AMOVW"
  by (simp add: rep_def opsets_def)

lemma generate_load:
  assumes "buildop False False optab_rows l0 = (Inr t, l0')" and "movw_at p (p_from p) (p_to p) l"
    and "ready s" and "addr_of (p_from p) l s AND 3 = 0" and "mword h s (addr_of (p_from p) l s) = Some x"
  shows "\<exists>code l'. generate t p l = (Inr (), l') \<and> obuf l' = obuf l @ code \<and> errs l' = errs l \<and> length code = 4 \<and>
    runs_to h sys s code ((regs s)(a_reg (p_to p) := x, 15 := regs s 15 + 4))"
proof -
  let ?a = "p_from p"
  have m: "fresh_prog p" "p_as p = AMOVW" "p_reg p = R_NONE" "p_scond p = 14" "mem_operand ?a" "base_of ?a < 15"
    "a_type (p_to p) = D_REG" "a_reg (p_to p) < 15" "\<bar>sint (operand_off ?a l)\<bar> \<le> 0xfff" "p_as p \<noteq> AXXX"
    using assms(2) by (simp_all add: movw_at_def)
  obtain c where c: "aclass ?a l = (Inr c, l\<lparr>instoffset := operand_off ?a l\<rparr>)" "small_class ?a c" using class_mem [OF m(5,9)] by blast
  let ?l = "l\<lparr>instoffset := operand_off ?a l\<rparr>" and ?r = "rule AMOVW (fst (mem_rule ?a)) C_NONE C_REG 21 4 (snd (mem_rule ?a)) 0"
  obtain qs where q: "filter (\<lambda>x. o_a2 x = C_NONE \<and> cmp (o_a1 x) c \<and> cmp (o_a3 x) C_REG) (filter (\<lambda>x. o_as x = AMOVW) default_rules) = ?r # qs"
    "\<And>q. q \<in> set qs \<Longrightarrow> ocmp ?r q < 0" using load_rule [OF c(2)] by blast
  from generate_rule [OF assms(1) m(1) m(10) c(1) class_reg [OF m(7)] _ refl, of AMOVW ?r qs] q m(2,3)
  obtain k where g: "generate t p l = asmout (p\<lparr>p_from := ?a\<lparr>a_class := c + 1\<rparr>, p_to := (p_to p)\<lparr>a_class := C_REG + 1\<rparr>, p_optab := k + 1\<rparr>) ?r ?l"
    by (auto simp: rep_MOVW)
  let ?p = "p\<lparr>p_from := ?a\<lparr>a_class := c + 1\<rparr>, p_to := (p_to p)\<lparr>a_class := C_REG + 1\<rparr>, p_optab := k + 1\<rparr>"
  have o: "operand_off (?a\<lparr>a_class := c + 1\<rparr>) ?l = operand_off ?a l" "base_reg (?a\<lparr>a_class := c + 1\<rparr>) ?r = base_of ?a"
    by (simp_all add: operand_off_def base_reg_def base_of_def split: sym_kind.split)
  have "- 4096 < sint (operand_off ?a l)" "sint (operand_off ?a l) < 4096" using m(9) by linarith+
  then have "mem_at ?p ?r ?l (p_from ?p) (a_reg (p_to ?p))" using m o by (simp add: mem_at_def mem_operand_def)
  moreover have "mem_addr (p_from ?p) ?r ?l s = addr_of ?a l s" using o by (simp add: mem_addr_def addr_of_def)
  ultimately show ?thesis unfolding g
    using load_code_runs [of ?p ?r ?l s h x sys] m(2) assms(3-5) by simp
qed

lemma generate_store:
  assumes "buildop False False optab_rows l0 = (Inr t, l0')" and "movw_at p (p_to p) (p_from p) l"
    and "ready s" and "addr_of (p_to p) l s AND 3 = 0" and "mview h s (addr_of (p_to p) l s) \<noteq> None"
  shows "\<exists>code l'. generate t p l = (Inr (), l') \<and> obuf l' = obuf l @ code \<and> errs l' = errs l \<and> length code = 4 \<and>
    (holds h s (ucast (regs s 15)) code \<longrightarrow>
      (\<exists>u. run_step h sys s = (Inr (), u) \<and> ready u \<and> regs u = (regs s)(15 := regs s 15 + 4) \<and>
        mview h u = mstore_w (mview h s) (addr_of (p_to p) l s) (ucast (regs s (a_reg (p_from p))))))"
proof -
  let ?a = "p_to p"
  have m: "fresh_prog p" "p_as p = AMOVW" "p_reg p = R_NONE" "p_scond p = 14" "mem_operand ?a" "base_of ?a < 15"
    "a_type (p_from p) = D_REG" "a_reg (p_from p) < 15" "\<bar>sint (operand_off ?a l)\<bar> \<le> 0xfff" "p_as p \<noteq> AXXX"
    using assms(2) by (simp_all add: movw_at_def)
  obtain c where c: "aclass ?a l = (Inr c, l\<lparr>instoffset := operand_off ?a l\<rparr>)" "small_class ?a c" using class_mem [OF m(5,9)] by blast
  let ?l = "l\<lparr>instoffset := operand_off ?a l\<rparr>" and ?r = "rule AMOVW C_REG C_NONE (fst (mem_rule ?a)) 20 4 (snd (mem_rule ?a)) 0"
  obtain qs where q: "filter (\<lambda>x. o_a2 x = C_NONE \<and> cmp (o_a1 x) C_REG \<and> cmp (o_a3 x) c) (filter (\<lambda>x. o_as x = AMOVW) default_rules) = ?r # qs"
    "\<And>q. q \<in> set qs \<Longrightarrow> ocmp ?r q < 0" using store_rule [OF c(2)] by blast
  from generate_rule [OF assms(1) m(1) m(10) class_reg [OF m(7)] c(1) _ refl, of AMOVW ?r qs] q m(2,3)
  obtain k where g: "generate t p l = asmout (p\<lparr>p_from := (p_from p)\<lparr>a_class := C_REG + 1\<rparr>, p_to := ?a\<lparr>a_class := c + 1\<rparr>, p_optab := k + 1\<rparr>) ?r ?l"
    by (auto simp: rep_MOVW)
  let ?p = "p\<lparr>p_from := (p_from p)\<lparr>a_class := C_REG + 1\<rparr>, p_to := ?a\<lparr>a_class := c + 1\<rparr>, p_optab := k + 1\<rparr>"
  have o: "operand_off (?a\<lparr>a_class := c + 1\<rparr>) ?l = operand_off ?a l" "base_reg (?a\<lparr>a_class := c + 1\<rparr>) ?r = base_of ?a"
    by (simp_all add: operand_off_def base_reg_def base_of_def split: sym_kind.split)
  have "- 4096 < sint (operand_off ?a l)" "sint (operand_off ?a l) < 4096" using m(9) by linarith+
  then have "mem_at ?p ?r ?l (p_to ?p) (a_reg (p_from ?p))" using m o by (simp add: mem_at_def mem_operand_def)
  moreover have "mem_addr (p_to ?p) ?r ?l s = addr_of ?a l s" using o by (simp add: mem_addr_def addr_of_def)
  ultimately show ?thesis unfolding g
    using store_code_runs [of ?p ?r ?l s h sys] m(2) assms(3-5) by simp
qed

text \<open>
  C6: a \<^verbatim>\<open>MOVW\<close> between a register and memory (a register with an offset, a local
  variable or a parameter, at most 4095 bytes from its base) becomes, through the whole linker, four
  bytes without a diagnostic; executed by the emulator, the load puts the word at the operand's
  address into the register, and the store changes exactly that word of memory.
\<close>

theorem linked_memory_runs:
  assumes "buildop False False optab_rows l0 = (Inr t, l0')" and "ready s"
  shows "(movw_at p (p_from p) (p_to p) l \<and> addr_of (p_from p) l s AND 3 = 0 \<and> mword h s (addr_of (p_from p) l s) = Some x \<longrightarrow>
     (\<exists>code l'. generate t p l = (Inr (), l') \<and> obuf l' = obuf l @ code \<and> errs l' = errs l \<and> length code = 4 \<and>
       runs_to h sys s code ((regs s)(a_reg (p_to p) := x, 15 := regs s 15 + 4)))) \<and>
    (movw_at p (p_to p) (p_from p) l \<and> addr_of (p_to p) l s AND 3 = 0 \<and> mview h s (addr_of (p_to p) l s) \<noteq> None \<longrightarrow>
     (\<exists>code l'. generate t p l = (Inr (), l') \<and> obuf l' = obuf l @ code \<and> errs l' = errs l \<and> length code = 4 \<and>
       (holds h s (ucast (regs s 15)) code \<longrightarrow>
         (\<exists>u. run_step h sys s = (Inr (), u) \<and> ready u \<and> regs u = (regs s)(15 := regs s 15 + 4) \<and>
           mview h u = mstore_w (mview h s) (addr_of (p_to p) l s) (ucast (regs s (a_reg (p_from p))))))))"
  using generate_load [OF assms(1) _ assms(2)] generate_store [OF assms(1) _ assms(2)] by simp

theorem linked_memory_runs_witness:
  "\<exists>t code u. buildop False False optab_rows demo_lnk = (Inr t, demo_lnk) \<and>
    code = obuf (snd (generate t (demo_prog AMOVW (reg_adr 2) R_NONE (mem_adr 1 4)) demo_lnk)) \<and>
    run_step demo_host [] (code_machine code (\<lambda>_. 0x1808)) = (Inr (), u) \<and> mview demo_host u 0x180d = Some 0x18"
proof -
  let ?p = "demo_prog AMOVW (reg_adr 2) R_NONE (mem_adr 1 4)"
  obtain t where t: "buildop False False optab_rows demo_lnk = (Inr t, demo_lnk)" using default_builds by blast
  define code where "code = obuf (snd (generate t ?p demo_lnk))"
  let ?m = "code_machine code (\<lambda>_. 0x1808)"
  have a: "addr_of (p_to ?p) demo_lnk ?m = 0x180c"
    by (simp add: addr_of_def base_of_def mem_adr_sel operand_off_def demo_defs code_machine_regs)
  have m: "movw_at ?p (p_to ?p) (p_from ?p) demo_lnk"
    by (simp add: movw_at_def fresh_prog_def base_of_def mem_operand_def operand_off_def demo_defs mem_adr_def)
  have "addr_of (p_to ?p) demo_lnk ?m AND 3 = 0" "mview demo_host ?m (addr_of (p_to ?p) demo_lnk ?m) \<noteq> None"
    unfolding a using code_machine_demo [of 12] by simp_all
  then obtain c l' where c: "generate t ?p demo_lnk = (Inr (), l')" "obuf l' = obuf demo_lnk @ c" "length c = 4"
    and e: "holds demo_host ?m (ucast (regs ?m 15)) c \<longrightarrow>
      (\<exists>u. run_step demo_host [] ?m = (Inr (), u) \<and> ready u \<and> regs u = (regs ?m)(15 := regs ?m 15 + 4) \<and>
        mview demo_host u = mstore_w (mview demo_host ?m) (addr_of (p_to ?p) demo_lnk ?m) (ucast (regs ?m (a_reg (p_from ?p)))))"
    using linked_memory_runs [where h = demo_host and sys = "[]" and l = demo_lnk and p = ?p, OF t code_machine_ready] m by blast
  have "code = c" using c(1,2) by (simp add: code_def demo_lnk_def)
  then have "\<exists>u. run_step demo_host [] ?m = (Inr (), u) \<and> mview demo_host u 0x180d = Some 0x18"
    using c(3) e code_machine_holds [of c] a by (auto simp: code_machine_regs demo_defs mstore_w_def)
  then show ?thesis using t code_def by blast
qed

section \<open>Branches\<close>

definition branch_prog :: "prog \<Rightarrow> nat \<Rightarrow> u32 \<Rightarrow> u32 \<Rightarrow> bool" where
  "branch_prog p k pc c \<longleftrightarrow> fresh_prog p \<and> a_type (p_from p) = D_NONE \<and> a_type (p_to p) = D_BRANCH \<and> p_reg p = R_NONE \<and>
     is_branch (p_as p) \<and> p_scond p = of_nat k \<and> k < 16 \<and> (p_as p = ABL \<or> k = 14) \<and>
     p_cond p = At (ucast c) \<and> p_pc p = ucast pc \<and> c AND 3 = 0 \<and>
     - (2 ^ 25) \<le> uint c - uint pc - 8 \<and> uint c - uint pc - 8 < 2 ^ 25"

lemma branch_rep: "is_branch a \<Longrightarrow> rep a = AB \<or> rep a = ABL \<or> rep a = ABEQ"
proof -
  assume "is_branch a"
  from is_branch_cases [OF this] have "a = AB \<or> a = ABL \<or> a \<in> served ABEQ" by (simp add: served_def opset_def opsets_def) blast
  then show ?thesis
  proof (elim disjE)
    assume "a = AB"
    then show ?thesis by (simp add: rep_def opsets_def)
  next
    assume "a = ABL"
    then show ?thesis by (simp add: rep_def opsets_def)
  next
    assume "a \<in> served ABEQ"
    then show ?thesis using served_rep [of a ABEQ] by simp
  qed
qed

lemma branch_rule:
  assumes "rp = AB \<or> rp = ABL \<or> rp = ABEQ"
  shows "filter (\<lambda>x. o_a2 x = C_NONE \<and> cmp (o_a1 x) C_NONE \<and> cmp (o_a3 x) C_BRANCH) (filter (\<lambda>x. o_as x = rp) default_rules) =
    [rule rp C_NONE C_NONE C_BRANCH 5 4 0 (if rp = AB then LPOOL else 0)]"
  using assms by (elim disjE) (simp_all add: rows_AB rows_ABL rows_ABEQ cmp.simps)

text \<open>
  A branch to an instruction of the program, anywhere in the reach of the
  26-bit offset, becomes four bytes through the whole linker; executed by the emulator, it goes to
  the target when its condition holds and to the next instruction otherwise, and \<^verbatim>\<open>BL\<close> leaves the
  return address in \<^verbatim>\<open>R14\<close>.
\<close>

theorem linked_branch_runs:
  assumes "buildop False False optab_rows l0 = (Inr t, l0')" and "branch_prog p k (regs s 15) c" and "ready s"
    and "decides (bra_code (p_as p) k) s b"
  shows "\<exists>code. generate t p l = (Inr (), l\<lparr>obuf := obuf l @ code\<rparr>) \<and> length code = 4 \<and>
    runs_to h sys s code
      (if b then (if p_as p = ABL then (regs s)(14 := regs s 15 + 4, 15 := c) else (regs s)(15 := c))
       else (regs s)(15 := regs s 15 + 4))"
proof -
  have m: "fresh_prog p" "p_reg p = R_NONE" "is_branch (p_as p)" "p_as p \<noteq> AXXX" using assms(2) by (simp_all add: branch_prog_def is_branch_def)
  have cl: "aclass (p_from p) l = (Inr C_NONE, l)" "aclass (p_to p) l = (Inr C_BRANCH, l)"
    using assms(2) by (simp_all add: branch_prog_def aclass_def ret_def)
  let ?r = "rule (rep (p_as p)) C_NONE C_NONE C_BRANCH 5 4 0 (if rep (p_as p) = AB then LPOOL else 0)"
  from generate_rule [OF assms(1) m(1,4) cl refl refl, of ?r "[]"] branch_rule [OF branch_rep [OF m(3)]] m(2)
  obtain j where g: "generate t p l = asmout (p\<lparr>p_from := (p_from p)\<lparr>a_class := C_NONE + 1\<rparr>, p_to := (p_to p)\<lparr>a_class := C_BRANCH + 1\<rparr>, p_optab := j + 1\<rparr>) ?r l"
    by auto
  let ?p = "p\<lparr>p_from := (p_from p)\<lparr>a_class := C_NONE + 1\<rparr>, p_to := (p_to p)\<lparr>a_class := C_BRANCH + 1\<rparr>, p_optab := j + 1\<rparr>"
  have bt: "branch_at ?p ?r k (regs s 15) c" using assms(2) by (simp add: branch_prog_def branch_at_def)
  have pa: "p_as ?p = p_as p" by simp
  have d: "decides (bra_code (p_as ?p) k) s b" unfolding pa by (rule assms(4))
  show ?thesis unfolding g by (rule branch_code_runs [where p = ?p and ot = ?r and h = h and sys = sys and l = l, OF bt assms(3) d, unfolded pa])
qed

theorem linked_branch_runs_witness:
  "\<exists>t code u. buildop False False optab_rows demo_lnk = (Inr t, demo_lnk) \<and>
    code = obuf (snd (generate t ((demo_prog ABL ((reg_adr 0)\<lparr>a_type := D_NONE\<rparr>) R_NONE ((reg_adr 0)\<lparr>a_type := D_BRANCH\<rparr>))\<lparr>p_cond := At 0x1800\<rparr>) demo_lnk)) \<and>
    run_step demo_host [] (code_machine code (\<lambda>_. 0)) = (Inr (), u) \<and> regs u 14 = 0x1004 \<and> regs u 15 = 0x1800"
proof -
  let ?p = "(demo_prog ABL ((reg_adr 0)\<lparr>a_type := D_NONE\<rparr>) R_NONE ((reg_adr 0)\<lparr>a_type := D_BRANCH\<rparr>))\<lparr>p_cond := At 0x1800\<rparr>"
  obtain t where t: "buildop False False optab_rows demo_lnk = (Inr t, demo_lnk)" using default_builds by blast
  define code where "code = obuf (snd (generate t ?p demo_lnk))"
  let ?m = "code_machine code (\<lambda>_. 0)"
  have "branch_prog ?p 14 (regs ?m 15) 0x1800" "decides (bra_code (p_as ?p) 14) ?m True"
    by (simp_all add: branch_prog_def fresh_prog_def is_branch_def demo_defs code_machine_regs decides_def bra_code_def run_cond_def
        code_machine_cmp runcmp_def)
  from linked_branch_runs [where h = demo_host and sys = "[]" and l = demo_lnk, OF t this(1) code_machine_ready this(2)]
  obtain c where c: "generate t ?p demo_lnk = (Inr (), demo_lnk\<lparr>obuf := obuf demo_lnk @ c\<rparr>)" "length c = 4"
    "runs_to demo_host [] ?m c (if True then (if p_as ?p = ABL then (regs ?m)(14 := regs ?m 15 + 4, 15 := 0x1800)
      else (regs ?m)(15 := 0x1800)) else (regs ?m)(15 := regs ?m 15 + 4))" by blast
  have "code = c" using c(1) by (simp add: code_def demo_lnk_def)
  then have "\<exists>u. run_step demo_host [] ?m = (Inr (), u) \<and> regs u 14 = 0x1004 \<and> regs u 15 = 0x1800"
    using c(2,3) code_machine_holds [of c] by (auto simp: runs_to_def code_machine_regs demo_defs)
  then show ?thesis using t code_def by blast
qed

text \<open>
  A branch through a register with a small negative offset is
  accepted (its class satisfies \<^verbatim>\<open>C_ROREG\<close>, although it is no rotated immediate) and encoded without
  the offset: the word adds register \<^verbatim>\<open>R0\<close> instead.
\<close>

theorem register_branch_offset_lost:
  assumes "- 0xff \<le> sint v" and "sint v < 0" and "a_type (p_to p) = D_OREG" and "a_symkind (p_to p) = N_NONE"
    and "a_offset (p_to p) = v" and "p_scond p = 14"
  shows "cmp C_ROREG (oregclass v) \<and>
    asm_6 p l = (Inr [sh 14 28 OR sh 4 21 OR sh (a_reg (p_to p)) 16 OR sh REGPC 12], l\<lparr>instoffset := v\<rparr>)"
proof -
  have "uint v = sint v + 2 ^ 64" using assms(1,2) sint_eq_uint_bit [of v] word_neg_bit [of v] by simp
  then have "\<not> unat v < 256" using assms(1) by (simp add: unat_eq_nat_uint)
  then have i: "immrot v = 0" using immrot_64_range [of v] by blast
  have "oprrr AADD 14 k = (Inr (sh 14 28 OR sh 4 21), k)" for k by (rule oprrr_plain) (simp add: rrr_bits_def)
  moreover have "aclass (p_to p) l = (Inr (oregclass v), l\<lparr>instoffset := v\<rparr>)"
    using assms(3-5) by (simp add: aclass_def set_off_def seq_def bind_def modify_def ret_def)
  moreover have "cmp C_ROREG (oregclass v)" using assms(1,2) by (auto simp: class_cases cmp.simps)
  ultimately show ?thesis using assms(6) i by (simp add: asm_6_def seq_def bind_def gets_def ret_def or.assoc)
qed

theorem register_branch_offset_lost_witness:
  "asm_6 (demo_prog AB (reg_adr 0) R_NONE (mem_adr 1 (- 4))) demo_lnk = (Inr [0xe081f000], demo_lnk\<lparr>instoffset := - 4\<rparr>)"
proof -
  let ?p = "demo_prog AB (reg_adr 0) R_NONE (mem_adr 1 (- 4))"
  have "- 0xff \<le> sint (- 4 :: u64)" "sint (- 4 :: u64) < 0" "a_type (p_to ?p) = D_OREG" "a_symkind (p_to ?p) = N_NONE"
    "a_offset (p_to ?p) = - 4" "p_scond ?p = 14" by (simp_all add: demo_defs mem_adr_def)
  from register_branch_offset_lost [OF this] show ?thesis by (simp add: sh_def demo_defs mem_adr_def)
qed

end
