(* ===== verification/Link5_Data.thy ===== *)
theory Link5_Data
  imports Link5_Asm
begin

text \<open>
  The data segment of the ARM linker \<^verbatim>\<open>linkers/5l\<close>: the symbol table of \<^verbatim>\<open>utils.c\<close> and the placement
  of variables by \<^verbatim>\<open>dodata\<close> of \<^verbatim>\<open>layout.c\<close>. A symbol is an index; its value and section are in the
  state \<open>lnk\<close>, its name and version and the hash chains are the record \<open>symtab\<close>. The version of a
  symbol is a \<^verbatim>\<open>short\<close>, the one that \<^verbatim>\<open>lookup\<close> is asked for an \<^verbatim>\<open>int\<close>.
\<close>

section \<open>The symbol table\<close>

abbreviation (input) NHASH :: nat where "NHASH \<equiv> 10007"

record symtab =
  hash :: "nat \<Rightarrow> nat list"
  s_name :: "nat \<Rightarrow> string"
  s_version :: "nat \<Rightarrow> 16 word"
  nsymbol :: nat

text \<open>A \<^verbatim>\<open>char\<close> of the host is signed.\<close>

definition char_value :: "char \<Rightarrow> u64" where
  "char_value c = (let n = of_char c :: int in word_of_int (if n < 128 then n else n - 256))"

fun hash_chars :: "string \<Rightarrow> u64 \<Rightarrow> u64" where
  "hash_chars [] h = h"
| "hash_chars (c # cs) h = hash_chars cs (h + h + h + char_value c)"

definition hash_of :: "string \<Rightarrow> int \<Rightarrow> nat" where
  "hash_of symb v = unat (hash_chars symb (word_of_int v) AND 0xffffff) mod NHASH"

definition lookup :: "string \<Rightarrow> int \<Rightarrow> symtab \<Rightarrow> (lnk, nat \<times> symtab) eff" where
  "lookup symb v tab =
     (let h = hash_of symb v in
      case find (\<lambda>i. sint (s_version tab i) = v \<and> s_name tab i = symb) (hash tab h) of
        Some i \<Rightarrow> ret (i, tab)
      | None \<Rightarrow>
          let i = nsymbol tab in
          seq (modify (\<lambda>s. s\<lparr>syms := (syms s)(i := \<lparr>s_value = 0, s_type = SNONE\<rparr>)\<rparr>))
         (ret (i, tab\<lparr>hash := (hash tab)(h := i # hash tab h), s_name := (s_name tab)(i := symb),
                      s_version := (s_version tab)(i := word_of_int v), nsymbol := i + 1\<rparr>)))"

text \<open>The order in which the loops over the hash table visit the symbols.\<close>

definition table_order :: "symtab \<Rightarrow> nat list" where
  "table_order tab = concat (map (hash tab) [0..<NHASH])"

text \<open>The remainder of C has the sign of the dividend.\<close>

definition rnd :: "u64 \<Rightarrow> u64 \<Rightarrow> u64" where
  "rnd v r =
     (if sint r \<le> 0 then v
      else
        let v = v + (r - 1);
            c = sgn (sint v) * (\<bar>sint v\<bar> mod sint r);
            c = (if c < 0 then c + sint r else c) in
        v - word_of_int c)"

section \<open>Placement of variables\<close>

abbreviation (input) MINSIZ :: int where "MINSIZ \<equiv> 64"

definition set_value :: "nat \<Rightarrow> u64 \<Rightarrow> lnk \<Rightarrow> lnk" where
  "set_value i v s = s\<lparr>syms := (syms s)(i := (syms s i)\<lparr>s_value := v\<rparr>)\<rparr>"

definition set_sect :: "nat \<Rightarrow> sect \<Rightarrow> lnk \<Rightarrow> lnk" where
  "set_sect i t s = s\<lparr>syms := (syms s)(i := (syms s i)\<lparr>s_type := t\<rparr>)\<rparr>"

text \<open>The \<^verbatim>\<open>DATA\<close> instructions: a variable with an initial value moves from the bss to the data segment.\<close>

fun data_checks :: "prog list \<Rightarrow> (lnk, unit) eff" where
  "data_checks [] = ret ()"
| "data_checks (p # ps) =
     (case a_sym (p_from p) of
        None \<Rightarrow> raise Trap
      | Some i \<Rightarrow>
          seq (modify (\<lambda>s. if s_type (syms s i) = SBSS then set_sect i SDATA s else s))
         (bind (gets (\<lambda>s. syms s i)) (\<lambda>y.
          seq (onlyif (s_type y \<noteq> SDATA) (diag ''initialize non-data''))
         (seq (onlyif (sint (a_offset (p_from p) + of_nat (p_reg p)) > sint (s_value y)) (diag ''initialize bounds''))
          (data_checks ps)))))"

fun data_strings :: "prog list \<Rightarrow> (lnk, unit) eff" where
  "data_strings [] = ret ()"
| "data_strings (p # ps) =
     (case a_sym (p_from p) of
        None \<Rightarrow> raise Trap
      | Some i \<Rightarrow> seq (modify (\<lambda>s. if a_type (p_to p) = D_SCONST then set_sect i SSTRING s else s)) (data_strings ps))"

fun data_pass1 :: "nat list \<Rightarrow> u64 \<Rightarrow> (lnk, u64) eff" where
  "data_pass1 [] orig = ret orig"
| "data_pass1 (i # is) orig =
     bind (gets (\<lambda>s. syms s i)) (\<lambda>y.
     if s_type y = SDATA \<or> s_type y = SBSS then
       bind (if s_value y = 0 then seq (diag ''no size'') (ret 1) else ret (s_value y)) (\<lambda>v.
       let v = rnd v 4 in
       seq (modify (set_value i v))
      (if sint v \<le> MINSIZ then
         seq (modify (\<lambda>s. set_sect i SDATA1 (set_value i orig s))) (data_pass1 is (orig + v))
       else data_pass1 is orig))
     else data_pass1 is orig)"

fun data_pass2 :: "nat list \<Rightarrow> u64 \<Rightarrow> (lnk, u64) eff" where
  "data_pass2 [] orig = ret orig"
| "data_pass2 (i # is) orig =
     bind (gets (\<lambda>s. syms s i)) (\<lambda>y.
     if s_type y = SDATA then seq (modify (set_value i orig)) (data_pass2 is (orig + s_value y))
     else seq (onlyif (s_type y = SDATA1) (modify (set_sect i SDATA))) (data_pass2 is orig))"

fun data_pass3 :: "nat list \<Rightarrow> u64 \<Rightarrow> (lnk, u64) eff" where
  "data_pass3 [] orig = ret orig"
| "data_pass3 (i # is) orig =
     bind (gets (\<lambda>s. syms s i)) (\<lambda>y.
     if s_type y = SBSS then seq (modify (set_value i orig)) (data_pass3 is (orig + s_value y))
     else data_pass3 is orig)"

definition xdefine :: "string \<Rightarrow> sect \<Rightarrow> u64 \<Rightarrow> symtab \<Rightarrow> (lnk, symtab) eff" where
  "xdefine p t v tab =
     bind (lookup p 0 tab) (\<lambda>(i, tab).
     bind (gets (\<lambda>s. s_type (syms s i))) (\<lambda>u.
     seq (onlyif (u = SNONE \<or> u = SXREF) (modify (\<lambda>s. set_value i v (set_sect i t s)))) (ret tab)))"

text \<open>\<^verbatim>\<open>dodata\<close>: the sizes of the data and bss segments and the new table.\<close>

definition dodata :: "bool \<Rightarrow> prog list \<Rightarrow> symtab \<Rightarrow> (lnk, u64 \<times> u64 \<times> symtab) eff" where
  "dodata debugt datap tab =
     seq (data_checks datap)
    (seq (onlyif debugt (data_strings datap))
    (bind (data_pass1 (table_order tab) 0) (\<lambda>orig.
     bind (data_pass2 (table_order tab) orig) (\<lambda>orig.
     let datsize = rnd orig 8 in
     bind (data_pass3 (table_order tab) datsize) (\<lambda>orig.
     let bsssize = rnd orig 8 - datsize in
     bind (xdefine ''bdata'' SDATA 0 tab) (\<lambda>tab.
     bind (xdefine ''edata'' SDATA datsize tab) (\<lambda>tab.
     bind (xdefine ''end'' SBSS (datsize + bsssize) tab) (\<lambda>tab.
     bind (xdefine ''etext'' STEXT 0 tab) (\<lambda>tab.
     bind (xdefine ''setR12'' SDATA (0 + BIG) tab) (\<lambda>tab.
     ret (datsize, bsssize, tab)))))))))))"

section \<open>The symbol table as a map\<close>

text \<open>What the linker relies on: \<open>look\<close> returns the entry of a key and makes a new one where there is none.\<close>

locale name_table =
  fixes good :: "'t \<Rightarrow> bool" and view :: "'t \<Rightarrow> 'k \<Rightarrow> nat option" and look :: "'k \<Rightarrow> 't \<Rightarrow> nat \<times> 't"
  assumes hit: "good t \<Longrightarrow> view t k = Some i \<Longrightarrow> look k t = (i, t)"
    and miss: "good t \<Longrightarrow> view t k = None \<Longrightarrow> look k t = (i, t') \<Longrightarrow> good t' \<and> view t' = (view t)(k \<mapsto> i)"
    and fresh: "good t \<Longrightarrow> view t k = None \<Longrightarrow> look k t = (i, t') \<Longrightarrow> view t j \<noteq> Some i"
    and apart: "good t \<Longrightarrow> view t j = Some i \<Longrightarrow> view t k = Some i \<Longrightarrow> j = k"
begin

fun looks :: "'k list \<Rightarrow> 't \<Rightarrow> nat list \<times> 't" where
  "looks [] t = ([], t)"
| "looks (k # ks) t = (let (i, t) = look k t; (is, t) = looks ks t in (i # is, t))"

lemma look_view:
  assumes "good t" and "look k t = (i, t')"
  shows "good t' \<and> view t' k = Some i \<and> (\<forall>j x. view t j = Some x \<longrightarrow> view t' j = Some x)"
proof (cases "view t k")
  case None
  then show ?thesis using miss [OF assms(1) None assms(2)] by auto
next
  case (Some x)
  then show ?thesis using hit [OF assms(1) Some] assms by auto
qed

lemma looks_view:
  assumes "good t" and "looks ks t = (is, t')"
  shows "good t' \<and> map (view t') ks = map Some is \<and> (\<forall>j x. view t j = Some x \<longrightarrow> view t' j = Some x)"
  using assms
proof (induction ks arbitrary: t "is")
  case (Cons k ks)
  obtain i t1 where 1: "look k t = (i, t1)" by fastforce
  obtain js t2 where 2: "looks ks t1 = (js, t2)" by fastforce
  then have e: "is = i # js" "t2 = t'" using Cons.prems(2) 1 by auto
  then show ?case using look_view [OF Cons.prems(1) 1] Cons.IH [of t1 js] 2 by auto
qed auto

lemma looks_agree:
  assumes "good t" and "looks ks t = (is, t')" and "a < length ks" and "b < length ks"
  shows "is ! a = is ! b \<longleftrightarrow> ks ! a = ks ! b"
proof -
  have v: "good t'" "map (view t') ks = map Some is" using looks_view [OF assms(1,2)] by auto
  then have "length is = length ks" by (metis length_map)
  then have "view t' (ks ! a) = Some (is ! a)" "view t' (ks ! b) = Some (is ! b)"
    using v(2) assms(3,4) by (metis nth_map)+
  then show ?thesis using apart [OF v(1)] by auto
qed

end

text \<open>
  The chains hold the symbols up to \<^verbatim>\<open>nsymbol\<close>, each in the chain of its hash value and only once, and no
  two have the same name and version.
\<close>

definition key_of :: "symtab \<Rightarrow> nat \<Rightarrow> string \<times> 16 word" where
  "key_of tab i = (s_name tab i, s_version tab i)"

definition wf_tab :: "symtab \<Rightarrow> bool" where
  "wf_tab tab \<longleftrightarrow> (\<forall>h. distinct (hash tab h)) \<and>
     (\<forall>h i. i \<in> set (hash tab h) \<longleftrightarrow> i < nsymbol tab \<and> h = hash_of (s_name tab i) (sint (s_version tab i))) \<and>
     inj_on (key_of tab) {..<nsymbol tab}"

definition tab_view :: "symtab \<Rightarrow> string \<times> 16 word \<Rightarrow> nat option" where
  "tab_view tab k = find (\<lambda>i. key_of tab i = k) [0..<nsymbol tab]"

text \<open>The versions a symbol can have, and the effect of \<open>lookup\<close> on the table alone for them.\<close>

definition is_short :: "int \<Rightarrow> bool" where
  "is_short v \<longleftrightarrow> - (2 ^ 15) \<le> v \<and> v < 2 ^ 15"

lemma sint_short: "is_short v \<Longrightarrow> sint (word_of_int v :: 16 word) = v"
  by (simp add: is_short_def sint_sbintrunc' signed_take_bit_int_eq_self)

lemma short_eq: "is_short v \<Longrightarrow> sint (x :: 16 word) = v \<longleftrightarrow> x = word_of_int v"
  using sint_short [of v] signed_word_eqI [of x "word_of_int v"] by metis

lemma is_short_0 [simp]: "is_short 0"
  by (simp add: is_short_def)

definition tab_look :: "string \<times> 16 word \<Rightarrow> symtab \<Rightarrow> nat \<times> symtab" where
  "tab_look k tab =
     (case tab_view tab k of
        Some i \<Rightarrow> (i, tab)
      | None \<Rightarrow>
          let i = nsymbol tab; h = hash_of (fst k) (sint (snd k)) in
          (i, tab\<lparr>hash := (hash tab)(h := i # hash tab h), s_name := (s_name tab)(i := fst k),
               s_version := (s_version tab)(i := snd k), nsymbol := i + 1\<rparr>))"

lemma tab_view_Some: "wf_tab tab \<Longrightarrow> tab_view tab k = Some i \<longleftrightarrow> i < nsymbol tab \<and> key_of tab i = k"
proof -
  assume "wf_tab tab"
  then have u: "i = j" if "i < nsymbol tab" "j < nsymbol tab" "key_of tab i = key_of tab j" for i j
    using that by (auto simp: wf_tab_def dest: inj_onD)
  show ?thesis
  proof
    assume "tab_view tab k = Some i"
    then show "i < nsymbol tab \<and> key_of tab i = k" by (auto simp: tab_view_def find_Some_iff)
  next
    assume i: "i < nsymbol tab \<and> key_of tab i = k"
    then have "tab_view tab k \<noteq> None" by (auto simp: tab_view_def find_None_iff)
    then obtain j where j: "tab_view tab k = Some j" by blast
    then have "j < nsymbol tab \<and> key_of tab j = k" by (auto simp: tab_view_def find_Some_iff)
    then show "tab_view tab k = Some i" using u i j by metis
  qed
qed

lemma tab_view_None: "tab_view tab k = None \<longleftrightarrow> (\<forall>i < nsymbol tab. key_of tab i \<noteq> k)"
  by (auto simp: tab_view_def find_None_iff)

text \<open>The chain of the hash value is enough to search.\<close>

lemma chain_view:
  assumes "wf_tab tab" and "is_short v"
  shows "find (\<lambda>i. sint (s_version tab i) = v \<and> s_name tab i = symb) (hash tab (hash_of symb v)) =
    tab_view tab (symb, word_of_int v)"
proof (cases "tab_view tab (symb, word_of_int v)")
  case None
  then have "find (\<lambda>i. sint (s_version tab i) = v \<and> s_name tab i = symb) (hash tab (hash_of symb v)) = None"
    using assms by (auto simp: tab_view_None find_None_iff wf_tab_def key_of_def)
  then show ?thesis using None by simp
next
  case (Some i)
  let ?P = "\<lambda>i. sint (s_version tab i) = v \<and> s_name tab i = symb" and ?c = "hash tab (hash_of symb v)"
  have i: "i < nsymbol tab" "?P i"
    using tab_view_Some [OF assms(1)] Some assms(2) by (auto simp: key_of_def sint_short)
  then have "i \<in> set ?c" using assms(1) by (auto simp: wf_tab_def)
  then have "find ?P ?c \<noteq> None" using i by (auto simp: find_None_iff)
  then obtain j where j: "find ?P ?c = Some j" by blast
  then have "j \<in> set ?c" "?P j" by (auto simp: find_Some_iff)
  then have "j < nsymbol tab \<and> key_of tab j = (symb, word_of_int v)"
    using assms by (auto simp: wf_tab_def key_of_def)
  then show ?thesis using j tab_view_Some [OF assms(1)] by metis
qed

lemma lookup_tab:
  assumes "wf_tab tab" and "is_short v"
  shows "lookup symb v tab l = (Inr (tab_look (symb, word_of_int v) tab),
    if tab_view tab (symb, word_of_int v) = None
    then l\<lparr>syms := (syms l)(nsymbol tab := \<lparr>s_value = 0, s_type = SNONE\<rparr>)\<rparr> else l)"
  unfolding lookup_def tab_look_def Let_def chain_view [OF assms]
  by (simp add: seq_def bind_def modify_def sint_short [OF assms(2)] split: option.split)

lemma tab_look_new:
  assumes "wf_tab tab" and "tab_view tab k = None" and "tab_look k tab = (i, tab')"
  shows "i = nsymbol tab" and "wf_tab tab'" and "tab_view tab' = (tab_view tab)(k \<mapsto> i)" and "nsymbol tab' = i + 1"
proof -
  have i: "i = nsymbol tab" and n: "nsymbol tab' = i + 1" and key: "\<And>j. key_of tab' j = (if j = i then k else key_of tab j)"
    and h: "hash tab' = (hash tab)(hash_of (fst k) (sint (snd k)) := i # hash tab (hash_of (fst k) (sint (snd k))))"
    using assms(2,3) by (auto simp: tab_look_def Let_def key_of_def)
  show "i = nsymbol tab" "nsymbol tab' = i + 1" using i n .
  have w: "\<And>h. distinct (hash tab h)" "\<And>h j. j \<in> set (hash tab h) \<longleftrightarrow> j < nsymbol tab \<and> h = hash_of (fst (key_of tab j)) (sint (snd (key_of tab j)))"
    "inj_on (key_of tab) {..<nsymbol tab}" using assms(1) by (auto simp: wf_tab_def key_of_def)
  have new: "\<And>j. j < i \<Longrightarrow> key_of tab j \<noteq> k" "\<And>j. j < i \<Longrightarrow> k \<noteq> key_of tab j" using assms(2) i by (auto simp: tab_view_None)
  have "inj_on (key_of tab') {..<i + 1}"
    using w(3) new i unfolding inj_on_def by (simp add: key lessThan_Suc)
  moreover have "\<forall>h. distinct (hash tab' h)" using w(1,2) i by (auto simp: h)
  moreover have "\<forall>h j. j \<in> set (hash tab' h) \<longleftrightarrow> j < i + 1 \<and> h = hash_of (fst (key_of tab' j)) (sint (snd (key_of tab' j)))"
    using w(2) i by (auto simp: h key)
  ultimately show wf: "wf_tab tab'" unfolding wf_tab_def n by (simp add: key_of_def)
  have "tab_view tab' x = Some j \<longleftrightarrow> ((tab_view tab)(k \<mapsto> i)) x = Some j" for x j
    using tab_view_Some [OF wf, of x j] tab_view_Some [OF assms(1), of x j] new i by (auto simp: n key less_Suc_eq)
  then show "tab_view tab' = (tab_view tab)(k \<mapsto> i)" by (metis option.exhaust ext)
qed

interpretation st: name_table wf_tab tab_view tab_look
proof
  show "wf_tab t \<Longrightarrow> tab_view t k = Some i \<Longrightarrow> tab_look k t = (i, t)" for t k i by (simp add: tab_look_def)
  show "wf_tab t \<Longrightarrow> tab_view t k = None \<Longrightarrow> tab_look k t = (i, t') \<Longrightarrow> wf_tab t' \<and> tab_view t' = (tab_view t)(k \<mapsto> i)" for t k i t'
    using tab_look_new by blast
  show "wf_tab t \<Longrightarrow> tab_view t k = None \<Longrightarrow> tab_look k t = (i, t') \<Longrightarrow> tab_view t j \<noteq> Some i" for t k i t' j
    using tab_look_new(1) [of t k i t'] by (auto simp: tab_view_Some)
  show "wf_tab t \<Longrightarrow> tab_view t j = Some i \<Longrightarrow> tab_view t k = Some i \<Longrightarrow> j = k" for t j i k
    by (simp add: tab_view_Some)
qed

text \<open>The loops over the table meet every symbol once.\<close>

lemma table_order_all:
  assumes "wf_tab tab"
  shows "distinct (table_order tab)" and "set (table_order tab) = {..<nsymbol tab}"
proof -
  have d: "distinct (concat (map (hash tab) [0..<n]))" for n
    using assms by (induction n) (auto simp: wf_tab_def)
  have m: "i \<in> set (concat (map (hash tab) [0..<n])) \<longleftrightarrow> i < nsymbol tab \<and> hash_of (s_name tab i) (sint (s_version tab i)) < n" for n i
    using assms by (induction n) (auto simp: wf_tab_def less_Suc_eq)
  have "hash_of a b < NHASH" for a b by (simp add: hash_of_def)
  then show "distinct (table_order tab)" "set (table_order tab) = {..<nsymbol tab}"
    using d m by (auto simp only: table_order_def lessThan_iff)
qed

fun lookups :: "(string \<times> int) list \<Rightarrow> symtab \<Rightarrow> (lnk, nat list \<times> symtab) eff" where
  "lookups [] tab = ret ([], tab)"
| "lookups (k # ks) tab =
     bind (lookup (fst k) (snd k) tab) (\<lambda>(i, tab). bind (lookups ks tab) (\<lambda>(is, tab). ret (i # is, tab)))"

abbreviation short_key :: "string \<times> int \<Rightarrow> string \<times> 16 word" where
  "short_key k \<equiv> (fst k, word_of_int (snd k))"

lemma lookups_looks:
  "wf_tab tab \<Longrightarrow> \<forall>k \<in> set ks. is_short (snd k) \<Longrightarrow>
    \<exists>l'. lookups ks tab l = (Inr (st.looks (map short_key ks) tab), l')"
proof (induction ks arbitrary: tab l)
  case (Cons k ks)
  obtain i tab1 where 1: "tab_look (short_key k) tab = (i, tab1)" by fastforce
  obtain l1 where l1: "lookup (fst k) (snd k) tab l = (Inr (i, tab1), l1)"
    using lookup_tab [OF Cons.prems(1), of "snd k"] Cons.prems(2) 1 by auto
  have "wf_tab tab1" using st.look_view [OF Cons.prems(1) 1] by blast
  then obtain l2 where "lookups ks tab1 l1 = (Inr (st.looks (map short_key ks) tab1), l2)"
    using Cons.IH Cons.prems(2) by force
  then show ?case using l1 1 by (auto simp: bind_def Let_def split: prod.split)
qed simp

lemma tab_look_count:
  assumes "wf_tab tab" and "tab_look k tab = (i, tab')"
  shows "{..<nsymbol tab'} = insert i {..<nsymbol tab}"
proof (cases "tab_view tab k")
  case None
  note n = tab_look_new [OF assms(1) None assms(2)]
  show ?thesis unfolding n(4) n(1) by (simp add: lessThan_Suc)
next
  case (Some j)
  then have "i = j" "tab' = tab" "j < nsymbol tab" using st.hit [OF assms(1) Some] tab_view_Some [OF assms(1)] assms(2) by auto
  then show ?thesis by auto
qed

lemma looks_count: "wf_tab tab \<Longrightarrow> st.looks ks tab = (is, tab') \<Longrightarrow> {..<nsymbol tab'} = set is \<union> {..<nsymbol tab}"
proof (induction ks arbitrary: tab "is")
  case (Cons k ks)
  obtain i tab1 where 1: "tab_look k tab = (i, tab1)" by fastforce
  obtain js where 2: "st.looks ks tab1 = (js, tab')" "is = i # js" using Cons.prems(2) 1 by (auto split: prod.splits)
  have "wf_tab tab1" using st.look_view [OF Cons.prems(1) 1] by blast
  then show ?case using Cons.IH [OF _ 2(1)] tab_look_count [OF Cons.prems(1) 1] 2(2) by auto
qed simp

text \<open>
  C13: any sequence of calls of \<^verbatim>\<open>lookup\<close> for versions in the range of a \<^verbatim>\<open>short\<close>
  returns one symbol for each pair of name and version: two calls return the same symbol exactly when they
  ask for the same name and version, whatever the hash values are. The table stays well-formed, and its loops
  then meet every symbol, old and new, exactly once. A version outside that range is cut when it is stored and
  never found again (\<open>version_lost\<close>).
\<close>

theorem symbols_interned:
  assumes "wf_tab tab" and "\<forall>k \<in> set ks. is_short (snd k)"
  shows "\<exists>is tab' l'. lookups ks tab l = (Inr (is, tab'), l') \<and> length is = length ks \<and> wf_tab tab' \<and>
    (\<forall>a < length ks. \<forall>b < length ks. is ! a = is ! b \<longleftrightarrow> ks ! a = ks ! b) \<and>
    distinct (table_order tab') \<and> set (table_order tab') = set is \<union> set (table_order tab)"
proof -
  obtain "is" tab' where k: "st.looks (map short_key ks) tab = (is, tab')" by fastforce
  obtain l' where l: "lookups ks tab l = (Inr (is, tab'), l')" using lookups_looks [OF assms, of l] unfolding k by blast
  have v: "wf_tab tab'" "map (tab_view tab') (map short_key ks) = map Some is"
    using st.looks_view [OF assms(1) k] by auto
  have n: "length is = length ks" using arg_cong [OF v(2), of length] by simp
  have "is ! a = is ! b \<longleftrightarrow> ks ! a = ks ! b" if "a < length ks" "b < length ks" for a b
  proof -
    have "is_short (snd (ks ! a))" "is_short (snd (ks ! b))" using assms(2) that by simp_all
    then have "word_of_int (snd (ks ! a)) = (word_of_int (snd (ks ! b)) :: 16 word) \<longleftrightarrow> snd (ks ! a) = snd (ks ! b)"
      using sint_short by metis
    then have "short_key (ks ! a) = short_key (ks ! b) \<longleftrightarrow> ks ! a = ks ! b"
      by (simp only: prod_eq_iff fst_conv snd_conv)
    then show ?thesis using st.looks_agree [OF assms(1) k, of a b] that by (simp only: length_map nth_map)
  qed
  moreover have "set (table_order tab') = set is \<union> set (table_order tab)"
    using table_order_all(2) [OF assms(1)] table_order_all(2) [OF v(1)] looks_count [OF assms(1) k] by simp
  ultimately show ?thesis
    by (intro exI [of _ "is"] exI [of _ tab'] exI [of _ l'] conjI l n v(1) table_order_all(1)) auto
qed

definition demo_tab :: symtab where
  "demo_tab = \<lparr>hash = (\<lambda>_. []), s_name = (\<lambda>_. []), s_version = (\<lambda>_. 0), nsymbol = 0\<rparr>"

lemma demo_tab_wf: "wf_tab demo_tab"
  by (simp add: wf_tab_def demo_tab_def)

theorem symbols_interned_witness:
  "\<exists>is tab' l'. lookups [(''main'', 0), (''x'', 1), (''main'', 0)] demo_tab demo_lnk = (Inr (is, tab'), l') \<and>
    is ! 0 = is ! 2 \<and> is ! 0 \<noteq> is ! 1 \<and> distinct (table_order tab')"
proof -
  obtain "is" tab' l' where "lookups [(''main'', 0), (''x'', 1), (''main'', 0)] demo_tab demo_lnk = (Inr (is, tab'), l')"
    "\<And>a b. a < 3 \<Longrightarrow> b < 3 \<Longrightarrow> is ! a = is ! b \<longleftrightarrow>
      [(''main'', 0::int), (''x'', 1), (''main'', 0)] ! a = [(''main'', 0), (''x'', 1), (''main'', 0)] ! b" "distinct (table_order tab')"
    using symbols_interned [OF demo_tab_wf, of "[(''main'', 0), (''x'', 1), (''main'', 0)]" demo_lnk]
    by (auto simp: is_short_def)
  then show ?thesis by fastforce
qed

text \<open>With a version that is no \<^verbatim>\<open>short\<close> every call of \<^verbatim>\<open>lookup\<close> makes a new symbol.\<close>

lemma version_lost:
  assumes "\<not> is_short v"
  shows "\<exists>tab' l'. lookup symb v tab l = (Inr (nsymbol tab, tab'), l') \<and> nsymbol tab' = nsymbol tab + 1"
proof -
  have "sint x \<noteq> v" for x :: "16 word"
    using assms sint_lt [of x] sint_ge [of x] by (auto simp: is_short_def)
  then have "find (\<lambda>i. sint (s_version tab i) = v \<and> s_name tab i = symb) (hash tab (hash_of symb v)) = None"
    by (simp add: find_None_iff)
  then show ?thesis by (simp add: lookup_def Let_def seq_def bind_def modify_def)
qed

section \<open>Where variables go\<close>

text \<open>The sum of the sizes of the chosen symbols before \<open>i\<close>.\<close>

definition below :: "(nat \<Rightarrow> bool) \<Rightarrow> (nat \<Rightarrow> 'a :: comm_monoid_add) \<Rightarrow> nat list \<Rightarrow> nat \<Rightarrow> 'a" where
  "below sel sz is i = sum_list (map sz (filter sel (takeWhile (\<lambda>j. j \<noteq> i) is)))"

definition total :: "(nat \<Rightarrow> bool) \<Rightarrow> (nat \<Rightarrow> 'a :: comm_monoid_add) \<Rightarrow> nat list \<Rightarrow> 'a" where
  "total sel sz is = sum_list (map sz (filter sel is))"

lemma below_Cons [simp]: "below sel sz (j # is) i = (if j = i then 0 else (if sel j then sz j else 0) + below sel sz is i)"
  by (simp add: below_def)

lemma total_Cons [simp]: "total sel sz (j # is) = (if sel j then sz j else 0) + total sel sz is"
  by (simp add: total_def)

lemma total_Nil [simp]: "total sel sz [] = 0"
  by (simp add: total_def)

lemma below_cong: "(\<And>j. j \<in> set is \<Longrightarrow> sel j = sel' j \<and> (sel j \<longrightarrow> sz j = sz' j)) \<Longrightarrow> below sel sz is i = below sel' sz' is i"
  by (induction "is") (auto simp: below_def)

lemma total_cong: "(\<And>j. j \<in> set is \<Longrightarrow> sel j = sel' j \<and> (sel j \<longrightarrow> sz j = sz' j)) \<Longrightarrow> total sel sz is = total sel' sz' is"
  by (induction "is") auto

lemma total_sum: "distinct is \<Longrightarrow> total sel sz is = (\<Sum>i \<in> set is. if sel i then sz i else 0)"
  by (induction "is") auto

lemma below_room:
  fixes sz :: "nat \<Rightarrow> int"
  assumes "\<And>j. sel j \<Longrightarrow> 0 \<le> sz j"
  shows "0 \<le> below sel sz is i" and "0 \<le> total sel sz is"
    and "i \<in> set is \<Longrightarrow> below sel sz is i + (if sel i then sz i else 0) \<le> total sel sz is" and "below sel sz is i \<le> total sel sz is"
proof -
  show p: "0 \<le> below sel sz is i" for "is" using assms by (induction "is") (auto simp: below_def)
  show t: "0 \<le> total sel sz is" for "is" using assms by (induction "is") auto
  show "i \<in> set is \<Longrightarrow> below sel sz is i + (if sel i then sz i else 0) \<le> total sel sz is"
    using t by (induction "is") auto
  show "below sel sz is i \<le> total sel sz is" using assms t by (induction "is") (auto simp: below_def)
qed

lemma below_apart:
  fixes sz :: "nat \<Rightarrow> int"
  assumes "\<And>j. sel j \<Longrightarrow> 0 \<le> sz j" and "i \<in> set is" and "j \<in> set is" and "i \<noteq> j" and "sel i" and "sel j"
  shows "below sel sz is i + sz i \<le> below sel sz is j \<or> below sel sz is j + sz j \<le> below sel sz is i"
  using assms(2-6) below_room(1) [of sel sz, OF assms(1)] by (induction "is") auto

lemma below_dvd: "(\<And>j. sel j \<Longrightarrow> 4 dvd sz j) \<Longrightarrow> (4 :: int) dvd below sel sz is i"
  by (induction "is") (auto simp: below_def)

lemma total_uint:
  fixes sz :: "nat \<Rightarrow> u64"
  shows "total sel (\<lambda>i. uint (sz i)) is < 2 ^ 64 \<Longrightarrow> uint (total sel sz is) = total sel (\<lambda>i. uint (sz i)) is"
proof (induction "is")
  case (Cons j "is")
  have "0 \<le> total sel (\<lambda>i. uint (sz i)) is" by (rule below_room(2)) simp
  then have "total sel (\<lambda>i. uint (sz i)) is < 2 ^ 64" 
    using Cons.prems uint_ge_0 [of "sz j"] unfolding total_Cons by (auto simp only: if_True if_False split: if_splits)
  then have "uint (total sel sz is) = total sel (\<lambda>i. uint (sz i)) is" by (rule Cons.IH)
  then show ?case using Cons.prems by (cases "sel j") (simp_all add: uint_plus_if')
qed simp

lemma below_uint:
  fixes sz :: "nat \<Rightarrow> u64"
  assumes "total sel (\<lambda>i. uint (sz i)) is < 2 ^ 64"
  shows "uint (below sel sz is i) = below sel (\<lambda>i. uint (sz i)) is i"
proof -
  have "total sel f (takeWhile (\<lambda>j. j \<noteq> i) is) = below sel f is i" for f :: "nat \<Rightarrow> int" by (simp add: total_def below_def)
  moreover have "below sel (\<lambda>i. uint (sz i)) is i < 2 ^ 64" using below_room(4) [of sel "\<lambda>i. uint (sz i)" "is" i] assms by simp
  ultimately show ?thesis using total_uint [of sel sz "takeWhile (\<lambda>j. j \<noteq> i) is"] by (simp add: total_def below_def)
qed

text \<open>
  A loop over the table that gives addresses in turn to the chosen symbols, where \<open>sz\<close> is the space of a
  symbol and \<open>upd a\<close> what becomes of it when \<open>a\<close> is the next address.
\<close>

locale placing =
  fixes pass :: "nat list \<Rightarrow> u64 \<Rightarrow> (lnk, u64) eff" and sel :: "sym \<Rightarrow> bool" and sz :: "sym \<Rightarrow> u64" and upd :: "u64 \<Rightarrow> sym \<Rightarrow> sym"
  assumes none: "pass [] a l = (Inr a, l)"
    and one: "pass (i # is) a l = (Inr c, l') \<Longrightarrow> \<exists>l1. syms l1 = (syms l)(i := upd a (syms l i)) \<and>
      pass is (if sel (syms l i) then a + sz (syms l i) else a) l1 = (Inr c, l')"
begin

lemma placed_both:
  assumes "pass is a l = (Inr c, l')" and "distinct is"
  shows "c = a + total (\<lambda>i. sel (syms l i)) (\<lambda>i. sz (syms l i)) is \<and>
    (\<forall>i. syms l' i = (if i \<in> set is then upd (a + below (\<lambda>i. sel (syms l i)) (\<lambda>i. sz (syms l i)) is i) (syms l i) else syms l i))"
  using assms
proof (induction "is" arbitrary: a l)
  case Nil
  then show ?case by (simp add: none)
next
  case (Cons j "is")
  let ?b = "if sel (syms l j) then a + sz (syms l j) else a"
  obtain l1 where l1: "syms l1 = (syms l)(j := upd a (syms l j))" "pass is ?b l1 = (Inr c, l')" using one [OF Cons.prems(1)] by blast
  have same: "syms l1 x = syms l x" if "x \<in> set is" for x using l1(1) that Cons.prems(2) by auto
  have "total (\<lambda>i. sel (syms l1 i)) (\<lambda>i. sz (syms l1 i)) is = total (\<lambda>i. sel (syms l i)) (\<lambda>i. sz (syms l i)) is"
    using same by (intro total_cong) simp
  moreover have "below (\<lambda>i. sel (syms l1 i)) (\<lambda>i. sz (syms l1 i)) is i = below (\<lambda>i. sel (syms l i)) (\<lambda>i. sz (syms l i)) is i" for i
    using same by (intro below_cong) simp
  ultimately show ?case using Cons.IH [OF l1(2)] Cons.prems(2) l1(1) by (auto simp: add.assoc)
qed

lemmas placed = placed_both [THEN conjunct1] placed_both [THEN conjunct2, rule_format]

end

definition isvar :: "sym \<Rightarrow> bool" where
  "isvar y \<longleftrightarrow> s_type y = SDATA \<or> s_type y = SBSS"

definition space :: "sym \<Rightarrow> u64" where
  "space y = rnd (if s_value y = 0 then 1 else s_value y) 4"

definition small_var :: "sym \<Rightarrow> bool" where
  "small_var y \<longleftrightarrow> isvar y \<and> sint (space y) \<le> MINSIZ"

definition upd1 :: "u64 \<Rightarrow> sym \<Rightarrow> sym" where
  "upd1 a y = (if small_var y then y\<lparr>s_value := a, s_type := SDATA1\<rparr> else if isvar y then y\<lparr>s_value := space y\<rparr> else y)"

definition upd2 :: "u64 \<Rightarrow> sym \<Rightarrow> sym" where
  "upd2 a y = (if s_type y = SDATA then y\<lparr>s_value := a\<rparr> else if s_type y = SDATA1 then y\<lparr>s_type := SDATA\<rparr> else y)"

definition upd3 :: "u64 \<Rightarrow> sym \<Rightarrow> sym" where
  "upd3 a y = (if s_type y = SBSS then y\<lparr>s_value := a\<rparr> else y)"

lemma diag_syms: "diag m l = (r, l') \<Longrightarrow> syms l' = syms l"
  by (auto simp: diag_def seq_def bind_def modify_def gets_def onlyif_def raise_def split: if_splits)

interpretation p1: placing data_pass1 small_var space upd1
proof
  show "data_pass1 [] a l = (Inr a, l)" for a l by simp
  fix i a l c l' and "is" :: "nat list"
  assume p: "data_pass1 (i # is) a l = (Inr c, l')"
  show "\<exists>l1. syms l1 = (syms l)(i := upd1 a (syms l i)) \<and>
      data_pass1 is (if small_var (syms l i) then a + space (syms l i) else a) l1 = (Inr c, l')"
  proof (cases "isvar (syms l i)")
    case False
    then have "data_pass1 is a l = (Inr c, l')" using p by (simp add: isvar_def)
    then show ?thesis using False by (intro exI [of _ l]) (simp add: upd1_def small_var_def)
  next
    case True
    let ?y = "syms l i"
    let ?m = "if s_value ?y = 0 then seq (diag ''no size'') (ret 1) else ret (s_value ?y)"
    let ?v = "if s_value ?y = 0 then 1 else s_value ?y"
    let ?k = "\<lambda>v. seq (modify (set_value i (rnd v 4))) (if sint (rnd v 4) \<le> MINSIZ
      then seq (modify (\<lambda>s. set_sect i SDATA1 (set_value i a s))) (data_pass1 is (a + rnd v 4)) else data_pass1 is a)"
    have b: "bind ?m ?k l = (Inr c, l')" using p True by (simp add: isvar_def Let_def)
    obtain x l0 where x: "?m l = (x, l0)" by fastforce
    then have l0: "syms l0 = syms l" "x = Inr ?v \<or> (\<exists>e. x = Inl e)"
      using diag_syms by (auto simp: seq_def bind_def split: if_splits sum.splits prod.splits)
    have "x = Inr ?v" using l0(2) b x by (elim disjE exE) (simp_all only: bind_def prod.case sum.case, auto)
    then have k: "?k ?v l0 = (Inr c, l')" using b x by (simp only: bind_def prod.case sum.case)
    show ?thesis
    proof (cases "small_var ?y")
      case small: True
      then have "data_pass1 is (a + space ?y) (set_sect i SDATA1 (set_value i a (set_value i (space ?y) l0))) = (Inr c, l')"
        using k by (simp add: small_var_def space_def seq_def bind_def modify_def)
      then show ?thesis using small l0(1)
        by (intro exI conjI) (auto simp: upd1_def set_sect_def set_value_def)
    next
      case large: False
      then have "data_pass1 is a (set_value i (space ?y) l0) = (Inr c, l')"
        using k True by (simp add: small_var_def space_def seq_def bind_def modify_def)
      then show ?thesis using large True l0(1)
        by (intro exI conjI) (auto simp: upd1_def set_sect_def set_value_def)
    qed
  qed
qed

interpretation p2: placing data_pass2 "\<lambda>y. s_type y = SDATA" s_value upd2
proof
  show "data_pass2 [] a l = (Inr a, l)" for a l by simp
  fix i a l c l' and "is" :: "nat list"
  assume "data_pass2 (i # is) a l = (Inr c, l')"
  then show "\<exists>l1. syms l1 = (syms l)(i := upd2 a (syms l i)) \<and>
      data_pass2 is (if s_type (syms l i) = SDATA then a + s_value (syms l i) else a) l1 = (Inr c, l')"
    by (intro exI [of _ "l\<lparr>syms := (syms l)(i := upd2 a (syms l i))\<rparr>"])
      (auto simp: upd2_def seq_def bind_def modify_def gets_def onlyif_def set_value_def set_sect_def split: if_splits)
qed

interpretation p3: placing data_pass3 "\<lambda>y. s_type y = SBSS" s_value upd3
proof
  show "data_pass3 [] a l = (Inr a, l)" for a l by simp
  fix i a l c l' and "is" :: "nat list"
  assume "data_pass3 (i # is) a l = (Inr c, l')"
  then show "\<exists>l1. syms l1 = (syms l)(i := upd3 a (syms l i)) \<and>
      data_pass3 is (if s_type (syms l i) = SBSS then a + s_value (syms l i) else a) l1 = (Inr c, l')"
    by (intro exI [of _ "l\<lparr>syms := (syms l)(i := upd3 a (syms l i))\<rparr>"])
      (auto simp: upd3_def seq_def bind_def modify_def gets_def onlyif_def set_value_def set_sect_def split: if_splits)
qed

lemma sint_long: "uint w < 2 ^ 63 \<Longrightarrow> sint w = uint w" for w :: u64
proof -
  assume "uint w < 2 ^ 63"
  moreover have "- (2 ^ 63) \<le> uint w" by (rule order_trans [OF _ uint_ge_0]) simp
  ultimately show ?thesis unfolding sint_uint by (intro signed_take_bit_int_eq_self) simp_all
qed

lemma rnd_up:
  assumes "0 < uint r" and "uint v + uint r < 2 ^ 63"
  shows "uint (rnd v r) = uint r * ((uint v + uint r - 1) div uint r)"
proof -
  let ?x = "uint v + uint r - 1"
  have e: "v + (r - 1) = word_of_int ?x" by simp
  have x: "0 \<le> ?x" "?x < 2 ^ 63" using assms uint_ge_0 [of v] by linarith+
  then have p: "uint (v + (r - 1)) = ?x" unfolding e uint_word_of_int_eq by (intro take_bit_int_eq_self) simp_all
  have "?x mod uint r \<ge> 0" using assms(1) by simp
  have "uint r < 2 ^ 63" by (rule order_le_less_trans [OF _ assms(2)]) simp
  then have sr: "sint r = uint r" "sint (v + (r - 1)) = ?x" using sint_long [of "v + (r - 1)"] p x(2) by (simp_all only: sint_long)
  have g: "sgn ?x * (?x mod uint r) = ?x mod uint r" using x(1) by (cases "?x = 0") (simp_all add: sgn_if)
  have "rnd v r = v + (r - 1) - word_of_int (?x mod uint r)"
    unfolding rnd_def Let_def sr using assms(1) x(1) g \<open>?x mod uint r \<ge> 0\<close> by (simp only: abs_of_nonneg linorder_not_le [symmetric] simp_thms if_False)
  also have "\<dots> = word_of_int (?x - ?x mod uint r)" by simp
  also have "\<dots> = word_of_int (uint r * (?x div uint r))" by (simp only: minus_mod_eq_mult_div)
  finally have "rnd v r = word_of_int (uint r * (?x div uint r))" .
  moreover have "0 \<le> ?x div uint r" using assms(1) x(1) by (simp only: pos_imp_zdiv_nonneg_iff)
  then have "0 \<le> uint r * (?x div uint r)" by simp
  moreover have "uint r * (?x div uint r) \<le> ?x" using minus_mod_eq_mult_div [of ?x "uint r"] \<open>?x mod uint r \<ge> 0\<close> by linarith
  ultimately show ?thesis using x(2) by (simp only: uint_word_of_int_eq) (intro take_bit_int_eq_self; simp)
qed

definition bytes :: "sym \<Rightarrow> int" where
  "bytes y = 4 * ((max 1 (uint (s_value y)) + 3) div 4)"

lemma space_bytes:
  assumes "bytes y < 2 ^ 62"
  shows "uint (space y) = bytes y" "sint (space y) = bytes y"
proof -
  let ?v = "if s_value y = 0 then 1 else s_value y"
  have v: "uint ?v = max 1 (uint (s_value y))"
  proof (cases "s_value y = 0")
    case False
    then have "uint (s_value y) \<noteq> 0" by (simp add: word_uint_eq_iff)
    then have "1 \<le> uint (s_value y)" using uint_ge_0 [of "s_value y"] by linarith
    then show ?thesis using False by (simp add: max_def)
  qed simp
  have "uint ?v < 2 ^ 62" using assms unfolding bytes_def v [symmetric] by linarith
  then show u: "uint (space y) = bytes y" unfolding space_def bytes_def v [symmetric] using rnd_up [of 4 ?v] by simp
  then show "sint (space y) = bytes y" using sint_long [of "space y"] assms by simp
qed

lemma bytes_room: "4 dvd bytes y" "0 < bytes y"
  by (auto simp: bytes_def)

section \<open>The segments of a program\<close>

text \<open>The \<^verbatim>\<open>DATA\<close> instructions make no new variables and change no size.\<close>

definition var_kept :: "lnk \<Rightarrow> lnk \<Rightarrow> bool" where
  "var_kept l l' \<longleftrightarrow> (\<forall>i. s_value (syms l' i) = s_value (syms l i) \<and> (isvar (syms l' i) \<longrightarrow> isvar (syms l i)) \<and>
     (s_type (syms l' i) \<in> {SDATA1, SNONE, SXREF} \<longrightarrow> s_type (syms l' i) = s_type (syms l i)))"

interpretation vk: keeps_rel var_kept
  by unfold_locales (auto simp: var_kept_def)

lemma diag_kept: "keeps var_kept (diag m)"
proof (rule keepsI)
  show "var_kept l (snd (diag m l))" for l using diag_syms [of m l "fst (diag m l)"] by (simp add: var_kept_def)
qed

lemma checks_kept: "keeps var_kept (data_checks ps)"
proof (induction ps)
  case (Cons p ps)
  have "keeps var_kept (modify (\<lambda>s. if s_type (syms s i) = SBSS then set_sect i SDATA s else s))" for i
    by (rule vk.keeps_modify) (auto simp: var_kept_def set_sect_def isvar_def)
  then show ?case using Cons by (auto intro!: vk.keeps_intros diag_kept split: option.split)
qed (simp only: data_checks.simps vk.keeps_ret)

lemma strings_kept: "keeps var_kept (data_strings ps)"
proof (induction ps)
  case (Cons p ps)
  have "keeps var_kept (modify (\<lambda>s. if a_type (p_to p) = D_SCONST then set_sect i SSTRING s else s))" for i
    by (rule vk.keeps_modify) (auto simp: var_kept_def set_sect_def isvar_def)
  then show ?case using Cons by (auto intro!: vk.keeps_intros split: option.split)
qed (simp only: data_strings.simps vk.keeps_ret)

text \<open>The special symbols do not disturb those that are defined.\<close>

definition extends :: "symtab \<Rightarrow> lnk \<Rightarrow> symtab \<Rightarrow> lnk \<Rightarrow> bool" where
  "extends tab l tab' l' \<longleftrightarrow> wf_tab tab' \<and> nsymbol tab \<le> nsymbol tab' \<and>
     (\<forall>i < nsymbol tab. s_type (syms l i) \<notin> {SNONE, SXREF} \<longrightarrow> syms l' i = syms l i)"

lemma extends_trans: "extends tab l tab1 l1 \<Longrightarrow> extends tab1 l1 tab' l' \<Longrightarrow> extends tab l tab' l'"
  unfolding extends_def by (metis order_less_le_trans order_trans)

lemma lookup_extends:
  assumes "wf_tab tab" and "lookup p v tab l = (Inr (i, tab'), l')" and "is_short v"
  shows "extends tab l tab' l'"
proof (cases "tab_view tab (p, word_of_int v)")
  case None
  then show ?thesis using lookup_tab [OF assms(1,3), of p l] assms(2) tab_look_new [OF assms(1) None, of i tab']
    by (auto simp: extends_def)
next
  case (Some j)
  then show ?thesis using lookup_tab [OF assms(1,3), of p l] assms st.hit [OF assms(1) Some] by (auto simp: extends_def)
qed

lemma xdefine_extends:
  assumes "xdefine p t v tab l = (Inr tab', l')" and "wf_tab tab"
  shows "extends tab l tab' l'"
proof -
  obtain i l1 where 1: "lookup p 0 tab l = (Inr (i, tab'), l1)"
    and 2: "l' = (if s_type (syms l1 i) \<in> {SNONE, SXREF} then set_value i v (set_sect i t l1) else l1)"
    using assms(1) by (auto simp: xdefine_def seq_def onlyif_def gets_def ret_def modify_def elim!: bindE split: if_splits)
  have "extends tab l tab' l1" by (rule lookup_extends [OF assms(2) 1]) simp
  moreover have "extends tab' l1 tab' l'" using calculation 2 by (auto simp: extends_def set_value_def set_sect_def)
  ultimately show ?thesis by (rule extends_trans)
qed

lemma dodata_elim:
  assumes "dodata debugt datap tab l = (Inr (datsize, bsssize, tab'), l')" and "wf_tab tab"
  obtains l1 a1 l2 a2 l3 a3 l4 where "var_kept l l1" "data_pass1 (table_order tab) 0 l1 = (Inr a1, l2)"
    "data_pass2 (table_order tab) a1 l2 = (Inr a2, l3)" "datsize = rnd a2 8"
    "data_pass3 (table_order tab) datsize l3 = (Inr a3, l4)" "bsssize = rnd a3 8 - datsize" "extends tab l4 tab' l'"
proof -
  obtain l0 l1 a1 l2 a2 l3 a3 l4 t1 m1 t2 m2 t3 m3 t4 m4 where
    c: "data_checks datap l = (Inr (), l0)" "onlyif debugt (data_strings datap) l0 = (Inr (), l1)"
    and p: "data_pass1 (table_order tab) 0 l1 = (Inr a1, l2)"
    "data_pass2 (table_order tab) a1 l2 = (Inr a2, l3)" "datsize = rnd a2 8"
    "data_pass3 (table_order tab) datsize l3 = (Inr a3, l4)" "bsssize = rnd a3 8 - datsize"
    and x: "xdefine ''bdata'' SDATA 0 tab l4 = (Inr t1, m1)" "xdefine ''edata'' SDATA datsize t1 m1 = (Inr t2, m2)"
    "xdefine ''end'' SBSS (datsize + bsssize) t2 m2 = (Inr t3, m3)" "xdefine ''etext'' STEXT 0 t3 m3 = (Inr t4, m4)"
    "xdefine ''setR12'' SDATA (0 + BIG) t4 m4 = (Inr tab', l')"
    using assms(1) unfolding dodata_def Let_def by (elim bindE seqE) (auto simp: ret_def)
  have "var_kept l l1" using keepsD [OF checks_kept c(1)] keepsD [OF vk.keeps_onlyif [OF strings_kept] c(2)] by (rule vk.trans)
  moreover have "extends tab l4 tab' l'"
    using xdefine_extends [OF x(1) assms(2)] xdefine_extends [OF x(2)] xdefine_extends [OF x(3)] xdefine_extends [OF x(4)] xdefine_extends [OF x(5)]
    by (metis extends_def extends_trans)
  ultimately show thesis using that p by blast
qed

text \<open>
  After \<^verbatim>\<open>dodata\<close>: a variable of at most 64 bytes is in the first part of the data segment, a larger one
  follows or is in the bss.
\<close>

definition large_data :: "sym \<Rightarrow> bool" where
  "large_data y \<longleftrightarrow> s_type y = SDATA \<and> \<not> small_var y"

definition large_bss :: "sym \<Rightarrow> bool" where
  "large_bss y \<longleftrightarrow> s_type y = SBSS \<and> \<not> small_var y"

lemma isvar_cases: "isvar y \<longleftrightarrow> small_var y \<or> large_data y \<or> large_bss y"
  by (auto simp: isvar_def small_var_def large_data_def large_bss_def)

lemma upd_types:
  "s_type (upd1 a y) = SDATA \<longleftrightarrow> large_data y" "s_type (upd1 a y) = SBSS \<longleftrightarrow> large_bss y" "large_data y \<Longrightarrow> s_value (upd1 a y) = space y"
  "s_type (upd2 b (upd1 a y)) = SBSS \<longleftrightarrow> large_bss y" "large_bss y \<Longrightarrow> s_value (upd2 b (upd1 a y)) = space y"
  by (auto simp: upd1_def upd2_def large_data_def large_bss_def small_var_def isvar_def)

lemma upd_values:
  "small_var y \<Longrightarrow> upd3 c (upd2 b (upd1 a y)) = \<lparr>s_value = a, s_type = SDATA\<rparr>"
  "large_data y \<Longrightarrow> upd3 c (upd2 b (upd1 a y)) = \<lparr>s_value = b, s_type = SDATA\<rparr>"
  "large_bss y \<Longrightarrow> upd3 c (upd2 b (upd1 a y)) = \<lparr>s_value = c, s_type = SBSS\<rparr>"
  "\<not> isvar y \<Longrightarrow> s_type y \<noteq> SDATA1 \<Longrightarrow> upd3 c (upd2 b (upd1 a y)) = y"
  by (auto simp: upd1_def upd2_def upd3_def large_data_def large_bss_def small_var_def isvar_def split: if_splits)

lemma passes_place:
  assumes "data_pass1 is 0 l1 = (Inr a1, l2)" "data_pass2 is a1 l2 = (Inr a2, l3)" "data_pass3 is d l3 = (Inr a3, l4)" "distinct is"
  defines "y \<equiv> syms l1" and "S \<equiv> \<lambda>i. space (syms l1 i)"
  shows "a1 = total (\<lambda>i. small_var (y i)) S is" and "a2 = a1 + total (\<lambda>i. large_data (y i)) S is"
    and "a3 = d + total (\<lambda>i. large_bss (y i)) S is"
    and "i \<in> set is \<Longrightarrow> syms l4 i = upd3 (d + below (\<lambda>i. large_bss (y i)) S is i)
      (upd2 (a1 + below (\<lambda>i. large_data (y i)) S is i) (upd1 (below (\<lambda>i. small_var (y i)) S is i) (y i)))"
proof -
  note q1 = p1.placed [OF assms(1,4)] and q2 = p2.placed [OF assms(2,4)] and q3 = p3.placed [OF assms(3,4)]
  have l2: "syms l2 j = upd1 (below (\<lambda>i. small_var (y i)) S is j) (y j)" if "j \<in> set is" for j using q1(2) that by (simp add: y_def S_def)
  have 2: "below (\<lambda>i. s_type (syms l2 i) = SDATA) (\<lambda>i. s_value (syms l2 i)) is j = below (\<lambda>i. large_data (y i)) S is j"
    "total (\<lambda>i. s_type (syms l2 i) = SDATA) (\<lambda>i. s_value (syms l2 i)) is = total (\<lambda>i. large_data (y i)) S is" for j
    by (auto intro!: below_cong total_cong simp: l2 upd_types y_def S_def)
  have l3: "syms l3 j = upd2 (a1 + below (\<lambda>i. large_data (y i)) S is j) (upd1 (below (\<lambda>i. small_var (y i)) S is j) (y j))"
    if "j \<in> set is" for j using q2(2) that 2 l2 by simp
  have 3: "below (\<lambda>i. s_type (syms l3 i) = SBSS) (\<lambda>i. s_value (syms l3 i)) is j = below (\<lambda>i. large_bss (y i)) S is j"
    "total (\<lambda>i. s_type (syms l3 i) = SBSS) (\<lambda>i. s_value (syms l3 i)) is = total (\<lambda>i. large_bss (y i)) S is" for j
    by (auto intro!: below_cong total_cong simp: l3 upd_types y_def S_def)
  show "a1 = total (\<lambda>i. small_var (y i)) S is" using q1(1) by (simp add: y_def S_def)
  show "a2 = a1 + total (\<lambda>i. large_data (y i)) S is" using q2(1) 2 by simp
  show "a3 = d + total (\<lambda>i. large_bss (y i)) S is" using q3(1) 3 by simp
  show "i \<in> set is \<Longrightarrow> syms l4 i = upd3 (d + below (\<lambda>i. large_bss (y i)) S is i)
      (upd2 (a1 + below (\<lambda>i. large_data (y i)) S is i) (upd1 (below (\<lambda>i. small_var (y i)) S is i) (y i)))"
    using q3(2) 3 l3 by simp
qed

text \<open>The sizes of the variables of a class, as integers.\<close>

lemma class_ints:
  fixes y :: "nat \<Rightarrow> sym"
  assumes "total (\<lambda>i. isvar (y i)) (\<lambda>i. bytes (y i)) is < 2 ^ 62" and "distinct is" and "\<And>x. c x \<Longrightarrow> isvar x"
  shows "uint (total (\<lambda>i. c (y i)) (\<lambda>i. space (y i)) is) = total (\<lambda>i. c (y i)) (\<lambda>i. bytes (y i)) is"
    and "uint (below (\<lambda>i. c (y i)) (\<lambda>i. space (y i)) is i) = below (\<lambda>i. c (y i)) (\<lambda>i. bytes (y i)) is i"
proof -
  have "bytes (y i) < 2 ^ 62" if "i \<in> set is" "c (y i)" for i
    using below_room(3,1) [of "\<lambda>i. isvar (y i)" "\<lambda>i. bytes (y i)"] assms(3) [OF that(2)] that(1) bytes_room(2) assms(1)
    by (smt (verit, best) less_imp_le)
  then have u: "uint (space (y i)) = bytes (y i)" if "i \<in> set is" "c (y i)" for i using space_bytes(1) that by blast
  have T: "total (\<lambda>i. c (y i)) (\<lambda>i. uint (space (y i))) is = total (\<lambda>i. c (y i)) (\<lambda>i. bytes (y i)) is"
    "below (\<lambda>i. c (y i)) (\<lambda>i. uint (space (y i))) is j = below (\<lambda>i. c (y i)) (\<lambda>i. bytes (y i)) is j" for j
    using u by (auto intro!: total_cong below_cong)
  have "total (\<lambda>i. c (y i)) (\<lambda>i. bytes (y i)) is \<le> total (\<lambda>i. isvar (y i)) (\<lambda>i. bytes (y i)) is"
    unfolding total_sum [OF assms(2)] using assms(3) bytes_room(2) by (intro sum_mono) (auto simp: less_imp_le)
  then have b: "total (\<lambda>i. c (y i)) (\<lambda>i. uint (space (y i))) is < 2 ^ 64" unfolding T using assms(1) by simp
  show "uint (total (\<lambda>i. c (y i)) (\<lambda>i. space (y i)) is) = total (\<lambda>i. c (y i)) (\<lambda>i. bytes (y i)) is" using total_uint [OF b] T by simp
  show "uint (below (\<lambda>i. c (y i)) (\<lambda>i. space (y i)) is i) = below (\<lambda>i. c (y i)) (\<lambda>i. bytes (y i)) is i" using below_uint [OF b] T by simp
qed

lemma class_totals:
  fixes y :: "nat \<Rightarrow> sym"
  shows "total (\<lambda>i. isvar (y i)) (\<lambda>i. bytes (y i)) is = total (\<lambda>i. small_var (y i)) (\<lambda>i. bytes (y i)) is +
    total (\<lambda>i. large_data (y i)) (\<lambda>i. bytes (y i)) is + total (\<lambda>i. large_bss (y i)) (\<lambda>i. bytes (y i)) is"
  by (induction "is") (auto simp: isvar_def small_var_def large_data_def large_bss_def)

lemma uint_sum: "uint a + uint b < 2 ^ 64 \<Longrightarrow> uint (a + b) = uint a + uint b" for a b :: u64
  by (simp add: uint_plus_if')

text \<open>The place of a variable, and the sizes of the segments.\<close>

lemma passes_ints:
  assumes "data_pass1 is 0 l1 = (Inr a1, l2)" "data_pass2 is a1 l2 = (Inr a2, l3)" "data_pass3 is d l3 = (Inr a3, l4)" "distinct is"
    and "d = rnd a2 8" "b = rnd a3 8 - d" and "total (\<lambda>i. isvar (syms l1 i)) (\<lambda>i. bytes (syms l1 i)) is < 2 ^ 62"
  defines "T \<equiv> \<lambda>c. total (\<lambda>i. c (syms l1 i)) (\<lambda>i. bytes (syms l1 i)) is" and "B \<equiv> \<lambda>c. below (\<lambda>i. c (syms l1 i)) (\<lambda>i. bytes (syms l1 i)) is"
  shows "T small_var + T large_data \<le> uint d" and "8 dvd uint d" and "8 dvd uint b" and "uint d + T large_bss \<le> uint d + uint b"
    and "i \<in> set is \<Longrightarrow> small_var (syms l1 i) \<Longrightarrow> s_type (syms l4 i) = SDATA \<and> uint (s_value (syms l4 i)) = B small_var i"
    and "i \<in> set is \<Longrightarrow> large_data (syms l1 i) \<Longrightarrow> s_type (syms l4 i) = SDATA \<and> uint (s_value (syms l4 i)) = T small_var + B large_data i"
    and "i \<in> set is \<Longrightarrow> large_bss (syms l1 i) \<Longrightarrow> s_type (syms l4 i) = SBSS \<and> uint (s_value (syms l4 i)) = uint d + B large_bss i"
proof -
  note pl = passes_place [OF assms(1-4)]
  have c: "\<And>x. small_var x \<Longrightarrow> isvar x" "\<And>x. large_data x \<Longrightarrow> isvar x" "\<And>x. large_bss x \<Longrightarrow> isvar x" by (auto simp: isvar_cases)
  note I = class_ints [where y = "syms l1", OF assms(7,4)]
  have nn: "0 \<le> T k" "B k j \<le> T k" for k j
    unfolding T_def B_def using below_room(2,4) [of "\<lambda>i. k (syms l1 i)" "\<lambda>i. bytes (syms l1 i)" "is"] bytes_room(2) by (simp_all add: less_imp_le)
  have sum: "T small_var + T large_data + T large_bss < 2 ^ 62" using assms(7) class_totals [of "syms l1" "is"] by (simp add: T_def)
  have a1: "uint a1 = T small_var" using pl(1) I(1) [OF c(1)] by (simp add: T_def)
  have a2: "uint a2 = T small_var + T large_data"
    using pl(2) I(1) [OF c(2)] a1 sum nn(1) [of large_bss] by (simp add: T_def uint_sum)
  have d: "uint d = 8 * ((uint a2 + 7) div 8)" unfolding assms(5) using rnd_up [of 8 a2] a2 sum nn(1) [of large_bss] by simp
  have d2: "uint d \<le> uint a2 + 7" "uint a2 \<le> uint d" unfolding d by linarith+
  have a3: "uint a3 = uint d + T large_bss"
    using pl(3) I(1) [OF c(3)] d2 a2 sum by (simp add: T_def uint_sum)
  have r: "uint (rnd a3 8) = 8 * ((uint a3 + 7) div 8)" using rnd_up [of 8 a3] a3 d2 a2 sum by simp
  have r2: "uint a3 \<le> uint (rnd a3 8)" unfolding r by linarith
  have b: "uint b = uint (rnd a3 8) - uint d" unfolding assms(6)
    using r2 a3 nn(1) [of large_bss] by (simp add: uint_sub_if')
  show "T small_var + T large_data \<le> uint d" using d2 a2 by simp
  show "8 dvd uint d" unfolding d by simp
  then show "8 dvd uint b" unfolding b r by simp
  show "uint d + T large_bss \<le> uint d + uint b" using b r2 a3 by linarith
  show "s_type (syms l4 i) = SDATA \<and> uint (s_value (syms l4 i)) = B small_var i" if "i \<in> set is" "small_var (syms l1 i)"
    using pl(4) [OF that(1)] I(2) [OF c(1)] that(2) by (simp add: upd_values B_def)
  show "s_type (syms l4 i) = SDATA \<and> uint (s_value (syms l4 i)) = T small_var + B large_data i" if "i \<in> set is" "large_data (syms l1 i)"
    using pl(4) [OF that(1)] I(2) [OF c(2)] that(2) a1 sum nn(1) [of large_bss] nn(2) [of large_data i] by (simp add: upd_values B_def uint_sum)
  show "s_type (syms l4 i) = SBSS \<and> uint (s_value (syms l4 i)) = uint d + B large_bss i" if "i \<in> set is" "large_bss (syms l1 i)"
    using pl(4) [OF that(1)] I(2) [OF c(3)] that(2) d2 a2 sum nn(2) [of large_bss i] by (simp add: upd_values B_def uint_sum)
qed

text \<open>Two variables do not overlap, and each is inside its segment.\<close>

lemma passes_apart:
  assumes "data_pass1 is 0 l1 = (Inr a1, l2)" "data_pass2 is a1 l2 = (Inr a2, l3)" "data_pass3 is d l3 = (Inr a3, l4)" "distinct is"
    and "d = rnd a2 8" "b = rnd a3 8 - d" and "total (\<lambda>i. isvar (syms l1 i)) (\<lambda>i. bytes (syms l1 i)) is < 2 ^ 62"
    and "i \<in> set is" and "isvar (syms l1 i)"
  defines "at \<equiv> \<lambda>i. uint (s_value (syms l4 i))" and "S \<equiv> \<lambda>i. bytes (syms l1 i)"
  shows "isvar (syms l4 i)" and "4 dvd at i" and "s_type (syms l4 i) = SDATA \<Longrightarrow> at i + S i \<le> uint d"
    and "s_type (syms l4 i) = SBSS \<Longrightarrow> uint d \<le> at i \<and> at i + S i \<le> uint d + uint b"
    and "j \<in> set is \<Longrightarrow> isvar (syms l1 j) \<Longrightarrow> i \<noteq> j \<Longrightarrow> at i + S i \<le> at j \<or> at j + S j \<le> at i"
proof -
  note p = passes_ints [OF assms(1-7)]
  let ?T = "\<lambda>c. total (\<lambda>i. c (syms l1 i)) S is" and ?B = "\<lambda>c. below (\<lambda>i. c (syms l1 i)) S is"
  have nn: "\<And>j. 0 \<le> S j" using bytes_room(2) by (simp add: S_def less_imp_le)
  have B: "0 \<le> ?B c k" "0 \<le> ?T c" "4 dvd ?B c k" for c k
    using below_room(1,2) [of "\<lambda>i. c (syms l1 i)" S] below_dvd [of "\<lambda>i. c (syms l1 i)" S] nn bytes_room(1) by (auto simp: S_def)
  have R: "?B c k + S k \<le> ?T c" if "k \<in> set is" "c (syms l1 k)" for c k
    using below_room(3) [of "\<lambda>i. c (syms l1 i)" S k "is"] nn that by simp
  have P: "small_var (syms l1 k) \<and> s_type (syms l4 k) = SDATA \<and> at k = ?B small_var k \<and> at k + S k \<le> ?T small_var \<or>
      large_data (syms l1 k) \<and> s_type (syms l4 k) = SDATA \<and> at k = ?T small_var + ?B large_data k \<and> at k + S k \<le> ?T small_var + ?T large_data \<or>
      large_bss (syms l1 k) \<and> s_type (syms l4 k) = SBSS \<and> at k = uint d + ?B large_bss k \<and> at k + S k \<le> uint d + ?T large_bss"
    if ks: "k \<in> set is" and kv: "isvar (syms l1 k)" for k
  proof -
    consider "small_var (syms l1 k)" | "large_data (syms l1 k)" | "large_bss (syms l1 k)" using kv unfolding isvar_cases by blast
    then show ?thesis
    proof cases
      case 1
      then show ?thesis using p(5) [OF ks 1] R [OF ks, of small_var] by (simp add: at_def S_def)
    next
      case 2
      then show ?thesis using p(6) [OF ks 2] R [OF ks, of large_data] by (simp add: at_def S_def)
    next
      case 3
      then show ?thesis using p(7) [OF ks 3] R [OF ks, of large_bss] by (simp add: at_def S_def)
    qed
  qed
  have d: "4 dvd uint d" using p(2) by (rule dvd_trans [rotated]) simp
  have T: "4 dvd ?T small_var" unfolding total_sum [OF assms(4)] by (intro dvd_sum) (simp add: S_def bytes_room)
  show "isvar (syms l4 i)" using P [OF assms(8,9)] by (auto simp: isvar_def)
  show "4 dvd at i" using P [OF assms(8,9)] B(3) d T by auto
  show "s_type (syms l4 i) = SDATA \<Longrightarrow> at i + S i \<le> uint d"
    using P [OF assms(8,9)] p(1) B(2) [of large_data] by (auto simp: S_def)
  show "s_type (syms l4 i) = SBSS \<Longrightarrow> uint d \<le> at i \<and> at i + S i \<le> uint d + uint b"
    using P [OF assms(8,9)] p(4) B(1) [of large_bss i] by (auto simp: S_def)
  show "at i + S i \<le> at j \<or> at j + S j \<le> at i" if "j \<in> set is" "isvar (syms l1 j)" "i \<noteq> j"
  proof -
    have A: "?B c i + S i \<le> ?B c j \<or> ?B c j + S j \<le> ?B c i" if "c (syms l1 i)" "c (syms l1 j)" for c
      using below_apart [of "\<lambda>i. c (syms l1 i)" S i "is" j] nn assms(8) \<open>j \<in> set is\<close> \<open>i \<noteq> j\<close> that by blast
    have d1: "?T small_var + ?T large_data \<le> uint d" using p(1) by (simp add: S_def)
    show ?thesis
      using P [OF assms(8,9)] P [OF that(1,2)] B(1) [of large_data i] B(1) [of large_data j] B(1) [of large_bss i] B(1) [of large_bss j]
        B(2) [of large_data] d1
      by (elim disjE conjE) ((drule (1) A [of small_var] A [of large_data] A [of large_bss])?, linarith)+
  qed
qed

text \<open>
  C11: \<^verbatim>\<open>dodata\<close> gives every variable an address that is a multiple of four; no two variables
  overlap; the initialised and the small ones are inside the data segment, the others inside the bss,
  which follows it; and the sizes of both segments are multiples of eight. The variables are the
  symbols of type data or bss that have not become strings of the text segment; their sizes are
  rounded up to words, and all of them together are less than 2^62.
\<close>

theorem variables_placed:
  assumes "wf_tab tab" and "(\<Sum>i < nsymbol tab. if isvar (syms l i) then bytes (syms l i) else 0) < 2 ^ 62"
    and "dodata debugt datap tab l = (Inr (datsize, bsssize, tab'), l')"
    and "i < nsymbol tab" and "isvar (syms l i)" and "isvar (syms l' i)"
    and "j < nsymbol tab" and "isvar (syms l j)" and "isvar (syms l' j)" and "i \<noteq> j"
  defines "at \<equiv> \<lambda>i. uint (s_value (syms l' i))" and "S \<equiv> \<lambda>i. bytes (syms l i)"
  shows "4 dvd at i \<and> (at i + S i \<le> at j \<or> at j + S j \<le> at i) \<and> 8 dvd uint datsize \<and> 8 dvd uint bsssize \<and>
    (if s_type (syms l' i) = SDATA then at i + S i \<le> uint datsize
     else uint datsize \<le> at i \<and> at i + S i \<le> uint datsize + uint bsssize)"
proof -
  let ?is = "table_order tab"
  note o = table_order_all [OF assms(1)]
  obtain l1 a1 l2 a2 l3 a3 l4 where k: "var_kept l l1" and p: "data_pass1 ?is 0 l1 = (Inr a1, l2)" "data_pass2 ?is a1 l2 = (Inr a2, l3)"
    "datsize = rnd a2 8" "data_pass3 ?is datsize l3 = (Inr a3, l4)" "bsssize = rnd a3 8 - datsize" and x: "extends tab l4 tab' l'"
    by (rule dodata_elim [OF assms(3,1)])
  have y: "bytes (syms l1 k) = bytes (syms l k)" for k using k by (simp add: var_kept_def bytes_def)
  have "total (\<lambda>i. isvar (syms l1 i)) (\<lambda>i. bytes (syms l1 i)) ?is \<le> (\<Sum>i < nsymbol tab. if isvar (syms l i) then bytes (syms l i) else 0)"
    unfolding total_sum [OF o(1)] o(2) y using k bytes_room(2) by (intro sum_mono) (auto simp: var_kept_def less_imp_le)
  then have t: "total (\<lambda>i. isvar (syms l1 i)) (\<lambda>i. bytes (syms l1 i)) ?is < 2 ^ 62" using assms(2) by simp
  have v: "isvar (syms l1 k) \<and> syms l' k = syms l4 k" if "k < nsymbol tab" "isvar (syms l k)" "isvar (syms l' k)" for k
  proof -
    have n: "s_type (syms l1 k) \<notin> {SDATA1, SNONE, SXREF}" using k that(2) by (auto simp: var_kept_def isvar_def)
    note pl = passes_place(4) [OF p(1,2,4) o(1), of k]
    show ?thesis
    proof (cases "isvar (syms l1 k)")
      case True
      then have "isvar (syms l4 k)" using passes_apart(1) [OF p(1,2,4) o(1) p(3,5) t] o(2) that(1) by simp
      then show ?thesis using x that(1) True by (auto simp: extends_def isvar_def)
    next
      case False
      then have "syms l4 k = syms l1 k" using pl o(2) that(1) n by (simp add: upd_values)
      then show ?thesis using x that(1,3) False n by (auto simp: extends_def)
    qed
  qed
  note i = v [OF assms(4-6)] and j = v [OF assms(7-9)]
  note A = passes_apart [OF p(1,2,4) o(1) p(3,5) t, unfolded o(2) y, of i]
  have d: "8 dvd uint datsize" "8 dvd uint bsssize" using passes_ints(2,3) [OF p(1,2,4) o(1) p(3,5) t] by simp_all
  show ?thesis unfolding at_def S_def using A i j assms(4,7,10) d by (auto simp: isvar_def)
qed

text \<open>Without initial values and symbols of no size \<^verbatim>\<open>dodata\<close> returns.\<close>

lemma pass1_returns:
  assumes "distinct is" and "\<And>i. i \<in> set is \<Longrightarrow> isvar (syms l i) \<Longrightarrow> s_value (syms l i) \<noteq> 0"
  shows "\<exists>c l'. data_pass1 is a l = (Inr c, l')"
  using assms
proof (induction "is" arbitrary: a l)
  case (Cons i "is")
  have IH: "\<exists>c l'. data_pass1 is b l1 = (Inr c, l')" if "\<And>j. j \<noteq> i \<Longrightarrow> syms l1 j = syms l j" for b l1
    using Cons.prems that by (intro Cons.IH) (auto, metis)
  have "\<exists>c l'. data_pass1 is b (set_value i v l) = (Inr c, l')" "\<exists>c l'. data_pass1 is b (set_sect i t (set_value i w (set_value i v l))) = (Inr c, l')"
    "\<exists>c l'. data_pass1 is b l = (Inr c, l')" for b v w t
    by (rule IH, simp add: set_value_def set_sect_def)+
  then show ?case using Cons.prems(2) [of i] by (auto simp: isvar_def Let_def seq_def bind_def modify_def)
qed simp

lemma pass23_returns: "\<exists>c l'. data_pass2 is a l = (Inr c, l')" "\<exists>c l'. data_pass3 is a l = (Inr c, l')"
  by (induction "is" arbitrary: a l) (auto simp: seq_def bind_def modify_def onlyif_def)

lemma xdefine_returns: "wf_tab tab \<Longrightarrow> \<exists>tab' l'. xdefine p t v tab l = (Inr tab', l') \<and> wf_tab tab'"
proof -
  assume w: "wf_tab tab"
  obtain i tab1 where 1: "tab_look (p, 0) tab = (i, tab1)" by fastforce
  then obtain l1 where l1: "lookup p 0 tab l = (Inr (i, tab1), l1)" using lookup_tab [OF w, of 0] by auto
  then have "\<exists>l'. xdefine p t v tab l = (Inr tab1, l')" by (auto simp: xdefine_def seq_def bind_def gets_def modify_def onlyif_def)
  then show ?thesis using st.look_view [OF w 1] by blast
qed

lemma dodata_returns:
  assumes "wf_tab tab" and "\<And>i. i < nsymbol tab \<Longrightarrow> isvar (syms l i) \<Longrightarrow> s_value (syms l i) \<noteq> 0"
  shows "\<exists>d b tab' l'. dodata debugt [] tab l = (Inr (d, b, tab'), l') \<and> (\<forall>i < nsymbol tab. isvar (syms l i) \<longrightarrow> isvar (syms l' i))"
proof -
  let ?is = "table_order tab"
  note o = table_order_all [OF assms(1)]
  obtain a1 l2 where 1: "data_pass1 ?is 0 l = (Inr a1, l2)" using pass1_returns [OF o(1)] assms(2) o(2) by blast
  obtain a2 l3 where 2: "data_pass2 ?is a1 l2 = (Inr a2, l3)" using pass23_returns by blast
  obtain a3 l4 where 3: "data_pass3 ?is (rnd a2 8) l3 = (Inr a3, l4)" using pass23_returns by blast
  obtain t1 m1 t2 m2 t3 m3 t4 m4 t5 m5 where x: "xdefine ''bdata'' SDATA 0 tab l4 = (Inr t1, m1)"
    "xdefine ''edata'' SDATA (rnd a2 8) t1 m1 = (Inr t2, m2)"
    "xdefine ''end'' SBSS (rnd a2 8 + (rnd a3 8 - rnd a2 8)) t2 m2 = (Inr t3, m3)" "xdefine ''etext'' STEXT 0 t3 m3 = (Inr t4, m4)"
    "xdefine ''setR12'' SDATA (0 + BIG) t4 m4 = (Inr t5, m5)"
    using xdefine_returns assms(1) by metis
  have d: "dodata debugt [] tab l = (Inr (rnd a2 8, rnd a3 8 - rnd a2 8, t5), m5)"
    unfolding dodata_def Let_def seq_def using 1 2 3 x by (cases debugt) (simp_all add: onlyif_def bind_def)
  have "isvar (syms m5 i)" if i: "i < nsymbol tab" "isvar (syms l i)" for i
  proof -
    have e: "extends tab l4 t5 m5"
      using xdefine_extends [OF x(1) assms(1)] xdefine_extends [OF x(2)] xdefine_extends [OF x(3)] xdefine_extends [OF x(4)] xdefine_extends [OF x(5)]
      by (metis extends_def extends_trans)
    have "isvar (syms l4 i)"
      using passes_place(4) [OF 1 2 3 o(1), of i] i o(2) upd_values(1-3) [of "syms l i"] by (auto simp: isvar_cases [of "syms l i"]) (auto simp: isvar_def)
    then show ?thesis using e i(1) by (auto simp: extends_def isvar_def)
  qed
  then show ?thesis using d by blast
qed

text \<open>Two variables, of 5 and 100 bytes.\<close>

definition demo_two :: symtab where
  "demo_two = snd (tab_look (''b'', 0) (snd (tab_look (''a'', 0) demo_tab)))"

definition demo_vars :: lnk where
  "demo_vars = demo_lnk\<lparr>syms := (\<lambda>i. if i = 0 then \<lparr>s_value = 5, s_type = SBSS\<rparr> else \<lparr>s_value = 100, s_type = SDATA\<rparr>)\<rparr>"

lemma demo_two_wf: "wf_tab demo_two" "nsymbol demo_two = 2"
proof -
  obtain i t where 1: "tab_look (''a'', 0) demo_tab = (i, t)" by fastforce
  have n: "tab_view demo_tab k = None" for k by (simp add: tab_view_None demo_tab_def)
  note a = tab_look_new [OF demo_tab_wf n 1]
  obtain j u where 2: "tab_look (''b'', 0) t = (j, u)" by fastforce
  have "tab_view t (''b'', 0) = None" using n by (simp add: a(3))
  note b = tab_look_new [OF a(2) this 2]
  show "wf_tab demo_two" "nsymbol demo_two = 2" using a b 1 2 by (simp_all add: demo_two_def demo_tab_def)
qed

theorem variables_placed_witness:
  "\<exists>d b tab' l'. dodata False [] demo_two demo_vars = (Inr (d, b, tab'), l') \<and> 4 dvd uint (s_value (syms l' 0)) \<and>
    (uint (s_value (syms l' 0)) + 8 \<le> uint (s_value (syms l' 1)) \<or> uint (s_value (syms l' 1)) + 100 \<le> uint (s_value (syms l' 0)))"
proof -
  have v: "isvar (syms demo_vars i)" "s_value (syms demo_vars i) \<noteq> 0" for i by (simp_all add: demo_vars_def isvar_def)
  obtain d b tab' l' where r: "dodata False [] demo_two demo_vars = (Inr (d, b, tab'), l')" "\<And>i. i < 2 \<Longrightarrow> isvar (syms l' i)"
    using dodata_returns [OF demo_two_wf(1), of demo_vars False] v demo_two_wf(2) by auto
  have s: "bytes (syms demo_vars 0) = 8" "bytes (syms demo_vars 1) = 100" by (simp_all add: demo_vars_def bytes_def)
  have "(\<Sum>i < nsymbol demo_two. if isvar (syms demo_vars i) then bytes (syms demo_vars i) else 0) < 2 ^ 62"
    using v s by (simp add: demo_two_wf numeral_2_eq_2)
  from variables_placed [OF demo_two_wf(1) this r(1), of 0 1] show ?thesis
    using v r s by (auto simp: demo_two_wf)
qed

end
