(* ===== verification/Link5_Layout.thy ===== *)
theory Link5_Layout
  imports Link5_Link Link5_Data
begin

text \<open>
  The text segment of the ARM linker \<^verbatim>\<open>linkers/5l\<close>: \<^verbatim>\<open>dotext\<close> of \<^verbatim>\<open>layout.c\<close>, which gives every
  instruction its address and collects large constants in literal pools, and the loop of \<^verbatim>\<open>asmb\<close>
  (\<^verbatim>\<open>asm.c\<close>) that writes the code.

  The list linked through \<^verbatim>\<open>link\<close> is a list of nodes. A node is an instruction with its identity,
  which stands for its address in memory, and the pointer \<^verbatim>\<open>cond\<close>. Pools are inserted after the
  current instruction, so the loop goes over a list that grows.
\<close>

section \<open>Literal pools\<close>

abbreviation (input) COND_ALWAYS :: u32 where "COND_ALWAYS \<equiv> 14"

datatype link_ref = NoRef | UndefRef | Ref nat

record node =
  n_id :: nat
  n_prog :: prog
  n_ref :: link_ref

text \<open>The pool between \<^verbatim>\<open>blitrl\<close> and \<^verbatim>\<open>elitrl\<close>, and the identity of the next new node.\<close>

record pool =
  blitrl :: "node list"
  pool_start :: u64
  pool_size :: u64
  fresh :: nat

definition zadr :: adr where
  "zadr = \<lparr>a_type = D_NONE, a_offset = 0, a_ieee = (0, 0), a_reg = R_NONE, a_symkind = N_NONE, a_sym = None, a_class = 0\<rparr>"

definition zprg :: prog where
  "zprg = \<lparr>p_as = AGOK, p_from = zadr, p_to = zadr, p_reg = R_NONE, p_scond = COND_ALWAYS, p_pc = 0,
     p_cond = NoTarget, p_optab = 0\<rparr>"

definition prg :: "nat \<Rightarrow> node" where
  "prg i = \<lparr>n_id = i, n_prog = zprg, n_ref = NoRef\<rparr>"

text \<open>The operand of the word that is put in the pool, for an operand \<open>a\<close> of class \<open>c\<close>.\<close>

definition literal :: "adr \<Rightarrow> nat \<Rightarrow> u64 \<Rightarrow> adr" where
  "literal a c off =
     (if c \<in> {C_SROREG, C_LOREG, C_ROREG, C_FOREG, C_SOREG, C_FAUTO, C_SAUTO, C_LAUTO, C_LACON}
      then zadr\<lparr>a_type := D_CONST, a_offset := off\<rparr> else a)"

text \<open>
  \<^verbatim>\<open>addpool\<close>. Two operands are compared as bytes; the two fields that stand for the union are
  compared both.
\<close>

definition addpool :: "node \<Rightarrow> adr \<Rightarrow> pool \<Rightarrow> (lnk, node \<times> pool) eff" where
  "addpool p a pl =
     bind (aclass a) (\<lambda>c.
     bind (gets instoffset) (\<lambda>off.
     let t = literal a c off in
     ret (case find (\<lambda>q. p_to (n_prog q) = t) (blitrl pl) of
            Some q \<Rightarrow> (p\<lparr>n_ref := Ref (n_id q)\<rparr>, pl)
          | None \<Rightarrow>
              let q = (prg (fresh pl))\<lparr>n_prog := zprg\<lparr>p_as := AWORD, p_to := t, p_pc := pool_size pl\<rparr>\<rparr> in
              (p\<lparr>n_ref := Ref (n_id q)\<rparr>,
               \<lparr>blitrl = blitrl pl @ [q],
                pool_start = (if blitrl pl = [] then p_pc (n_prog p) else pool_start pl),
                pool_size = pool_size pl + 4, fresh = fresh pl + 1\<rparr>))))"

text \<open>The branch round a pool.\<close>

definition skip_branch :: "nat \<Rightarrow> node list \<Rightarrow> node" where
  "skip_branch i rest =
     (prg i)\<lparr>n_prog := zprg\<lparr>p_as := AB, p_to := zadr\<lparr>a_type := D_BRANCH\<rparr>\<rparr>,
             n_ref := (case rest of [] \<Rightarrow> NoRef | r # _ \<Rightarrow> Ref (n_id r))\<rparr>"

text \<open>\<^verbatim>\<open>flushpool\<close>: the nodes after \<open>p\<close> and the pool.\<close>

definition flushpool :: "node \<Rightarrow> bool \<Rightarrow> pool \<Rightarrow> node list \<Rightarrow> node list \<times> pool" where
  "flushpool p skip pl rest =
     (if blitrl pl = [] then (rest, pl)
      else if \<not> skip \<and> p_pc (n_prog p) + pool_size pl - pool_start pl < 2048 then (rest, pl)
      else
        let b = (if skip then [skip_branch (fresh pl) rest] else []) in
        (b @ blitrl pl @ rest,
         \<lparr>blitrl = [], pool_start = 0, pool_size = 0, fresh = fresh pl + length b\<rparr>))"

definition checkpool :: "node \<Rightarrow> pool \<Rightarrow> node list \<Rightarrow> node list \<times> pool" where
  "checkpool p pl rest =
     (if rest = [] then flushpool p True pl rest
      else if pool_size pl \<ge> 0xffc \<or>
        immaddr ((p_pc (n_prog p) + 4) + 4 + pool_size pl - pool_start pl + 8) = 0
      then flushpool p True pl rest
      else (rest, pl))"

section \<open>The layout of the text\<close>

definition always :: "prog \<Rightarrow> bool" where
  "always p \<longleftrightarrow> p_scond p AND C_SCOND = COND_ALWAYS"

text \<open>The pool handling for an instruction with rule \<open>ot\<close>.\<close>

definition pool_flag :: "optab \<Rightarrow> u32" where
  "pool_flag ot = o_flag ot AND (LFROM OR LTO OR LPOOL)"

definition pool_switch :: "optab \<Rightarrow> node \<Rightarrow> pool \<Rightarrow> node list \<Rightarrow> (lnk, node \<times> node list \<times> pool) eff" where
  "pool_switch ot p pl rest =
     (if pool_flag ot = LFROM then bind (addpool p (p_from (n_prog p)) pl) (\<lambda>(p, pl). ret (p, rest, pl))
      else if pool_flag ot = LTO then bind (addpool p (p_to (n_prog p)) pl) (\<lambda>(p, pl). ret (p, rest, pl))
      else if pool_flag ot = LPOOL \<and> always (n_prog p) then ret (p, flushpool p False pl rest)
      else ret (p, rest, pl))"

definition pool_flush_pc :: "node \<Rightarrow> pool \<Rightarrow> node list \<Rightarrow> node list \<times> pool" where
  "pool_flush_pc p pl rest =
     (if p_as (n_prog p) = AMOVW \<and> a_type (p_to (n_prog p)) = D_REG \<and> a_reg (p_to (n_prog p)) = REGPC \<and>
        always (n_prog p)
      then flushpool p False pl rest else (rest, pl))"

definition pool_check :: "node \<Rightarrow> pool \<Rightarrow> node list \<Rightarrow> node list \<times> pool" where
  "pool_check p pl rest = (if blitrl pl \<noteq> [] then checkpool p pl rest else (rest, pl))"

definition enter_text :: "prog \<Rightarrow> (lnk, unit) eff" where
  "enter_text p = onlyif (p_as p = ATEXT) (modify (\<lambda>s. s\<lparr>autosize := a_offset (p_to p) + 4\<rparr>))"

text \<open>One round of the loop: the next address, the pool, the instruction and the rest of the list.\<close>

definition text_one :: "tables \<Rightarrow> u64 \<Rightarrow> pool \<Rightarrow> node \<Rightarrow> node list \<Rightarrow> (lnk, u64 \<times> pool \<times> node \<times> node list) eff" where
  "text_one t c pl p rest =
     seq (enter_text (n_prog p))
    (bind (oplook t ((n_prog p)\<lparr>p_pc := c\<rparr>)) (\<lambda>(q, k).
     let p = p\<lparr>n_prog := q\<rparr>; m = o_size (rules t ! k); c = c + of_nat m in
     if m = 0 then
       if p_as q = ATEXT then
         seq (case a_sym (p_from q) of Some i \<Rightarrow> modify (set_value i c) | None \<Rightarrow> ret ()) (ret (c, pl, p, rest))
       else seq (diag ''zero-width instruction'') (ret (c, pl, p, rest))
     else
       bind (pool_switch (rules t ! k) p pl rest) (\<lambda>(p, rest, pl).
       case pool_flush_pc p pl rest of (rest, pl) \<Rightarrow>
       case pool_check p pl rest of (rest, pl) \<Rightarrow>
       ret (c, pl, p, rest))))"

text \<open>The loop: the end address and the instructions with their addresses; \<open>done\<close> are those behind it.\<close>

partial_function (option) text_loop ::
  "tables \<Rightarrow> u64 \<Rightarrow> pool \<Rightarrow> node list \<Rightarrow> node list \<Rightarrow> lnk \<Rightarrow> ((exn + u64 \<times> node list) \<times> lnk) option" where
  "text_loop t c pl ns todo l =
     (case todo of
        [] \<Rightarrow> Some (Inr (c, ns), l)
      | p # rest \<Rightarrow>
          (case text_one t c pl p rest l of
             (Inl e, l) \<Rightarrow> Some (Inl e, l)
           | (Inr (c, pl, p, rest), l) \<Rightarrow> text_loop t c pl (ns @ [p]) rest l))"

fun text_strings :: "nat list \<Rightarrow> u64 \<Rightarrow> (lnk, u64) eff" where
  "text_strings [] c = ret c"
| "text_strings (i # is) c =
     bind (gets (\<lambda>s. syms s i)) (\<lambda>y.
     if s_type y = SSTRING then seq (modify (set_value i c)) (text_strings is (c + rnd (s_value y) 4))
     else text_strings is c)"

text \<open>After the loop: strings in the text segment, the size of the text and the start of the data.\<close>

definition text_end :: "bool \<Rightarrow> u64 \<Rightarrow> u64 \<Rightarrow> u64 \<Rightarrow> symtab \<Rightarrow> (lnk, u64 \<times> symtab) eff" where
  "text_end debugt INITTEXT INITRND c tab =
     bind (if debugt then text_strings (table_order tab) (rnd c 8) else ret c) (\<lambda>c.
     let c = rnd c 8; textsize = c - INITTEXT in
     bind (lookup ''etext'' 0 tab) (\<lambda>(i, tab).
     seq (modify (set_value i (INITTEXT + textsize)))
    (seq (onlyif (INITRND \<noteq> 0) (modify (\<lambda>s. s\<lparr>INITDAT := rnd c INITRND\<rparr>)))
     (ret (textsize, tab)))))"

definition dotext ::
  "tables \<Rightarrow> bool \<Rightarrow> u64 \<Rightarrow> u64 \<Rightarrow> symtab \<Rightarrow> nat \<Rightarrow> node list \<Rightarrow> lnk \<Rightarrow> ((exn + node list \<times> u64 \<times> symtab) \<times> lnk) option" where
  "dotext t debugt INITTEXT INITRND tab nid firstp l =
     (case text_loop t INITTEXT \<lparr>blitrl = [], pool_start = 0, pool_size = 0, fresh = nid\<rparr> [] firstp l of
        None \<Rightarrow> None
      | Some (Inl e, l) \<Rightarrow> Some (Inl e, l)
      | Some (Inr (c, ns), l) \<Rightarrow>
          Some (bind (text_end debugt INITTEXT INITRND c tab) (\<lambda>(textsize, tab). ret (ns, textsize, tab)) l))"

section \<open>Writing the code\<close>

text \<open>
  The encoder reads the address behind \<^verbatim>\<open>cond\<close>: \<open>deref ns\<close> is the instruction with that address. \<open>UP\<close>
  is the undefined program. A pointer to no node of the list cannot occur.
\<close>

definition node_pc :: "node list \<Rightarrow> nat \<Rightarrow> u64" where
  "node_pc ns i = (case find (\<lambda>n. n_id n = i) ns of Some n \<Rightarrow> p_pc (n_prog n) | None \<Rightarrow> 0)"

definition deref :: "node list \<Rightarrow> node \<Rightarrow> prog" where
  "deref ns n = (n_prog n)\<lparr>p_cond := (case n_ref n of NoRef \<Rightarrow> NoTarget | UndefRef \<Rightarrow> UndefTarget | Ref i \<Rightarrow> At (node_pc ns i))\<rparr>"

text \<open>The loop of \<^verbatim>\<open>asmb\<close> over the instructions.\<close>

fun asmb_text :: "tables \<Rightarrow> prog list \<Rightarrow> u64 \<Rightarrow> (lnk, u64) eff" where
  "asmb_text t [] pc = ret pc"
| "asmb_text t (p # ps) pc =
     seq (enter_text p)
    (seq (onlyif (p_pc p \<noteq> pc) (diag ''phase error''))
    (bind (oplook t p) (\<lambda>(p, k).
     seq (asmout p (rules t ! k))
     (asmb_text t ps (p_pc p + of_nat (o_size (rules t ! k)))))))"

section \<open>One round of the loop\<close>

text \<open>
  What a round does to the pool: a word may be added, then the pool may be put after the instruction,
  without a branch round it only where control does not pass.
\<close>

definition takes_literal :: "optab \<Rightarrow> bool" where
  "takes_literal ot \<longleftrightarrow> pool_flag ot = LFROM \<or> pool_flag ot = LTO"

definition literal_operand :: "optab \<Rightarrow> prog \<Rightarrow> adr" where
  "literal_operand ot p = (if pool_flag ot = LFROM then p_from p else p_to p)"

definition pool_word :: "nat \<Rightarrow> adr \<Rightarrow> u64 \<Rightarrow> node" where
  "pool_word i a v = (prg i)\<lparr>n_prog := zprg\<lparr>p_as := AWORD, p_to := a, p_pc := v\<rparr>\<rparr>"

definition with_word :: "node \<Rightarrow> adr \<Rightarrow> pool \<Rightarrow> pool" where
  "with_word p a pl =
     \<lparr>blitrl = blitrl pl @ [pool_word (fresh pl) a (pool_size pl)],
      pool_start = (if blitrl pl = [] then p_pc (n_prog p) else pool_start pl),
      pool_size = pool_size pl + 4, fresh = fresh pl + 1\<rparr>"

definition added :: "optab \<Rightarrow> node \<Rightarrow> pool \<Rightarrow> lnk \<Rightarrow> node \<Rightarrow> pool \<Rightarrow> lnk \<Rightarrow> bool" where
  "added ot p pl l p' pl' l' \<longleftrightarrow>
     (if takes_literal ot then
        \<exists>c w. aclass (literal_operand ot (n_prog p)) l = (Inr c, l') \<and> w \<in> set (blitrl pl') \<and>
          p_to (n_prog w) = literal (literal_operand ot (n_prog p)) c (instoffset l') \<and> p' = p\<lparr>n_ref := Ref (n_id w)\<rparr> \<and>
          (pl' = pl \<or> pl' = with_word p (p_to (n_prog w)) pl)
      else p' = p \<and> pl' = pl \<and> l' = l)"

definition empty_pool :: "nat \<Rightarrow> pool" where
  "empty_pool i = \<lparr>blitrl = [], pool_start = 0, pool_size = 0, fresh = i\<rparr>"

text \<open>Control does not pass an unconditional branch or a move to the program counter.\<close>

definition leaves :: "optab \<Rightarrow> prog \<Rightarrow> bool" where
  "leaves ot p \<longleftrightarrow> always p \<and>
     (pool_flag ot = LPOOL \<or> p_as p = AMOVW \<and> a_type (p_to p) = D_REG \<and> a_reg (p_to p) = REGPC)"

definition pool_near :: "node \<Rightarrow> pool \<Rightarrow> bool" where
  "pool_near p pl \<longleftrightarrow> pool_size pl < 0xffc \<and>
     immaddr ((p_pc (n_prog p) + 4) + 4 + pool_size pl - pool_start pl + 8) \<noteq> 0"

definition flushed :: "optab \<Rightarrow> node \<Rightarrow> pool \<Rightarrow> node list \<Rightarrow> node list \<Rightarrow> pool \<Rightarrow> bool" where
  "flushed ot p pl rest rest' pl' \<longleftrightarrow>
     pl' = pl \<and> rest' = rest \<and> (blitrl pl \<noteq> [] \<longrightarrow> rest \<noteq> [] \<and> pool_near p pl) \<or>
     blitrl pl \<noteq> [] \<and> leaves ot (n_prog p) \<and> pl' = empty_pool (fresh pl) \<and> rest' = blitrl pl @ rest \<or>
     blitrl pl \<noteq> [] \<and> pl' = empty_pool (fresh pl + 1) \<and> rest' = skip_branch (fresh pl) rest # blitrl pl @ rest"

lemma addpool_added:
  assumes "addpool p (literal_operand ot (n_prog p)) pl l = (Inr (p', pl'), l')" and "takes_literal ot"
  shows "added ot p pl l p' pl' l'"
proof -
  let ?a = "literal_operand ot (n_prog p)"
  obtain c where c: "aclass ?a l = (Inr c, l')"
    using assms(1) by (auto simp: addpool_def bind_def gets_def Let_def split: prod.splits sum.splits)
  let ?t = "literal ?a c (instoffset l')"
  have r: "(case find (\<lambda>q. p_to (n_prog q) = ?t) (blitrl pl) of
      Some q \<Rightarrow> (p\<lparr>n_ref := Ref (n_id q)\<rparr>, pl)
    | None \<Rightarrow> (p\<lparr>n_ref := Ref (fresh pl)\<rparr>, with_word p ?t pl)) = (p', pl')"
    using assms(1) c by (simp add: addpool_def bind_def gets_def Let_def with_word_def pool_word_def prg_def split: option.splits) auto
  show ?thesis
  proof (cases "find (\<lambda>q. p_to (n_prog q) = ?t) (blitrl pl)")
    case None
    then show ?thesis using r c assms(2)
      by (auto simp: added_def with_word_def pool_word_def prg_def intro!: exI [of _ c] exI [of _ "pool_word (fresh pl) ?t (pool_size pl)"])
  next
    case (Some q)
    then have "q \<in> set (blitrl pl)" "p_to (n_prog q) = ?t" by (auto simp: find_Some_iff)
    then show ?thesis using r c assms(2) Some by (auto simp: added_def)
  qed
qed

lemma flushpool_cases:
  "flushpool p s pl rest = (rest', pl') \<Longrightarrow>
    pl' = pl \<and> rest' = rest \<and> (s \<longrightarrow> blitrl pl = []) \<or>
    blitrl pl \<noteq> [] \<and> \<not> s \<and> pl' = empty_pool (fresh pl) \<and> rest' = blitrl pl @ rest \<or>
    blitrl pl \<noteq> [] \<and> s \<and> pl' = empty_pool (fresh pl + 1) \<and> rest' = skip_branch (fresh pl) rest # blitrl pl @ rest"
  by (auto simp: flushpool_def empty_pool_def Let_def split: if_splits)

lemma flushed_check:
  assumes "pool_check p pl rest = (rest', pl')"
  shows "flushed ot p pl rest rest' pl'"
  using assms flushpool_cases [of p True pl rest rest' pl']
  by (auto simp: pool_check_def checkpool_def flushed_def pool_near_def split: if_splits)

lemma flushed_then_check:
  assumes "flushpool p False pl rest = (rest1, pl1)" and "leaves ot (n_prog p)" and "pool_check p pl1 rest1 = (rest', pl')"
  shows "flushed ot p pl rest rest' pl'"
  using flushpool_cases [OF assms(1)]
proof (elim disjE conjE)
  assume "pl1 = pl" "rest1 = rest"
  then show ?thesis using flushed_check [OF assms(3)] by simp
next
  assume "blitrl pl \<noteq> []" "pl1 = empty_pool (fresh pl)" "rest1 = blitrl pl @ rest"
  then show ?thesis using assms(2,3) by (simp add: pool_check_def flushed_def empty_pool_def)
qed simp

lemma flushed_trans:
  assumes "flushpool p False pl rest = (rest1, pl1)" and "leaves ot (n_prog p)" and "flushed ot p pl1 rest1 rest' pl'"
  shows "flushed ot p pl rest rest' pl'"
  using flushpool_cases [OF assms(1)]
proof (elim disjE conjE)
  assume "blitrl pl \<noteq> []" "pl1 = empty_pool (fresh pl)" "rest1 = blitrl pl @ rest"
  then show ?thesis using assms(2,3) by (simp add: flushed_def empty_pool_def)
qed (use assms(3) in simp_all)

lemma flushed_pc:
  assumes "pool_flush_pc p pl rest = (rest1, pl1)" and "pool_check p pl1 rest1 = (rest', pl')"
  shows "flushed ot p pl rest rest' pl'"
proof (cases "p_as (n_prog p) = AMOVW \<and> a_type (p_to (n_prog p)) = D_REG \<and> a_reg (p_to (n_prog p)) = REGPC \<and> always (n_prog p)")
  case True
  then have "flushpool p False pl rest = (rest1, pl1)" "leaves ot (n_prog p)"
    using assms(1) by (simp_all add: pool_flush_pc_def leaves_def)
  then show ?thesis using flushed_trans flushed_check [OF assms(2)] by blast
next
  case False
  then show ?thesis using assms(1) flushed_check [OF assms(2)] unfolding pool_flush_pc_def if_not_P [OF False] by simp
qed

lemma pool_switch_flushed:
  assumes "pool_switch ot p pl rest l = (Inr (p1, rest1, pl1), l')"
    and "pool_flush_pc p1 pl1 rest1 = (rest2, pl2)" and "pool_check p1 pl2 rest2 = (rest', pl')"
  shows "\<exists>x. added ot p pl l p1 x l' \<and> flushed ot p1 x rest rest' pl'"
proof (cases "takes_literal ot")
  case True
  then have "addpool p (literal_operand ot (n_prog p)) pl l = (Inr (p1, pl1), l') \<and> rest1 = rest"
    using assms(1) by (auto simp: pool_switch_def takes_literal_def literal_operand_def bind_def split: if_splits prod.splits sum.splits)
  then show ?thesis using addpool_added [OF _ True] flushed_pc [OF assms(2,3)] by blast
next
  case False
  note F = flushed_pc [OF assms(2,3), of ot]
  have "p1 = p \<and> l' = l" and "pool_flag ot = LPOOL \<and> always (n_prog p) \<and> flushpool p False pl rest = (rest1, pl1) \<or> rest1 = rest \<and> pl1 = pl"
    using assms(1) False by (auto simp: pool_switch_def takes_literal_def split: if_splits)
  then show ?thesis using False F flushed_trans [of p pl rest rest1 pl1 ot] by (auto simp: added_def leaves_def)
qed

text \<open>
  The frame size of the function: only \<^verbatim>\<open>ATEXT\<close> sets \<^verbatim>\<open>autosize\<close>, before anything else is done with the
  instruction.
\<close>

definition entered :: "u64 \<Rightarrow> prog \<Rightarrow> u64" where
  "entered z p = (if p_as p = ATEXT then a_offset (p_to p) + 4 else z)"

interpretation fz: keeps_rel "\<lambda>s t :: lnk. autosize t = autosize s"
  by unfold_locales simp_all

lemma kept_diag: "keeps (\<lambda>s t. autosize t = autosize s) (diag m)"
  unfolding diag_def by (intro fz.keeps_intros fz.keeps_modify) simp

lemma frame_aclass: "keeps (\<lambda>s t. autosize t = autosize s) (aclass a)"
proof -
  have u: "keeps (\<lambda>s t. autosize t = autosize s) (undefined_external i)" for i
    unfolding undefined_external_def by (intro fz.keeps_intros kept_diag fz.keeps_modify) simp
  have o: "keeps (\<lambda>s t. autosize t = autosize s) (set_off v c)" for v c
    unfolding set_off_def by (intro fz.keeps_intros fz.keeps_modify) simp
  have e: "keeps (\<lambda>s t. autosize t = autosize s) (aclass_ext a)"
    unfolding aclass_ext_def Let_def by (cases "a_sym a") (auto intro!: fz.keeps_intros o u)
  have x: "keeps (\<lambda>s t. autosize t = autosize s) (aclass_addr_ext a)"
    unfolding aclass_addr_ext_def Let_def by (cases "a_sym a") (auto intro!: fz.keeps_intros o u kept_diag)
  show ?thesis unfolding aclass_def Let_def
    by (cases "a_type a"; cases "a_symkind a") (simp_all add: o e x fz.keeps_intros)
qed

lemma frame_oplook: "keeps (\<lambda>s t. autosize t = autosize s) (oplook t p)"
proof -
  have c: "keeps (\<lambda>s t. autosize t = autosize s) (class_of a)" for a
    unfolding class_of_def by (intro fz.keeps_intros frame_aclass)
  show ?thesis unfolding oplook_def Let_def split_def
    by (auto intro!: fz.keeps_intros c kept_diag split: option.split)
qed

lemma text_one_elim:
  assumes "text_one t c pl p rest l = (Inr (c', pl', p', rest'), l')"
  obtains q k l1 l2 where "oplook t ((n_prog p)\<lparr>p_pc := c\<rparr>) l1 = (Inr (q, k), l2)" "c' = c"
      "o_size (rules t ! k) = 0" "pl' = pl" "rest' = rest" "p' = p\<lparr>n_prog := q\<rparr>" "autosize l2 = entered (autosize l) (n_prog p)"
  | q k l1 l2 x where "oplook t ((n_prog p)\<lparr>p_pc := c\<rparr>) l1 = (Inr (q, k), l2)" "c' = c + of_nat (o_size (rules t ! k))"
      "o_size (rules t ! k) \<noteq> 0" "added (rules t ! k) (p\<lparr>n_prog := q\<rparr>) pl l2 p' x l'"
      "flushed (rules t ! k) p' x rest rest' pl'" "autosize l2 = entered (autosize l) (n_prog p)"
proof -
  obtain l1 where e: "enter_text (n_prog p) l = (Inr (), l1)" and z1: "autosize l1 = entered (autosize l) (n_prog p)"
    by (cases "p_as (n_prog p) = ATEXT") (auto simp: enter_text_def onlyif_def modify_def entered_def)
  obtain q k l2 where o: "oplook t ((n_prog p)\<lparr>p_pc := c\<rparr>) l1 = (Inr (q, k), l2)"
    using assms e by (auto simp: text_one_def seq_def bind_def split: sum.splits prod.splits)
  have z: "autosize l2 = entered (autosize l) (n_prog p)" using keepsD [OF frame_oplook o] z1 by simp
  let ?ot = "rules t ! k"
  let ?p = "p\<lparr>n_prog := q\<rparr>"
  show thesis
  proof (cases "o_size ?ot = 0")
    case True
    then show thesis using assms e o z that(1) [OF o]
      by (auto simp: text_one_def seq_def bind_def Let_def split: if_splits sum.splits prod.splits option.splits)
  next
    case False
    then obtain p1 rest1 pl1 l3 where s: "pool_switch ?ot ?p pl rest l2 = (Inr (p1, rest1, pl1), l3)"
      using assms e o by (auto simp: text_one_def seq_def bind_def Let_def split: sum.splits prod.splits)
    obtain rest2 pl2 where f: "pool_flush_pc p1 pl1 rest1 = (rest2, pl2)" by fastforce
    obtain rest3 pl3 where g: "pool_check p1 pl2 rest2 = (rest3, pl3)" by fastforce
    have r: "c' = c + of_nat (o_size ?ot)" "pl' = pl3" "p' = p1" "rest' = rest3" "l' = l3"
      using assms e o s f g False by (auto simp: text_one_def seq_def bind_def Let_def)
    from pool_switch_flushed [OF s f g] that(2) [OF o r(1) False] r(2-) z show thesis by blast
  qed
qed

lemma added_frame: "added ot p pl l p' x l' \<Longrightarrow> autosize l' = autosize l"
  using keepsD [OF frame_aclass] by (auto simp: added_def split: if_splits)

lemma text_one_frame:
  assumes "text_one t c pl p rest l = (Inr (c', pl', p', rest'), l')"
  shows "autosize l' = entered (autosize l) (n_prog p)"
proof -
  have sv: "keeps (\<lambda>s t. autosize t = autosize s) (case x of Some i \<Rightarrow> modify (set_value i c) | None \<Rightarrow> ret ())" for x c
    by (cases x) (simp_all add: keeps_def set_value_def)
  have ap: "keeps (\<lambda>s t. autosize t = autosize s) (addpool p a pl)" for p a pl
    unfolding addpool_def Let_def by (intro fz.keeps_intros frame_aclass)
  obtain l1 where e: "enter_text (n_prog p) l = (Inr (), l1)" and z1: "autosize l1 = entered (autosize l) (n_prog p)"
    by (cases "p_as (n_prog p) = ATEXT") (auto simp: enter_text_def onlyif_def modify_def entered_def)
  have "keeps (\<lambda>s t. autosize t = autosize s) (bind (oplook t ((n_prog p)\<lparr>p_pc := c\<rparr>)) (\<lambda>(q, k).
     let p = p\<lparr>n_prog := q\<rparr>; m = o_size (rules t ! k); c = c + of_nat m in
     if m = 0 then
       if p_as q = ATEXT then
         seq (case a_sym (p_from q) of Some i \<Rightarrow> modify (set_value i c) | None \<Rightarrow> ret ()) (ret (c, pl, p, rest))
       else seq (diag ''zero-width instruction'') (ret (c, pl, p, rest))
     else
       bind (pool_switch (rules t ! k) p pl rest) (\<lambda>(p, rest, pl).
       case pool_flush_pc p pl rest of (rest, pl) \<Rightarrow>
       case pool_check p pl rest of (rest, pl) \<Rightarrow>
       ret (c, pl, p, rest))))" (is "keeps _ ?m")
    unfolding Let_def split_def pool_switch_def by (intro fz.keeps_intros frame_oplook kept_diag sv ap)
  moreover have "?m l1 = (Inr (c', pl', p', rest'), l')"
    using assms e unfolding text_one_def seq_def [of "enter_text (n_prog p)"] by (subst (asm) bind_Inr) simp_all
  ultimately have "autosize l' = autosize l1" by (rule keepsD)
  then show ?thesis using z1 by simp
qed

section \<open>The rules that are chosen\<close>

lemma class_of_same: "class_of a l = (Inr (f, c), l') \<Longrightarrow> \<exists>x. f = a\<lparr>a_class := x\<rparr>"
  by (auto simp: class_of_def ret_def elim!: bindE split: if_splits)
    (metis adr.surjective adr.update_convs(7))

lemma oplook_cases:
  assumes "oplook t p l = (Inr (q, k), l')"
  obtains "p_optab p \<noteq> 0" "q = p" "k = p_optab p - 1"
  | f d j where "p_optab p = 0" "\<exists>x. f = (p_from p)\<lparr>a_class := x\<rparr>" "\<exists>x. d = (p_to p)\<lparr>a_class := x\<rparr>"
      "q = p\<lparr>p_from := f, p_to := d, p_optab := j\<rparr>"
      "case oprange t (p_as p) of None \<Rightarrow> j = 0 \<and> k = 0 | Some (s, e) \<Rightarrow> j = 0 \<and> k = e \<or> j = k + 1 \<and> s \<le> k \<and> k < e"
proof (cases "p_optab p = 0")
  case False
  then have "q = p" "k = p_optab p - 1" using assms by (auto simp: oplook_def)
  then show thesis using that(1) False by blast
next
  case True
  obtain f a1 l1 where f: "class_of (p_from p) l = (Inr (f, a1), l1)"
  proof (cases "class_of (p_from p) l")
    case (Pair r l1)
    then show thesis using assms True that by (cases r) (auto simp: oplook_def bind_def)
  qed
  obtain d a3 l2 where d: "class_of (p_to p) l1 = (Inr (d, a3), l2)"
  proof (cases "class_of (p_to p) l1")
    case (Pair r l2)
    then show thesis using assms True f that by (cases r) (auto simp: oplook_def bind_def)
  qed
  let ?p = "p\<lparr>p_from := f, p_to := d\<rparr>"
  note c = that(2) [OF True class_of_same [OF f] class_of_same [OF d]]
  show thesis
  proof (cases "oprange t (p_as p)")
    case None
    then have "oplook t p l = seq (diag ''illegal combination'') (ret (?p, 0)) l2"
      using True f d by (simp add: oplook_def bind_def Let_def)
    then have "seq (diag ''illegal combination'') (ret (?p, 0)) l2 = (Inr (q, k), l')" using assms by simp
    then have "(q, k) = (?p, 0)" by (auto simp: seq_def elim!: bindE)
    then show thesis using c [of 0] None True by simp
  next
    case (Some se)
    obtain s e where se: "se = (s, e)" by fastforce
    let ?f = "\<lambda>r. o_a2 r = (if p_reg p \<noteq> R_NONE then C_REG else C_NONE) \<and> xcmp t a1 (o_a1 r) \<and> xcmp t a3 (o_a3 r)"
    note F = find_rule_spec [where rs = "rules t" and f = ?f and i = s and e = e]
    have o: "oplook t p l = (case find_rule (rules t) ?f s e of
        Some k \<Rightarrow> ret (?p\<lparr>p_optab := k + 1\<rparr>, k) | None \<Rightarrow> seq (diag ''illegal combination'') (ret (?p, e))) l2"
      using True f d Some se by (simp add: oplook_def bind_def Let_def)
    show thesis
    proof (cases "find_rule (rules t) ?f s e")
      case None
      then have "seq (diag ''illegal combination'') (ret (?p, e)) l2 = (Inr (q, k), l')" using assms o by simp
      then have "(q, k) = (?p, e)" by (auto simp: seq_def elim!: bindE)
      then show thesis using c [of 0] Some se True by simp
    next
      case (Some k')
      then show thesis using assms c [of "k' + 1"] \<open>oprange t (p_as p) = Some se\<close> se F unfolding o by auto
    qed
  qed
qed

lemma oplook_same:
  assumes "oplook t p l = (Inr (q, k), l')"
  shows "\<exists>x y j. q = p\<lparr>p_from := (p_from p)\<lparr>a_class := x\<rparr>, p_to := (p_to p)\<lparr>a_class := y\<rparr>, p_optab := j\<rparr>"
  using assms
proof (cases rule: oplook_cases)
  case 1
  then show ?thesis by (intro exI [of _ "a_class (p_from p)"] exI [of _ "a_class (p_to p)"] exI [of _ "p_optab p"]) simp
qed auto

lemma oplook_memo:
  assumes "oplook t p l = (Inr (q, k), l')" and "p_optab q \<noteq> 0"
  shows "p_optab q = k + 1"
  using assms by (cases rule: oplook_cases) (auto split: option.splits)

lemma prepared_rule:
  assumes "prepared t rs" and "k < length rs"
  shows "rules t ! k \<in> set rs"
proof -
  have l: "length rs \<le> length (rules t)" and m: "set (take (length rs) (rules t)) = set rs"
    using assms(1) mset_eq_setD by (auto simp: prepared_def)
  show ?thesis using assms(2) unfolding m [symmetric] nth_image [OF l, symmetric] by auto
qed

lemma prepared_index:
  assumes "prepared t rs" and "r \<in> set rs"
  shows "\<exists>k < length rs. r = rules t ! k"
proof -
  have l: "length rs \<le> length (rules t)" and m: "set (take (length rs) (rules t)) = set rs"
    using assms(1) mset_eq_setD by (auto simp: prepared_def)
  show ?thesis using assms(2) unfolding m [symmetric] nth_image [OF l, symmetric] by auto
qed

lemma oplook_range:
  assumes "prepared t rs" and "oplook t p l = (Inr (q, k), l')" and "p_optab p = 0"
  shows "p_optab q = k + 1 \<and> k < length rs \<and> rules t ! k \<in> set rs \<and> o_as (rules t ! k) = rep (p_as p) \<or>
    p_optab q = 0 \<and> (case oprange t (p_as p) of None \<Rightarrow> k = 0 | Some (s, e) \<Rightarrow> k = e)"
  using assms(2)
proof (cases rule: oplook_cases)
  case 1
  then show ?thesis using assms(3) by simp
next
  case (2 f d j)
  show ?thesis
  proof (cases "oprange t (p_as p)")
    case None
    then show ?thesis using 2 by simp
  next
    case (Some se)
    obtain s e where "se = (s, e)" by fastforce
    then have "e \<le> length rs" "k < length rs \<Longrightarrow> s \<le> k \<and> k < e \<longleftrightarrow> o_as (rules t ! k) = rep (p_as p)"
      using prepared_range [OF assms(1), of "p_as p"] Some by auto
    then show ?thesis using 2 Some prepared_rule [OF assms(1), of k] \<open>se = (s, e)\<close> by auto
  qed
qed

text \<open>
  Where no rule fits, the result is the rule after the range, which belongs to the next opcode in the
  table.
\<close>

lemma next_rule:
  assumes "prepared t rs" and "oprange t a = Some (s, e)" and "r \<in> set rs" and "rep a < o_as r"
  shows "rules t ! e \<in> set rs \<and> rep a \<le> o_as (rules t ! e) \<and> o_as (rules t ! e) \<le> o_as r"
proof -
  define n where "n = length rs"
  have se: "s < e" "e \<le> n" "\<And>k. k < n \<Longrightarrow> s \<le> k \<and> k < e \<longleftrightarrow> o_as (rules t ! k) = rep a"
    using prepared_range [OF assms(1), of a] assms(2) by (auto simp: n_def)
  have n: "n \<le> length (rules t)" "set (take n (rules t)) = set rs" "sorted_wrt (\<lambda>p q. ocmp p q \<le> 0) (take n (rules t))"
    using assms(1) mset_eq_setD by (auto simp: prepared_def n_def)
  have st: "o_as (rules t ! i) \<le> o_as (rules t ! j)" if "i \<le> j" "j < n" for i j
  proof (cases "i = j")
    case False
    then have "ocmp (rules t ! i) (rules t ! j) \<le> 0" using sorted_wrt_nth_less [OF n(3), of i j] that n(1) by simp
    then show ?thesis by (auto simp: ocmp_def Let_def split: if_splits)
  qed simp
  obtain k where k: "k < n" "r = rules t ! k" using prepared_index [OF assms(1,3)] n_def by blast
  have "\<not> k < e"
  proof
    assume "k < e"
    then have "k < s" using se(3) [OF k(1)] assms(4) k(2) by auto
    then have "o_as r \<le> o_as (rules t ! s)" using st [of k s] se k by simp
    then show False using se(3) [of s] se(1,2) assms(4) by simp
  qed
  then have "e \<le> k" by simp
  moreover have "o_as (rules t ! s) = rep a" using se(3) [of s] se(1,2) by simp
  ultimately show ?thesis using st [of e k] st [of s e] k se(1) prepared_rule [OF assms(1), of e] n_def by auto
qed

lemma adjust_map:
  "list_all (\<lambda>r. o_as r \<noteq> AXXX) rs \<Longrightarrow> o_as r = AXXX \<Longrightarrow>
    fst (adjust vf True (rs @ [r])) = map (\<lambda>r. if o_flag r AND VFP \<noteq> 0 \<and> \<not> vf then r\<lparr>o_as := AXXX\<rparr> else r) rs"
  by (induction rs) (auto simp: Let_def split: prod.splits)

lemma quiet_rows:
  "list_all (\<lambda>r. AB \<le> o_as r \<and> o_as r \<le> ABEQ \<or> AWORD \<le> o_as r \<and> o_as r \<le> ACASE \<longrightarrow> \<not> takes_literal r \<and> o_size r = 4)
    (optab_rows1 @ optab_rows2 @ optab_rows3)"
  "list_all (\<lambda>a. list_ex (\<lambda>r. o_as r = a \<and> o_flag r AND VFP = 0) (optab_rows1 @ optab_rows2 @ optab_rows3)) [AB, ABEQ, AWORD, ACASE]"
  by code_simp+

text \<open>The nodes that the layout itself makes: they have rules of one word that take no literal.\<close>

definition quiet :: "node \<Rightarrow> bool" where
  "quiet n \<longleftrightarrow> (p_as (n_prog n) = AWORD \<or> p_as (n_prog n) = AB) \<and> p_optab (n_prog n) = 0"

lemma quiet_made [simp]: "quiet (skip_branch i rest)" "quiet (pool_word i a v)"
  by (simp_all add: quiet_def skip_branch_def pool_word_def prg_def zprg_def)

lemma built_rows:
  assumes "buildop debugf False optab_rows l = (Inr t, l')"
  obtains rs where "prepared t rs" "\<And>r. r \<in> set rs \<Longrightarrow> r \<in> set (optab_rows1 @ optab_rows2 @ optab_rows3) \<or> o_as r = AXXX"
    "\<And>a. a \<in> {AB, ABEQ, AWORD, ACASE} \<Longrightarrow> \<exists>r \<in> set rs. o_as r = a"
proof -
  let ?B = "optab_rows1 @ optab_rows2 @ optab_rows3"
  let ?rs = "map (\<lambda>r. if o_flag r AND VFP \<noteq> 0 \<and> \<not> debugf then r\<lparr>o_as := AXXX\<rparr> else r) ?B"
  have e: "fst (adjust debugf (\<not> False) optab_rows) = ?rs"
    unfolding optab_rows_def not_False_eq_True by (rule adjust_map [OF optab_live]) simp
  show thesis
  proof (rule that)
    show "prepared t ?rs" using built_prepared [OF assms] unfolding e .
    show "r \<in> set ?rs \<Longrightarrow> r \<in> set ?B \<or> o_as r = AXXX" for r by (auto split: if_splits)
    show "\<exists>r \<in> set ?rs. o_as r = a" if "a \<in> {AB, ABEQ, AWORD, ACASE}" for a
    proof -
      have "a \<in> set [AB, ABEQ, AWORD, ACASE]" using that by simp
      from quiet_rows(2) [unfolded list_all_iff list_ex_iff, THEN bspec, OF this]
      obtain r where "r \<in> set ?B" "o_as r = a" "o_flag r AND VFP = 0" by blast
      then show ?thesis by force
    qed
  qed
qed

lemma size_rows:
  "list_all (\<lambda>r. o_size r = 0 \<and> \<not> takes_literal r \<or> o_size r \<in> {4, 8, 12, 16, 24}) (optab_rows1 @ optab_rows2 @ optab_rows3)"
  by code_simp

lemma built_row:
  assumes "buildop debugf False optab_rows l0 = (Inr t, l0')" and "oplook t p l = (Inr (q, k), l')" and "p_optab p = 0" and "p_optab q \<noteq> 0"
  shows "\<exists>r \<in> set (optab_rows1 @ optab_rows2 @ optab_rows3). rules t ! k = r \<or> rules t ! k = r\<lparr>o_as := AXXX\<rparr>"
    and "o_as (rules t ! k) = rep (p_as p)"
proof -
  let ?B = "optab_rows1 @ optab_rows2 @ optab_rows3"
  let ?rs = "map (\<lambda>r. if o_flag r AND VFP \<noteq> 0 \<and> \<not> debugf then r\<lparr>o_as := AXXX\<rparr> else r) ?B"
  have e: "fst (adjust debugf (\<not> False) optab_rows) = ?rs"
    unfolding optab_rows_def not_False_eq_True by (rule adjust_map [OF optab_live]) simp
  have "rules t ! k \<in> set ?rs" "o_as (rules t ! k) = rep (p_as p)"
    using oplook_range [OF built_prepared [OF assms(1), unfolded e] assms(2,3)] assms(4) by simp_all
  then show "\<exists>r \<in> set ?B. rules t ! k = r \<or> rules t ! k = r\<lparr>o_as := AXXX\<rparr>" "o_as (rules t ! k) = rep (p_as p)"
    by (auto split: if_splits)
qed

lemma built_sizes:
  assumes "buildop debugf False optab_rows l0 = (Inr t, l0')" and "oplook t p l = (Inr (q, k), l')" and "p_optab p = 0" and "p_optab q \<noteq> 0"
  shows "o_size (rules t ! k) = 0 \<and> \<not> takes_literal (rules t ! k) \<or> o_size (rules t ! k) \<in> {4, 8, 12, 16, 24}"
  using built_row(1) [OF assms] size_rows [unfolded list_all_iff] by (auto simp: takes_literal_def pool_flag_def simp del: set_append)

lemma built_min:
  assumes "buildop debugf False optab_rows l0 = (Inr t, l0')" and "oplook t p l = (Inr (q, k), l')" and "p_optab p = 0" and "p_optab q \<noteq> 0"
  shows "o_size (rules t ! k) = 0 \<and> \<not> takes_literal (rules t ! k) \<or> 4 \<le> o_size (rules t ! k)"
  using built_sizes [OF assms] by auto

lemma quiet_rule:
  assumes "buildop debugf False optab_rows l0 = (Inr t, l0')" and "oplook t p l = (Inr (q, k), l')"
    and "p_as p = AWORD \<or> p_as p = AB" and "p_optab p = 0"
  shows "\<not> takes_literal (rules t ! k) \<and> o_size (rules t ! k) = 4"
proof -
  obtain rs where rs: "prepared t rs" "\<And>r. r \<in> set rs \<Longrightarrow> r \<in> set (optab_rows1 @ optab_rows2 @ optab_rows3) \<or> o_as r = AXXX"
    "\<And>a. a \<in> {AB, ABEQ, AWORD, ACASE} \<Longrightarrow> \<exists>r \<in> set rs. o_as r = a"
    using built_rows [OF assms(1)] by blast
  define nx where "nx = (if p_as p = AWORD then ACASE else ABEQ)"
  have nx: "nx \<in> {AB, ABEQ, AWORD, ACASE}" by (simp add: nx_def)
  have rp: "rep (p_as p) = p_as p" using assms(3) by (auto simp: rep_def opsets_def)
  have q: "rules t ! k \<in> set rs \<and> p_as p \<le> o_as (rules t ! k) \<and> o_as (rules t ! k) \<le> nx"
    using oplook_range [OF rs(1) assms(2,4)]
  proof (elim disjE conjE)
    assume "rules t ! k \<in> set rs" "o_as (rules t ! k) = rep (p_as p)"
    then show ?thesis using rp assms(3) by (auto simp: nx_def)
  next
    assume k: "case oprange t (p_as p) of None \<Rightarrow> k = 0 | Some (s, e) \<Rightarrow> k = e"
    obtain r where "r \<in> set rs" "o_as r = p_as p" using rs(3) [of "p_as p"] assms(3) by auto
    then have "oprange t (p_as p) \<noteq> None"
      using prepared_range [OF rs(1), of "p_as p"] prepared_index [OF rs(1)] rp by (cases "oprange t (p_as p)") force+
    then obtain s e where se: "oprange t (p_as p) = Some (s, e)" by fastforce
    obtain r where "r \<in> set rs" "o_as r = nx" using rs(3) [of nx] nx by auto
    then show ?thesis using next_rule [OF rs(1) se, of r] rp assms(3) k se by (auto simp: nx_def)
  qed
  then have "AB \<le> o_as (rules t ! k) \<and> o_as (rules t ! k) \<le> ABEQ \<or> AWORD \<le> o_as (rules t ! k) \<and> o_as (rules t ! k) \<le> ACASE"
    using assms(3) by (auto simp: nx_def)
  moreover have "rules t ! k \<in> set (optab_rows1 @ optab_rows2 @ optab_rows3)"
    using q rs(2) [of "rules t ! k"] assms(3) by auto
  ultimately show ?thesis using quiet_rows(1) unfolding list_all_iff by blast
qed

section \<open>The loop ends\<close>

text \<open>
  Each instruction of the program puts at most one word in a pool, and a pool that is put into the
  list comes with at most one branch; neither takes a literal of its own.
\<close>

definition work :: "node list \<Rightarrow> pool \<Rightarrow> nat" where
  "work todo pl = sum_list (map (\<lambda>n. if quiet n then 1 else 3) todo) + 2 * length (blitrl pl)"

lemma work_quiet: "list_all quiet ns \<Longrightarrow> sum_list (map (\<lambda>n. if quiet n then 1 else 3) ns) = length ns"
  by (induction ns) auto

lemma added_quiet:
  assumes "added ot p pl l p' pl' l'" and "list_all quiet (blitrl pl)"
  shows "list_all quiet (blitrl pl')" and "length (blitrl pl') \<le> length (blitrl pl) + (if takes_literal ot then 1 else 0)"
  using assms by (auto simp: added_def with_word_def split: if_splits)

lemma flushed_work:
  assumes "flushed ot p pl rest rest' pl'" and "list_all quiet (blitrl pl)"
  shows "list_all quiet (blitrl pl')" and "work rest' pl' \<le> work rest pl"
proof -
  show "list_all quiet (blitrl pl')" using assms by (auto simp: flushed_def empty_pool_def)
  have "Suc 0 \<le> length (blitrl pl)" if "blitrl pl \<noteq> []" using that by (cases "blitrl pl") simp_all
  then show "work rest' pl' \<le> work rest pl"
    using assms work_quiet [OF assms(2)] by (auto simp: flushed_def empty_pool_def work_def)
qed

lemma text_one_work:
  assumes "buildop debugf False optab_rows l0 = (Inr t, l0')" and "text_one t c pl p rest l = (Inr (c', pl', p', rest'), l')"
    and "list_all quiet (blitrl pl)"
  shows "list_all quiet (blitrl pl') \<and> work rest' pl' < work (p # rest) pl"
  using assms(2)
proof (cases rule: text_one_elim)
  case 1
  then show ?thesis using assms(3) by (simp add: work_def)
next
  case (2 q k l1 l2 x)
  note a = added_quiet [OF 2(4) assms(3)] and f = flushed_work [OF 2(5)]
  have "length (blitrl x) \<le> length (blitrl pl)" if "quiet p"
    using quiet_rule [OF assms(1) 2(1)] that a(2) by (auto simp: quiet_def)
  then have "work rest x < work (p # rest) pl" using a(2) by (auto simp: work_def split: if_splits)
  then show ?thesis using a(1) f by fastforce
qed

lemma text_loop_ends:
  assumes "buildop debugf False optab_rows l0 = (Inr t, l0')" and "list_all quiet (blitrl pl)"
  shows "text_loop t c pl ns todo l \<noteq> None"
  using assms(2)
proof (induction "work todo pl" arbitrary: c pl ns todo l rule: less_induct)
  case less
  show ?case
  proof (cases todo)
    case Nil
    then show ?thesis by (subst text_loop.simps) simp
  next
    case (Cons p rest)
    obtain r l1 where o: "text_one t c pl p rest l = (r, l1)" by fastforce
    show ?thesis
    proof (cases r)
      case (Inl e)
      then show ?thesis using Cons o by (subst text_loop.simps) simp
    next
      case (Inr y)
      obtain c' pl' p' rest' where y: "y = (c', pl', p', rest')" by (cases y) auto
      have "list_all quiet (blitrl pl')" "work rest' pl' < work todo pl"
        using text_one_work [OF assms(1) _ less(2)] o Inr y Cons by auto
      then show ?thesis using less(1) Cons o Inr y by (subst text_loop.simps) auto
    qed
  qed
qed

text \<open>
  C17: the layout of the text ends for every program, although the list it goes
  over grows by the pools: also when operands have no rule, when labels are undefined and whatever
  the addresses are.
\<close>

theorem dotext_always_returns:
  assumes "buildop debugf False optab_rows l0 = (Inr t, l0')"
  shows "\<exists>r. dotext t debugt INITTEXT INITRND tab nid firstp l = Some r"
proof -
  have "text_loop t INITTEXT \<lparr>blitrl = [], pool_start = 0, pool_size = 0, fresh = nid\<rparr> [] firstp l \<noteq> None"
    by (rule text_loop_ends [OF assms]) simp
  then show ?thesis by (auto simp: dotext_def split: sum.splits)
qed

text \<open>An instruction that loads the constant \<open>0x12345678\<close>.\<close>

definition demo_node :: node where
  "demo_node = \<lparr>n_id = 0, n_prog = demo_prog AMOVW ((reg_adr R_NONE)\<lparr>a_type := D_CONST, a_offset := 0x12345678\<rparr>) R_NONE (reg_adr 1), n_ref = NoRef\<rparr>"

theorem dotext_always_returns_witness:
  "\<exists>t r. buildop False False optab_rows demo_lnk = (Inr t, demo_lnk) \<and>
    dotext t True 0x1000 0x1000 demo_tab 1 [demo_node, demo_node] demo_lnk = Some r"
  using default_builds dotext_always_returns by blast

section \<open>Invariants of the loop\<close>

text \<open>What every round keeps, of the linker's state too, holds at the end.\<close>

locale text_state_invariant =
  fixes t :: tables and J :: "u64 \<Rightarrow> pool \<Rightarrow> node list \<Rightarrow> node list \<Rightarrow> lnk \<Rightarrow> bool"
  assumes state_round: "J c pl ns (p # rest) l \<Longrightarrow> text_one t c pl p rest l = (Inr (c', pl', p', rest'), l') \<Longrightarrow>
    J c' pl' (ns @ [p']) rest' l'"
begin

lemma loop_keeps_state:
  assumes "text_loop t c pl ns todo l = Some (Inr (c', ns'), l')" and "J c pl ns todo l"
  shows "\<exists>pl'. J c' pl' ns' [] l'"
proof -
  have "t0 = t \<longrightarrow> (\<forall>c' ns' l'. y = (Inr (c', ns'), l') \<longrightarrow> J c pl ns todo l \<longrightarrow> (\<exists>pl'. J c' pl' ns' [] l'))"
    if "text_loop t0 c pl ns todo l = Some y" for t0 y
    using that
  proof (rule text_loop.raw_induct [rotated])
    fix f t0 c pl ns todo l y
    assume IH: "\<And>t0 c pl ns todo l y. f t0 c pl ns todo l = Some y \<Longrightarrow>
        t0 = t \<longrightarrow> (\<forall>c' ns' l'. y = (Inr (c', ns'), l') \<longrightarrow> J c pl ns todo l \<longrightarrow> (\<exists>pl'. J c' pl' ns' [] l'))"
      and e: "(case todo of [] \<Rightarrow> Some (Inr (c, ns), l)
        | p # rest \<Rightarrow> (case text_one t0 c pl p rest l of (Inl e, l) \<Rightarrow> Some (Inl e, l)
            | (Inr (c, pl, p, rest), l) \<Rightarrow> f t0 c pl (ns @ [p]) rest l)) = Some y"
    show "t0 = t \<longrightarrow> (\<forall>c' ns' l'. y = (Inr (c', ns'), l') \<longrightarrow> J c pl ns todo l \<longrightarrow> (\<exists>pl'. J c' pl' ns' [] l'))"
    proof (intro impI allI)
      fix c' ns' l'
      assume a: "t0 = t" "y = (Inr (c', ns'), l')" "J c pl ns todo l"
      show "\<exists>pl'. J c' pl' ns' [] l'"
      proof (cases todo)
        case Nil
        then show ?thesis using a e by auto
      next
        case (Cons p rest)
        obtain r l1 where r: "text_one t c pl p rest l = (r, l1)" by fastforce
        then obtain c1 pl1 p1 rest1 where s: "r = Inr (c1, pl1, p1, rest1)" using a e Cons by (cases r) auto
        then have "f t c1 pl1 (ns @ [p1]) rest1 l1 = Some y" using a e Cons r by simp
        moreover have "J c1 pl1 (ns @ [p1]) rest1 l1" using state_round a Cons r s by blast
        ultimately show ?thesis using IH a by blast
      qed
    qed
  qed
  then show ?thesis using assms by blast
qed

end

text \<open>An invariant that does not look at the state is a special case.\<close>

locale text_invariant =
  fixes t :: tables and I :: "u64 \<Rightarrow> pool \<Rightarrow> node list \<Rightarrow> node list \<Rightarrow> bool"
  assumes round: "I c pl ns (p # rest) \<Longrightarrow> text_one t c pl p rest l = (Inr (c', pl', p', rest'), l') \<Longrightarrow> I c' pl' (ns @ [p']) rest'"

sublocale text_invariant \<subseteq> any_state: text_state_invariant t "\<lambda>c pl ns todo l. I c pl ns todo"
  by unfold_locales (rule round)

context text_invariant
begin

lemma loop_keeps:
  "text_loop t c pl ns todo l = Some (Inr (c', ns'), l') \<Longrightarrow> I c pl ns todo \<Longrightarrow> \<exists>pl'. I c' pl' ns' []"
  by (rule any_state.loop_keeps_state)

end

end
