(* ===== verification/Link5_Pools.thy ===== *)
theory Link5_Pools
  imports Link5_Layout
begin

text \<open>
  What \<^verbatim>\<open>dotext\<close> makes of a program: the instructions in their order at consecutive addresses, with
  pools of words between them that control never enters, so that every instruction that loads a
  large constant reaches its word.
\<close>

section \<open>Addresses\<close>

definition node_rule :: "tables \<Rightarrow> node \<Rightarrow> optab" where
  "node_rule t n = rules t ! (p_optab (n_prog n) - 1)"

definition node_size :: "tables \<Rightarrow> node \<Rightarrow> nat" where
  "node_size t n = o_size (node_rule t n)"

text \<open>Every instruction was given a rule.\<close>

definition ruled :: "node list \<Rightarrow> bool" where
  "ruled ns \<longleftrightarrow> list_all (\<lambda>n. p_optab (n_prog n) \<noteq> 0) ns"

fun chain :: "tables \<Rightarrow> u64 \<Rightarrow> node list \<Rightarrow> u64 \<Rightarrow> bool" where
  "chain t a [] c \<longleftrightarrow> a = c"
| "chain t a (n # ns) c \<longleftrightarrow> p_pc (n_prog n) = a \<and> chain t (a + of_nat (node_size t n)) ns c"

lemma chain_append: "chain t a (ns @ ms) c \<longleftrightarrow> (\<exists>b. chain t a ns b \<and> chain t b ms c)"
  by (induction ns arbitrary: a) auto

lemma added_same: "added ot p pl l p' x l' \<Longrightarrow> n_prog p' = n_prog p \<and> n_id p' = n_id p"
  by (auto simp: added_def split: if_splits)

text \<open>The instruction of a round: its address, its rule and what stays of it.\<close>

lemma text_one_node:
  assumes "text_one t c pl p rest l = (Inr (c', pl', p', rest'), l')"
  shows "n_id p' = n_id p" and "p_pc (n_prog p') = c"
    and "\<exists>x y j. n_prog p' = (n_prog p)\<lparr>p_pc := c, p_from := (p_from (n_prog p))\<lparr>a_class := x\<rparr>, p_to := (p_to (n_prog p))\<lparr>a_class := y\<rparr>, p_optab := j\<rparr>"
    and "p_optab (n_prog p') \<noteq> 0 \<Longrightarrow> c' = c + of_nat (node_size t p')"
proof -
  obtain q k l1 l2 where q: "oplook t ((n_prog p)\<lparr>p_pc := c\<rparr>) l1 = (Inr (q, k), l2)" "c' = c + of_nat (o_size (rules t ! k))"
    "n_id p' = n_id p" "n_prog p' = q"
    using assms
  proof (cases rule: text_one_elim)
    case (1 q k l1 l2)
    then show thesis using that [of l1 q k l2] by simp
  next
    case (2 q k l1 l2 x)
    then show thesis using that [of l1 q k l2] added_same [OF 2(4)] by simp
  qed
  show "n_id p' = n_id p" by (rule q(3))
  show s: "\<exists>x y j. n_prog p' = (n_prog p)\<lparr>p_pc := c, p_from := (p_from (n_prog p))\<lparr>a_class := x\<rparr>, p_to := (p_to (n_prog p))\<lparr>a_class := y\<rparr>, p_optab := j\<rparr>"
    using oplook_same [OF q(1)] q(4) by auto
  then show "p_pc (n_prog p') = c" by auto
  show "c' = c + of_nat (node_size t p')" if "p_optab (n_prog p') \<noteq> 0"
    using that oplook_memo [OF q(1)] q(2,4) by (simp add: node_size_def node_rule_def)
qed

interpretation addresses: text_invariant t "\<lambda>c pl ns todo. ruled ns \<longrightarrow> chain t init ns c" for t init
proof
  fix c pl ns p rest l c' pl' p' rest' l'
  assume I: "ruled ns \<longrightarrow> chain t init ns c" and o: "text_one t c pl p rest l = (Inr (c', pl', p', rest'), l')"
  show "ruled (ns @ [p']) \<longrightarrow> chain t init (ns @ [p']) c'"
    using I text_one_node [OF o] by (auto simp: ruled_def chain_append)
qed

section \<open>Where the pools are\<close>

text \<open>
  Nodes with an identity of at least \<open>nid\<close> are made by the layout. Those that still wait are in front,
  and then the pool that is being collected is empty.
\<close>

definition made :: "nat \<Rightarrow> node \<Rightarrow> bool" where
  "made nid n \<longleftrightarrow> nid \<le> n_id n"

definition built :: "tables \<Rightarrow> bool" where
  "built t \<longleftrightarrow> (\<exists>debugf l l'. buildop debugf False optab_rows l = (Inr t, l'))"

definition shape :: "tables \<Rightarrow> nat \<Rightarrow> u64 \<Rightarrow> pool \<Rightarrow> node list \<Rightarrow> node list \<Rightarrow> bool" where
  "shape t nid c pl ns todo \<longleftrightarrow> built t \<and> nid \<le> fresh pl \<and>
     list_all quiet (takeWhile (made nid) todo) \<and>
     list_all (\<lambda>n. \<not> made nid n \<and> fresh_prog (n_prog n)) (dropWhile (made nid) todo) \<and>
     (takeWhile (made nid) todo \<noteq> [] \<longrightarrow> blitrl pl = []) \<and>
     list_all (\<lambda>n. made nid n \<and> quiet n \<and> p_as (n_prog n) = AWORD) (blitrl pl) \<and>
     distinct (map n_id (ns @ blitrl pl @ todo)) \<and> list_all (\<lambda>n. n_id n < fresh pl) (ns @ blitrl pl @ todo)"

text \<open>A round on a node of the layout, and on a node of the program.\<close>

lemma shape_round:
  assumes "shape t nid c pl ns (p # rest)" and "text_one t c pl p rest l = (Inr (c', pl', p', rest'), l')"
  obtains (made) "made nid p" "blitrl pl = []" "quiet p" "pl' = pl" "rest' = rest" "c' = c + 4" "n_ref p' = n_ref p"
      "p_optab (n_prog p') \<noteq> 0 \<Longrightarrow> \<not> takes_literal (node_rule t p')"
  | (program) ot l2 x where "\<not> made nid p" "fresh_prog (n_prog p)" "list_all (\<lambda>n. \<not> made nid n \<and> fresh_prog (n_prog n)) rest"
      "c' = c + of_nat (o_size ot)" "p_optab (n_prog p') \<noteq> 0 \<Longrightarrow> ot = node_rule t p' \<and> (o_size ot = 0 \<and> \<not> takes_literal ot \<or> 4 \<le> o_size ot)"
      "o_size ot = 0 \<and> x = pl \<and> pl' = pl \<and> rest' = rest \<and> n_ref p' = n_ref p \<or>
       o_size ot \<noteq> 0 \<and> added ot (p\<lparr>n_prog := n_prog p'\<rparr>) pl l2 p' x l' \<and> flushed ot p' x rest rest' pl'"
      "autosize l2 = entered (autosize l) (n_prog p)"
  using assms(2)
proof (cases rule: text_one_elim)
  case (1 q k l1 l2)
  show thesis
  proof (cases "made nid p")
    case True
    then have "quiet p" using assms(1) by (simp add: shape_def)
    then show thesis using quiet_rule [OF _ 1(1)] assms(1) 1 by (auto simp: quiet_def shape_def built_def)
  next
    case False
    have m: "rules t ! k = node_rule t p' \<and> (o_size (rules t ! k) = 0 \<and> \<not> takes_literal (rules t ! k) \<or> 4 \<le> o_size (rules t ! k))"
      if "p_optab (n_prog p') \<noteq> 0"
      using that oplook_memo [OF 1(1)] built_min [OF _ 1(1)] 1(6) assms(1) False by (auto simp: node_rule_def shape_def built_def fresh_prog_def)
    show thesis by (rule program [of "rules t ! k" pl l2]) (use False assms(1) 1 m in \<open>auto simp: shape_def\<close>)
  qed
next
  case (2 q k l1 l2 x)
  show thesis
  proof (cases "made nid p")
    case True
    then have q: "quiet p" "blitrl pl = []" using assms(1) by (simp_all add: shape_def)
    then have r: "\<not> takes_literal (rules t ! k)" "o_size (rules t ! k) = 4"
      using quiet_rule [OF _ 2(1)] assms(1) by (auto simp: quiet_def shape_def built_def)
    then have x: "x = pl" "n_ref p' = n_ref p" "n_prog p' = n_prog (p\<lparr>n_prog := q\<rparr>)" using 2(4) by (simp_all add: added_def)
    have m: "\<not> takes_literal (node_rule t p')" if "p_optab (n_prog p') \<noteq> 0"
      using that oplook_memo [OF 2(1)] x(3) r(1) by (simp add: node_rule_def)
    show thesis by (rule made) (use True q r x m 2(2,5) in \<open>auto simp: flushed_def\<close>)
  next
    case False
    have q: "n_prog p' = q" using added_same [OF 2(4)] by simp
    have m: "rules t ! k = node_rule t p' \<and> (o_size (rules t ! k) = 0 \<and> \<not> takes_literal (rules t ! k) \<or> 4 \<le> o_size (rules t ! k))"
      if "p_optab (n_prog p') \<noteq> 0"
      using that oplook_memo [OF 2(1)] built_min [OF _ 2(1)] q assms(1) False by (auto simp: node_rule_def shape_def built_def fresh_prog_def)
    show thesis by (rule program [of "rules t ! k" x l2]) (use False assms(1) 2 m q in \<open>auto simp: shape_def\<close>)
  qed
qed

lemma program_front:
  assumes "list_all (\<lambda>n. \<not> made nid n \<and> fresh_prog (n_prog n)) rest"
  shows "takeWhile (made nid) rest = []" and "dropWhile (made nid) rest = rest"
    and "list_all (made nid) ins \<Longrightarrow> takeWhile (made nid) (ins @ rest) = ins"
    and "list_all (made nid) ins \<Longrightarrow> dropWhile (made nid) (ins @ rest) = rest"
proof -
  show a: "takeWhile (made nid) rest = []" and b: "dropWhile (made nid) rest = rest" using assms by (cases rest; simp)+
  show "takeWhile (made nid) (ins @ rest) = ins" "dropWhile (made nid) (ins @ rest) = rest" if "list_all (made nid) ins"
    using that a b by (auto simp: list_all_iff)
qed

lemma shape_done: "shape t nid c pl ns (p # rest) \<Longrightarrow> n_id p' = n_id p \<Longrightarrow> shape t nid c' pl (ns @ [p']) rest"
  by (auto simp: shape_def program_front(1,2) split: if_splits)

lemma shape_added:
  assumes "shape t nid c pl ns todo" and "takeWhile (made nid) todo = []" and "added ot p pl l p' x l'"
  shows "shape t nid c x ns todo"
proof -
  have "shape t nid c (with_word p a pl) ns todo" for a
    using assms(1,2) by (auto simp: shape_def with_word_def pool_word_def prg_def made_def list_all_iff quiet_def zprg_def intro!: less_SucI)
  then show ?thesis using assms(1,3) by (auto simp: added_def split: if_splits)
qed

lemma skip_branch_id [simp]: "n_id (skip_branch i rest) = i"
  by (simp add: skip_branch_def prg_def)

lemma shape_flushed:
  assumes "shape t nid c pl ns rest" and "list_all (\<lambda>n. \<not> made nid n \<and> fresh_prog (n_prog n)) rest"
    and "flushed ot p pl rest rest' pl'"
  shows "shape t nid c pl' ns rest'"
proof -
  have b: "list_all (made nid) (blitrl pl)" "list_all (made nid) (skip_branch (fresh pl) rest # blitrl pl)"
    using assms(1) by (auto simp: shape_def list_all_iff made_def)
  note f = program_front [OF assms(2)]
  have 1: "shape t nid c (empty_pool (fresh pl)) ns (blitrl pl @ rest)"
    using assms(1,2) b(1) by (auto simp: shape_def f empty_pool_def list_all_iff)
  have 2: "shape t nid c (empty_pool (fresh pl + 1)) ns ((skip_branch (fresh pl) rest # blitrl pl) @ rest)"
    using assms(1,2) unfolding shape_def f(3,4) [OF b(2)] by (auto simp: empty_pool_def list_all_iff intro!: less_SucI)
  show ?thesis using assms(1,3) 1 2 by (auto simp: flushed_def)
qed

interpretation shapes: text_invariant t "shape t nid" for t nid
proof
  fix c pl ns p rest l c' pl' p' rest' l'
  assume I: "shape t nid c pl ns (p # rest)" and o: "text_one t c pl p rest l = (Inr (c', pl', p', rest'), l')"
  note d = shape_done [OF I text_one_node(1) [OF o], of c']
  from I o show "shape t nid c' pl' (ns @ [p']) rest'"
  proof (cases rule: shape_round)
    case made
    then show ?thesis using d by simp
  next
    case (program ot l2 x)
    then show ?thesis using d shape_flushed [OF shape_added [OF d program_front(1)]] by blast
  qed
qed

text \<open>Every rule was found by a search.\<close>

definition looked :: "tables \<Rightarrow> nat \<Rightarrow> node \<Rightarrow> bool" where
  "looked t nid n \<longleftrightarrow> (p_optab (n_prog n) \<noteq> 0 \<longrightarrow>
     (\<exists>p l l'. p_optab p = 0 \<and> (\<not> made nid n \<longrightarrow> fresh_prog p) \<and> oplook t p l = (Inr (n_prog n, p_optab (n_prog n) - 1), l')))"

interpretation looking: text_invariant t "\<lambda>c pl ns todo. shape t nid c pl ns todo \<and> list_all (looked t nid) ns" for t nid
proof
  fix c pl ns p rest l c' pl' p' rest' l'
  assume I: "shape t nid c pl ns (p # rest) \<and> list_all (looked t nid) ns" and o: "text_one t c pl p rest l = (Inr (c', pl', p', rest'), l')"
  have z: "p_optab (n_prog p) = 0" "\<not> made nid p \<Longrightarrow> fresh_prog ((n_prog p)\<lparr>p_pc := c\<rparr>)"
    using I by (cases "made nid p"; auto simp: shape_def quiet_def fresh_prog_def)+
  obtain q k l1 l2 where q: "oplook t ((n_prog p)\<lparr>p_pc := c\<rparr>) l1 = (Inr (q, k), l2)" "n_prog p' = q"
    using o
  proof (cases rule: text_one_elim)
    case (1 q k l1 l2)
    then show thesis using that by simp
  next
    case (2 q k l1 l2 x)
    then show thesis using that added_same [OF 2(4)] by simp
  qed
  have "looked t nid p'" unfolding looked_def
  proof
    assume "p_optab (n_prog p') \<noteq> 0"
    then have "p_optab (n_prog p') - 1 = k" using oplook_memo [OF q(1)] q(2) by simp
    then show "\<exists>p l l'. p_optab p = 0 \<and> (\<not> made nid p' \<longrightarrow> fresh_prog p) \<and> oplook t p l = (Inr (n_prog p', p_optab (n_prog p') - 1), l')"
      using q z text_one_node(1) [OF o] by (intro exI [of _ "(n_prog p)\<lparr>p_pc := c\<rparr>"] exI [of _ l1] exI [of _ l2]) (simp add: made_def)
  qed
  then show "shape t nid c' pl' (ns @ [p']) rest' \<and> list_all (looked t nid) (ns @ [p'])" using shapes.round I o by simp blast
qed

section \<open>The program is kept\<close>

text \<open>What the layout keeps of an instruction: everything but its address, its rule and the classes of its operands.\<close>

definition skel :: "node \<Rightarrow> nat \<times> prog" where
  "skel n = (n_id n, (n_prog n)\<lparr>p_pc := 0, p_optab := 0, p_from := (p_from (n_prog n))\<lparr>a_class := 0\<rparr>,
     p_to := (p_to (n_prog n))\<lparr>a_class := 0\<rparr>\<rparr>)"

lemma skel_one: "text_one t c pl p rest l = (Inr (c', pl', p', rest'), l') \<Longrightarrow> skel p' = skel p"
  using text_one_node(1,3) by (fastforce simp: skel_def)


definition kept :: "nat \<Rightarrow> node list \<Rightarrow> node list \<Rightarrow> bool" where
  "kept nid prog ns \<longleftrightarrow> map skel (filter (\<lambda>n. \<not> made nid n) ns) = map skel prog"

lemma flushed_filter:
  assumes "shape t nid c x ns rest" and "flushed ot p x rest rest' pl'"
  shows "filter (\<lambda>n. \<not> made nid n) rest' = filter (\<lambda>n. \<not> made nid n) rest"
proof -
  have "filter (\<lambda>n. \<not> made nid n) (blitrl x) = []" "made nid (skip_branch (fresh x) rest)"
    using assms(1) by (auto simp: shape_def list_all_iff made_def filter_empty_conv)
  then show ?thesis using assms(2) by (auto simp: flushed_def)
qed

lemma round_filter:
  assumes "shape t nid c pl ns (p # rest)" and "text_one t c pl p rest l = (Inr (c', pl', p', rest'), l')"
  shows "filter (\<lambda>n. \<not> made nid n) rest' = filter (\<lambda>n. \<not> made nid n) rest"
  using assms
proof (cases rule: shape_round)
  case (program ot l2 x)
  then show ?thesis using flushed_filter [OF shape_added [OF shape_done [OF assms(1) text_one_node(1) [OF assms(2)]] program_front(1)]] by blast
qed simp

interpretation keeping: text_invariant t "\<lambda>c pl ns todo. shape t nid c pl ns todo \<and> kept nid prog (ns @ todo)" for t nid prog
proof
  fix c pl ns p rest l c' pl' p' rest' l'
  assume I: "shape t nid c pl ns (p # rest) \<and> kept nid prog (ns @ p # rest)" and o: "text_one t c pl p rest l = (Inr (c', pl', p', rest'), l')"
  note s = shapes.round [OF conjunct1 [OF I] o] and f = round_filter [OF conjunct1 [OF I] o]
  have "made nid p' = made nid p" using text_one_node(1) [OF o] by (simp add: made_def)
  then show "shape t nid c' pl' (ns @ [p']) rest' \<and> kept nid prog ((ns @ [p']) @ rest')"
    using I s f skel_one [OF o] by (auto simp: kept_def)
qed

section \<open>Pools are in reach\<close>

text \<open>
  The offset of a load relative to the program counter has twelve bits and a sign, and the counter is
  eight bytes ahead.
\<close>

definition npc :: "node \<Rightarrow> int" where
  "npc n = uint (p_pc (n_prog n))"

definition hits :: "int \<Rightarrow> int \<Rightarrow> bool" where
  "hits w n \<longleftrightarrow> - 4 \<le> w - (n + 8) \<and> w - (n + 8) \<le> 4095"

text \<open>An operand with a symbol is its own literal.\<close>

lemma literal_symbol:
  assumes "aclass a l = (Inr c, l')" and "(a_type a = D_OREG \<or> a_type a = D_ADDR) \<and> a_symkind a \<in> {N_EXTERN, N_INTERN}"
  shows "literal a c off = a"
proof -
  have "c \<notin> {C_SROREG, C_LOREG, C_ROREG, C_FOREG, C_SOREG, C_FAUTO, C_SAUTO, C_LAUTO, C_LACON}"
    using assms by (auto simp: aclass_def aclass_ext_def aclass_addr_ext_def set_off_def seq_def offclass_def Let_def
        elim!: bindE split: option.splits if_splits)
  then show ?thesis unfolding literal_def by (rule if_not_P)
qed

text \<open>
  The operand \<open>b\<close> is the literal for the operand \<open>a\<close> in a function with frame size \<open>z\<close>. The classification
  of \<open>a\<close> depends on more of the linker's state, the literal does not: there is only one
  (\<open>literal_unique\<close>).
\<close>

definition same_operand :: "adr \<Rightarrow> adr \<Rightarrow> bool" where
  "same_operand a b \<longleftrightarrow> a\<lparr>a_class := 0\<rparr> = b\<lparr>a_class := 0\<rparr>"

definition literal_for :: "u64 \<Rightarrow> adr \<Rightarrow> adr \<Rightarrow> bool" where
  "literal_for z a b \<longleftrightarrow> (\<exists>l c l'. autosize l = z \<and> aclass a l = (Inr c, l') \<and> same_operand b (literal a c (instoffset l')))"

lemma literal_unique:
  assumes "literal_for z a b" and "literal_for z a b'"
  shows "same_operand b b'"
proof -
  have "literal a c (instoffset l') = literal a d (instoffset k')"
    if "aclass a l = (Inr c, l')" "aclass a k = (Inr d, k')" "autosize l = autosize k" for l c l' k d k'
  proof (cases "a_type a = D_OREG \<and> a_symkind a \<in> {N_EXTERN, N_INTERN} \<or> a_type a = D_ADDR \<and> a_symkind a \<in> {N_EXTERN, N_INTERN}")
    case True
    then have "literal a c (instoffset l') = a" "literal a d (instoffset k') = a"
      using literal_symbol [OF that(1)] literal_symbol [OF that(2)] by blast+
    then show ?thesis by simp
  next
    case False
    have s: "bind (gets f) (\<lambda>v. set_off v (g v)) m = (Inr (g (f m)), m\<lparr>instoffset := f m\<rparr>)" for f g m
      by (simp add: set_off_def seq_def bind_def gets_def modify_def)
    show ?thesis using that False
      by (cases "a_type a"; cases "a_symkind a") (auto simp: aclass_def s set_off_def seq_def bind_def Let_def literal_def split: if_splits)
  qed
  then show ?thesis using assms unfolding literal_for_def same_operand_def by metis
qed

text \<open>The word \<open>w\<close> holds what the instruction \<open>n\<close>, in a function with frame size \<open>z\<close>, is to load.\<close>

definition word_for :: "tables \<Rightarrow> u64 \<Rightarrow> node \<Rightarrow> node \<Rightarrow> bool" where
  "word_for t z n w \<longleftrightarrow> n_ref n = Ref (n_id w) \<and> p_as (n_prog w) = AWORD \<and>
     literal_for z (literal_operand (node_rule t n) (n_prog n)) (p_to (n_prog w))"

text \<open>The frame size at the instruction with identity \<open>i\<close>: that of the last \<^verbatim>\<open>TEXT\<close> at or before it.\<close>

fun frame_at :: "u64 \<Rightarrow> node list \<Rightarrow> nat \<Rightarrow> u64" where
  "frame_at z [] i = z"
| "frame_at z (n # ns) i = (if n_id n = i then entered z (n_prog n) else frame_at (entered z (n_prog n)) ns i)"

fun frames :: "(nat \<Rightarrow> u64) \<Rightarrow> u64 \<Rightarrow> node list \<Rightarrow> bool" where
  "frames az z [] \<longleftrightarrow> True"
| "frames az z (n # ns) \<longleftrightarrow> az (n_id n) = entered z (n_prog n) \<and> frames az (entered z (n_prog n)) ns"

lemma frames_cong: "(\<And>n. n \<in> set ns \<Longrightarrow> az (n_id n) = az' (n_id n)) \<Longrightarrow> frames az z ns = frames az' z ns"
  by (induction ns arbitrary: z) auto

lemma frames_at: "distinct (map n_id ns) \<Longrightarrow> frames (frame_at z ns) z ns"
proof (induction ns arbitrary: z)
  case (Cons n ns)
  let ?z = "entered z (n_prog n)"
  have "frames (frame_at z (n # ns)) ?z ns = frames (frame_at ?z ns) ?z ns"
    using Cons.prems by (intro frames_cong) (auto simp: image_iff)
  also have "\<dots>" using Cons by simp
  finally show ?case unfolding frames.simps by (intro conjI) simp
qed simp

text \<open>The word of \<open>n\<close> has its address, waits to be given one, or is in the pool that is collected.\<close>

definition resolved :: "tables \<Rightarrow> (nat \<Rightarrow> u64) \<Rightarrow> node list \<Rightarrow> node \<Rightarrow> bool" where
  "resolved t az ns n \<longleftrightarrow> (\<exists>w \<in> set ns. word_for t (az (n_id n)) n w \<and> hits (npc w) (npc n))"

definition waiting :: "tables \<Rightarrow> (nat \<Rightarrow> u64) \<Rightarrow> int \<Rightarrow> node list \<Rightarrow> node \<Rightarrow> bool" where
  "waiting t az c ins n \<longleftrightarrow> (\<exists>j < length ins. word_for t (az (n_id n)) n (ins ! j) \<and> hits (c + 4 * int j) (npc n))"

definition pending :: "tables \<Rightarrow> (nat \<Rightarrow> u64) \<Rightarrow> int \<Rightarrow> pool \<Rightarrow> node \<Rightarrow> bool" where
  "pending t az c pl n \<longleftrightarrow> (\<exists>j < length (blitrl pl). word_for t (az (n_id n)) n (blitrl pl ! j) \<and>
     uint (pool_start pl) + 4 * int j \<le> npc n \<and> npc n + 4 \<le> c)"

text \<open>Every instruction has a rule of at most three words, and the addresses do not wrap round.\<close>

definition small :: "tables \<Rightarrow> u64 \<Rightarrow> node list \<Rightarrow> bool" where
  "small t init ns \<longleftrightarrow> ruled ns \<and> list_all (\<lambda>n. node_size t n \<le> 12) ns \<and> uint init + 12 * int (length ns) < 2 ^ 61"

definition in_reach :: "tables \<Rightarrow> (nat \<Rightarrow> u64) \<Rightarrow> nat \<Rightarrow> u64 \<Rightarrow> u64 \<Rightarrow> pool \<Rightarrow> node list \<Rightarrow> node list \<Rightarrow> bool" where
  "in_reach t az nid init c pl ns todo \<longleftrightarrow>
     uint init \<le> uint c \<and> uint c \<le> uint init + 12 * int (length ns) \<and>
     pool_size pl = of_nat (4 * length (blitrl pl)) \<and>
     (blitrl pl \<noteq> [] \<longrightarrow> uint (pool_start pl) + 4 * int (length (blitrl pl)) \<le> uint c \<and>
        uint c + 4 * int (length (blitrl pl)) + 4 \<le> uint (pool_start pl) + 4095) \<and>
     (\<forall>n \<in> set ns. takes_literal (node_rule t n) \<longrightarrow>
        resolved t az ns n \<or> waiting t az (uint c) (takeWhile (made nid) todo) n \<or> pending t az (uint c) pl n)"

lemma small_less: "small t init (ns @ [p]) \<Longrightarrow> small t init ns \<and> p_optab (n_prog p) \<noteq> 0 \<and> node_size t p \<le> 12"
  by (auto simp: small_def ruled_def)

lemma word_for_moved: "word_for t z n w \<Longrightarrow> skel w' = skel w \<Longrightarrow> word_for t z n w'"
  unfolding word_for_def literal_for_def skel_def same_operand_def by (cases "n_prog w"; cases "n_prog w'") auto

lemma resolved_more: "resolved t az ns n \<Longrightarrow> resolved t az (ns @ ms) n"
  by (auto simp: resolved_def)

lemma advance:
  assumes "small t init (ns @ [p])" and "uint c \<le> uint init + 12 * int (length ns)" and "m \<le> 12"
  shows "uint (c + of_nat m :: u64) = uint c + int m"
proof -
  have "uint c + int m < 2 ^ 64" using assms by (simp add: small_def)
  then show ?thesis using assms(3) by (simp add: uint_word_ariths unsigned_of_nat take_bit_eq_mod)
qed

lemma reach_made:
  assumes "in_reach t az nid init c pl ns (p # rest)" and "made nid p" and "blitrl pl = []" and "skel p' = skel p" and "npc p' = uint c"
    and "\<not> takes_literal (node_rule t p')" and "small t init (ns @ [p'])"
  shows "in_reach t az nid init (c + 4) pl (ns @ [p']) rest"
proof -
  have c: "uint (c + 4) = uint c + 4" using advance [OF assms(7), of c 4] assms(1) by (simp add: in_reach_def)
  have w: "resolved t az (ns @ [p']) n \<or> waiting t az (uint c + 4) (takeWhile (made nid) rest) n"
    if wt: "waiting t az (uint c) (takeWhile (made nid) (p # rest)) n" for n
  proof -
    obtain j where j: "j < length (takeWhile (made nid) (p # rest))" "word_for t (az (n_id n)) n (takeWhile (made nid) (p # rest) ! j)" "hits (uint c + 4 * int j) (npc n)"
      using wt unfolding waiting_def by blast
    show ?thesis
    proof (cases j)
      case 0
      then show ?thesis using j assms(2,5) word_for_moved [OF _ assms(4)] by (auto simp: resolved_def)
    next
      case (Suc i)
      then show ?thesis using j assms(2) by (auto simp: waiting_def algebra_simps)
    qed
  qed
  show ?thesis using assms(1,3,6) c w resolved_more [of t az ns _ "[p']"] unfolding in_reach_def
    by (auto simp: pending_def)
qed

text \<open>After the word of the instruction at \<open>c\<close> is in the pool, before the pool may be put away.\<close>

definition collected :: "tables \<Rightarrow> (nat \<Rightarrow> u64) \<Rightarrow> u64 \<Rightarrow> u64 \<Rightarrow> pool \<Rightarrow> node list \<Rightarrow> bool" where
  "collected t az c c' x ns \<longleftrightarrow>
     pool_size x = of_nat (4 * length (blitrl x)) \<and>
     (blitrl x \<noteq> [] \<longrightarrow> uint (pool_start x) + 4 * int (length (blitrl x)) \<le> uint c' \<and>
        uint (pool_start x) \<le> uint c \<and> uint c \<le> uint (pool_start x) + 4087) \<and>
     (\<forall>n \<in> set ns. takes_literal (node_rule t n) \<longrightarrow> resolved t az ns n \<or> pending t az (uint c') x n)"

lemma pending_later: "pending t az c pl n \<Longrightarrow> c \<le> c' \<Longrightarrow> pending t az c' pl n"
  by (auto simp: pending_def)

lemma pending_more: "pending t az c pl n \<Longrightarrow> pending t az c (with_word p a pl) n"
  by (auto simp: pending_def with_word_def nth_append)

lemma collect_none:
  assumes "in_reach t az nid init c pl ns (p # rest)" and "\<not> made nid p" and "uint c' = uint c + m" and "0 \<le> m"
    and "\<not> takes_literal (node_rule t p')"
  shows "collected t az c c' pl (ns @ [p'])"
proof -
  have "resolved t az (ns @ [p']) n \<or> pending t az (uint c') pl n" if "n \<in> set (ns @ [p'])" "takes_literal (node_rule t n)" for n
    using that assms resolved_more pending_later [of t az "uint c" pl n "uint c'"] by (auto simp: in_reach_def waiting_def)
  then show ?thesis using assms(1,3,4) by (cases "blitrl pl") (auto simp: collected_def in_reach_def)
qed

lemma collect_word:
  assumes I: "in_reach t az nid init c pl ns (p # rest)" and "\<not> made nid p" and m: "uint c' = uint c + m" "4 \<le> m" and "npc p' = uint c"
    and a: "added (node_rule t p') (p\<lparr>n_prog := n_prog p'\<rparr>) pl l2 p' x l'" and "takes_literal (node_rule t p')"
    and aw: "list_all (\<lambda>n. p_as (n_prog n) = AWORD) (blitrl x)" and z: "autosize l2 = az (n_id p')"
  shows "collected t az c c' x (ns @ [p'])"
proof -
  let ?a = "literal_operand (node_rule t p') (n_prog p')"
  let ?p = "p\<lparr>n_prog := n_prog p'\<rparr>"
  have np: "n_prog ?p = n_prog p'" by simp
  from a [unfolded added_def if_P [OF assms(7)] np] obtain cl w where
    w: "aclass ?a l2 = (Inr cl, l')" "w \<in> set (blitrl x)" "p_to (n_prog w) = literal ?a cl (instoffset l')"
      "p' = ?p\<lparr>n_ref := Ref (n_id w)\<rparr>" "x = pl \<or> x = with_word ?p (p_to (n_prog w)) pl" by blast
  have rf: "n_ref p' = Ref (n_id w)" using arg_cong [OF w(4), of n_ref] by simp
  have "p_as (n_prog w) = AWORD" using w(2) aw by (simp add: list_all_iff)
  then have wf: "word_for t (az (n_id p')) p' w"
    unfolding word_for_def literal_for_def same_operand_def using rf z w(1) w(3) [THEN arg_cong] by blast
  have len: "pool_size x = of_nat (4 * length (blitrl x))" "blitrl x \<noteq> []"
    "uint (pool_start x) + 4 * int (length (blitrl x)) \<le> uint c + 4"
    "uint (pool_start x) \<le> uint c \<and> uint c \<le> uint (pool_start x) + 4087"
    using w(5) I w(2) assms(5) by (cases "blitrl pl"; auto simp: in_reach_def with_word_def npc_def)+
  obtain j where j: "j < length (blitrl x)" "w = blitrl x ! j" using w(2) by (auto simp: in_set_conv_nth)
  then have "4 * int j + 4 \<le> 4 * int (length (blitrl x))" by simp
  then have "uint (pool_start x) + 4 * int j \<le> uint c" using len(3) by linarith
  then have "pending t az (uint c') x p'" unfolding pending_def using j wf assms(5) m by auto
  moreover have "resolved t az (ns @ [p']) n \<or> pending t az (uint c') x n" if "n \<in> set ns" "takes_literal (node_rule t n)" for n
  proof -
    have "resolved t az ns n \<or> pending t az (uint c) pl n" using that I assms(2) by (auto simp: in_reach_def waiting_def)
    moreover have "pending t az (uint c) x n" if "pending t az (uint c) pl n"
      using w(5) that pending_more [OF that] by blast
    ultimately show ?thesis using resolved_more pending_later [of t az "uint c" x n "uint c'"] m by auto
  qed
  ultimately show ?thesis using len m by (auto simp: collected_def)
qed

lemma near_offset:
  fixes c :: u64
  assumes "pool_near p x" and "pool_size x = of_nat n" and "npc p = uint c" and "uint (pool_start x) \<le> uint c" and "uint c + int n < 2 ^ 62"
  shows "uint c + 16 + int n \<le> uint (pool_start x) + 4095"
proof -
  let ?v = "(p_pc (n_prog p) + 4) + 4 + pool_size x - pool_start x + 8"
  let ?i = "uint c + 16 + int n - uint (pool_start x)"
  have "p_pc (n_prog p) = c" using assms(3) unfolding npc_def by (rule word_uint_eqI)
  then have v: "?v = word_of_int ?i" using assms(2) by (simp add: word_of_int_uint)
  have "0 \<le> ?i" using assms(4) by simp
  moreover have "?i < 2 ^ 63"
  proof -
    have "uint c + int n < 4611686018427387904" using assms(5) by simp
    then have "?i < 9223372036854775808" using uint_ge_0 [of "pool_start x"] by linarith
    then show ?thesis by simp
  qed
  ultimately have "sint (word_of_int ?i :: u64) = ?i" by (subst sint_sbintrunc') (simp add: signed_take_bit_int_eq_self)
  then have "sint ?v = ?i" unfolding v .
  then show ?thesis using assms(1) by (auto simp: pool_near_def immaddr_def split: if_splits)
qed

lemma reach_flush:
  assumes co: "collected t az c c' x ns" and "flushed ot p x rest rest' pl'" and "list_all (\<lambda>n. \<not> made nid n \<and> fresh_prog (n_prog n)) rest"
    and m: "uint c' = uint c + m" "4 \<le> m" "m \<le> 12" and "npc p = uint c" and c: "uint init \<le> uint c'" "uint c' \<le> uint init + 12 * int (length ns)"
    and b: "uint init + 12 * int (length ns) < 2 ^ 61" and mk: "list_all (made nid) (blitrl x)" and fr: "nid \<le> fresh x"
  shows "in_reach t az nid init c' pl' ns rest'"
proof -
  note f = program_front [OF assms(3)]
  have near: "hits (uint c' + d + 4 * int j) (npc n)"
    if "blitrl x \<noteq> []" "uint (pool_start x) + 4 * int j \<le> npc n" "npc n + 4 \<le> uint c'" "0 \<le> d" "d \<le> 4" for n j d
    using that co m by (auto simp: hits_def collected_def)
  have skip: "waiting t az (uint c') (skip_branch (fresh x) rest # blitrl x) n" if "pending t az (uint c') x n" for n
  proof -
    obtain j where j: "j < length (blitrl x)" "word_for t (az (n_id n)) n (blitrl x ! j)" "uint (pool_start x) + 4 * int j \<le> npc n" "npc n + 4 \<le> uint c'"
      using \<open>pending t az (uint c') x n\<close> by (auto simp: pending_def)
    then have "blitrl x \<noteq> []" by auto
    from near [OF this j(3,4), of 4] have "hits (uint c' + 4 * int (Suc j)) (npc n)" by (simp add: algebra_simps)
    then show ?thesis unfolding waiting_def using j by (intro exI [of _ "Suc j"]) simp
  qed
  have direct: "waiting t az (uint c') (blitrl x) n" if "pending t az (uint c') x n" for n
  proof -
    obtain j where j: "j < length (blitrl x)" "word_for t (az (n_id n)) n (blitrl x ! j)" "uint (pool_start x) + 4 * int j \<le> npc n" "npc n + 4 \<le> uint c'"
      using \<open>pending t az (uint c') x n\<close> by (auto simp: pending_def)
    then have "blitrl x \<noteq> []" by auto
    from near [OF this j(3,4), of 0] show ?thesis unfolding waiting_def using j by auto
  qed
  have mb: "list_all (made nid) (skip_branch (fresh x) rest # blitrl x)" using mk fr by (simp add: made_def)
  show ?thesis using assms(2) unfolding flushed_def
  proof (elim disjE conjE)
    assume r: "pl' = x" "rest' = rest" "blitrl x \<noteq> [] \<longrightarrow> rest \<noteq> [] \<and> pool_near p x"
    have "uint c' + 4 * int (length (blitrl x)) + 4 \<le> uint (pool_start x) + 4095" if "blitrl x \<noteq> []"
      using near_offset [of p x "4 * length (blitrl x)" c] that r co m assms(7) b c by (auto simp: collected_def)
    then show ?thesis using co c r f(1) by (auto simp: in_reach_def collected_def)
  next
    assume "pl' = empty_pool (fresh x)" "rest' = blitrl x @ rest"
    then show ?thesis using co c direct f(3) [OF mk] by (auto simp: in_reach_def collected_def empty_pool_def)
  next
    assume "pl' = empty_pool (fresh x + 1)" "rest' = skip_branch (fresh x) rest # blitrl x @ rest"
    then show ?thesis using co c skip f(3) [OF mb] by (auto simp: in_reach_def collected_def empty_pool_def)
  qed
qed

lemma reach_round:
  assumes S: "shape t nid c pl ns (p # rest)" and I: "in_reach t az nid init c pl ns (p # rest)" and sm: "small t init (ns @ [p'])"
    and o: "text_one t c pl p rest l = (Inr (c', pl', p', rest'), l')"
    and fr: "frames az (autosize l) (filter (\<lambda>n. \<not> made nid n) (p # rest))"
  shows "in_reach t az nid init c' pl' (ns @ [p']) rest'"
proof -
  note n = text_one_node [OF o] and sp = small_less [OF sm] and d = shape_done [OF S n(1), of c']
  have pc: "npc p' = uint c" using n(2) by (simp add: npc_def)
  have ic: "uint init \<le> uint c" "uint c \<le> uint init + 12 * int (length ns)" using I by (simp_all add: in_reach_def)
  from S o show ?thesis
  proof (cases rule: shape_round)
    case made
    then show ?thesis using reach_made [OF I _ _ skel_one [OF o] pc _ sm] sp by simp
  next
    case (program ot l2 x)
    have ot: "ot = node_rule t p'" "o_size ot = 0 \<and> \<not> takes_literal ot \<or> 4 \<le> o_size ot" "o_size ot \<le> 12"
      using program(5) sp by (auto simp: node_size_def)
    have c': "uint c' = uint c + int (o_size ot)" using advance [OF sm ic(2) ot(3)] program(4) by simp
    note f = program_front(1) [OF program(3)]
    show ?thesis
    proof (cases "o_size ot = 0")
      case True
      then have z: "x = pl" "pl' = pl" "rest' = rest" "uint c' = uint c" using program(6) c' by auto
      have "collected t az c c' pl (ns @ [p'])"
        by (rule collect_none [OF I program(1) c']) (use True ot in auto)
      then show ?thesis using I z f ic by (auto simp: in_reach_def collected_def)
    next
      case False
      then have a: "added ot (p\<lparr>n_prog := n_prog p'\<rparr>) pl l2 p' x l'" "flushed ot p' x rest rest' pl'" and m: "4 \<le> int (o_size ot)"
        using program(6) ot(2) by auto
      have x: "shape t nid c' x (ns @ [p']) rest" by (rule shape_added [OF d f a(1)])
      have aw: "list_all (\<lambda>n. p_as (n_prog n) = AWORD) (blitrl x)" "list_all (made nid) (blitrl x)" "nid \<le> fresh x"
        using x by (auto simp: shape_def list_all_iff)
      have "collected t az c c' x (ns @ [p'])"
      proof (cases "takes_literal ot")
        case True
        have "autosize l2 = az (n_id p')" using fr program(1,7) n(1) by simp
        then show ?thesis using True collect_word [OF I program(1) c' m pc a(1) [unfolded ot(1)] _ aw(1)] ot(1) by simp
      next
        case False
        then have "x = pl" using a(1) by (simp add: added_def)
        then show ?thesis using collect_none [OF I program(1) c'] False ot(1) by simp
      qed
      then show ?thesis
        by (rule reach_flush [OF _ a(2) program(3) c' m _ pc _ _ _ aw(2,3)]) (use ot(3) c' ic sm in \<open>auto simp: small_def\<close>)
    qed
  qed
qed

text \<open>The last instruction puts the pool away, unless it takes no space.\<close>

definition put_away :: "tables \<Rightarrow> pool \<Rightarrow> node list \<Rightarrow> node list \<Rightarrow> bool" where
  "put_away t pl ns todo \<longleftrightarrow> (todo = [] \<and> ns \<noteq> [] \<and> ruled ns \<and> node_size t (last ns) \<noteq> 0 \<longrightarrow> blitrl pl = [])"

interpretation reaching: text_state_invariant t "\<lambda>c pl ns todo l. shape t nid c pl ns todo \<and> put_away t pl ns todo \<and>
    frames az (autosize l) (filter (\<lambda>n. \<not> made nid n) todo) \<and> (small t init ns \<longrightarrow> in_reach t az nid init c pl ns todo)" for t az nid init
proof
  fix c pl ns p rest l c' pl' p' rest' l'
  assume I: "shape t nid c pl ns (p # rest) \<and> put_away t pl ns (p # rest) \<and>
      frames az (autosize l) (filter (\<lambda>n. \<not> made nid n) (p # rest)) \<and> (small t init ns \<longrightarrow> in_reach t az nid init c pl ns (p # rest))"
    and o: "text_one t c pl p rest l = (Inr (c', pl', p', rest'), l')"
  note s = conjunct1 [OF I]
  have "blitrl pl' = []" if "rest' = []" "p_optab (n_prog p') \<noteq> 0" "node_size t p' \<noteq> 0"
    using s o
  proof (cases rule: shape_round)
    case (program ot l2 x)
    then show ?thesis using that by (auto simp: flushed_def empty_pool_def node_size_def)
  qed simp
  then have "put_away t pl' (ns @ [p']) rest'" by (auto simp: put_away_def ruled_def)
  moreover have "frames az (autosize l') (filter (\<lambda>n. \<not> made nid n) rest')"
  proof (cases "made nid p")
    case True
    then have "p_as (n_prog p) \<noteq> ATEXT" using s by (auto simp: shape_def quiet_def)
    then show ?thesis using True I by (simp add: round_filter [OF s o] text_one_frame [OF o] entered_def)
  next
    case False
    then show ?thesis using I by (simp add: round_filter [OF s o] text_one_frame [OF o])
  qed
  moreover have "in_reach t az nid init c' pl' (ns @ [p']) rest'" if "small t init (ns @ [p'])"
    using reach_round [OF s _ that o] small_less [OF that] I by simp
  ultimately show "shape t nid c' pl' (ns @ [p']) rest' \<and> put_away t pl' (ns @ [p']) rest' \<and>
      frames az (autosize l') (filter (\<lambda>n. \<not> made nid n) rest') \<and>
      (small t init (ns @ [p']) \<longrightarrow> in_reach t az nid init c' pl' (ns @ [p']) rest')"
    using shapes.round [OF s o] by blast
qed

text \<open>The start of the loop.\<close>

definition fresh_nodes :: "nat \<Rightarrow> node list \<Rightarrow> bool" where
  "fresh_nodes nid ns \<longleftrightarrow> distinct (map n_id ns) \<and> list_all (\<lambda>n. n_id n < nid \<and> fresh_prog (n_prog n)) ns"

lemma start_shape:
  assumes "buildop debugf False optab_rows l0 = (Inr t, l0')" and "fresh_nodes nid prog"
  shows "shape t nid init \<lparr>blitrl = [], pool_start = 0, pool_size = 0, fresh = nid\<rparr> [] prog"
proof -
  have "list_all (\<lambda>n. \<not> made nid n \<and> fresh_prog (n_prog n)) prog" using assms(2) by (auto simp: fresh_nodes_def list_all_iff made_def)
  then show ?thesis using assms program_front(1,2) unfolding shape_def built_def by (auto simp: fresh_nodes_def list_all_iff)
qed

lemma dotext_loop:
  assumes "dotext t debugt INITTEXT INITRND tab nid prog l = Some (Inr (ns, textsize, tab'), l')"
  obtains c l1 where "text_loop t INITTEXT \<lparr>blitrl = [], pool_start = 0, pool_size = 0, fresh = nid\<rparr> [] prog l = Some (Inr (c, ns), l1)"
    "text_end debugt INITTEXT INITRND c tab l1 = (Inr (textsize, tab'), l')"
  using assms by (auto simp: dotext_def bind_def split: option.splits sum.splits prod.splits)

text \<open>
  C16: the text segment that \<^verbatim>\<open>dotext\<close> lays out has the instructions of the program, each
  unchanged and in their order, at consecutive addresses from \<^verbatim>\<open>INITTEXT\<close>, each as far from the next as its
  rule says; what comes between them was made for literal pools, and no two have the same identity.
\<close>

theorem layout_in_order:
  assumes "buildop debugf False optab_rows l0 = (Inr t, l0')" and "fresh_nodes nid prog"
    and "dotext t debugt INITTEXT INITRND tab nid prog l = Some (Inr (ns, textsize, tab'), l')"
  shows "map skel (filter (\<lambda>n. n_id n < nid) ns) = map skel prog \<and> distinct (map n_id ns) \<and>
    (ruled ns \<longrightarrow> (\<exists>c. chain t INITTEXT ns c))"
proof -
  obtain c l1 where t: "text_loop t INITTEXT \<lparr>blitrl = [], pool_start = 0, pool_size = 0, fresh = nid\<rparr> [] prog l = Some (Inr (c, ns), l1)"
    using dotext_loop [OF assms(3)] by blast
  have "filter (\<lambda>n. \<not> made nid n) prog = prog" using assms(2) by (intro filter_True) (auto simp: fresh_nodes_def list_all_iff made_def)
  then have "kept nid prog prog" by (simp add: kept_def)
  then obtain pl where "shape t nid c pl ns []" "kept nid prog ns"
    using keeping.loop_keeps [OF t, of nid prog] start_shape [OF assms(1,2)] by auto
  moreover have "(\<lambda>n. n_id n < nid) = (\<lambda>n. \<not> made nid n)" by (auto simp: made_def)
  ultimately show ?thesis using addresses.loop_keeps [OF t, of INITTEXT] by (auto simp: shape_def kept_def ruled_def)
qed

lemma literal_resolved:
  assumes "buildop debugf False optab_rows l0 = (Inr t, l0')" and "fresh_nodes nid prog"
    and "dotext t debugt INITTEXT INITRND tab nid prog l = Some (Inr (ns, textsize, tab'), l')"
    and "small t INITTEXT ns" and "node_size t (last ns) \<noteq> 0" and "n \<in> set ns" and "takes_literal (node_rule t n)"
  shows "resolved t (frame_at (autosize l) prog) ns n"
proof -
  let ?az = "frame_at (autosize l) prog" and ?pl = "\<lparr>blitrl = [], pool_start = 0, pool_size = 0, fresh = nid\<rparr>"
  obtain c l1 where t: "text_loop t INITTEXT ?pl [] prog l = Some (Inr (c, ns), l1)"
    using dotext_loop [OF assms(3)] by blast
  have "filter (\<lambda>n. \<not> made nid n) prog = prog" using assms(2) by (intro filter_True) (auto simp: fresh_nodes_def list_all_iff made_def)
  then have "frames ?az (autosize l) (filter (\<lambda>n. \<not> made nid n) prog)" using assms(2) frames_at by (simp add: fresh_nodes_def)
  moreover have "in_reach t ?az nid INITTEXT INITTEXT ?pl [] prog" by (simp add: in_reach_def)
  moreover have "put_away t ?pl [] prog" by (simp add: put_away_def)
  ultimately obtain pl where pl: "in_reach t ?az nid INITTEXT c pl ns []" "put_away t pl ns []"
    using reaching.loop_keeps_state [OF t, of nid ?az INITTEXT] start_shape [OF assms(1,2)] assms(4) by blast
  then have "resolved t ?az ns n \<or> pending t ?az (uint c) pl n" using assms(6,7) by (auto simp: in_reach_def waiting_def)
  moreover have "blitrl pl = []" using pl(2) assms(4-6) by (auto simp: put_away_def small_def)
  ultimately show ?thesis by (auto simp: pending_def)
qed

text \<open>
  C4: every instruction whose rule takes a literal points to a word of its text segment that
  holds the literal, at an offset from the program counter that a load instruction has room for,
  whatever the size of the program and the sequence of its instructions, as long as every instruction has a
  rule of at most three words (the linker's default has longer ones only for half words and bytes at relocatable
  addresses), the last instruction takes space and the addresses stay below \<open>2^61\<close>. The literal of a local
  variable or a parameter is computed with the frame size of the function that the instruction is in, the one
  of the last \<^verbatim>\<open>TEXT\<close> at or before it.
\<close>

theorem literals_in_reach:
  assumes "buildop debugf False optab_rows l0 = (Inr t, l0')" and "fresh_nodes nid prog"
    and "dotext t debugt INITTEXT INITRND tab nid prog l = Some (Inr (ns, textsize, tab'), l')"
    and "small t INITTEXT ns" and "node_size t (last ns) \<noteq> 0" and "n \<in> set ns" and "takes_literal (node_rule t n)"
  shows "\<exists>w \<in> set ns. word_for t (frame_at (autosize l) prog (n_id n)) n w \<and>
    - 4 \<le> npc w - (npc n + 8) \<and> npc w - (npc n + 8) \<le> 4095"
  using literal_resolved [OF assms] by (auto simp: resolved_def hits_def)

section \<open>Control does not enter a pool\<close>














section \<open>A program with a large constant\<close>

lemma rows_AWORD: "filter (\<lambda>r. o_as r = AWORD) default_rules =
    [rule AWORD C_NONE C_NONE C_LCON 11 4 0 0, rule AWORD C_NONE C_NONE C_LEXT 11 4 0 0, rule AWORD C_NONE C_NONE C_ADDR 11 4 0 0]"
  by (simp add: default_filter optab_rows1_def optab_rows2_def optab_rows3_def)

definition demo_load :: "nat \<Rightarrow> node" where
  "demo_load k = demo_node\<lparr>n_prog := (n_prog demo_node)\<lparr>p_from := (p_from (n_prog demo_node))\<lparr>a_class := C_LCON + 1\<rparr>,
     p_to := (p_to (n_prog demo_node))\<lparr>a_class := C_REG + 1\<rparr>, p_optab := k + 1\<rparr>, n_ref := Ref 1\<rparr>"

definition demo_skip :: "nat \<Rightarrow> node" where
  "demo_skip k = (skip_branch 2 [])\<lparr>n_prog := (n_prog (skip_branch 2 []))\<lparr>p_pc := 0x1004, p_from := zadr\<lparr>a_class := C_NONE + 1\<rparr>,
     p_to := zadr\<lparr>a_type := D_BRANCH, a_class := C_BRANCH + 1\<rparr>, p_optab := k + 1\<rparr>\<rparr>"

definition demo_word :: "nat \<Rightarrow> node" where
  "demo_word k = (pool_word 1 ((p_from (n_prog demo_node))\<lparr>a_class := C_LCON + 1\<rparr>) 0)\<lparr>n_prog := zprg\<lparr>p_as := AWORD, p_pc := 0x1008,
     p_from := zadr\<lparr>a_class := C_NONE + 1\<rparr>, p_to := (p_from (n_prog demo_node))\<lparr>a_class := C_LCON + 1\<rparr>, p_optab := k + 1\<rparr>\<rparr>"

lemma demo_large: "immrot (0x12345678 :: u64) = 0" "immrot (- 305419897 :: u64) = 0"
  using immrot_64_range [of "0x12345678"] immrot_64_range [of "- 305419897"] by simp_all

lemma demo_layout:
  assumes "buildop False False optab_rows demo_lnk = (Inr t, demo_lnk)"
  obtains a b c sz tab l where "dotext t False 0x1000 0x1000 demo_tab 1 [demo_node] demo_lnk = Some (Inr ([demo_load a, demo_skip b, demo_word c], sz, tab), l)"
    "rules t ! a = rule AMOVW C_LCON C_NONE C_REG 12 4 0 LFROM" "rules t ! b = rule AB C_NONE C_NONE C_BRANCH 5 4 0 LPOOL"
    "rules t ! c = rule AWORD C_NONE C_NONE C_LCON 11 4 0 0"
proof -
  note pr = default_prepared [OF assms]
  let ?p0 = "(n_prog demo_node)\<lparr>p_pc := 0x1000\<rparr>"
  let ?l = "demo_lnk\<lparr>instoffset := 0x12345678\<rparr>"
  have "\<exists>k. oplook t ?p0 demo_lnk = (Inr (n_prog (demo_load k), k), ?l) \<and> rules t ! k = rule AMOVW C_LCON C_NONE C_REG 12 4 0 LFROM"
  proof -
    have c: "class_of (p_from ?p0) demo_lnk = (Inr ((p_from ?p0)\<lparr>a_class := C_LCON + 1\<rparr>, C_LCON), ?l)"
      "class_of (p_to ?p0) ?l = (Inr ((p_to ?p0)\<lparr>a_class := C_REG + 1\<rparr>, C_REG), ?l)"
      by (simp_all add: class_of_def aclass_def set_off_def seq_def bind_def demo_node_def demo_prog_def reg_adr_def demo_large Let_def)
    have "candidates default_rules (p_as ?p0) C_LCON (if p_reg ?p0 \<noteq> R_NONE then C_REG else C_NONE) C_REG = [rule AMOVW C_LCON C_NONE C_REG 12 4 0 LFROM]"
      using candidates_rows [OF _ rows_AMOVW, of "p_as ?p0"] by (simp add: demo_node_def demo_prog_def rep_def opsets_def cmp.simps)
    from oplook_chooses [OF pr _ _ c _ _ this] show ?thesis
      by (auto simp: demo_load_def demo_node_def demo_prog_def)
  qed
  then obtain a where a: "oplook t ?p0 demo_lnk = (Inr (n_prog (demo_load a), a), ?l)" "rules t ! a = rule AMOVW C_LCON C_NONE C_REG 12 4 0 LFROM" by blast
  let ?p1 = "(n_prog (skip_branch 2 []))\<lparr>p_pc := 0x1004\<rparr>"
  have "\<exists>k. oplook t ?p1 ?l = (Inr (n_prog (demo_skip k), k), ?l) \<and> rules t ! k = rule AB C_NONE C_NONE C_BRANCH 5 4 0 LPOOL"
  proof -
    have c: "class_of (p_from ?p1) ?l = (Inr ((p_from ?p1)\<lparr>a_class := C_NONE + 1\<rparr>, C_NONE), ?l)"
      "class_of (p_to ?p1) ?l = (Inr ((p_to ?p1)\<lparr>a_class := C_BRANCH + 1\<rparr>, C_BRANCH), ?l)"
      by (simp_all add: class_of_def aclass_def bind_def skip_branch_def prg_def zprg_def zadr_def)
    have "candidates default_rules (p_as ?p1) C_NONE (if p_reg ?p1 \<noteq> R_NONE then C_REG else C_NONE) C_BRANCH = [rule AB C_NONE C_NONE C_BRANCH 5 4 0 LPOOL]"
      using candidates_rows [OF _ rows_AB, of "p_as ?p1"] by (simp add: skip_branch_def prg_def zprg_def rep_def opsets_def cmp.simps)
    from oplook_chooses [OF pr _ _ c _ _ this] show ?thesis
      by (auto simp: demo_skip_def skip_branch_def prg_def zprg_def)
  qed
  then obtain b where b: "oplook t ?p1 ?l = (Inr (n_prog (demo_skip b), b), ?l)" "rules t ! b = rule AB C_NONE C_NONE C_BRANCH 5 4 0 LPOOL" by blast
  let ?w = "pool_word 1 ((p_from (n_prog demo_node))\<lparr>a_class := C_LCON + 1\<rparr>) 0"
  let ?p2 = "(n_prog ?w)\<lparr>p_pc := 0x1008\<rparr>"
  have "\<exists>k. oplook t ?p2 ?l = (Inr (n_prog (demo_word k), k), ?l) \<and> rules t ! k = rule AWORD C_NONE C_NONE C_LCON 11 4 0 0"
  proof -
    have c: "class_of (p_from ?p2) ?l = (Inr ((p_from ?p2)\<lparr>a_class := C_NONE + 1\<rparr>, C_NONE), ?l)"
      "class_of (p_to ?p2) ?l = (Inr (p_to ?p2, C_LCON), ?l)"
      by (simp_all add: class_of_def aclass_def bind_def pool_word_def prg_def zprg_def zadr_def)
    have "candidates default_rules (p_as ?p2) C_NONE (if p_reg ?p2 \<noteq> R_NONE then C_REG else C_NONE) C_LCON = [rule AWORD C_NONE C_NONE C_LCON 11 4 0 0]"
      using candidates_rows [OF _ rows_AWORD, of "p_as ?p2"] by (simp add: pool_word_def prg_def zprg_def rep_def opsets_def cmp.simps)
    from oplook_chooses [OF pr _ _ c _ _ this] show ?thesis
      by (auto simp: demo_word_def pool_word_def prg_def zprg_def)
  qed
  then obtain c where c: "oplook t ?p2 ?l = (Inr (n_prog (demo_word c), c), ?l)" "rules t ! c = rule AWORD C_NONE C_NONE C_LCON 11 4 0 0" by blast
  let ?e = "\<lambda>i. \<lparr>blitrl = [], pool_start = 0, pool_size = 0, fresh = i\<rparr>"
  note step = text_one_def enter_text_def seq_def bind_def onlyif_def Let_def pool_flush_pc_def pool_check_def checkpool_def flushpool_def
  have as: "p_as (n_prog (skip_branch i [])) = AB" "p_as (n_prog (pool_word i x v)) = AWORD" for i x v
    by (simp_all add: skip_branch_def pool_word_def prg_def)
  have al: "aclass (p_from (n_prog (demo_load k))) ?l = (Inr C_LCON, ?l)" for k
    by (simp add: aclass_def set_off_def seq_def bind_def demo_load_def demo_node_def demo_prog_def reg_adr_def demo_large Let_def)
  have "pool_switch (rules t ! a) (demo_node\<lparr>n_prog := n_prog (demo_load a)\<rparr>) (?e (Suc 0)) [] ?l =
      (Inr (demo_load a, [], \<lparr>blitrl = [?w], pool_start = 0x1000, pool_size = 4, fresh = 2\<rparr>), ?l)"
    unfolding pool_switch_def addpool_def using al [of a] a(2)
    by (simp add: pool_flag_def bind_def gets_def Let_def literal_def) (simp add: demo_load_def demo_node_def demo_prog_def prg_def pool_word_def)
  then have 1: "text_one t 0x1000 (?e (Suc 0)) demo_node [] demo_lnk = (Inr (0x1004, ?e 3, demo_load a, [skip_branch 2 [], ?w]), ?l)"
    using a by (simp add: step) (simp add: demo_load_def demo_node_def demo_prog_def reg_adr_def)
  have 2: "text_one t 0x1004 (?e 3) (skip_branch 2 []) [?w] ?l = (Inr (0x1008, ?e 3, demo_skip b, [?w]), ?l)"
    using b by (simp add: step pool_switch_def pool_flag_def as) (simp add: demo_skip_def)
  have 3: "text_one t 0x1008 (?e 3) ?w [] ?l = (Inr (0x100c, ?e 3, demo_word c, []), ?l)"
    using c by (simp add: step pool_switch_def pool_flag_def as) (simp add: demo_word_def pool_word_def)
  have "text_loop t 0x1000 (?e 1) [] [demo_node] demo_lnk = Some (Inr (0x100c, [demo_load a, demo_skip b, demo_word c]), ?l)"
    by (simp add: text_loop.simps [of t "0x1000"] text_loop.simps [of t "0x1004"] text_loop.simps [of t "0x1008"] text_loop.simps [of t "0x100c"] 1 2 [simplified] 3 [simplified])
  then have "\<exists>sz tab l. dotext t False 0x1000 0x1000 demo_tab 1 [demo_node] demo_lnk = Some (Inr ([demo_load a, demo_skip b, demo_word c], sz, tab), l)"
    by (simp add: dotext_def text_end_def lookup_def demo_tab_def seq_def bind_def onlyif_def Let_def)
  then show thesis using that a(2) b(2) c(2) by blast
qed

lemma demo_linked:
  obtains t a b c sz tab l where "buildop False False optab_rows demo_lnk = (Inr t, demo_lnk)" "fresh_nodes 1 [demo_node]"
    "dotext t False 0x1000 0x1000 demo_tab 1 [demo_node] demo_lnk = Some (Inr ([demo_load a, demo_skip b, demo_word c], sz, tab), l)"
    "node_rule t (demo_load a) = rule AMOVW C_LCON C_NONE C_REG 12 4 0 LFROM"
    "node_rule t (demo_skip b) = rule AB C_NONE C_NONE C_BRANCH 5 4 0 LPOOL"
    "node_rule t (demo_word c) = rule AWORD C_NONE C_NONE C_LCON 11 4 0 0"
    "small t 0x1000 [demo_load a, demo_skip b, demo_word c]"
proof -
  obtain t where t: "buildop False False optab_rows demo_lnk = (Inr t, demo_lnk)" using default_builds by blast
  obtain a b c sz tab l where d: "dotext t False 0x1000 0x1000 demo_tab 1 [demo_node] demo_lnk = Some (Inr ([demo_load a, demo_skip b, demo_word c], sz, tab), l)"
    and r: "rules t ! a = rule AMOVW C_LCON C_NONE C_REG 12 4 0 LFROM" "rules t ! b = rule AB C_NONE C_NONE C_BRANCH 5 4 0 LPOOL"
      "rules t ! c = rule AWORD C_NONE C_NONE C_LCON 11 4 0 0"
    using demo_layout [OF t] by metis
  have o: "p_optab (n_prog (demo_load a)) = Suc a" "p_optab (n_prog (demo_skip b)) = Suc b" "p_optab (n_prog (demo_word c)) = Suc c"
    by (simp_all add: demo_load_def demo_skip_def demo_word_def)
  show thesis
  proof (rule that [OF t _ d])
    show "fresh_nodes 1 [demo_node]" by (simp add: fresh_nodes_def demo_node_def fresh_prog_def demo_prog_def reg_adr_def)
    show "node_rule t (demo_load a) = rule AMOVW C_LCON C_NONE C_REG 12 4 0 LFROM"
      "node_rule t (demo_skip b) = rule AB C_NONE C_NONE C_BRANCH 5 4 0 LPOOL"
      "node_rule t (demo_word c) = rule AWORD C_NONE C_NONE C_LCON 11 4 0 0" by (simp_all add: node_rule_def o r)
    show "small t 0x1000 [demo_load a, demo_skip b, demo_word c]"
      by (simp add: small_def ruled_def o node_size_def node_rule_def r rule_def)
  qed
qed

theorem layout_in_order_witness:
  "\<exists>t ns sz tab l c. dotext t False 0x1000 0x1000 demo_tab 1 [demo_node] demo_lnk = Some (Inr (ns, sz, tab), l) \<and>
    map skel (filter (\<lambda>n. n_id n < 1) ns) = map skel [demo_node] \<and> distinct (map n_id ns) \<and> ruled ns \<and> chain t 0x1000 ns c"
proof -
  obtain t a b c sz tab l where d: "buildop False False optab_rows demo_lnk = (Inr t, demo_lnk)" "fresh_nodes 1 [demo_node]"
    "dotext t False 0x1000 0x1000 demo_tab 1 [demo_node] demo_lnk = Some (Inr ([demo_load a, demo_skip b, demo_word c], sz, tab), l)"
    and s: "small t 0x1000 [demo_load a, demo_skip b, demo_word c]" by (rule demo_linked)
  show ?thesis using layout_in_order [OF d] d(3) s unfolding small_def by blast
qed

theorem literals_in_reach_witness:
  "\<exists>t ns sz tab l n w. dotext t False 0x1000 0x1000 demo_tab 1 [demo_node] demo_lnk = Some (Inr (ns, sz, tab), l) \<and>
    n \<in> set ns \<and> w \<in> set ns \<and> word_for t (frame_at 0 [demo_node] (n_id n)) n w \<and> npc w - (npc n + 8) \<le> 4095"
proof -
  obtain t a b c sz tab l where d: "buildop False False optab_rows demo_lnk = (Inr t, demo_lnk)" "fresh_nodes 1 [demo_node]"
    "dotext t False 0x1000 0x1000 demo_tab 1 [demo_node] demo_lnk = Some (Inr ([demo_load a, demo_skip b, demo_word c], sz, tab), l)"
    "small t 0x1000 [demo_load a, demo_skip b, demo_word c]" and r: "node_rule t (demo_load a) = rule AMOVW C_LCON C_NONE C_REG 12 4 0 LFROM"
    "node_rule t (demo_word c) = rule AWORD C_NONE C_NONE C_LCON 11 4 0 0"
    by (rule demo_linked)
  let ?ns = "[demo_load a, demo_skip b, demo_word c]"
  have e: "node_size t (last ?ns) \<noteq> 0" "takes_literal (node_rule t (demo_load a))" "demo_load a \<in> set ?ns"
    by (simp_all add: node_size_def r takes_literal_def pool_flag_def rule_def)
  have z: "autosize demo_lnk = 0" by (simp add: demo_lnk_def)
  from literals_in_reach [OF d e(1,3,2), unfolded z] d(3) e(3) show ?thesis by blast
qed



end
