(* ===== verification/Link5_Text.thy ===== *)
theory Link5_Text
  imports Link5_Pools
begin

text \<open>
  The code that \<^verbatim>\<open>asmb\<close> writes for a program laid out by \<^verbatim>\<open>dotext\<close>: every instruction's code is at its
  address, and the instructions that load large constants find them in the literal pools.
\<close>

section \<open>Only \<open>lputl\<close> writes\<close>

named_theorems plain

definition same_code :: "lnk \<Rightarrow> lnk \<Rightarrow> bool" where
  "same_code s s' \<longleftrightarrow> obuf s' = obuf s"

interpretation sc: keeps_rel same_code
  by unfold_locales (simp_all add: same_code_def)

lemma plain_modify: "(\<And>s. obuf (f s) = obuf s) \<Longrightarrow> keeps same_code (modify f)"
  by (rule sc.keeps_modify) (simp add: same_code_def)

lemma plain_diag [plain]: "keeps same_code (diag m)"
  unfolding diag_def by (intro sc.keeps_intros plain_modify) simp

lemma plain_dynreloc [plain]: "keeps same_code (dynreloc i v x)" "keeps same_code (ckoff w)"
  unfolding dynreloc_def ckoff_def by (intro sc.keeps_intros plain_modify plain; simp add: Let_def plain_modify sc.keeps_intros plain)+

lemma plain_set_off [plain]: "keeps same_code (set_off v c)" "keeps same_code (undefined_external i)"
  unfolding set_off_def undefined_external_def by (intro sc.keeps_intros plain_modify plain; simp)+

lemma plain_aclass [plain]: "keeps same_code (aclass a)"
  unfolding aclass_def aclass_ext_def aclass_addr_ext_def Let_def
  by (auto intro!: sc.keeps_intros plain split: operand_kind.split sym_kind.split option.split)

lemma plain_regoff [plain]: "keeps same_code (regoff a)"
  unfolding regoff_def by (intro sc.keeps_intros plain_modify plain) simp

lemma plain_selectors [plain]:
  "keeps same_code (oprrr a1 b1)"
  "keeps same_code (opvfprrr a2 b2)"
  "keeps same_code (opbra a3 b3)"
  unfolding oprrr_def opvfprrr_def opbra_def Let_def
  by (auto intro!: sc.keeps_intros plain split: option.split target.split)

lemma plain_offsets [plain]:
  "keeps same_code (olr a1 b1 c1 d1 e1)"
  "keeps same_code (olhr a2 b2 c2 d2)"
  "keeps same_code (osr a3 b3 c3 d3 e3)"
  "keeps same_code (oshr a4 b4 c4 d4)"
  unfolding olr_def olhr_def osr_def oshr_def Let_def
  by (auto intro!: sc.keeps_intros plain split: option.split target.split)

lemma plain_registers [plain]:
  "keeps same_code (olrr a1 b1 c1 d1 e1)"
  "keeps same_code (olhrr a2 b2 c2 d2)"
  "keeps same_code (osrr a3 b3 c3 d3 e3)"
  "keeps same_code (oshrr a4 b4 c4 d4)"
  unfolding olrr_def olhrr_def osrr_def oshrr_def Let_def
  by (auto intro!: sc.keeps_intros plain split: option.split target.split)

lemma plain_floats [plain]:
  "keeps same_code (fp_offset a1)"
  unfolding fp_offset_def Let_def
  by (auto intro!: sc.keeps_intros plain split: option.split target.split)

lemma plain_fp [plain]:
  "keeps same_code (ovfpmem a1 b1 c1 d1 e1)"
  "keeps same_code (chipfloat a2)"
  "keeps same_code (ieeedtof a3)"
  unfolding ovfpmem_def chipfloat_def ieeedtof_def Let_def
  by (auto intro!: sc.keeps_intros plain split: option.split target.split)

lemma plain_ofsr [plain]:
  "keeps same_code (ofsr a1 b1 c1 d1 e1)"
  unfolding ofsr_def Let_def
  by (auto intro!: sc.keeps_intros plain split: option.split target.split)

lemma plain_omvl [plain]:
  "keeps same_code (omvl a1 b1 c1)"
  unfolding omvl_def Let_def
  by (auto intro!: sc.keeps_intros plain split: option.split target.split)

lemma plain_mvl_then [plain]: "(\<And>w. keeps same_code (k w)) \<Longrightarrow> keeps same_code (mvl_then p a k)"
  unfolding mvl_then_def by (intro sc.keeps_intros plain)

lemma plain_movm [plain]:
  "keeps same_code (movm a1 b1)"
  unfolding movm_def Let_def
  by (auto intro!: sc.keeps_intros plain split: option.split target.split)

lemma plain_asm1 [plain]:
  "keeps same_code (asm_11 a1)"
  "keeps same_code (asm_1 a2)"
  "keeps same_code (asm_2 a3)"
  "keeps same_code (asm_3 a4)"
  "keeps same_code (asm_8 a5)"
  "keeps same_code (asm_9 a6)"
  "keeps same_code (asm_14 a7)"
  "keeps same_code (asm_58 a8)"
  "keeps same_code (asm_15 a9)"
  "keeps same_code (asm_13 a10)"
  "keeps same_code (asm_12 a11)"
  "keeps same_code (asm_5 a12)"
  unfolding asm_11_def asm_1_def asm_2_def asm_3_def asm_8_def asm_9_def asm_14_def asm_58_def asm_15_def asm_13_def asm_12_def asm_5_def Let_def
  by (auto intro!: sc.keeps_intros plain split: option.split target.split)

lemma plain_asm2 [plain]:
  "keeps same_code (asm_6 a1)"
  "keeps same_code (asm_7 a2)"
  "keeps same_code (asm_21 a3 b3)"
  "keeps same_code (asm_31 a4 b4)"
  "keeps same_code (asm_20 a5 b5)"
  "keeps same_code (asm_30 a6 b6)"
  "keeps same_code (asm_40 a7)"
  "keeps same_code (asm_4 a8 b8)"
  "keeps same_code (asm_34 a9 b9)"
  "keeps same_code (asm_22 a10 b10)"
  "keeps same_code (asm_32 a11 b11)"
  "keeps same_code (asm_23 a12 b12)"
  unfolding asm_6_def asm_7_def asm_21_def asm_31_def asm_20_def asm_30_def asm_40_def asm_4_def asm_34_def asm_22_def asm_32_def asm_23_def Let_def
  by (auto intro!: sc.keeps_intros plain split: option.split target.split)

lemma plain_asm3 [plain]:
  "keeps same_code (asm_33 a1 b1)"
  "keeps same_code (asm_10 a2)"
  "keeps same_code (asm_41)"
  "keeps same_code (asm_64 a4)"
  "keeps same_code (asm_65_66 a5 b5)"
  "keeps same_code (asm_67 a6)"
  "keeps same_code (asm_50 a7 b7)"
  "keeps same_code (asm_51 a8 b8)"
  "keeps same_code (asm_52 a9 b9)"
  "keeps same_code (asm_53 a10 b10)"
  "keeps same_code (asm_54 a11)"
  "keeps same_code (asm_55 a12)"
  unfolding asm_33_def asm_10_def asm_41_def asm_64_def asm_65_66_def asm_67_def asm_50_def asm_51_def asm_52_def asm_53_def asm_54_def asm_55_def Let_def
  by (auto intro!: sc.keeps_intros plain split: option.split target.split)

lemma plain_asm4 [plain]:
  "keeps same_code (asm_68 a1)"
  "keeps same_code (asm_69 a2)"
  "keeps same_code (asm_56 a3)"
  "keeps same_code (asm_57 a4)"
  "keeps same_code (asm_74 a5)"
  "keeps same_code (asm_75 a6)"
  "keeps same_code (asm_76 a7)"
  "keeps same_code (asm_16)"
  "keeps same_code (asm_17 a9)"
  "keeps same_code (asm_38 a10)"
  "keeps same_code (asm_39 a11)"
  "keeps same_code (asm_35 a12)"
  unfolding asm_68_def asm_69_def asm_56_def asm_57_def asm_74_def asm_75_def asm_76_def asm_16_def asm_17_def asm_38_def asm_39_def asm_35_def Let_def
  by (auto intro!: sc.keeps_intros plain split: option.split target.split)

lemma plain_asm5 [plain]:
  "keeps same_code (asm_36 a1)"
  "keeps same_code (asm_37 a2)"
  "keeps same_code (asm_70 a3 b3)"
  "keeps same_code (asm_71 a4 b4)"
  "keeps same_code (asm_72 a5 b5)"
  "keeps same_code (asm_73 a6 b6)"
  "keeps same_code (asm_59 a7)"
  "keeps same_code (asm_60 a8)"
  "keeps same_code (asm_61 a9)"
  "keeps same_code (asm_62 a10)"
  "keeps same_code (asm_63 a11)"
  unfolding asm_36_def asm_37_def asm_70_def asm_71_def asm_72_def asm_73_def asm_59_def asm_60_def asm_61_def asm_62_def asm_63_def Let_def
  by (auto intro!: sc.keeps_intros plain split: option.split target.split)

lemma plain_asm_words [plain]: "keeps same_code (asm_words p ot)"
  unfolding asm_words_def Let_def by (intro sc.keeps_intros plain)

lemma put_words_code: "put_words n ws s = (Inr (), s\<lparr>obuf := obuf s @ concat (map le_bytes (take n ws @ replicate (n - length ws) 0))\<rparr>)"
  by (induction n ws arbitrary: s rule: put_words.induct) (simp_all add: seq_def bind_Inr [OF lputl_bytes])

lemma words_length: "length (concat (map le_bytes ws)) = 4 * length ws"
  by (induction ws) simp_all

lemma asmout_appends:
  assumes "asmout p ot s = (Inr (), s')" and "o_size ot \<in> {0, 4, 8, 12, 16, 20, 24}"
  shows "\<exists>code. obuf s' = obuf s @ code \<and> length code = o_size ot"
proof -
  obtain ws s1 where w: "asm_words p ot s = (Inr ws, s1)"
    using assms(1) by (auto simp: asmout_def bind_def split: sum.splits prod.splits)
  then have o: "obuf s1 = obuf s" using keepsD [OF plain_asm_words w] by (simp add: same_code_def)
  let ?n = "o_size ot div 4"
  show ?thesis
  proof (cases "o_size ot = 0")
    case True
    then show ?thesis using assms(1) w o by (simp add: asmout_def bind_def)
  next
    case False
    then have "o_size ot \<in> {4, 8, 12, 16, 20, 24}" "4 * ?n = o_size ot" using assms(2) by auto
    then show ?thesis using assms(1) w o put_words_code [of ?n ws s1] words_length [of "take ?n ws @ replicate (?n - length ws) 0"]
      by (auto simp: asmout_def bind_def onlyif_def)
  qed
qed

section \<open>The code of a program\<close>

text \<open>\<open>code\<close> is what the encoder writes for \<open>p\<close> by rule \<open>ot\<close>.\<close>

definition emits :: "prog \<Rightarrow> optab \<Rightarrow> u8 list \<Rightarrow> bool" where
  "emits p ot code \<longleftrightarrow> (\<exists>s s'. asmout p ot s = (Inr (), s') \<and> obuf s' = obuf s @ code)"

definition code_for :: "tables \<Rightarrow> node list \<Rightarrow> node \<Rightarrow> u8 list \<Rightarrow> bool" where
  "code_for t ns n code \<longleftrightarrow> length code = node_size t n \<and> emits (deref ns n) (node_rule t n) code"

lemma asmb_codes:
  assumes "asmb_text t (map (deref ns) ms) a l = (Inr b, l')" and "chain t a ms c" and "ruled ms"
    and "\<And>m. m \<in> set ms \<Longrightarrow> node_size t m \<in> {0, 4, 8, 12, 16, 20, 24}"
  shows "\<exists>codes. list_all2 (code_for t ns) ms codes \<and> obuf l' = obuf l @ concat codes"
  using assms
proof (induction ms arbitrary: a l)
  case (Cons m ms)
  let ?p = "deref ns m"
  have p: "p_pc ?p = p_pc (n_prog m)" "p_optab ?p = p_optab (n_prog m)" by (simp_all add: deref_def)
  have r: "p_optab ?p \<noteq> 0" "p_pc ?p = a" using Cons.prems(2,3) p by (auto simp: ruled_def)
  obtain l1 where l1: "enter_text ?p l = (Inr (), l1)" "obuf l1 = obuf l"
    by (cases "p_as ?p = ATEXT") (auto simp: enter_text_def onlyif_def modify_def)
  have o: "oplook t ?p l1 = (Inr (?p, p_optab ?p - 1), l1)" using r(1) by (simp add: oplook_def)
  have nr: "rules t ! (p_optab ?p - 1) = node_rule t m" by (simp add: node_rule_def p)
  obtain l2 where l2: "asmout ?p (node_rule t m) l1 = (Inr (), l2)"
    and rest: "asmb_text t (map (deref ns) ms) (a + of_nat (node_size t m)) l2 = (Inr b, l')"
    using Cons.prems(1) l1 o r(2) nr by (auto simp: seq_def bind_def node_size_def split: sum.splits prod.splits)
  obtain code where code: "obuf l2 = obuf l1 @ code" "length code = node_size t m"
    using asmout_appends [OF l2] Cons.prems(4) [of m] by (auto simp: node_size_def)
  obtain codes where "list_all2 (code_for t ns) ms codes" "obuf l' = obuf l2 @ concat codes"
    using Cons.IH [OF rest] Cons.prems by (auto simp: ruled_def)
  moreover have "code_for t ns m code" unfolding code_for_def emits_def using code l2 by auto
  ultimately show ?case using code l1(2) by (intro exI [of _ "code # codes"]) simp
qed simp

lemma chain_holds:
  assumes "chain t a ns c" and "list_all2 (code_for t ms) ns codes" and "holds h s a (concat codes)" and "i < length ns"
  shows "holds h s (p_pc (n_prog (ns ! i))) (codes ! i)"
  using assms
proof (induction ns arbitrary: a codes i)
  case (Cons n ns)
  then obtain code cs where c: "codes = code # cs" "code_for t ms n code" "list_all2 (code_for t ms) ns cs"
    by (auto simp: list_all2_Cons1)
  then have "holds h s a code" "holds h s (a + of_nat (node_size t n)) (concat cs)"
    using Cons.prems(3) by (simp_all add: holds_append code_for_def)
  then show ?case using Cons.IH [of "a + of_nat (node_size t n)" cs] Cons.prems c by (cases i) auto
qed simp

lemma looked_size:
  assumes "built t" and "looked t nid n" and "p_optab (n_prog n) \<noteq> 0"
  shows "node_size t n \<in> {0, 4, 8, 12, 16, 20, 24}"
proof -
  obtain debugf l0 l0' where b: "buildop debugf False optab_rows l0 = (Inr t, l0')" using assms(1) by (auto simp: built_def)
  obtain p l l' where o: "p_optab p = 0" "oplook t p l = (Inr (n_prog n, p_optab (n_prog n) - 1), l')"
    using assms(2,3) by (auto simp: looked_def)
  show ?thesis using built_sizes [OF b o(2,1) assms(3)] by (auto simp: node_size_def node_rule_def)
qed

text \<open>What is known of a layout.\<close>

lemma layout_facts:
  assumes "buildop debugf False optab_rows l0 = (Inr t, l0')" and "fresh_nodes nid prog"
    and "dotext t debugt INITTEXT INITRND tab nid prog l = Some (Inr (ns, textsize, tab'), l')"
  shows "distinct (map n_id ns)" and "list_all (looked t nid) ns" and "ruled ns \<Longrightarrow> \<exists>c. chain t INITTEXT ns c" and "built t"
proof -
  obtain c l1 where t: "text_loop t INITTEXT \<lparr>blitrl = [], pool_start = 0, pool_size = 0, fresh = nid\<rparr> [] prog l = Some (Inr (c, ns), l1)"
    using dotext_loop [OF assms(3)] by blast
  obtain pl where "shape t nid c pl ns []" "list_all (looked t nid) ns"
    using looking.loop_keeps [OF t, of nid] start_shape [OF assms(1,2)] by auto
  then show "distinct (map n_id ns)" "list_all (looked t nid) ns" "built t" by (auto simp: shape_def)
  show "\<exists>c. chain t INITTEXT ns c" if "ruled ns" using addresses.loop_keeps [OF t, of INITTEXT] that by (auto simp: ruled_def)
qed

lemma written_codes:
  assumes "buildop debugf False optab_rows l0 = (Inr t, l0')" and "fresh_nodes nid prog"
    and "dotext t debugt INITTEXT INITRND tab nid prog l = Some (Inr (ns, textsize, tab'), l')" and "ruled ns"
    and "asmb_text t (map (deref ns) ns) INITTEXT l1 = (Inr pc, l2)"
  shows "\<exists>codes. list_all2 (code_for t ns) ns codes \<and> obuf l2 = obuf l1 @ concat codes"
    and "\<exists>c. chain t INITTEXT ns c"
proof -
  note L = layout_facts [OF assms(1-3)]
  obtain c where c: "chain t INITTEXT ns c" using L(3) assms(4) by blast
  have "node_size t m \<in> {0, 4, 8, 12, 16, 20, 24}" if "m \<in> set ns" for m
    using looked_size [OF L(4), of nid m] L(2) assms(4) that by (auto simp: list_all_iff ruled_def)
  from asmb_codes [OF assms(5) c assms(4) this] obtain codes where "list_all2 (code_for t ns) ns codes" "obuf l2 = obuf l1 @ concat codes" by blast
  then show "\<exists>codes. list_all2 (code_for t ns) ns codes \<and> obuf l2 = obuf l1 @ concat codes" "\<exists>c. chain t INITTEXT ns c" using c by blast+
qed

text \<open>
  C14: the loop of \<^verbatim>\<open>asmb\<close> writes, one after the other, the code of every instruction that
  \<^verbatim>\<open>dotext\<close> laid out, as many bytes as its rule says; so when the text is loaded at \<^verbatim>\<open>INITTEXT\<close>, the code
  of every instruction is at the address that branches, literals and symbols use for it.
\<close>

theorem code_at_addresses:
  assumes "buildop debugf False optab_rows l0 = (Inr t, l0')" and "fresh_nodes nid prog"
    and "dotext t debugt INITTEXT INITRND tab nid prog l = Some (Inr (ns, textsize, tab'), l')" and "ruled ns"
    and "asmb_text t (map (deref ns) ns) INITTEXT l1 = (Inr pc, l2)"
  shows "\<exists>codes. list_all2 (code_for t ns) ns codes \<and> obuf l2 = obuf l1 @ concat codes \<and>
    (\<forall>h s i. holds h s INITTEXT (concat codes) \<and> i < length ns \<longrightarrow> holds h s (p_pc (n_prog (ns ! i))) (codes ! i))"
  using written_codes [OF assms] chain_holds by blast

lemma codes_loaded:
  assumes "buildop debugf False optab_rows l0 = (Inr t, l0')" and "fresh_nodes nid prog"
    and "dotext t debugt INITTEXT INITRND tab nid prog l = Some (Inr (ns, textsize, tab'), l')" and "ruled ns"
    and "asmb_text t (map (deref ns) ns) INITTEXT l1 = (Inr pc, l2)" and "holds h s INITTEXT (drop (length (obuf l1)) (obuf l2))"
  shows "\<exists>codes. list_all2 (code_for t ns) ns codes \<and> holds h s INITTEXT (concat codes) \<and>
    (\<forall>i < length ns. holds h s (p_pc (n_prog (ns ! i))) (codes ! i))"
proof -
  obtain codes c where codes: "list_all2 (code_for t ns) ns codes" "obuf l2 = obuf l1 @ concat codes" "chain t INITTEXT ns c"
    using written_codes [OF assms(1-5)] by blast
  then have "holds h s INITTEXT (concat codes)" using assms(6) by simp
  then show ?thesis using chain_holds [OF codes(3,1)] codes(1) by blast
qed

lemma loaded_code:
  assumes "buildop debugf False optab_rows l0 = (Inr t, l0')" and "fresh_nodes nid prog"
    and "dotext t debugt INITTEXT INITRND tab nid prog l = Some (Inr (ns, textsize, tab'), l')" and "ruled ns"
    and "asmb_text t (map (deref ns) ns) INITTEXT l1 = (Inr pc, l2)" and "holds h s INITTEXT (drop (length (obuf l1)) (obuf l2))"
    and "x \<in> set ns"
  shows "\<exists>code. code_for t ns x code \<and> holds h s (p_pc (n_prog x)) code"
proof -
  obtain codes where codes: "list_all2 (code_for t ns) ns codes" "\<And>i. i < length ns \<Longrightarrow> holds h s (p_pc (n_prog (ns ! i))) (codes ! i)"
    using codes_loaded [OF assms(1-6)] by blast
  obtain i where i: "i < length ns" "x = ns ! i" using assms(7) by (auto simp: in_set_conv_nth)
  then show ?thesis using codes(2) list_all2_nthD [OF codes(1) i(1)] by blast
qed

section \<open>Large constants\<close>

text \<open>A load relative to the program counter, which the emulator takes to be eight bytes ahead.\<close>

lemma pc_loaded:
  fixes v :: u64
  assumes "\<not> bit w 25" "bit w 24" "\<not> bit w 21" "\<not> bit w 22" "bit w 20" "fld 16 w = 15" "fld 12 w \<noteq> 15" "mem_off w = ucast v"
    and v: "- 4096 < sint v" "sint v < 4096"
    and "wf_mem s" and u: "getmem_w h (ucast (regs s 15) + v + 8) s = (Inr x, u)" "transparent h s u"
  shows "\<exists>t. Imem1 h w s = (Inr (), t) \<and> wf_mem t \<and> mview h t = mview h s \<and> regs t = (regs s)(fld 12 w := x) \<and> membpt t = membpt s"
proof -
  have s8: "(scast (ucast v + 8 :: u32) :: u64) = v + 8"
  proof -
    have "ucast v + 8 = (word_of_int (sint v + 8) :: u32)" using ucast_of_int [of "sint v"] by simp
    then show ?thesis using scast_in_range [of "sint v + 8"] v by simp
  qed
  have up: "(scast ((w AND 0xfff) + 8) :: u64) = v + 8" if "bit w 23" using s8 assms(8) that by (simp add: mem_off_def)
  have down: "(scast (8 - (w AND 0xfff)) :: u64) = v + 8" if "\<not> bit w 23"
  proof -
    have "- (w AND 0xfff) = ucast v" using assms(8) that unfolding mem_off_def if_not_P [OF that] by blast
    then have "ucast v + 8 = - (w AND 0xfff) + 8" by (rule arg_cong [where f = "\<lambda>x. x + 8", OF sym])
    then have e: "8 - (w AND 0xfff) = ucast v + 8" by simp
    show ?thesis unfolding e by (rule s8)
  qed
  have "Imem1 h w s = modify (setr (fld 12 w) x) u"
    using assms(1-7) up down u(1)
    by (cases "bit w 23") (simp_all add: Imem1_def Let_def seq_def bind_norm onlyif_def ucast_64_32 add.assoc, simp_all add: bind_def)
  then show ?thesis using transparentD(1,2) [OF u(2) assms(11)] cpu_regs [OF transparentD(3) [OF u(2)]] by simp
qed

lemma pc_loaded_runs:
  fixes v :: u64
  assumes "ready s" and v: "- 4096 < sint v" "sint v < 4096" and "rt < 15"
    and "(ucast (regs s 15) + v + 8) AND 3 = 0" and "mword h s (ucast (regs s 15) + v + 8) = Some x"
  shows "runs_to h sys s (le_bytes (ldr_bits (sint v \<ge> 0) False True 15 rt (ucast (mag v)))) ((regs s)(rt := x, 15 := regs s 15 + 4))"
proof -
  let ?w = "ldr_bits (sint v \<ge> 0) False True 15 rt (ucast (mag v))" and ?R = "(regs s)(rt := x)"
  have m: "unat (ucast (mag v) :: u32) < 4096"
    using small_offset(1) [OF v] by (simp add: unsigned_ucast_eq take_bit_nat_eq_self)
  have rt: "rt < 16" using assms(4) by simp
  have b: "15 < (16 :: nat)" by simp
  note f = ldr_fields [OF b rt m, where up = "sint v \<ge> 0" and byte = False and ld = True]
  have lb: "\<not> bit ?w 22" "bit ?w 20" using f(8,9) by simp_all
  have mo: "mem_off ?w = ucast v" using f small_offset(2) [OF v] by (simp add: mem_off_def split: if_splits)
  have "\<exists>t. itab h sys (arm_class ?w) ?w u = (Inr (), t) \<and>
      wf_mem t \<and> regs t = ?R \<and> mview h t = mview h s \<and> membpt t = 0 \<and> bplist t = []" if u: "same_machine h s u" for u
  proof -
    have r: "regs u = regs s" "mview h u = mview h s" "wf_mem u" "membpt u = 0" "bplist u = []"
      using u assms(1) by (simp_all add: same_machine_def ready_def)
    obtain u' where g: "getmem_w h (ucast (regs u 15) + v + 8) u = (Inr x, u')" "transparent h u u'"
      using aligned_load [OF assms(5,6) u] r(1) by auto
    have n: "fld 12 ?w \<noteq> 15" using f(3) assms(4) by simp
    obtain t where t: "Imem1 h ?w u = (Inr (), t)" "wf_mem t" "mview h t = mview h u" "regs t = (regs u)(fld 12 ?w := x)" "membpt t = membpt u"
      using pc_loaded [OF f(4,5,6) lb f(2) n mo v r(3) g] by blast
    have "bplist t = []" using keeps_bp [OF sane_memory(2) t(1) r(5)] .
    then show ?thesis using t r f(3) itab_class(5) [OF f(10), of h sys] by simp
  qed
  moreover have "?R 15 = regs s 15" "regs s 15 AND 3 = 0" using assms(1,4) by (simp_all add: ready_def)
  ultimately show ?thesis unfolding runs_to_def
    using step_machine [OF assms(1) _ f(1), of h sys ?R "mview h s"] holds_word [of h s "ucast (regs s 15)" ?w]
    by (metis (no_types, lifting))
qed

text \<open>An instruction that moves a constant to a register, where neither it nor its complement is an immediate.\<close>

definition large_move :: "prog \<Rightarrow> bool" where
  "large_move p \<longleftrightarrow> p_as p = AMOVW \<and> p_reg p = R_NONE \<and> p_scond p = 14 \<and> const_operand (p_from p) \<and>
     a_symkind (p_from p) = N_NONE \<and> immrot (a_offset (p_from p)) = 0 \<and> immrot (NOT (a_offset (p_from p))) = 0 \<and>
     a_type (p_to p) = D_REG \<and> a_reg (p_to p) < 15"

lemma large_class: "large_move p \<Longrightarrow> aclass (p_from p) l = (Inr C_LCON, l\<lparr>instoffset := a_offset (p_from p)\<rparr>)"
  by (simp add: large_move_def const_operand_def aclass_def set_off_def seq_def)

lemma large_rule:
  assumes "buildop False False optab_rows l0 = (Inr t, l0')" and "looked t nid n" and "p_optab (n_prog n) \<noteq> 0" and "\<not> made nid n"
    and "large_move (n_prog n)"
  shows "node_rule t n = rule AMOVW C_LCON C_NONE C_REG 12 4 0 LFROM"
proof -
  obtain p l l' where p: "fresh_prog p" "oplook t p l = (Inr (n_prog n, p_optab (n_prog n) - 1), l')"
    using assms(2-4) by (auto simp: looked_def)
  obtain x y j where e: "n_prog n = p\<lparr>p_from := (p_from p)\<lparr>a_class := x\<rparr>, p_to := (p_to p)\<lparr>a_class := y\<rparr>, p_optab := j\<rparr>"
    using oplook_same [OF p(2)] by blast
  have l: "large_move p" using assms(5) unfolding e by (simp add: large_move_def const_operand_def)
  let ?l = "l\<lparr>instoffset := a_offset (p_from p)\<rparr>"
  have c: "class_of (p_from p) l = (Inr ((p_from p)\<lparr>a_class := C_LCON + 1\<rparr>, C_LCON), ?l)"
      "class_of (p_to p) ?l = (Inr ((p_to p)\<lparr>a_class := C_REG + 1\<rparr>, C_REG), ?l)"
    using p(1) l class_of_fresh [OF _ large_class [OF l]] class_of_fresh [OF _ class_reg] by (simp_all add: fresh_prog_def large_move_def)
  have "candidates default_rules (p_as p) C_LCON C_NONE C_REG = [rule AMOVW C_LCON C_NONE C_REG 12 4 0 LFROM]"
    using l candidates_rows [OF _ rows_AMOVW, of "p_as p"] by (simp add: large_move_def rep_def opsets_def cmp.simps)
  with l p(1) oplook_chooses [OF default_prepared [OF assms(1)] _ _ c, of "rule AMOVW C_LCON C_NONE C_REG 12 4 0 LFROM" "[]"]
  obtain k where k: "oplook t p l = (Inr (p\<lparr>p_from := (p_from p)\<lparr>a_class := C_LCON + 1\<rparr>, p_to := (p_to p)\<lparr>a_class := C_REG + 1\<rparr>, p_optab := k + 1\<rparr>, k), ?l)"
    "rules t ! k = rule AMOVW C_LCON C_NONE C_REG 12 4 0 LFROM"
    by (auto simp: large_move_def fresh_prog_def)
  then have "k = p_optab (n_prog n) - 1" using p(2) by simp
  then show ?thesis using k(2) by (simp add: node_rule_def)
qed

lemma word_rows:
  "list_all (\<lambda>r. o_as r = AWORD \<longrightarrow> o_type r = 11 \<and> o_size r = 4) (optab_rows1 @ optab_rows2 @ optab_rows3)"
  by code_simp

lemma word_rule:
  assumes "built t" and "looked t nid n" and "p_optab (n_prog n) \<noteq> 0" and "p_as (n_prog n) = AWORD"
  shows "o_type (node_rule t n) = 11 \<and> o_size (node_rule t n) = 4"
proof -
  obtain debugf l0 l0' where b: "buildop debugf False optab_rows l0 = (Inr t, l0')" using assms(1) by (auto simp: built_def)
  obtain p l l' where p: "p_optab p = 0" "oplook t p l = (Inr (n_prog n, p_optab (n_prog n) - 1), l')"
    using assms(2,3) by (auto simp: looked_def)
  have "p_as p = AWORD" using oplook_same [OF p(2)] assms(4) by auto
  then have "o_as (node_rule t n) = AWORD" using built_row(2) [OF b p(2,1) assms(3)] by (simp add: node_rule_def rep_def opsets_def)
  moreover obtain r where "r \<in> set (optab_rows1 @ optab_rows2 @ optab_rows3)" "node_rule t n = r \<or> node_rule t n = r\<lparr>o_as := AXXX\<rparr>"
    using built_row(1) [OF b p(2,1) assms(3)] unfolding node_rule_def by blast
  ultimately show ?thesis using word_rows [unfolded list_all_iff] by auto
qed

lemma word_code:
  assumes "emits p ot code" and "o_type ot = 11" and "o_size ot = 4" and "a_type (p_to p) = D_CONST" and "a_symkind (p_to p) = N_NONE"
  shows "code = le_bytes (ucast (a_offset (p_to p)))"
proof -
  obtain s s' where s: "asmout p ot s = (Inr (), s')" "obuf s' = obuf s @ code" using assms(1) by (auto simp: emits_def)
  define c where "c = (if a_reg (p_to p) \<noteq> R_NONE then aconsize (a_offset (p_to p)) else if immrot (a_offset (p_to p)) \<noteq> 0 then C_RCON
    else if immrot (NOT (a_offset (p_to p))) \<noteq> 0 then C_NCON else C_LCON)"
  have "aclass (p_to p) s = (Inr c, s\<lparr>instoffset := a_offset (p_to p)\<rparr>)"
    using assms(4) by (simp add: aclass_def set_off_def seq_def Let_def c_def)
  moreover have "c \<noteq> C_ADDR" by (simp add: c_def aconsize_def)
  ultimately have "asm_words p ot s = (Inr [ucast (a_offset (p_to p))], s\<lparr>instoffset := a_offset (p_to p)\<rparr>)"
    using assms(2,5) by (simp add: asm_words_def asm_11_def bind_def seq_def onlyif_def gets_def)
  from asmout_words [OF this] show ?thesis using s assms(3) by simp
qed

lemma load_code:
  assumes "emits p ot code" and "o_type ot = 12" and "o_size ot = 4" and "pool_at p c"
  shows "code = le_bytes (ldr_bits (sint (c - p_pc p - 8) \<ge> 0) False True 15 (a_reg (p_to p)) (ucast (mag (c - p_pc p - 8))))"
proof -
  obtain s s' where s: "asmout p ot s = (Inr (), s')" "obuf s' = obuf s @ code" using assms(1) by (auto simp: emits_def)
  let ?w = "ldr_bits (sint (c - p_pc p - 8) \<ge> 0) False True 15 (a_reg (p_to p)) (ucast (mag (c - p_pc p - 8)))"
  have "asm_words p ot s = (Inr [?w], s)"
    using assms(2) omvl_pool [OF assms(4)] by (simp add: asm_words_def asm_12_def bind_def)
  from asmout_words [OF this] show ?thesis using s assms(3) by simp
qed

lemma node_pc_unique: "distinct (map n_id ns) \<Longrightarrow> w \<in> set ns \<Longrightarrow> node_pc ns (n_id w) = p_pc (n_prog w)"
proof -
  assume d: "distinct (map n_id ns)" "w \<in> set ns"
  then obtain v where "find (\<lambda>n. n_id n = n_id w) ns = Some v" using find_None_iff [of "\<lambda>n. n_id n = n_id w" ns] by fastforce
  moreover from this have "v \<in> set ns" "n_id v = n_id w" by (auto simp: find_Some_iff)
  then have "v = w" using d by (auto simp: distinct_map dest: inj_onD)
  ultimately show ?thesis by (simp add: node_pc_def)
qed

lemma add_quad: "4 dvd k \<Longrightarrow> (a + of_nat k) AND 3 = (a AND 3 :: u64)"
proof -
  assume "4 dvd k"
  have u: "uint (x AND 3) = uint x mod 4" for x :: u64
    using take_bit_eq_mask [of 2 "uint x"] by (simp add: unsigned_and_eq take_bit_eq_mod mask_eq_exp_minus_1)
  have c: "x mod 2 ^ 64 mod 4 = x mod (4 :: int)" for x by (rule mod_mod_cancel) simp
  have "uint (a + of_nat k) = (uint a + int k mod 2 ^ 64) mod 2 ^ 64"
    by (simp add: uint_word_ariths unsigned_of_nat take_bit_eq_mod zmod_int)
  then have "uint (a + of_nat k) mod 4 = (uint a + int k mod 2 ^ 64) mod 4" unfolding c [of "uint a + int k mod 2 ^ 64", symmetric] by (rule arg_cong)
  then have "uint (a + of_nat k) mod 4 = (uint a + int k mod 2 ^ 64 mod 4) mod 4" by (simp only: mod_add_right_eq)
  moreover have "int k mod 4 = 0" using \<open>4 dvd k\<close> by presburger
  ultimately have "uint (a + of_nat k) mod 4 = uint a mod 4" unfolding c by simp
  then show ?thesis using u by (metis word_uint_eq_iff)
qed

lemma chain_aligned:
  assumes "chain t a ns c" and "\<And>n. n \<in> set ns \<Longrightarrow> node_size t n \<in> {0, 4, 8, 12, 16, 20, 24}" and "n \<in> set ns"
  shows "p_pc (n_prog n) AND 3 = a AND 3"
  using assms
proof (induction ns arbitrary: a)
  case (Cons m ns)
  have "(a + of_nat (node_size t m)) AND 3 = a AND 3" using Cons.prems(2) [of m] add_quad [of "node_size t m" a] by auto
  then show ?case using Cons by auto
qed simp

lemma offset_word:
  fixes a b :: u64
  assumes "- 4 \<le> uint a - (uint b + 8)" and "uint a - (uint b + 8) \<le> 4095"
  shows "sint (a - b - 8) = uint a - (uint b + 8)"
proof -
  have "a - b - 8 = word_of_int (uint a - (uint b + 8))" by (simp add: algebra_simps)
  moreover have "sint (word_of_int i :: u64) = i" if "- 4 \<le> i" "i \<le> 4095" for i
    by (subst sint_sbintrunc') (use that in \<open>simp add: signed_take_bit_int_eq_self\<close>)
  ultimately show ?thesis using assms by metis
qed

lemma quad_ucast: "w AND 3 = 0 \<Longrightarrow> (ucast w :: u64) AND 3 = 0" for w :: u32
proof -
  assume "w AND 3 = 0"
  have "(ucast w :: u64) AND 3 = ucast (w AND 3)" by (rule bit_word_eqI) (auto simp: bit_simps dest: bit_imp_le_length)
  then show ?thesis using \<open>w AND 3 = 0\<close> by simp
qed

lemma word_const:
  assumes "word_for t z n w" and "literal_operand (node_rule t n) (n_prog n) = p_from (n_prog n)" and "large_move (n_prog n)"
  shows "a_type (p_to (n_prog w)) = D_CONST \<and> a_symkind (p_to (n_prog w)) = N_NONE \<and> a_offset (p_to (n_prog w)) = a_offset (p_from (n_prog n))"
proof -
  obtain l c l' where "aclass (p_from (n_prog n)) l = (Inr c, l')"
    and s: "same_operand (p_to (n_prog w)) (literal (p_from (n_prog n)) c (instoffset l'))"
    using assms(1,2) by (auto simp: word_for_def literal_for_def)
  then have "c = C_LCON" using large_class [OF assms(3), of l] by simp
  then have "(p_to (n_prog w))\<lparr>a_class := 0\<rparr> = (p_from (n_prog n))\<lparr>a_class := 0\<rparr>" using s by (simp add: same_operand_def literal_def)
  then have "f ((p_to (n_prog w))\<lparr>a_class := 0\<rparr>) = f ((p_from (n_prog n))\<lparr>a_class := 0\<rparr>)" for f :: "adr \<Rightarrow> _" by simp
  from this [of a_type] this [of a_symkind] this [of a_offset] show ?thesis
    using assms(3) by (simp add: large_move_def const_operand_def)
qed

text \<open>
  C2: a constant that is no immediate operand through the whole linker. The instruction that
  moves it to a register is laid out with a pool word for the constant, the code of both is written, and when the
  text is loaded at \<^verbatim>\<open>INITTEXT\<close> the emulator, at the address of the instruction, executes it and has the
  constant in the register. The move is unconditional, to one of \<^verbatim>\<open>R0\<close> to \<^verbatim>\<open>R14\<close>, and the linker runs without
  the flags that change its table. The program may be any in which every instruction has a rule of at most 12
  bytes, the last instruction takes space and the addresses stay below \<open>2^61\<close>: with a longer rule a pool can get
  out of reach, and after a last instruction without code a pool is never put away.
\<close>

theorem linked_constant_runs:
  assumes "buildop False False optab_rows l0 = (Inr t, l0')" and "fresh_nodes nid prog"
    and "dotext t debugt INITTEXT INITRND tab nid prog l = Some (Inr (ns, textsize, tab'), l')"
    and "small t INITTEXT ns" and "node_size t (last ns) \<noteq> 0"
    and "asmb_text t (map (deref ns) ns) INITTEXT l1 = (Inr pc, l2)"
    and "n \<in> set ns" and "n_id n < nid" and "large_move (n_prog n)"
    and "ready s" and "ucast (regs s 15) = p_pc (n_prog n)" and "holds h s INITTEXT (drop (length (obuf l1)) (obuf l2))"
  shows "\<exists>u. run_step h sys s = (Inr (), u) \<and> mview h u = mview h s \<and> ready u \<and>
    regs u = (regs s)(a_reg (p_to (n_prog n)) := ucast (a_offset (p_from (n_prog n))), 15 := regs s 15 + 4)"
proof -
  have r: "ruled ns" using assms(4) by (simp add: small_def)
  note L = layout_facts [OF assms(1-3)]
  have m: "\<not> made nid n" using assms(8) by (simp add: made_def)
  have o: "p_optab (n_prog x) \<noteq> 0" "looked t nid x" if "x \<in> set ns" for x using r L(2) that by (auto simp: ruled_def list_all_iff)
  have nr: "node_rule t n = rule AMOVW C_LCON C_NONE C_REG 12 4 0 LFROM"
    by (rule large_rule [OF assms(1) o(2,1) m assms(9)]) (rule assms(7))+
  then have tl: "takes_literal (node_rule t n)" "literal_operand (node_rule t n) (n_prog n) = p_from (n_prog n)"
    by (simp_all add: takes_literal_def pool_flag_def rule_def literal_operand_def)
  obtain w where w: "w \<in> set ns" "word_for t (frame_at (autosize l) prog (n_id n)) n w" "- 4 \<le> npc w - (npc n + 8)" "npc w - (npc n + 8) \<le> 4095"
    using literal_resolved [OF assms(1-5,7) tl(1)] by (auto simp: resolved_def hits_def)
  let ?p = "deref ns n" and ?c = "p_pc (n_prog w)"
  have pc: "p_pc ?p = p_pc (n_prog n)" "p_cond ?p = At ?c" "p_scond ?p = 14" "a_reg (p_to ?p) = a_reg (p_to (n_prog n))"
    using w(2) node_pc_unique [OF L(1) w(1)] assms(9) by (simp_all add: deref_def word_for_def large_move_def)
  have off: "sint (?c - p_pc (n_prog n) - 8) = npc w - (npc n + 8)" unfolding npc_def by (rule offset_word) (use w(3,4) in \<open>simp_all add: npc_def\<close>)
  have at: "pool_at ?p ?c" using pc w(3,4) unfolding pool_at_def pc(1) off by simp
  note code = loaded_code [OF assms(1-3) r assms(6,12)]
  obtain cn where cn: "code_for t ns n cn" "holds h s (p_pc (n_prog n)) cn" using code [OF assms(7)] by blast
  obtain cw where cw: "code_for t ns w cw" "holds h s ?c cw" using code [OF w(1)] by blast
  have "p_as (n_prog w) = AWORD" using w(2) by (simp add: word_for_def)
  note wr = word_rule [OF L(4) o(2,1) this, OF w(1) w(1)]
  have to: "a_type (p_to (deref ns w)) = D_CONST" "a_symkind (p_to (deref ns w)) = N_NONE" "a_offset (p_to (deref ns w)) = a_offset (p_from (n_prog n))"
    using word_const [OF w(2) tl(2) assms(9)] by (simp_all add: deref_def)
  have "cw = le_bytes (ucast (a_offset (p_from (n_prog n))))"
    using word_code [OF _ _ _ to(1,2), of "node_rule t w" cw] cw(1) wr to(3) by (simp add: code_for_def)
  then have mw: "mword h s ?c = Some (ucast (a_offset (p_from (n_prog n))))" using holds_word cw(2) by blast
  have ca: "cn = le_bytes (ldr_bits (sint (?c - p_pc ?p - 8) \<ge> 0) False True 15 (a_reg (p_to ?p)) (ucast (mag (?c - p_pc ?p - 8))))"
    using load_code [OF _ _ _ at, of "node_rule t n" cn] cn(1) nr by (simp add: code_for_def rule_def)
  let ?v = "?c - p_pc (n_prog n) - 8"
  have ad: "ucast (regs s 15) + ?v + 8 = ?c" using assms(11) by simp
  have sz: "node_size t x \<in> {0, 4, 8, 12, 16, 20, 24}" if "x \<in> set ns" for x by (rule looked_size [OF L(4) o(2,1)]) (rule that)+
  obtain c where ch: "chain t INITTEXT ns c" using L(3) r by blast
  have "p_pc (n_prog n) AND 3 = 0" using assms(10) quad_ucast [of "regs s 15"] unfolding assms(11) [symmetric] by (simp add: ready_def)
  then have al: "?c AND 3 = 0" using chain_aligned [OF ch sz] assms(7) w(1) by metis
  have "runs_to h sys s cn ((regs s)(a_reg (p_to (n_prog n)) := ucast (a_offset (p_from (n_prog n))), 15 := regs s 15 + 4))"
    unfolding ca pc(1,4) by (rule pc_loaded_runs [OF assms(10)]) (use off w(3,4) assms(9) ad al mw in \<open>simp_all add: large_move_def\<close>)
  then show ?thesis using cn(2) assms(11) unfolding runs_to_def by metis
qed

section \<open>Jumps\<close>

text \<open>An instruction that does not take a literal keeps its target.\<close>

definition refs_kept :: "tables \<Rightarrow> nat \<Rightarrow> node list \<Rightarrow> node list \<Rightarrow> node list \<Rightarrow> bool" where
  "refs_kept t nid prog ns todo \<longleftrightarrow> (\<forall>n \<in> set todo. made nid n \<or> n \<in> set prog) \<and>
     (\<forall>n \<in> set ns. made nid n \<or> p_optab (n_prog n) = 0 \<or> takes_literal (node_rule t n) \<or> (\<exists>p \<in> set prog. n_id p = n_id n \<and> n_ref p = n_ref n))"

lemma round_ref:
  assumes "text_one t c pl p rest l = (Inr (c', pl', p', rest'), l')" and "p_optab (n_prog p') \<noteq> 0" and "\<not> takes_literal (node_rule t p')"
  shows "n_ref p' = n_ref p"
  using assms(1)
proof (cases rule: text_one_elim)
  case (2 q k l1 l2 x)
  then have "n_prog p' = q" using added_same [OF 2(4)] by simp
  then have "node_rule t p' = rules t ! k" using oplook_memo [OF 2(1)] assms(2) by (simp add: node_rule_def)
  then show ?thesis using 2(4) assms(3) by (simp add: added_def)
qed simp

interpretation targets: text_invariant t "\<lambda>c pl ns todo. shape t nid c pl ns todo \<and> kept nid prog (ns @ todo) \<and> refs_kept t nid prog ns todo" for t nid prog
proof
  fix c pl ns p rest l c' pl' p' rest' l'
  assume I: "shape t nid c pl ns (p # rest) \<and> kept nid prog (ns @ p # rest) \<and> refs_kept t nid prog ns (p # rest)"
    and o: "text_one t c pl p rest l = (Inr (c', pl', p', rest'), l')"
  have s: "shape t nid c pl ns (p # rest)" and k: "shape t nid c' pl' (ns @ [p']) rest' \<and> kept nid prog ((ns @ [p']) @ rest')"
    using I keeping.round [OF _ o, of nid ns prog] by simp_all
  have "made nid n \<or> n \<in> set rest" if "n \<in> set rest'" for n
    using that round_filter [OF s o] by (metis (mono_tags, lifting) mem_Collect_eq set_filter)
  then have "refs_kept t nid prog (ns @ [p']) rest'"
    using I round_ref [OF o] text_one_node(1) [OF o] by (auto simp: refs_kept_def made_def)
  then show "shape t nid c' pl' (ns @ [p']) rest' \<and> kept nid prog ((ns @ [p']) @ rest') \<and> refs_kept t nid prog (ns @ [p']) rest'" using k by blast
qed

lemma layout_refs:
  assumes "buildop debugf False optab_rows l0 = (Inr t, l0')" and "fresh_nodes nid prog"
    and "dotext t debugt INITTEXT INITRND tab nid prog l = Some (Inr (ns, textsize, tab'), l')"
    and "n \<in> set ns" and "p \<in> set prog" and "n_id n = n_id p" and "p_optab (n_prog n) \<noteq> 0"
  shows "skel n = skel p" and "takes_literal (node_rule t n) \<or> n_ref n = n_ref p" and "\<not> made nid n"
proof -
  obtain c l1 where t: "text_loop t INITTEXT \<lparr>blitrl = [], pool_start = 0, pool_size = 0, fresh = nid\<rparr> [] prog l = Some (Inr (c, ns), l1)"
    using dotext_loop [OF assms(3)] by blast
  have f: "list_all (\<lambda>n. \<not> made nid n) prog" "distinct (map n_id prog)" using assms(2) by (auto simp: fresh_nodes_def list_all_iff made_def)
  then have "filter (\<lambda>n. \<not> made nid n) prog = prog" by (intro filter_True) (simp add: list_all_iff)
  then have "kept nid prog prog" "refs_kept t nid prog [] prog" by (simp_all add: kept_def refs_kept_def)
  then have k: "kept nid prog ns" "refs_kept t nid prog ns []"
    using targets.loop_keeps [OF t, of nid prog] start_shape [OF assms(1,2)] by auto
  have u: "q = p" if "q \<in> set prog" "n_id q = n_id p" for q using that assms(5) f(2) by (auto simp: distinct_map dest: inj_onD)
  show m: "\<not> made nid n" using f(1) assms(5,6) by (auto simp: list_all_iff made_def)
  then have "skel n \<in> skel ` set prog" using k(1) assms(4) unfolding kept_def by (metis (mono_tags, lifting) image_eqI list.set_map mem_Collect_eq set_filter)
  then show "skel n = skel p" using u assms(6) by (auto simp: skel_def)
  show "takes_literal (node_rule t n) \<or> n_ref n = n_ref p" using k(2) m assms(4,6,7) u by (fastforce simp: refs_kept_def)
qed

text \<open>A jump to a label: a branch with its condition, or a conditional call.\<close>

definition jump :: "prog \<Rightarrow> nat \<Rightarrow> bool" where
  "jump p k \<longleftrightarrow> a_type (p_from p) = D_NONE \<and> a_type (p_to p) = D_BRANCH \<and> p_reg p = R_NONE \<and> is_branch (p_as p) \<and>
     p_scond p = of_nat k \<and> k < 16 \<and> (p_as p = ABL \<or> k = 14)"

lemma jump_rule:
  assumes "buildop False False optab_rows l0 = (Inr t, l0')" and "looked t nid n" and "p_optab (n_prog n) \<noteq> 0" and "\<not> made nid n"
    and "jump (n_prog n) k"
  shows "o_type (node_rule t n) = 5 \<and> o_size (node_rule t n) = 4 \<and> \<not> takes_literal (node_rule t n)"
proof -
  obtain p l l' where p: "fresh_prog p" "oplook t p l = (Inr (n_prog n, p_optab (n_prog n) - 1), l')"
    using assms(2-4) by (auto simp: looked_def)
  obtain x y j where e: "n_prog n = p\<lparr>p_from := (p_from p)\<lparr>a_class := x\<rparr>, p_to := (p_to p)\<lparr>a_class := y\<rparr>, p_optab := j\<rparr>"
    using oplook_same [OF p(2)] by blast
  have b: "jump p k" using assms(5) unfolding e by (simp add: jump_def)
  let ?r = "rule (rep (p_as p)) C_NONE C_NONE C_BRANCH 5 4 0 (if rep (p_as p) = AB then LPOOL else 0)"
  have cl: "aclass (p_from p) l = (Inr C_NONE, l)" "aclass (p_to p) l = (Inr C_BRANCH, l)"
    using b by (simp_all add: jump_def aclass_def ret_def)
  then have c: "class_of (p_from p) l = (Inr ((p_from p)\<lparr>a_class := C_NONE + 1\<rparr>, C_NONE), l)"
      "class_of (p_to p) l = (Inr ((p_to p)\<lparr>a_class := C_BRANCH + 1\<rparr>, C_BRANCH), l)"
    using p(1) class_of_fresh by (simp_all add: fresh_prog_def)
  have "candidates default_rules (p_as p) C_NONE C_NONE C_BRANCH = [?r]"
    using candidates_rows [OF refl refl, where a = "p_as p"] branch_rule [OF branch_rep, of "p_as p"] b by (simp add: jump_def)
  with b p(1) oplook_chooses [OF default_prepared [OF assms(1)] _ _ c, of ?r "[]"]
  obtain i where i: "oplook t p l = (Inr (p\<lparr>p_from := (p_from p)\<lparr>a_class := C_NONE + 1\<rparr>, p_to := (p_to p)\<lparr>a_class := C_BRANCH + 1\<rparr>, p_optab := i + 1\<rparr>, i), l)"
    "rules t ! i = ?r"
    by (auto simp: jump_def fresh_prog_def is_branch_def)
  then have "i = p_optab (n_prog n) - 1" using p(2) by simp
  then have "node_rule t n = ?r" using i(2) by (simp add: node_rule_def)
  then show ?thesis by (simp add: rule_def takes_literal_def pool_flag_def)
qed

lemma quad_low: "w AND 3 = 0 \<Longrightarrow> (ucast w :: u32) AND 3 = 0" for w :: u64
proof -
  assume "w AND 3 = 0"
  have "(ucast w :: u32) AND 3 = ucast (w AND 3)" by (rule bit_word_eqI) (auto simp: bit_simps dest: bit_imp_le_length)
  then show ?thesis using \<open>w AND 3 = 0\<close> by simp
qed

lemma jump_skel: "skel n = skel p \<Longrightarrow> jump (n_prog n) k = jump (n_prog p) k \<and> p_as (n_prog n) = p_as (n_prog p)"
  by (cases "n_prog n"; cases "n_prog p") (auto simp: skel_def jump_def dest: arg_cong [where f = a_type])

text \<open>What a jump becomes, once its target has the address \<open>c\<close>.\<close>

lemma jump_runs:
  assumes "jump (n_prog n) k" and "o_type (node_rule t n) = 5" "o_size (node_rule t n) = 4"
    and "code_for t ns n code" and "p_cond (deref ns n) = At (ucast c)" and "p_pc (n_prog n) = ucast (regs s 15)" and "c AND 3 = 0"
    and "- (2 ^ 25) \<le> uint c - uint (regs s 15) - 8" and "uint c - uint (regs s 15) - 8 < 2 ^ 25"
    and "ready s" and "decides (bra_code (p_as (n_prog n)) k) s b"
  shows "runs_to h sys s code
    (if b then (if p_as (n_prog n) = ABL then (regs s)(14 := regs s 15 + 4, 15 := c) else (regs s)(15 := c)) else (regs s)(15 := regs s 15 + 4))"
proof -
  have f: "p_as (deref ns n) = p_as (n_prog n)" "p_scond (deref ns n) = p_scond (n_prog n)" "p_pc (deref ns n) = p_pc (n_prog n)"
    by (simp_all add: deref_def)
  have at: "branch_at (deref ns n) (node_rule t n) k (regs s 15) c"
    using assms(1-3,5-9) by (simp add: branch_at_def jump_def f)
  have d: "decides (bra_code (p_as (deref ns n)) k) s b" using assms(11) by (simp add: f)
  obtain l l' where e: "asmout (deref ns n) (node_rule t n) l = (Inr (), l')" "obuf l' = obuf l @ code"
    using assms(4) by (auto simp: code_for_def emits_def)
  from branch_code_runs [OF at assms(10) d, of l h sys] e show ?thesis unfolding f by auto
qed

text \<open>
  C3: a jump of a program, laid out with its literal pools, encoded and loaded: when the
  emulator runs it, control goes to the address of the instruction that the jump points to, wherever
  the pools have moved it within the reach of a branch, if the condition of the jump holds, and to
  the following word otherwise; a call also leaves the return address in \<^verbatim>\<open>R14\<close>.
\<close>

theorem linked_jump_runs:
  assumes "buildop False False optab_rows l0 = (Inr t, l0')" and "fresh_nodes nid prog"
    and "dotext t debugt INITTEXT INITRND tab nid prog l = Some (Inr (ns, textsize, tab'), l')" and "ruled ns"
    and "asmb_text t (map (deref ns) ns) INITTEXT l1 = (Inr pc, l2)"
    and "p \<in> set prog" and "jump (n_prog p) k" and "q \<in> set prog" and "n_ref p = Ref (n_id q)"
    and "n \<in> set ns" and "n_id n = n_id p" and "m \<in> set ns" and "n_id m = n_id q"
    and "npc m < 2 ^ 32" and "- (2 ^ 25) \<le> npc m - npc n - 8" and "npc m - npc n - 8 < 2 ^ 25"
    and "ready s" and "ucast (regs s 15) = p_pc (n_prog n)" and "holds h s INITTEXT (drop (length (obuf l1)) (obuf l2))"
    and "decides (bra_code (p_as (n_prog p)) k) s b"
  defines "c \<equiv> ucast (p_pc (n_prog m)) :: u32"
  shows "\<exists>u. run_step h sys s = (Inr (), u) \<and> mview h u = mview h s \<and> ready u \<and>
    regs u = (if b then (if p_as (n_prog p) = ABL then (regs s)(14 := regs s 15 + 4, 15 := c) else (regs s)(15 := c))
      else (regs s)(15 := regs s 15 + 4))"
proof -
  note L = layout_facts [OF assms(1-3)]
  have o: "p_optab (n_prog x) \<noteq> 0" "looked t nid x" if "x \<in> set ns" for x using assms(4) L(2) that by (auto simp: ruled_def list_all_iff)
  note R = layout_refs [OF assms(1-3,10,6,11) o(1) [OF assms(10)]]
  have j: "jump (n_prog n) k" "p_as (n_prog n) = p_as (n_prog p)" using jump_skel [OF R(1)] assms(7) by simp_all
  note r = jump_rule [OF assms(1) o(2) [OF assms(10)] o(1) [OF assms(10)] R(3) j(1)]
  have "n_ref n = Ref (n_id m)" using R(2) r assms(9,13) by simp
  then have at: "p_cond (deref ns n) = At (p_pc (n_prog m))" using node_pc_unique [OF L(1) assms(12)] by (simp add: deref_def)
  have uc: "uint c = npc m" "ucast c = p_pc (n_prog m)"
  proof -
    have "uint c = take_bit 32 (npc m)" by (simp add: c_def npc_def unsigned_ucast_eq unsigned_take_bit_eq)
    then show u: "uint c = npc m" using assms(14) by (simp add: take_bit_int_eq_self npc_def)
    have "uint (ucast c :: u64) = uint c" by (rule uint_up_ucast) (simp add: is_up)
    then show "ucast c = p_pc (n_prog m)" using u by (simp add: word_uint_eq_iff npc_def)
  qed
  have ur: "uint (regs s 15) = npc n" unfolding npc_def assms(18) [symmetric] by (rule uint_up_ucast [symmetric]) (simp add: is_up)
  have sz: "node_size t x \<in> {0, 4, 8, 12, 16, 20, 24}" if "x \<in> set ns" for x by (rule looked_size [OF L(4) o(2,1)]) (rule that)+
  obtain e where ch: "chain t INITTEXT ns e" using L(3) assms(4) by blast
  have "p_pc (n_prog n) AND 3 = 0" using assms(17) quad_ucast [of "regs s 15"] unfolding assms(18) [symmetric] by (simp add: ready_def)
  then have "p_pc (n_prog m) AND 3 = 0" using chain_aligned [OF ch sz] assms(10,12) by metis
  then have al: "c AND 3 = 0" unfolding c_def by (rule quad_low)
  obtain code where code: "code_for t ns n code" "holds h s (p_pc (n_prog n)) code" using loaded_code [OF assms(1-5,19,10)] by blast
  have "runs_to h sys s code (if b then (if p_as (n_prog n) = ABL then (regs s)(14 := regs s 15 + 4, 15 := c) else (regs s)(15 := c)) else (regs s)(15 := regs s 15 + 4))"
    by (rule jump_runs [OF j(1) _ _ code(1) _ _ al _ _ assms(17)]) (use r at uc ur assms(15,16,18,20) j(2) in simp_all)
  then show ?thesis using code(2) assms(18) j(2) unfolding runs_to_def by metis
qed

section \<open>The code of the concrete program\<close>

lemma asmb_returns:
  assumes "chain t a ms c" and "ruled ms" and "\<And>m l. m \<in> set ms \<Longrightarrow> \<exists>ws l'. asm_words (deref ns m) (node_rule t m) l = (Inr ws, l')"
  shows "\<exists>pc l'. asmb_text t (map (deref ns) ms) a l = (Inr pc, l')"
  using assms
proof (induction ms arbitrary: a l)
  case (Cons m ms)
  let ?p = "deref ns m"
  have p: "p_optab ?p = p_optab (n_prog m)" "p_pc ?p = a" using Cons.prems(1) by (simp_all add: deref_def)
  obtain l1 where l1: "enter_text ?p l = (Inr (), l1)"
    by (cases "p_as ?p = ATEXT") (auto simp: enter_text_def onlyif_def modify_def)
  have o: "oplook t ?p l1 = (Inr (?p, p_optab ?p - 1), l1)" using Cons.prems(2) p by (simp add: oplook_def ruled_def)
  have nr: "rules t ! (p_optab ?p - 1) = node_rule t m" by (simp add: node_rule_def p)
  obtain ws l2 where "asm_words ?p (node_rule t m) l1 = (Inr ws, l2)" using Cons.prems(3) by fastforce
  then obtain l3 where "asmout ?p (node_rule t m) l1 = (Inr (), l3)"
    by (cases "o_size (node_rule t m) \<in> {4, 8, 12, 16, 20, 24}") (auto simp: asmout_def bind_def onlyif_def put_words_code)
  moreover obtain pc l' where "asmb_text t (map (deref ns) ms) (a + of_nat (node_size t m)) l3 = (Inr pc, l')"
    using Cons.IH [of "a + of_nat (node_size t m)" l3] Cons.prems by (auto simp: ruled_def)
  ultimately show ?case using l1 o p nr by (simp add: seq_def bind_def node_size_def onlyif_def)
qed simp

lemma demo_code:
  assumes "node_rule t (demo_load a) = rule AMOVW C_LCON C_NONE C_REG 12 4 0 LFROM"
    "node_rule t (demo_skip b) = rule AB C_NONE C_NONE C_BRANCH 5 4 0 LPOOL"
    "node_rule t (demo_word c) = rule AWORD C_NONE C_NONE C_LCON 11 4 0 0" and "ns = [demo_load a, demo_skip b, demo_word c]"
    and "chain t 0x1000 ns e" and "ruled ns"
  shows "\<exists>pc l. asmb_text t (map (deref ns) ns) 0x1000 demo_lnk = (Inr pc, l) \<and> length (obuf l) = 12"
proof -
  note d = assms(4) deref_def node_pc_def demo_load_def demo_skip_def demo_word_def demo_node_def demo_prog_def reg_adr_def skip_branch_def pool_word_def
    prg_def zprg_def zadr_def
  have w: "deref ns (demo_load a) = (n_prog (demo_load a))\<lparr>p_cond := At 0x1008\<rparr>" "deref ns (demo_skip b) = n_prog (demo_skip b)"
    "deref ns (demo_word c) = n_prog (demo_word c)" by (simp_all add: d)
  have al: "aclass (p_to (n_prog (demo_word c))) l = (Inr C_LCON, l\<lparr>instoffset := 0x12345678\<rparr>)" for l
    by (simp add: aclass_def set_off_def seq_def bind_def d demo_large Let_def)
  have "\<exists>ws l'. asm_words (deref ns (demo_load a)) (node_rule t (demo_load a)) l = (Inr ws, l')" for l
    by (simp add: w assms(1) asm_words_def rule_def asm_12_def omvl_def target_pc_def)
      (simp add: d olr_def seq_def bind_def onlyif_def Let_def mag_def)
  moreover have "\<exists>ws l'. asm_words (deref ns (demo_skip b)) (node_rule t (demo_skip b)) l = (Inr ws, l')" for l
    by (simp add: w assms(2) asm_words_def rule_def asm_5_def)
      (simp add: d opbra_def seq_def bind_def onlyif_def Let_def bra_bits_def)
  moreover have "\<exists>ws l'. asm_words (deref ns (demo_word c)) (node_rule t (demo_word c)) l = (Inr ws, l')" for l
    by (simp add: w assms(3) asm_words_def rule_def asm_11_def bind_Inr [OF al])
      (simp add: d seq_def bind_def onlyif_def gets_def)
  ultimately have "\<exists>pc l'. asmb_text t (map (deref ns) ns) 0x1000 demo_lnk = (Inr pc, l')"
    using assms(4) by (intro asmb_returns [OF assms(5,6)]) auto
  then obtain pc l' where l': "asmb_text t (map (deref ns) ns) 0x1000 demo_lnk = (Inr pc, l')" by blast
  have "node_size t m = 4" if "m \<in> set ns" for m using assms(1-3) that by (auto simp: assms(4) node_size_def rule_def)
  then obtain codes where "list_all2 (code_for t ns) ns codes" "obuf l' = obuf demo_lnk @ concat codes"
    using asmb_codes [OF l' assms(5,6)] by force
  then have "length (obuf l') = 12"
    using assms(1-3) by (auto simp: assms(4) list_all2_Cons1 code_for_def node_size_def rule_def demo_lnk_def)
  then show ?thesis using l' by blast
qed

lemma demo_written:
  obtains t ns sz tab l pc l2 where "buildop False False optab_rows demo_lnk = (Inr t, demo_lnk)" "fresh_nodes 1 [demo_node]"
    "dotext t False 0x1000 0x1000 demo_tab 1 [demo_node] demo_lnk = Some (Inr (ns, sz, tab), l)" "small t 0x1000 ns"
    "node_size t (last ns) \<noteq> 0" "asmb_text t (map (deref ns) ns) 0x1000 demo_lnk = (Inr pc, l2)" "length (obuf l2) = 12" "length ns = 3"
    "\<exists>k. hd ns = demo_load k"
proof -
  obtain t a b c sz tab l where d: "buildop False False optab_rows demo_lnk = (Inr t, demo_lnk)" "fresh_nodes 1 [demo_node]"
    "dotext t False 0x1000 0x1000 demo_tab 1 [demo_node] demo_lnk = Some (Inr ([demo_load a, demo_skip b, demo_word c], sz, tab), l)"
    and r: "node_rule t (demo_load a) = rule AMOVW C_LCON C_NONE C_REG 12 4 0 LFROM"
    "node_rule t (demo_skip b) = rule AB C_NONE C_NONE C_BRANCH 5 4 0 LPOOL"
    "node_rule t (demo_word c) = rule AWORD C_NONE C_NONE C_LCON 11 4 0 0" and s: "small t 0x1000 [demo_load a, demo_skip b, demo_word c]"
    by (rule demo_linked)
  have u: "ruled [demo_load a, demo_skip b, demo_word c]" using s by (simp add: small_def)
  then obtain e where "chain t 0x1000 [demo_load a, demo_skip b, demo_word c] e" using layout_facts(3) [OF d] by blast
  from demo_code [OF r refl this u] show thesis
    using that [OF d s] by (auto simp: node_size_def r rule_def)
qed

theorem code_at_addresses_witness:
  "\<exists>t ns sz tab l pc l2 codes. dotext t False 0x1000 0x1000 demo_tab 1 [demo_node] demo_lnk = Some (Inr (ns, sz, tab), l) \<and>
    asmb_text t (map (deref ns) ns) 0x1000 demo_lnk = (Inr pc, l2) \<and> length ns = 3 \<and> list_all2 (code_for t ns) ns codes \<and>
    holds demo_host (code_machine (obuf l2) (\<lambda>_. 0)) (p_pc (n_prog (ns ! 2))) (codes ! 2)"
proof -
  obtain t ns sz tab l pc l2 where d: "buildop False False optab_rows demo_lnk = (Inr t, demo_lnk)" "fresh_nodes 1 [demo_node]"
    "dotext t False 0x1000 0x1000 demo_tab 1 [demo_node] demo_lnk = Some (Inr (ns, sz, tab), l)"
    and s: "small t 0x1000 ns" and w: "asmb_text t (map (deref ns) ns) 0x1000 demo_lnk = (Inr pc, l2)" "length (obuf l2) = 12" "length ns = 3"
    by (rule demo_written)
  have "ruled ns" using s by (simp add: small_def)
  from code_at_addresses [OF d this w(1)] obtain codes where c: "list_all2 (code_for t ns) ns codes" "obuf l2 = obuf demo_lnk @ concat codes"
    "\<And>h s i. holds h s 0x1000 (concat codes) \<Longrightarrow> i < length ns \<Longrightarrow> holds h s (p_pc (n_prog (ns ! i))) (codes ! i)" by blast
  have "holds demo_host (code_machine (obuf l2) (\<lambda>_. 0)) 0x1000 (concat codes)"
    using code_machine_holds [of "obuf l2"] c(2) w(2) by (simp add: demo_lnk_def)
  then have "holds demo_host (code_machine (obuf l2) (\<lambda>_. 0)) (p_pc (n_prog (ns ! 2))) (codes ! 2)" using c(3) w(3) by simp
  then show ?thesis using c(1) d(3) w(1,3) by blast
qed

theorem linked_constant_runs_witness:
  "\<exists>t ns sz tab l pc l2 u. dotext t False 0x1000 0x1000 demo_tab 1 [demo_node] demo_lnk = Some (Inr (ns, sz, tab), l) \<and>
    asmb_text t (map (deref ns) ns) 0x1000 demo_lnk = (Inr pc, l2) \<and>
    run_step demo_host [] (code_machine (obuf l2) (\<lambda>_. 0)) = (Inr (), u) \<and> regs u 1 = 0x12345678 \<and> regs u 15 = 0x1004"
proof -
  obtain t ns sz tab l pc l2 where d: "buildop False False optab_rows demo_lnk = (Inr t, demo_lnk)" "fresh_nodes 1 [demo_node]"
    "dotext t False 0x1000 0x1000 demo_tab 1 [demo_node] demo_lnk = Some (Inr (ns, sz, tab), l)" "small t 0x1000 ns"
    "node_size t (last ns) \<noteq> 0" "asmb_text t (map (deref ns) ns) 0x1000 demo_lnk = (Inr pc, l2)"
    and w: "length (obuf l2) = 12" "length ns = 3" "\<exists>k. hd ns = demo_load k"
    by (rule demo_written)
  let ?n = "hd ns" and ?m = "code_machine (obuf l2) (\<lambda>_. 0)"
  have n: "?n \<in> set ns" using w(2) by (intro list.set_sel) auto
  have m: "n_id ?n < 1" "large_move (n_prog ?n)" "ucast (regs ?m 15) = p_pc (n_prog ?n)"
    "a_reg (p_to (n_prog ?n)) = 1" "a_offset (p_from (n_prog ?n)) = 0x12345678"
    using w(3) by (auto simp: demo_load_def demo_node_def demo_prog_def reg_adr_def large_move_def const_operand_def demo_large code_machine_regs)
  have h: "holds demo_host ?m 0x1000 (drop (length (obuf demo_lnk)) (obuf l2))"
    using code_machine_holds [of "obuf l2"] w(1) by (simp add: demo_lnk_def)
  from linked_constant_runs [where sys = "[]", OF d n m(1,2) code_machine_ready m(3) h]
  obtain u where "run_step demo_host [] ?m = (Inr (), u)" "regs u = (regs ?m)(1 := 0x12345678, 15 := regs ?m 15 + 4)" using m(4,5) by auto
  then have "run_step demo_host [] ?m = (Inr (), u) \<and> regs u 1 = 0x12345678 \<and> regs u 15 = 0x1004" by (simp add: code_machine_regs)
  then show ?thesis using d(3,6) by blast
qed

text \<open>A program of one instruction, a call of itself.\<close>

definition demo_call :: node where
  "demo_call = \<lparr>n_id = 0, n_prog = demo_prog ABL ((reg_adr R_NONE)\<lparr>a_type := D_NONE\<rparr>) R_NONE ((reg_adr R_NONE)\<lparr>a_type := D_BRANCH\<rparr>), n_ref = Ref 0\<rparr>"

definition demo_called :: "nat \<Rightarrow> node" where
  "demo_called k = demo_call\<lparr>n_prog := (n_prog demo_call)\<lparr>p_from := (p_from (n_prog demo_call))\<lparr>a_class := C_NONE + 1\<rparr>,
     p_to := (p_to (n_prog demo_call))\<lparr>a_class := C_BRANCH + 1\<rparr>, p_optab := k + 1\<rparr>\<rparr>"

lemma demo_call_layout:
  assumes "buildop False False optab_rows demo_lnk = (Inr t, demo_lnk)"
  obtains k sz tab l where "dotext t False 0x1000 0x1000 demo_tab 1 [demo_call] demo_lnk = Some (Inr ([demo_called k], sz, tab), l)"
    "rules t ! k = rule ABL C_NONE C_NONE C_BRANCH 5 4 0 0"
proof -
  let ?p = "(n_prog demo_call)\<lparr>p_pc := 0x1000\<rparr>"
  have c: "class_of (p_from ?p) demo_lnk = (Inr ((p_from ?p)\<lparr>a_class := C_NONE + 1\<rparr>, C_NONE), demo_lnk)"
      "class_of (p_to ?p) demo_lnk = (Inr ((p_to ?p)\<lparr>a_class := C_BRANCH + 1\<rparr>, C_BRANCH), demo_lnk)"
    by (simp_all add: class_of_def aclass_def bind_def demo_call_def demo_prog_def reg_adr_def)
  have "candidates default_rules (p_as ?p) C_NONE (if p_reg ?p \<noteq> R_NONE then C_REG else C_NONE) C_BRANCH = [rule ABL C_NONE C_NONE C_BRANCH 5 4 0 0]"
    using candidates_rows [OF _ rows_ABL, of "p_as ?p"] by (simp add: demo_call_def demo_prog_def rep_def opsets_def cmp.simps)
  from oplook_chooses [OF default_prepared [OF assms] _ _ c _ _ this]
  obtain k where k: "oplook t ?p demo_lnk = (Inr (n_prog (demo_called k), k), demo_lnk)" "rules t ! k = rule ABL C_NONE C_NONE C_BRANCH 5 4 0 0"
    by (auto simp: demo_called_def demo_call_def demo_prog_def)
  let ?e = "\<lparr>blitrl = [], pool_start = 0, pool_size = 0, fresh = Suc 0\<rparr>"
  have "text_one t 0x1000 ?e demo_call [] demo_lnk = (Inr (0x1004, ?e, demo_called k, []), demo_lnk)"
    using k by (simp add: text_one_def enter_text_def seq_def bind_def onlyif_def Let_def pool_switch_def pool_flag_def pool_flush_pc_def pool_check_def flushpool_def)
      (simp add: demo_called_def demo_call_def demo_prog_def)
  then have "text_loop t 0x1000 ?e [] [demo_call] demo_lnk = Some (Inr (0x1004, [demo_called k]), demo_lnk)"
    by (simp add: text_loop.simps [of t "0x1000"] text_loop.simps [of t "0x1004"])
  then have "\<exists>sz tab l. dotext t False 0x1000 0x1000 demo_tab 1 [demo_call] demo_lnk = Some (Inr ([demo_called k], sz, tab), l)"
    by (simp add: dotext_def text_end_def lookup_def demo_tab_def seq_def bind_def onlyif_def Let_def)
  then show thesis using that k(2) by blast
qed

theorem linked_jump_runs_witness:
  "\<exists>t k sz tab l pc l2 u. dotext t False 0x1000 0x1000 demo_tab 1 [demo_call] demo_lnk = Some (Inr ([demo_called k], sz, tab), l) \<and>
    asmb_text t (map (deref [demo_called k]) [demo_called k]) 0x1000 demo_lnk = (Inr pc, l2) \<and>
    run_step demo_host [] (code_machine (obuf l2) (\<lambda>_. 0)) = (Inr (), u) \<and> regs u 14 = 0x1004 \<and> regs u 15 = 0x1000"
proof -
  obtain t where t: "buildop False False optab_rows demo_lnk = (Inr t, demo_lnk)" using default_builds by blast
  obtain k sz tab l where d: "dotext t False 0x1000 0x1000 demo_tab 1 [demo_call] demo_lnk = Some (Inr ([demo_called k], sz, tab), l)"
    and r: "rules t ! k = rule ABL C_NONE C_NONE C_BRANCH 5 4 0 0" by (rule demo_call_layout [OF t])
  let ?ns = "[demo_called k]"
  have f: "fresh_nodes 1 [demo_call]" by (simp add: fresh_nodes_def demo_call_def fresh_prog_def demo_prog_def reg_adr_def)
  have u: "ruled ?ns" by (simp add: ruled_def demo_called_def)
  have nr: "node_rule t (demo_called k) = rule ABL C_NONE C_NONE C_BRANCH 5 4 0 0" using r by (simp add: node_rule_def demo_called_def)
  obtain e where ch: "chain t 0x1000 ?ns e" using layout_facts(3) [OF t f d u] by blast
  have "\<exists>ws l'. asm_words (deref ?ns (demo_called k)) (node_rule t (demo_called k)) l1 = (Inr ws, l')" for l1
    by (simp add: nr asm_words_def rule_def asm_5_def) (simp add: deref_def node_pc_def demo_called_def demo_call_def demo_prog_def opbra_def seq_def bind_def onlyif_def)
  then have "\<exists>pc l'. asmb_text t (map (deref ?ns) ?ns) 0x1000 demo_lnk = (Inr pc, l')" by (intro asmb_returns [OF ch u]) simp
  then obtain pc l2 where a: "asmb_text t (map (deref ?ns) ?ns) 0x1000 demo_lnk = (Inr pc, l2)" by blast
  then obtain codes where "list_all2 (code_for t ?ns) ?ns codes" "obuf l2 = obuf demo_lnk @ concat codes"
    using asmb_codes [OF a ch u] nr by (force simp: node_size_def rule_def)
  then have len: "length (obuf l2) = 4" by (auto simp: list_all2_Cons1 code_for_def node_size_def nr rule_def demo_lnk_def)
  let ?m = "code_machine (obuf l2) (\<lambda>_. 0)"
  have h: "holds demo_host ?m 0x1000 (drop (length (obuf demo_lnk)) (obuf l2))"
    using code_machine_holds [of "obuf l2"] len by (simp add: demo_lnk_def)
  have p: "npc (demo_called k) = 0x1000" "p_pc (n_prog (demo_called k)) = 0x1000" "n_id (demo_called k) = 0" "n_id demo_call = 0" "n_ref demo_call = Ref 0"
    "jump (n_prog demo_call) 14" "p_as (n_prog demo_call) = ABL"
    by (simp_all add: npc_def demo_called_def demo_call_def demo_prog_def jump_def is_branch_def reg_adr_def)
  have dec: "decides (bra_code (p_as (n_prog demo_call)) 14) ?m True"
    by (simp add: p decides_def bra_code_def run_cond_def code_machine_cmp runcmp_def)
  obtain u where "run_step demo_host [] ?m = (Inr (), u)" "regs u = (regs ?m)(14 := regs ?m 15 + 4, 15 := 0x1000)"
    using linked_jump_runs [where sys = "[]" and p = demo_call and q = demo_call and n = "demo_called k" and m = "demo_called k",
      OF t f d u a _ p(6) _ _ _ _ _ _ _ _ _ code_machine_ready _ h dec] p
    by (auto simp: code_machine_regs)
  then have "run_step demo_host [] ?m = (Inr (), u) \<and> regs u 14 = 0x1004 \<and> regs u 15 = 0x1000" by (simp add: code_machine_regs)
  then show ?thesis using d a by blast
qed

end
