(* ===== verification/Link5_Datgen.thy ===== *)
theory Link5_Datgen
  imports Link5_Data
begin

text \<open>
  The data segment that the ARM linker writes: \<^verbatim>\<open>datagen.c\<close> and the loops of \<^verbatim>\<open>asmb\<close> that write the segment
  in blocks of the size of the output buffer. The bytes written are appended to \<open>obuf\<close>. The linker's
  host is little-endian.
\<close>

section \<open>Byte orders\<close>

definition long_bytes :: "u64 \<Rightarrow> u8 list" where
  "long_bytes d = map (\<lambda>i. ucast (drop_bit (8 * i) d)) [0..<8]"

definition int_bytes :: "u32 \<Rightarrow> u8 list" where
  "int_bytes d = map (\<lambda>i. ucast (drop_bit (8 * i) d)) [0..<4]"

definition find1 :: "u64 \<Rightarrow> u8 \<Rightarrow> nat" where
  "find1 l c = (case find (\<lambda>i. long_bytes l ! i = c) [0..<4] of Some i \<Rightarrow> i | None \<Rightarrow> 0)"

record nuxi =
  inuxi1 :: "nat list"
  inuxi2 :: "nat list"
  inuxi4 :: "nat list"
  fnuxi4 :: "nat list"
  fnuxi8 :: "nat list"

definition nuxiinit :: "bool \<Rightarrow> nuxi" where
  "nuxiinit debugd =
     (let c = map (\<lambda>i. find1 0x04030201 (of_nat i + 1)) [0..<4]; c4 = map (\<lambda>x. x + 4) c in
      \<lparr>inuxi1 = take 1 c, inuxi2 = take 2 c, inuxi4 = c, fnuxi4 = c, fnuxi8 = (if debugd then c4 @ c else c @ c4)\<rparr>)"

section \<open>Blocks of data\<close>

text \<open>
  A \<^verbatim>\<open>DATA\<close> instruction: \<open>d_sval\<close> is the third view of the union in its second operand, the bytes of a
  string. The output buffer \<^verbatim>\<open>buf\<close> has two parts of \<^verbatim>\<open>MAXIO\<close> bytes.
\<close>

record datum =
  d_prog :: prog
  d_sval :: "u8 list"

abbreviation (input) MAXIO :: nat where "MAXIO \<equiv> 8192"
abbreviation (input) Dbufslop :: nat where "Dbufslop \<equiv> 100"

definition sizeof_buf :: nat where
  "sizeof_buf = 2 * MAXIO"

text \<open>An access outside an array of the linker is \<^term>\<open>Trap\<close>.\<close>

definition elem :: "'a list \<Rightarrow> nat \<Rightarrow> 'a option" where
  "elem xs i = (if i < length xs then Some (xs ! i) else None)"

function clip :: "int \<Rightarrow> nat \<Rightarrow> int \<times> nat" where
  "clip l i = (if l < 0 then clip (l + 1) (i + 1) else (l, i))"
  by auto
termination by (relation "measure (\<lambda>(l, i). nat (- l))") auto

declare clip.simps [simp del]

text \<open>\<^verbatim>\<open>for(; i<c; i++) buf.dbuf[l++] = ...\<close>\<close>

function copy :: "(nat \<Rightarrow> u8 option) \<Rightarrow> nat \<Rightarrow> nat \<Rightarrow> nat \<Rightarrow> u8 list \<Rightarrow> (lnk, u8 list) eff" where
  "copy f i c l dbuf =
     (if i < c then
        case f i of
          None \<Rightarrow> raise Trap
        | Some b \<Rightarrow> if l < length dbuf then copy f (i + 1) c (l + 1) (dbuf[l := b]) else raise Trap
      else ret dbuf)"
  by auto
termination by (relation "measure (\<lambda>(f, i, c, l, dbuf). c - i)") auto

declare copy.simps [simp del]

definition nuxi_byte :: "nat list \<Rightarrow> u8 list \<Rightarrow> nat \<Rightarrow> u8 option" where
  "nuxi_byte order cast i = Option.bind (elem order i) (elem cast)"

text \<open>The value of a constant or address; \<open>a\<close> is the place of the datum.\<close>

definition dat_value :: "adr \<Rightarrow> u64 \<Rightarrow> (lnk, u64) eff" where
  "dat_value t a =
     (case a_sym t of
        None \<Rightarrow> ret (a_offset t)
      | Some v \<Rightarrow>
          bind (gets (\<lambda>s. s_type (syms s v))) (\<lambda>ty.
          bind (if ty = STEXT \<or> ty = SSTRING then gets (\<lambda>s. a_offset t + s_value (syms s v))
                else if ty = SDATA \<or> ty = SBSS then gets (\<lambda>s. a_offset t + (s_value (syms s v) + INITDAT s))
                else if ty = SUNDEF then seq (ckoff (a_offset t)) (gets (\<lambda>s. a_offset t + s_value (syms s v)))
                else ret (a_offset t)) (\<lambda>d.
          seq (bind (gets (\<lambda>s. (dlm s, INITDAT s))) (\<lambda>(b, x). onlyif b (dynreloc (Some v) (a + x) True)))
            (ret d))))"

definition dat_const :: "nuxi \<Rightarrow> adr \<Rightarrow> u64 \<Rightarrow> nat \<Rightarrow> nat \<Rightarrow> nat \<Rightarrow> u8 list \<Rightarrow> (lnk, u8 list) eff" where
  "dat_const x t a i c l dbuf =
     bind (dat_value t a) (\<lambda>d.
     if c = 1 then copy (nuxi_byte (inuxi1 x) (long_bytes d)) i c l dbuf
     else if c = 2 then copy (nuxi_byte (inuxi2 x) (long_bytes d)) i c l dbuf
     else if c = 4 then copy (nuxi_byte (inuxi4 x) (long_bytes d)) i c l dbuf
     else seq (diag ''bad nuxi'') (ret dbuf))"

definition dat_write :: "nuxi \<Rightarrow> datum \<Rightarrow> u64 \<Rightarrow> nat \<Rightarrow> nat \<Rightarrow> nat \<Rightarrow> u8 list \<Rightarrow> (lnk, u8 list) eff" where
  "dat_write x p a i c l dbuf =
     (let t = p_to (d_prog p) in
      case a_type t of
        D_SCONST \<Rightarrow> copy (elem (d_sval p)) i c l dbuf
      | D_CONST \<Rightarrow> dat_const x t a i c l dbuf
      | D_ADDR \<Rightarrow> dat_const x t a i c l dbuf
      | D_FCONST \<Rightarrow>
          if c = 8 then copy (nuxi_byte (fnuxi8 x) (int_bytes (fst (a_ieee t)) @ int_bytes (snd (a_ieee t)))) i c l dbuf
          else bind (ieeedtof (a_ieee t)) (\<lambda>fl. copy (nuxi_byte (fnuxi4 x) (long_bytes (ucast fl))) i c l dbuf)
      | _ \<Rightarrow> seq (diag ''unknown mode in initialization'') (ret dbuf))"

text \<open>The check for a second value of a byte: it reads the bytes from the last down to the first.\<close>

definition multiple_init :: "nat \<Rightarrow> nat \<Rightarrow> u8 list \<Rightarrow> (lnk, unit) eff" where
  "multiple_init l k dbuf =
     (if l + k \<le> length dbuf then onlyif (list_ex (\<lambda>b. b \<noteq> 0) (take k (drop l dbuf))) (diag ''multiple initialization'')
      else raise Trap)"

text \<open>One round of the loop of \<^verbatim>\<open>datblk\<close>.\<close>

definition dat_one :: "nuxi \<Rightarrow> u64 \<Rightarrow> int \<Rightarrow> bool \<Rightarrow> datum \<Rightarrow> u8 list \<Rightarrow> (lnk, u8 list) eff" where
  "dat_one x s n sstring p dbuf =
     (case a_sym (p_from (d_prog p)) of
        None \<Rightarrow> raise Trap
      | Some v \<Rightarrow>
          bind (gets (\<lambda>l. syms l v)) (\<lambda>y.
          if sstring \<noteq> (s_type y = SSTRING) then ret dbuf
          else
            let a = s_value y + a_offset (p_from (d_prog p)); l = sint (a - s); c = p_reg (d_prog p) in
            if l < 0 \<and> l + int c \<le> 0 then ret dbuf
            else
              case clip l 0 of (l, i) \<Rightarrow>
              if l \<ge> n then ret dbuf
              else seq (multiple_init (nat l) (c - i) dbuf) (dat_write x p a i c (nat l) dbuf)))"

fun dat_loop :: "nuxi \<Rightarrow> u64 \<Rightarrow> int \<Rightarrow> bool \<Rightarrow> datum list \<Rightarrow> u8 list \<Rightarrow> (lnk, u8 list) eff" where
  "dat_loop x s n sstring [] dbuf = ret dbuf"
| "dat_loop x s n sstring (p # ps) dbuf = bind (dat_one x s n sstring p dbuf) (dat_loop x s n sstring ps)"

text \<open>\<^verbatim>\<open>datblk\<close>: clear the buffer, fill it and write \<open>n\<close> bytes. The buffer that it leaves is the result.\<close>

definition datblk :: "nuxi \<Rightarrow> datum list \<Rightarrow> int \<Rightarrow> int \<Rightarrow> bool \<Rightarrow> u8 list \<Rightarrow> (lnk, u8 list) eff" where
  "datblk x datap s n sstring dbuf =
     (let m = nat n + Dbufslop in
      if m \<le> length dbuf then
        bind (dat_loop x (word_of_int s) n sstring datap (replicate m 0 @ drop m dbuf)) (\<lambda>dbuf.
        seq (modify (\<lambda>l. l\<lparr>obuf := obuf l @ take (nat n) dbuf\<rparr>)) (ret dbuf))
      else raise Trap)"

text \<open>The loop of \<^verbatim>\<open>asmb\<close> over the blocks from \<open>t\<close> to \<open>e\<close>.\<close>

definition BLOCK :: int where
  "BLOCK = int sizeof_buf - 100"

function asmb_blocks :: "nuxi \<Rightarrow> datum list \<Rightarrow> int \<Rightarrow> int \<Rightarrow> bool \<Rightarrow> u8 list \<Rightarrow> (lnk, unit) eff" where
  "asmb_blocks x datap t e sstring dbuf =
     (if t < e then
        bind (datblk x datap t (if e - t > BLOCK then BLOCK else e - t) sstring dbuf)
          (\<lambda>dbuf. asmb_blocks x datap (t + BLOCK) e sstring dbuf)
      else ret ())"
  by auto
termination by (relation "measure (\<lambda>(x, datap, t, e, sstring, dbuf). nat (e - t))") (auto simp: BLOCK_def sizeof_buf_def)

declare asmb_blocks.simps [simp del]

section \<open>What a data segment holds\<close>

text \<open>
  The bytes of a \<^verbatim>\<open>DATA\<close> instruction and their place, without buffers: \<open>dat_word\<close> is the value of a constant or
  address, \<open>init_byte\<close> the byte that a list of instructions puts at the address \<open>x\<close>, zero where there is none.
\<close>

definition dat_word :: "lnk \<Rightarrow> adr \<Rightarrow> u64" where
  "dat_word l t =
     a_offset t + (case a_sym t of None \<Rightarrow> 0
       | Some v \<Rightarrow> (case s_type (syms l v) of STEXT \<Rightarrow> s_value (syms l v) | SSTRING \<Rightarrow> s_value (syms l v) | SUNDEF \<Rightarrow> s_value (syms l v)
           | SDATA \<Rightarrow> s_value (syms l v) + INITDAT l | SBSS \<Rightarrow> s_value (syms l v) + INITDAT l | _ \<Rightarrow> 0))"

definition single :: "u32 \<times> u32 \<Rightarrow> u32" where
  "single e = (case fst (ieeedtof e demo_lnk) of Inr v \<Rightarrow> v | Inl _ \<Rightarrow> 0)"

definition width :: "datum \<Rightarrow> nat" where
  "width p = p_reg (d_prog p)"

definition dat_code :: "bool \<Rightarrow> lnk \<Rightarrow> datum \<Rightarrow> u8 list" where
  "dat_code debugd l p =
     (let t = p_to (d_prog p) in
      case a_type t of
        D_SCONST \<Rightarrow> take (width p) (d_sval p)
      | D_FCONST \<Rightarrow>
          if width p = 8 then
            if debugd then int_bytes (snd (a_ieee t)) @ int_bytes (fst (a_ieee t)) else int_bytes (fst (a_ieee t)) @ int_bytes (snd (a_ieee t))
          else int_bytes (single (a_ieee t))
      | _ \<Rightarrow> take (width p) (long_bytes (dat_word l t)))"

definition dat_sym :: "datum \<Rightarrow> nat" where
  "dat_sym p = the (a_sym (p_from (d_prog p)))"

definition place :: "lnk \<Rightarrow> datum \<Rightarrow> int" where
  "place l p = sint (s_value (syms l (dat_sym p)) + a_offset (p_from (d_prog p)))"

text \<open>Instructions as the assembler and the compiler make them; strings come in pieces of at most 8 bytes.\<close>

definition dat_ok :: "lnk \<Rightarrow> datum \<Rightarrow> bool" where
  "dat_ok l p \<longleftrightarrow> a_sym (p_from (d_prog p)) \<noteq> None \<and> 0 \<le> place l p \<and> place l p < 2 ^ 62 \<and>
     (case a_type (p_to (d_prog p)) of
        D_SCONST \<Rightarrow> width p \<le> length (d_sval p) \<and> length (d_sval p) \<le> 8
      | D_CONST \<Rightarrow> width p \<in> {1, 2, 4} | D_ADDR \<Rightarrow> width p \<in> {1, 2, 4}
      | D_FCONST \<Rightarrow> width p \<in> {4, 8} | _ \<Rightarrow> False)"

definition covers :: "lnk \<Rightarrow> bool \<Rightarrow> datum \<Rightarrow> int \<Rightarrow> bool" where
  "covers l sstring p x \<longleftrightarrow> sstring = (s_type (syms l (dat_sym p)) = SSTRING) \<and> place l p \<le> x \<and> x < place l p + int (width p)"

definition init_byte :: "bool \<Rightarrow> lnk \<Rightarrow> bool \<Rightarrow> datum list \<Rightarrow> int \<Rightarrow> u8" where
  "init_byte debugd l sstring ps x =
     foldl (\<lambda>b p. if covers l sstring p x then dat_code debugd l p ! nat (x - place l p) else b) 0 ps"

section \<open>The bytes that are written\<close>

lemma clip_eq: "clip l i = (max l 0, i + nat (- l))"
  by (induction l i rule: clip.induct) (subst clip.simps, auto)

lemma copy_copies:
  assumes "\<And>k. k < c \<Longrightarrow> f k = Some (code ! k)" and "length code = c" and "i \<le> c" and "l0 + (c - i) \<le> length dbuf"
  shows "copy f i c l0 dbuf s = (Inr (take l0 dbuf @ drop i code @ drop (l0 + (c - i)) dbuf), s)"
  using assms
proof (induction f i c l0 dbuf rule: copy.induct)
  case (1 f i c l0 dbuf)
  show ?case
  proof (cases "i < c")
    case True
    then have l: "l0 < length dbuf" using 1 by simp
    have "copy f i c l0 dbuf s = copy f (i + 1) c (l0 + 1) (dbuf[l0 := code ! i]) s" using True l 1 by (subst copy.simps) simp
    also have "\<dots> = (Inr (take (l0 + 1) (dbuf[l0 := code ! i]) @ drop (i + 1) code @ drop (l0 + 1 + (c - (i + 1))) (dbuf[l0 := code ! i])), s)"
      using True l 1 by (intro 1(1)) auto
    also have "take (l0 + 1) (dbuf[l0 := code ! i]) = take l0 dbuf @ [code ! i]" using l by (simp add: take_Suc_conv_app_nth)
    finally have e: "copy f i c l0 dbuf s = (Inr (take l0 dbuf @ (code ! i # drop (Suc i) code) @ drop (l0 + (c - i)) dbuf), s)"
      using True l by (simp add: Suc_diff_Suc [symmetric])
    then show ?thesis unfolding e using True 1(3) by (simp only: Cons_nth_drop_Suc)
  next
    case False
    then show ?thesis using 1 by (subst copy.simps) simp
  qed
qed

lemma copied_byte:
  assumes "length code = c" and "i \<le> c" and "l0 + (c - i) \<le> length dbuf" and "x < length dbuf"
  shows "(take l0 dbuf @ drop i code @ drop (l0 + (c - i)) dbuf) ! x = (if l0 \<le> x \<and> x < l0 + (c - i) then code ! (i + (x - l0)) else dbuf ! x)"
  using assms by (auto simp: nth_append)

lemma order_bytes: "long_bytes 0x04030201 = [1, 2, 3, 4, 0, 0, 0, 0]"
  by (simp add: long_bytes_def upt_rec)

lemma nuxi_order: "map (\<lambda>i. find1 0x04030201 (of_nat i + 1)) [0..<4] = [0, 1, 2, 3]"
  unfolding find1_def order_bytes by (simp add: upt_rec)

lemma nuxi_tables:
  "inuxi1 (nuxiinit d) = [0..<1]" "inuxi2 (nuxiinit d) = [0..<2]" "inuxi4 (nuxiinit d) = [0..<4]" "fnuxi4 (nuxiinit d) = [0..<4]"
  "fnuxi8 (nuxiinit d) = (if d then [4, 5, 6, 7, 0, 1, 2, 3] else [0, 1, 2, 3, 4, 5, 6, 7])"
  unfolding nuxiinit_def Let_def nuxi_order by (simp_all add: upt_rec)

lemma nuxi_upto: "nuxi_byte [0..<k] cast i = (if i < k then elem cast i else None)"
  by (simp add: nuxi_byte_def elem_def)

lemma bytes_lengths [simp]: "length (long_bytes d) = 8" "length (int_bytes w) = 4"
  by (simp_all add: long_bytes_def int_bytes_def)

text \<open>The writer changes neither symbols nor what is written already.\<close>

definition frame :: "lnk \<Rightarrow> lnk \<Rightarrow> bool" where
  "frame l l' \<longleftrightarrow> syms l' = syms l \<and> INITDAT l' = INITDAT l \<and> obuf l' = obuf l"

interpretation fr: keeps_rel frame
  by unfold_locales (simp_all add: frame_def)

lemma frame_modify: "(\<And>s. syms (f s) = syms s \<and> INITDAT (f s) = INITDAT s \<and> obuf (f s) = obuf s) \<Longrightarrow> keeps frame (modify f)"
  by (rule fr.keeps_modify) (simp add: frame_def)

lemma frame_diag: "keeps frame (diag m)"
  unfolding diag_def by (intro fr.keeps_intros frame_modify) simp

lemma frame_rel: "keeps frame (dynreloc i v x)" "keeps frame (ckoff w)" "keeps frame (ieeedtof e)"
  unfolding dynreloc_def ckoff_def ieeedtof_def Let_def by (auto intro!: fr.keeps_intros frame_modify frame_diag)

lemma dat_value_word:
  assumes "dat_value t a l = (Inr d, l')"
  shows "d = dat_word l t" and "frame l l'"
proof -
  show "frame l l'" using assms unfolding dat_value_def
    by (intro keepsD [of frame "dat_value t a"]) (auto simp: dat_value_def intro!: fr.keeps_intros frame_rel split: option.split)
  have c: "syms l1 = syms l" if "ckoff w l = (x, l1)" for w x l1 using keepsD [OF frame_rel(2) that] by (simp add: frame_def)
  show "d = dat_word l t"
  proof (cases "a_sym t")
    case None
    then show ?thesis using assms by (simp add: dat_value_def dat_word_def)
  next
    case (Some v)
    then show ?thesis using assms by (cases "s_type (syms l v)") (auto simp: dat_value_def dat_word_def gets_def elim!: bindE seqE dest: c)
  qed
qed

lemma diag_quiet: "diag m demo_lnk = (Inr (), demo_lnk\<lparr>errs := [m]\<rparr>)"
  by (simp add: diag_def seq_def bind_def modify_def gets_def onlyif_def demo_lnk_def)

lemma ieee_form: "\<exists>b m v. ieeedtof e = seq (onlyif b (diag m)) (ret v)"
proof (cases "snd e = 0")
  case True
  then have "ieeedtof e = seq (onlyif False (diag [])) (ret 0)" by (simp add: ieeedtof_def Let_def fun_eq_iff seq_def onlyif_def)
  then show ?thesis by blast
next
  case False
  then show ?thesis unfolding ieeedtof_def Let_def by (simp only: if_False) blast
qed

lemma ieee_single:
  assumes "ieeedtof e l = (Inr v, l')"
  shows "v = single e"
proof -
  obtain b m w where e: "ieeedtof e = seq (onlyif b (diag m)) (ret w)" using ieee_form by blast
  have "ieeedtof e demo_lnk = (Inr w, if b then demo_lnk\<lparr>errs := [m]\<rparr> else demo_lnk)"
    unfolding e by (simp add: seq_def bind_def onlyif_def diag_quiet)
  then have "single e = w" by (simp add: single_def)
  moreover have "v = w" using assms unfolding e by (elim seqE) simp
  ultimately show ?thesis by simp
qed

lemma take_elem: "k < c \<Longrightarrow> c \<le> length xs \<Longrightarrow> elem xs k = Some (take c xs ! k)"
  by (simp add: elem_def)

lemma double_order:
  assumes "k < 8"
  shows "elem (fnuxi8 (nuxiinit d)) k = Some (if \<not> d then k else if k < 4 then k + 4 else k - 4)"
proof -
  have "k \<in> {0, 1, 2, 3, 4, 5, 6, 7}" using assms by auto
  then show ?thesis unfolding nuxi_tables by (cases d) (auto simp: elem_def)
qed

lemma double_byte:
  assumes "k < 8"
  shows "nuxi_byte (fnuxi8 (nuxiinit d)) (int_bytes lo @ int_bytes hi) k =
    Some ((if d then int_bytes hi @ int_bytes lo else int_bytes lo @ int_bytes hi) ! k)"
  using assms unfolding nuxi_byte_def double_order [OF assms] by (cases d; cases "k < 4") (auto simp: elem_def nth_append)

lemma long_int_bytes: "k < 4 \<Longrightarrow> elem (long_bytes (ucast w)) k = Some (int_bytes w ! k)" for w :: u32
proof -
  assume "k < 4"
  moreover have "ucast (drop_bit (8 * k) (ucast w :: u64)) = (ucast (drop_bit (8 * k) w) :: u8)"
    using \<open>k < 4\<close> by (intro bit_word_eqI) (simp add: bit_simps)
  ultimately show ?thesis by (simp add: elem_def) (simp add: long_bytes_def int_bytes_def)
qed

text \<open>A datum is written from its byte \<open>i\<close> on.\<close>

lemma dat_const_code:
  assumes "dat_ok l p" and "dat_const (nuxiinit d) (p_to (d_prog p)) a i (width p) l0 dbuf l = (Inr dbuf', l')"
    and "a_type (p_to (d_prog p)) = D_CONST \<or> a_type (p_to (d_prog p)) = D_ADDR"
  shows "length (dat_code d l p) = width p \<and>
    (\<exists>f l1. copy f i (width p) l0 dbuf l1 = (Inr dbuf', l') \<and> frame l l1 \<and> (\<forall>k < width p. f k = Some (dat_code d l p ! k)))"
proof -
  let ?t = "p_to (d_prog p)" and ?c = "width p"
  have w: "?c \<in> {1, 2, 4}" using assms(1,3) by (auto simp: dat_ok_def)
  have code: "dat_code d l p = take ?c (long_bytes (dat_word l ?t))" using assms(3) by (auto simp: dat_code_def)
  obtain v l1 where v: "dat_value ?t a l = (Inr v, l1)"
    and k: "(if ?c = 1 then copy (nuxi_byte (inuxi1 (nuxiinit d)) (long_bytes v)) i ?c l0 dbuf
      else if ?c = 2 then copy (nuxi_byte (inuxi2 (nuxiinit d)) (long_bytes v)) i ?c l0 dbuf
      else if ?c = 4 then copy (nuxi_byte (inuxi4 (nuxiinit d)) (long_bytes v)) i ?c l0 dbuf
      else seq (diag ''bad nuxi'') (ret dbuf)) l1 = (Inr dbuf', l')" using assms(2) unfolding dat_const_def by (elim bindE)
  have "copy (nuxi_byte [0..<?c] (long_bytes v)) i ?c l0 dbuf l1 = (Inr dbuf', l')"
    using k w unfolding nuxi_tables by (cases "?c = 1"; cases "?c = 2") simp_all
  moreover have "nuxi_byte [0..<?c] (long_bytes v) k = Some (dat_code d l p ! k)" if "k < ?c" for k
    using w that dat_value_word(1) [OF v] by (auto simp: nuxi_upto code elem_def)
  ultimately show ?thesis using dat_value_word(2) [OF v] w by (auto simp: code)
qed

lemma dat_write_code:
  assumes "dat_ok l p" and "dat_write (nuxiinit d) p a i (width p) l0 dbuf l = (Inr dbuf', l')" and "i \<le> width p"
    and "l0 + (width p - i) \<le> length dbuf"
  shows "length (dat_code d l p) = width p \<and> dbuf' = take l0 dbuf @ drop i (dat_code d l p) @ drop (l0 + (width p - i)) dbuf \<and> frame l l'"
proof -
  let ?t = "p_to (d_prog p)" and ?c = "width p"
  have "length (dat_code d l p) = ?c \<and>
    (\<exists>f l1. copy f i ?c l0 dbuf l1 = (Inr dbuf', l') \<and> frame l l1 \<and> (\<forall>k < ?c. f k = Some (dat_code d l p ! k)))"
  proof (cases "a_type ?t")
    case D_SCONST
    then show ?thesis using assms(1,2) fr.refl
      by (auto simp: dat_write_def dat_code_def dat_ok_def Let_def take_elem intro!: exI [of _ "elem (d_sval p)"] exI [of _ l])
  next
    case D_FCONST
    show ?thesis
    proof (cases "?c = 8")
      case True
      then have "copy (nuxi_byte (fnuxi8 (nuxiinit d)) (int_bytes (fst (a_ieee ?t)) @ int_bytes (snd (a_ieee ?t)))) i ?c l0 dbuf l = (Inr dbuf', l')"
        using assms(2) D_FCONST by (simp add: dat_write_def Let_def)
      moreover have "dat_code d l p = (if d then int_bytes (snd (a_ieee ?t)) @ int_bytes (fst (a_ieee ?t)) else int_bytes (fst (a_ieee ?t)) @ int_bytes (snd (a_ieee ?t)))"
        using True D_FCONST by (simp add: dat_code_def Let_def)
      ultimately show ?thesis using True double_byte [of _ d "fst (a_ieee ?t)" "snd (a_ieee ?t)"] fr.refl
        by (intro conjI exI [of _ "nuxi_byte (fnuxi8 (nuxiinit d)) (int_bytes (fst (a_ieee ?t)) @ int_bytes (snd (a_ieee ?t)))"] exI [of _ l]) simp_all
    next
      case False
      then have c: "?c = 4" using assms(1) D_FCONST by (simp add: dat_ok_def)
      obtain fl l1 where fl: "ieeedtof (a_ieee ?t) l = (Inr fl, l1)" "copy (nuxi_byte (fnuxi4 (nuxiinit d)) (long_bytes (ucast fl))) i ?c l0 dbuf l1 = (Inr dbuf', l')"
        using assms(2) D_FCONST c by (auto simp: dat_write_def Let_def elim!: bindE)
      have "dat_code d l p = int_bytes fl" using D_FCONST c ieee_single [OF fl(1)] by (simp add: dat_code_def)
      moreover have "frame l l1" by (rule keepsD [OF frame_rel(3) fl(1)])
      ultimately show ?thesis using fl(2) c long_int_bytes [of _ fl]
        by (intro conjI exI [of _ "nuxi_byte (fnuxi4 (nuxiinit d)) (long_bytes (ucast fl))"] exI [of _ l1]) (auto simp: nuxi_tables nuxi_upto)
    qed
  next
    case D_CONST
    then show ?thesis using assms(1,2) by (intro dat_const_code) (auto simp: dat_write_def Let_def)
  next
    case D_ADDR
    then show ?thesis using assms(1,2) by (intro dat_const_code) (auto simp: dat_write_def Let_def)
  qed (use assms(1) in \<open>simp_all add: dat_ok_def\<close>)
  then show ?thesis using copy_copies [of ?c _ "dat_code d l p" i l0 dbuf] assms(3,4) by auto
qed

lemma image_same:
  assumes "syms l' = syms l" and "INITDAT l' = INITDAT l"
  shows "place l' p = place l p \<and> dat_code d l' p = dat_code d l p \<and> dat_ok l' p = dat_ok l p \<and> covers l' b p x = covers l b p x"
proof -
  have p: "place l' p = place l p" using assms by (simp add: place_def)
  have "dat_word l' t = dat_word l t" for t unfolding dat_word_def assms ..
  then have "dat_code d l' p = dat_code d l p" unfolding dat_code_def by (simp only:)
  moreover have "dat_ok l' p = dat_ok l p" unfolding dat_ok_def p ..
  moreover have "covers l' b p x = covers l b p x" using assms p by (simp add: covers_def)
  ultimately show ?thesis using p by blast
qed

lemma frame_same:
  assumes "frame l l'"
  shows "place l' p = place l p \<and> dat_code d l' p = dat_code d l p \<and> dat_ok l' p = dat_ok l p \<and> covers l' b p x = covers l b p x"
  using assms by (intro image_same) (simp_all add: frame_def)

lemma ok_width: "dat_ok l p \<Longrightarrow> width p \<le> 8"
  by (auto simp: dat_ok_def split: operand_kind.splits)

lemma place_offset:
  assumes "dat_ok l p" and "0 \<le> s" and "s < 2 ^ 62"
  shows "sint (s_value (syms l (dat_sym p)) + a_offset (p_from (d_prog p)) - word_of_int s) = place l p - s"
proof -
  have "s_value (syms l (dat_sym p)) + a_offset (p_from (d_prog p)) - word_of_int s = (word_of_int (place l p - s) :: u64)"
    by (simp add: place_def)
  moreover have "- (2 ^ 63) \<le> place l p - s" "place l p - s < 2 ^ 63" using assms by (auto simp: dat_ok_def)
  ultimately show ?thesis by (simp only: sint_sbintrunc') (intro signed_take_bit_int_eq_self; simp)
qed

definition dat_step :: "bool \<Rightarrow> lnk \<Rightarrow> bool \<Rightarrow> datum \<Rightarrow> int \<Rightarrow> u8 \<Rightarrow> u8" where
  "dat_step d l sstring p x b = (if covers l sstring p x then dat_code d l p ! nat (x - place l p) else b)"

lemma dat_one_bytes:
  assumes "dat_one (nuxiinit d) (word_of_int s) n sstring p dbuf l = (Inr dbuf', l')" and "dat_ok l p"
    and "0 \<le> s" and "s < 2 ^ 62" and "n \<le> BLOCK" and "length dbuf = sizeof_buf"
  shows "frame l l' \<and> length dbuf' = sizeof_buf \<and> (\<forall>x. int x < n \<longrightarrow> dbuf' ! x = dat_step d l sstring p (s + int x) (dbuf ! x))"
proof -
  let ?y = "syms l (dat_sym p)" and ?c = "width p" and ?P = "place l p"
  let ?a = "s_value ?y + a_offset (p_from (d_prog p))"
  obtain v where v: "a_sym (p_from (d_prog p)) = Some v" "dat_sym p = v" using assms(2) by (auto simp: dat_ok_def dat_sym_def)
  note A = place_offset [OF assms(2-4)]
  show ?thesis
  proof (cases "sstring \<noteq> (s_type ?y = SSTRING) \<or> ?P - s + int ?c \<le> 0 \<and> ?P < s \<or> max (?P - s) 0 \<ge> n")
    case True
    then have "dbuf' = dbuf \<and> l' = l" using assms(1) A by (auto simp: dat_one_def v clip_eq width_def Let_def split: if_splits)
    moreover have "\<not> covers l sstring p (s + int x)" if "int x < n" for x using True that by (auto simp: covers_def)
    ultimately show ?thesis using assms(6) fr.refl by (auto simp: dat_step_def)
  next
    case False
    define l0 where "l0 = nat (max (?P - s) 0)"
    define i where "i = nat (s - ?P)"
    have "seq (multiple_init l0 (?c - i) dbuf) (dat_write (nuxiinit d) p ?a i ?c l0 dbuf) l = (Inr dbuf', l')"
      using assms(1) A False by (auto simp: dat_one_def v clip_eq width_def Let_def l0_def i_def split: if_splits)
    then obtain l1 where m: "multiple_init l0 (?c - i) dbuf l = (Inr (), l1)" "dat_write (nuxiinit d) p ?a i ?c l0 dbuf l1 = (Inr dbuf', l')"
      by (elim seqE) simp
    have f1: "frame l l1" using m(1) by (intro keepsD [of frame "multiple_init l0 (?c - i) dbuf"]) (auto simp: multiple_init_def intro!: fr.keeps_intros frame_diag)
    have i: "i \<le> ?c" using False by (auto simp: i_def)
    have l: "l0 + (?c - i) \<le> length dbuf" using m(1) by (auto simp: multiple_init_def split: if_splits)
    have ok: "dat_ok l1 p" "dat_code d l1 p = dat_code d l p" using frame_same [OF f1] assms(2) by auto
    from dat_write_code [OF ok(1) m(2) i l] have w: "length (dat_code d l p) = ?c" "frame l l'"
      "dbuf' = take l0 dbuf @ drop i (dat_code d l p) @ drop (l0 + (?c - i)) dbuf" using f1 fr.trans unfolding ok(2) by blast+
    have "dbuf' ! x = dat_step d l sstring p (s + int x) (dbuf ! x)" if "int x < n" for x
    proof -
      have "x < length dbuf" using that assms(5,6) by (simp add: BLOCK_def)
      from copied_byte [OF w(1) i l this] have "dbuf' ! x = (if l0 \<le> x \<and> x < l0 + (?c - i) then dat_code d l p ! (i + (x - l0)) else dbuf ! x)"
        unfolding w(3) .
      moreover have "l0 \<le> x \<and> x < l0 + (?c - i) \<longleftrightarrow> covers l sstring p (s + int x)" using False by (auto simp: covers_def l0_def i_def)
      moreover have "i + (x - l0) = nat (s + int x - ?P)" if "l0 \<le> x" using that by (auto simp: l0_def i_def)
      ultimately show ?thesis unfolding dat_step_def by (cases "covers l sstring p (s + int x)") (simp_all only: if_True if_False simp_thms)
    qed
    moreover have "length dbuf' = sizeof_buf" using w(1,3) i l assms(6) by simp
    ultimately show ?thesis using w(2) by blast
  qed
qed

lemma dat_loop_bytes:
  assumes "dat_loop (nuxiinit d) (word_of_int s) n sstring ps dbuf l = (Inr dbuf', l')" and "list_all (dat_ok l) ps"
    and "0 \<le> s" and "s < 2 ^ 62" and "n \<le> BLOCK" and "length dbuf = sizeof_buf"
  shows "frame l l' \<and> length dbuf' = sizeof_buf \<and> (\<forall>x. int x < n \<longrightarrow> dbuf' ! x = foldl (\<lambda>b p. dat_step d l sstring p (s + int x) b) (dbuf ! x) ps)"
  using assms
proof (induction ps arbitrary: dbuf l)
  case Nil
  then show ?case using fr.refl by simp
next
  case (Cons p ps)
  obtain dbuf1 l1 where 1: "dat_one (nuxiinit d) (word_of_int s) n sstring p dbuf l = (Inr dbuf1, l1)"
    "dat_loop (nuxiinit d) (word_of_int s) n sstring ps dbuf1 l1 = (Inr dbuf', l')" using Cons.prems(1) by (auto elim!: bindE)
  have a: "frame l l1" "length dbuf1 = sizeof_buf" "\<And>x. int x < n \<Longrightarrow> dbuf1 ! x = dat_step d l sstring p (s + int x) (dbuf ! x)"
    using dat_one_bytes [OF 1(1)] Cons.prems by auto
  have e: "dat_step d l1 = dat_step d l" "dat_ok l1 = dat_ok l" using frame_same [OF a(1)] by (auto simp: dat_step_def fun_eq_iff)
  have "frame l1 l' \<and> length dbuf' = sizeof_buf \<and> (\<forall>x. int x < n \<longrightarrow> dbuf' ! x = foldl (\<lambda>b p. dat_step d l1 sstring p (s + int x) b) (dbuf1 ! x) ps)"
    using Cons.prems a(2) e by (intro Cons.IH [OF 1(2)]) auto
  then show ?case using a fr.trans [OF a(1)] unfolding e by auto
qed

lemma init_byte_steps: "init_byte d l sstring ps x = foldl (\<lambda>b p. dat_step d l sstring p x b) 0 ps"
  by (simp add: init_byte_def dat_step_def)

lemma datblk_bytes:
  assumes "datblk (nuxiinit d) ps s n sstring dbuf l = (Inr dbuf', l')" and "list_all (dat_ok l) ps"
    and "0 \<le> s" and "s < 2 ^ 62" and "0 \<le> n" and "n \<le> BLOCK" and "length dbuf = sizeof_buf"
  shows "length dbuf' = sizeof_buf \<and> syms l' = syms l \<and> INITDAT l' = INITDAT l \<and>
    obuf l' = obuf l @ map (\<lambda>k. init_byte d l sstring ps (s + int k)) [0..<nat n]"
proof -
  let ?m = "nat n + Dbufslop" and ?b = "replicate (nat n + Dbufslop) 0 @ drop (nat n + Dbufslop) dbuf"
  have m: "?m \<le> length dbuf" using assms(1) by (auto simp: datblk_def Let_def split: if_splits)
  obtain l1 where 1: "dat_loop (nuxiinit d) (word_of_int s) n sstring ps ?b l = (Inr dbuf', l1)" "l' = l1\<lparr>obuf := obuf l1 @ take (nat n) dbuf'\<rparr>"
    using assms(1) m by (auto simp: datblk_def Let_def modify_def seq_def elim!: bindE)
  have lb: "length ?b = sizeof_buf" using m assms(7) by simp
  have f: "frame l l1" "length dbuf' = sizeof_buf" "\<And>x. int x < n \<Longrightarrow> dbuf' ! x = foldl (\<lambda>b p. dat_step d l sstring p (s + int x) b) (?b ! x) ps"
    using dat_loop_bytes [OF 1(1) assms(2-4,6) lb] by auto
  have "take (nat n) dbuf' = map (\<lambda>k. init_byte d l sstring ps (s + int k)) [0..<nat n]"
  proof (rule nth_equalityI)
    show "length (take (nat n) dbuf') = length (map (\<lambda>k. init_byte d l sstring ps (s + int k)) [0..<nat n])" using f(2) m assms(7) by simp
    show "take (nat n) dbuf' ! k = map (\<lambda>k. init_byte d l sstring ps (s + int k)) [0..<nat n] ! k" if "k < length (take (nat n) dbuf')" for k
    proof -
      have k: "int k < n" "k < nat n" using that by auto
      then have "?b ! k = 0" by (simp add: nth_append)
      then show ?thesis using f(3) [OF k(1)] k(2) by (simp add: init_byte_steps)
    qed
  qed
  then show ?thesis using f(1,2) 1(2) by (simp add: frame_def)
qed

lemma blocks_bytes:
  assumes "asmb_blocks (nuxiinit d) ps t e sstring dbuf l = (Inr (), l')" and "list_all (dat_ok l) ps"
    and "0 \<le> t" and "t \<le> e" and "e < 2 ^ 62" and "length dbuf = sizeof_buf"
  shows "obuf l' = obuf l @ map (\<lambda>k. init_byte d l sstring ps (t + int k)) [0..<nat (e - t)] \<and> syms l' = syms l \<and> INITDAT l' = INITDAT l"
  using assms
proof (induction "nuxiinit d" ps t e sstring dbuf arbitrary: l rule: asmb_blocks.induct)
  case (1 ps t e sstring dbuf)
  show ?case
  proof (cases "t < e")
    case False
    then show ?thesis using 1(2,5) by (subst (asm) asmb_blocks.simps) simp
  next
    case True
    let ?n = "if e - t > BLOCK then BLOCK else e - t"
    obtain dbuf1 l1 where b: "datblk (nuxiinit d) ps t ?n sstring dbuf l = (Inr dbuf1, l1)"
      and r: "asmb_blocks (nuxiinit d) ps (t + BLOCK) e sstring dbuf1 l1 = (Inr (), l')"
      using 1(2) True by (subst (asm) asmb_blocks.simps) (auto elim!: bindE)
    have n: "0 \<le> ?n" "?n \<le> BLOCK" "0 < BLOCK" using True by (auto simp: BLOCK_def sizeof_buf_def)
    have w: "length dbuf1 = sizeof_buf" "syms l1 = syms l" "INITDAT l1 = INITDAT l"
      "obuf l1 = obuf l @ map (\<lambda>k. init_byte d l sstring ps (t + int k)) [0..<nat ?n]"
      using datblk_bytes [OF b 1(3,4) _ n(1,2) 1(7)] True 1(6) by auto
    have "dat_step d l1 = dat_step d l" using image_same [OF w(2,3)] by (auto simp: dat_step_def fun_eq_iff)
    then have same: "dat_ok l1 = dat_ok l" "init_byte d l1 = init_byte d l"
      using image_same [OF w(2,3)] by (auto simp: fun_eq_iff init_byte_steps)
    show ?thesis
    proof (cases "e - t > BLOCK")
      case False
      then have "l' = l1" using r by (subst (asm) asmb_blocks.simps) simp
      then show ?thesis using w False by simp
    next
      case long: True
      have "obuf l' = obuf l1 @ map (\<lambda>k. init_byte d l1 sstring ps (t + BLOCK + int k)) [0..<nat (e - (t + BLOCK))] \<and> syms l' = syms l1 \<and> INITDAT l' = INITDAT l1"
        using 1(3-6) n long same w(1) True by (intro 1(1) [OF True r]) auto
      moreover have "[0..<nat (e - t)] = [0..<nat BLOCK] @ map (\<lambda>k. k + nat BLOCK) [0..<nat (e - (t + BLOCK))]"
      proof -
        have "nat (e - t) = nat BLOCK + nat (e - (t + BLOCK))" using long n(3) by simp
        then show ?thesis by (simp only: map_add_upt upt_add_eq_append [OF le0] add.commute)
      qed
      ultimately show ?thesis using w long n(3) same by (simp add: o_def algebra_simps)
    qed
  qed
qed

section \<open>The buffer is not overrun\<close>

definition sound :: "(lnk, 'a) eff \<Rightarrow> lnk \<Rightarrow> bool" where
  "sound m l \<longleftrightarrow> fst (m l) \<noteq> Inl Trap"

lemma sound_ret [simp]: "sound (ret x) l" "sound (gets f) l" "sound (modify g) l"
  by (simp_all add: sound_def)

lemma sound_bind:
  assumes "sound m l" and "\<And>x l1. m l = (Inr x, l1) \<Longrightarrow> sound (f x) l1"
  shows "sound (bind m f) l"
  using assms by (auto simp: sound_def bind_def split: prod.splits sum.splits)

lemma sound_seq: "sound m l \<Longrightarrow> (\<And>x l1. m l = (Inr x, l1) \<Longrightarrow> sound k l1) \<Longrightarrow> sound (seq m k) l"
  unfolding seq_def by (rule sound_bind)

lemma sound_onlyif: "sound m l \<Longrightarrow> sound (onlyif b m) l"
  by (simp add: onlyif_def)

lemma sound_diag: "sound (diag m) l"
  by (auto simp: diag_def sound_def seq_def bind_def modify_def gets_def onlyif_def raise_def)

lemma sound_value: "sound (dat_value t a) l"
proof -
  have c: "sound (ckoff w) l" for w l by (simp add: ckoff_def sound_onlyif sound_diag)
  have r: "sound (dynreloc i v x) l" for i v x l unfolding dynreloc_def Let_def by (intro sound_seq sound_onlyif sound_diag) simp
  show ?thesis unfolding dat_value_def
    by (auto intro!: sound_bind sound_seq c r sound_onlyif split: option.split)
qed

lemma sound_ieee: "sound (ieeedtof e) l"
proof -
  obtain b m w where "ieeedtof e = seq (onlyif b (diag m)) (ret w)" using ieee_form by blast
  then show ?thesis by (simp add: sound_seq sound_onlyif sound_diag)
qed

lemma sound_copy:
  assumes "\<And>k. k < c \<Longrightarrow> f k \<noteq> None" and "l0 + (c - i) \<le> length dbuf"
  shows "sound (copy f i c l0 dbuf) l"
  using assms
proof (induction f i c l0 dbuf rule: copy.induct)
  case (1 f i c l0 dbuf)
  show ?case
  proof (cases "i < c")
    case True
    then obtain b where "f i = Some b" using 1(2) by blast
    moreover have "l0 < length dbuf" using 1(3) True by linarith
    ultimately show ?thesis using 1 True by (subst copy.simps) simp
  qed (subst copy.simps, simp)
qed

lemma sound_write:
  assumes "dat_ok l p" and "l0 + (width p - i) \<le> length dbuf"
  shows "sound (dat_write (nuxiinit d) p a i (width p) l0 dbuf) l"
proof -
  have k: "sound (dat_const (nuxiinit d) t a i (width p) l0 dbuf) l" if "width p \<in> {1, 2, 4}" for t
  proof -
    have "sound (copy (nuxi_byte [0..<width p] (long_bytes v)) i (width p) l0 dbuf) l1" for v l1
      using that assms(2) by (intro sound_copy) (auto simp: nuxi_upto elem_def)
    then show ?thesis using that unfolding dat_const_def nuxi_tables by (intro sound_bind sound_value) auto
  qed
  show ?thesis
  proof (cases "a_type (p_to (d_prog p))")
    case D_SCONST
    then show ?thesis using assms by (auto simp: dat_write_def dat_ok_def elem_def intro!: sound_copy)
  next
    case D_FCONST
    then have w: "width p = 8 \<or> width p = 4" using assms(1) by (auto simp: dat_ok_def)
    have "sound (copy (nuxi_byte (fnuxi8 (nuxiinit d)) (int_bytes lo @ int_bytes hi)) i 8 l0 dbuf) l" if "width p = 8" for lo hi
      using that assms(2) double_byte by (intro sound_copy) auto
    moreover have "sound (copy (nuxi_byte (fnuxi4 (nuxiinit d)) (long_bytes v)) i 4 l0 dbuf) l1" if "width p = 4" for v l1
      unfolding nuxi_tables using that assms(2) by (intro sound_copy) (auto simp: nuxi_upto elem_def)
    ultimately show ?thesis using D_FCONST w by (auto simp: dat_write_def Let_def intro!: sound_bind sound_ieee)
  next
    case D_CONST
    then show ?thesis using assms k by (auto simp: dat_write_def dat_ok_def Let_def)
  next
    case D_ADDR
    then show ?thesis using assms k by (auto simp: dat_write_def dat_ok_def Let_def)
  qed (use assms(1) in \<open>simp_all add: dat_ok_def\<close>)
qed

lemma sound_one:
  assumes "dat_ok l p" and "0 \<le> s" and "s < 2 ^ 62" and "n \<le> BLOCK" and "length dbuf = sizeof_buf"
  shows "sound (dat_one (nuxiinit d) (word_of_int s) n sstring p dbuf) l"
proof -
  let ?y = "syms l (dat_sym p)" and ?c = "width p" and ?P = "place l p"
  let ?a = "s_value ?y + a_offset (p_from (d_prog p))" and ?l = "nat (max (place l p - s) 0)" and ?i = "nat (s - place l p)"
  obtain v where v: "a_sym (p_from (d_prog p)) = Some v" "dat_sym p = v" using assms(1) by (auto simp: dat_ok_def dat_sym_def)
  note A = place_offset [OF assms(1-3)]
  have "sound (seq (multiple_init ?l (?c - ?i) dbuf) (dat_write (nuxiinit d) p ?a ?i ?c ?l dbuf)) l" if "\<not> n \<le> max (?P - s) 0"
  proof -
    have "int ?l < n" using that by linarith
    then have "?l + ?c \<le> length dbuf" using ok_width [OF assms(1)] assms(4,5) unfolding BLOCK_def by linarith
    then have f: "?l + (?c - ?i) \<le> length dbuf" by linarith
    show ?thesis
    proof (rule sound_seq)
      show "sound (multiple_init ?l (?c - ?i) dbuf) l" using f by (simp add: multiple_init_def sound_onlyif sound_diag)
      fix x l1 assume m: "multiple_init ?l (?c - ?i) dbuf l = (Inr x, l1)"
      have "frame l l1" using m by (intro keepsD [of frame "multiple_init ?l (?c - ?i) dbuf"]) (auto simp: multiple_init_def intro!: fr.keeps_intros frame_diag)
      then have "dat_ok l1 p" using frame_same assms(1) by blast
      then show "sound (dat_write (nuxiinit d) p ?a ?i ?c ?l dbuf) l1" using f by (rule sound_write)
    qed
  qed
  then show ?thesis using A by (auto simp: dat_one_def v clip_eq width_def Let_def intro!: sound_bind)
qed

lemma sound_loop:
  assumes "list_all (dat_ok l) ps" and "0 \<le> s" and "s < 2 ^ 62" and "n \<le> BLOCK" and "length dbuf = sizeof_buf"
  shows "sound (dat_loop (nuxiinit d) (word_of_int s) n sstring ps dbuf) l"
  using assms
proof (induction ps arbitrary: dbuf l)
  case (Cons p ps)
  have "sound (dat_loop (nuxiinit d) (word_of_int s) n sstring ps dbuf1) l1"
    if "dat_one (nuxiinit d) (word_of_int s) n sstring p dbuf l = (Inr dbuf1, l1)" for dbuf1 l1
  proof -
    have "frame l l1" "length dbuf1 = sizeof_buf" using dat_one_bytes [OF that] Cons.prems by auto
    then show ?thesis using Cons.prems frame_same by (intro Cons.IH) (auto simp: list_all_iff)
  qed
  then show ?case using Cons.prems by (auto intro!: sound_bind sound_one)
qed simp

lemma sound_blk:
  assumes "list_all (dat_ok l) ps" and "0 \<le> s" and "s < 2 ^ 62" and "0 \<le> n" and "n \<le> BLOCK" and "length dbuf = sizeof_buf"
  shows "sound (datblk (nuxiinit d) ps s n sstring dbuf) l"
proof -
  have m: "nat n + Dbufslop \<le> length dbuf" using assms(4-6) unfolding BLOCK_def by linarith
  then have "sound (dat_loop (nuxiinit d) (word_of_int s) n sstring ps (replicate (nat n + Dbufslop) 0 @ drop (nat n + Dbufslop) dbuf)) l"
    using assms by (intro sound_loop) auto
  then show ?thesis using m unfolding datblk_def Let_def by (auto intro!: sound_bind sound_seq)
qed

lemma sound_blocks:
  assumes "list_all (dat_ok l) ps" and "0 \<le> t" and "t \<le> e" and "e < 2 ^ 62" and "length dbuf = sizeof_buf"
  shows "sound (asmb_blocks (nuxiinit d) ps t e sstring dbuf) l"
  using assms
proof (induction "nuxiinit d" ps t e sstring dbuf arbitrary: l rule: asmb_blocks.induct)
  case (1 ps t e sstring dbuf)
  show ?case
  proof (cases "t < e")
    case False
    then show ?thesis by (subst asmb_blocks.simps) simp
  next
    case True
    let ?n = "if e - t > BLOCK then BLOCK else e - t"
    have n: "0 \<le> ?n" "?n \<le> BLOCK" "0 < BLOCK" using True by (auto simp: BLOCK_def sizeof_buf_def)
    have "sound (asmb_blocks (nuxiinit d) ps (t + BLOCK) e sstring dbuf1) l1" if b: "datblk (nuxiinit d) ps t ?n sstring dbuf l = (Inr dbuf1, l1)" for dbuf1 l1
    proof (cases "t + BLOCK \<le> e")
      case True
      have "length dbuf1 = sizeof_buf" "syms l1 = syms l" "INITDAT l1 = INITDAT l" using datblk_bytes [OF b 1(2,3) _ n(1,2) 1(6)] True n(3) 1(5) by auto
      then show ?thesis using 1(2-5) True n(3) image_same [of l1 l] \<open>t < e\<close> by (intro 1(1)) (auto simp: list_all_iff)
    next
      case False
      then show ?thesis by (subst asmb_blocks.simps) simp
    qed
    moreover have "sound (datblk (nuxiinit d) ps t ?n sstring dbuf) l" using 1(2,3,5,6) True n by (intro sound_blk) auto
    ultimately show ?thesis using True by (subst asmb_blocks.simps) (simp only: if_True sound_bind)
  qed
qed

text \<open>A byte comes from the last instruction that covers it, and is zero where there is none.\<close>

lemma init_byte_last:
  assumes "covers l sstring p x" and "\<And>q. q \<in> set ys \<Longrightarrow> \<not> covers l sstring q x"
  shows "init_byte d l sstring (xs @ p # ys) x = dat_code d l p ! nat (x - place l p)"
proof -
  have "foldl (\<lambda>b p. if covers l sstring p x then dat_code d l p ! nat (x - place l p) else b) b ys = b" for b
    using assms(2) by (induction ys) simp_all
  then show ?thesis using assms(1) by (simp add: init_byte_def)
qed

text \<open>
  C12: the data segment is written block by block through a buffer, with instructions that
  start in one block and end in the next cut at the boundary. No access is outside the buffer, and
  the bytes that come out are exactly those of the instructions at the addresses of their symbols,
  with zeros between them: where no later instruction covers an initialised datum, its bytes are the
  value in the order of the target.
\<close>

theorem data_segment_exact:
  assumes "list_all (dat_ok l) datap" and "0 \<le> e" and "e < 2 ^ 62" and "length dbuf = sizeof_buf"
  shows "case asmb_blocks (nuxiinit debugd) datap 0 e False dbuf l of
    (Inl x, l') \<Rightarrow> x \<noteq> Trap
  | (Inr u, l') \<Rightarrow> obuf l' = obuf l @ map (\<lambda>k. init_byte debugd l False datap (int k)) [0..<nat e] \<and>
      (datap = xs @ p # ys \<and> s_type (syms l (dat_sym p)) \<noteq> SSTRING \<and> place l p + int (width p) \<le> e \<and> k < width p \<and>
       (\<forall>q \<in> set ys. \<not> covers l False q (place l p + int k)) \<longrightarrow>
       obuf l' ! (length (obuf l) + nat (place l p) + k) = dat_code debugd l p ! k)"
proof (cases "asmb_blocks (nuxiinit debugd) datap 0 e False dbuf l")
  case (Pair r l')
  have s: "sound (asmb_blocks (nuxiinit debugd) datap 0 e False dbuf) l" using assms by (intro sound_blocks) auto
  show ?thesis
  proof (cases r)
    case (Inl x)
    then show ?thesis using s Pair by (simp add: sound_def)
  next
    case (Inr u)
    then have b: "obuf l' = obuf l @ map (\<lambda>k. init_byte debugd l False datap (int k)) [0..<nat e]"
      using blocks_bytes [of debugd datap 0 e False dbuf l l'] Pair assms by simp
    have "obuf l' ! (length (obuf l) + nat (place l p) + k) = dat_code debugd l p ! k"
      if d: "datap = xs @ p # ys" "s_type (syms l (dat_sym p)) \<noteq> SSTRING" "place l p + int (width p) \<le> e" "k < width p"
        "\<forall>q \<in> set ys. \<not> covers l False q (place l p + int k)"
    proof -
      have p: "0 \<le> place l p" using assms(1) d(1) by (simp add: dat_ok_def)
      then have "nat (place l p) + k < nat e" "int (nat (place l p) + k) = place l p + int k" using d(3,4) by auto
      then have "obuf l' ! (length (obuf l) + (nat (place l p) + k)) = init_byte debugd l False datap (place l p + int k)"
        unfolding b by (simp only: nth_append_length_plus nth_map_upt diff_zero add_0 length_upt)
      also have "\<dots> = dat_code debugd l p ! k" unfolding d(1)
        using d(2,4,5) by (subst init_byte_last) (auto simp: covers_def)
      finally show ?thesis by (simp add: add.assoc)
    qed
    then show ?thesis using Inr Pair b by simp
  qed
qed

text \<open>A word at address 8 of a segment of 16 bytes.\<close>

definition demo_datum :: datum where
  "demo_datum = \<lparr>d_prog = demo_prog ADATA ((reg_adr R_NONE)\<lparr>a_type := D_OREG, a_offset := 4, a_symkind := N_EXTERN, a_sym := Some 0\<rparr>) 4
     ((reg_adr R_NONE)\<lparr>a_type := D_CONST, a_offset := 0x12345678\<rparr>), d_sval = []\<rparr>"

definition demo_data :: lnk where
  "demo_data = demo_lnk\<lparr>syms := (\<lambda>_. \<lparr>s_value = 4, s_type = SDATA\<rparr>)\<rparr>"

lemmas demo_datum_sel = demo_datum_def demo_data_def demo_prog_def reg_adr_def

lemma demo_datum_ok:
  "dat_ok demo_data demo_datum" "place demo_data demo_datum = 8" "width demo_datum = 4" "dat_sym demo_datum = 0"
  "dat_code False demo_data demo_datum = [0x78, 0x56, 0x34, 0x12]"
  by (simp_all add: dat_ok_def place_def width_def dat_sym_def demo_datum_sel dat_code_def Let_def dat_word_def long_bytes_def upt_rec)

lemma take_zeros: "l + k \<le> m \<Longrightarrow> take k (drop l (replicate m x @ ys)) = replicate k x"
  by (simp add: take_replicate min_def)

lemma demo_blocks:
  assumes "length dbuf = sizeof_buf"
  shows "\<exists>l'. asmb_blocks (nuxiinit False) [demo_datum] 0 16 False dbuf demo_data = (Inr (), l')"
proof -
  define b where "b = replicate (nat 16 + Dbufslop) 0 @ drop (nat 16 + Dbufslop) dbuf"
  have len: "length b = sizeof_buf" using assms by (simp add: sizeof_buf_def b_def)
  have "take 4 (drop 8 b) = replicate 4 0" unfolding b_def by (rule take_zeros) simp
  then have z: "multiple_init 8 4 b demo_data = (Inr (), demo_data)"
    using len by (simp add: multiple_init_def sizeof_buf_def onlyif_def list_ex_iff)
  have v: "dat_value (p_to (d_prog demo_datum)) a demo_data = (Inr 0x12345678, demo_data)" for a
    by (simp add: dat_value_def demo_datum_sel)
  have "copy (nuxi_byte [0..<4] (long_bytes 0x12345678)) 0 4 8 b demo_data =
      (Inr (take 8 b @ drop 0 (take 4 (long_bytes 0x12345678)) @ drop (8 + (4 - 0)) b), demo_data)"
    using len by (intro copy_copies) (simp_all add: nuxi_upto elem_def sizeof_buf_def)
  then obtain b' where c: "copy (nuxi_byte [0..<4] (long_bytes 0x12345678)) 0 4 8 b demo_data = (Inr b', demo_data)" by blast
  have w: "dat_write (nuxiinit False) demo_datum a 0 4 8 b demo_data = (Inr b', demo_data)" for a
  proof -
    have "a_type (p_to (d_prog demo_datum)) = D_CONST" by (simp add: demo_datum_sel)
    then show ?thesis using c v by (simp add: dat_write_def Let_def dat_const_def bind_def nuxi_tables(3) del: upt_rec_numeral)
  qed
  have "dat_one (nuxiinit False) (word_of_int 0) 16 False demo_datum b demo_data = (Inr b', demo_data)"
    using w z by (simp add: dat_one_def Let_def clip_eq seq_def bind_def gets_def demo_datum_sel)
  then have "\<exists>l'. datblk (nuxiinit False) [demo_datum] 0 16 False dbuf demo_data = (Inr b', l')"
    using assms unfolding datblk_def Let_def b_def [symmetric] by (simp add: sizeof_buf_def seq_def bind_def modify_def)
  then obtain l' where "datblk (nuxiinit False) [demo_datum] 0 16 False dbuf demo_data = (Inr b', l')" by blast
  then show ?thesis by (subst asmb_blocks.simps) (simp add: BLOCK_def sizeof_buf_def bind_def asmb_blocks.simps)
qed

theorem data_segment_exact_witness:
  "\<exists>l'. asmb_blocks (nuxiinit False) [demo_datum] 0 16 False (replicate sizeof_buf 0xff) demo_data = (Inr (), l') \<and>
    length (obuf l') = 16 \<and> obuf l' ! 9 = 0x56"
proof -
  have o: "list_all (dat_ok demo_data) [demo_datum]" "(0 :: int) \<le> 16" "(16 :: int) < 2 ^ 62" "length (replicate sizeof_buf (0xff :: u8)) = sizeof_buf"
    by (simp_all add: demo_datum_ok)
  obtain l' where l': "asmb_blocks (nuxiinit False) [demo_datum] 0 16 False (replicate sizeof_buf 0xff) demo_data = (Inr (), l')"
    using demo_blocks [OF o(4)] by blast
  have e: "obuf demo_data = []" "s_type (syms demo_data (dat_sym demo_datum)) \<noteq> SSTRING" by (simp_all add: demo_data_def demo_lnk_def)
  from data_segment_exact [OF o, of False "[]" demo_datum "[]" 1] l' e
  have "obuf l' = map (\<lambda>k. init_byte False demo_data False [demo_datum] (int k)) [0..<16]" and b: "obuf l' ! 9 = 0x56"
    by (auto simp: demo_datum_ok simp del: upt_rec_numeral)
  then have "length (obuf l') = 16" by simp
  then show ?thesis using l' b by blast
qed

end
