(* ===== verification/Spec2Isabelle.thy ===== *)
theory Spec2Isabelle
  imports Vlrt Utf Arm_Sys Link5_Text Link5_Datgen
begin

text \<open>
  A verification library for the core of the Plan 9 toolchain kept in this repository: the
  low-level run time that compiled programs rely on, the part of the ARM linker that turns
  instructions into machine code, and the machine they run on.

  \<^bold>\<open>Parts of the program.\<close> The C compilers translate 64-bit arithmetic on 32-bit targets into calls
  of \<^verbatim>\<open>lib_core/libc/port/vlrt.c\<close>; every tool reads and writes text through the UTF-8 routines of
  \<^verbatim>\<open>lib_core/libc/utf\<close>; the linker \<^verbatim>\<open>linkers/5l\<close> chooses for every instruction
  a rule of \<^verbatim>\<open>optab.c\<close> by its operands (\<^verbatim>\<open>span.c\<close>; the table is sorted by \<^verbatim>\<open>qsort\<close> of libc) and encodes it
  (\<^verbatim>\<open>codegen.c\<close>), after it has placed variables and instructions and collected large constants in literal
  pools (\<^verbatim>\<open>layout.c\<close>); compiled ARM programs are run by the emulator \<^verbatim>\<open>machines/5i\<close>, which has a
  paged memory with breakpoints (\<^verbatim>\<open>mem.c\<close>, \<^verbatim>\<open>bpt.c\<close>, \<^verbatim>\<open>5i.c\<close>) an interpreter (\<^verbatim>\<open>run.c\<close>) and the system calls of the
  emulated program (\<^verbatim>\<open>syscall_posix.c\<close>).

  \<^bold>\<open>Theories.\<close>
  \<^item> \<open>Goken_Prelude\<close>: the integer types, the ways a C function can fail to return, computations on a
    global state that may leave through \<^verbatim>\<open>longjmp\<close> (\<open>eff\<close>, \<open>bind\<close>), the locale \<open>keeps_rel\<close> of
    relations that compose along computations, and facts on machine words.
  \<^item> \<open>Vlrt\<close>: a \<^verbatim>\<open>Vlong\<close> is the record \<open>vlong\<close> of its two 32-bit words; each routine \<^verbatim>\<open>_f\<close> is the
    definition \<open>f\<close>. \<open>vval\<close> is the 64-bit word it stands for. The locales \<open>word64_ring\<close> and
    \<open>word64_divmod\<close> state what the compilers rely on; the interpretation \<open>vl\<close> discharges them. The
    normalisation loop of \<^verbatim>\<open>dodiv\<close> is a \<open>partial_function\<close> and is proved to end.
  \<^item> \<open>Utf\<close>: a C string is the list of bytes from its start with an offset; reading past the list is
    \<open>None\<close>. The locale \<open>codec\<close> (what an encoder and a decoder promise each other) is interpreted on
    \<^verbatim>\<open>runetochar\<close> and \<^verbatim>\<open>chartorune\<close>, and the string functions rest on it.
  \<^item> \<open>Arm_Mem\<close>: registers, segments, TLB, breakpoints and counters of the emulator as one record
    \<open>arm\<close>; each function of \<^verbatim>\<open>mem.c\<close> is a computation on it. \<open>mview\<close> abstracts the pages to a flat
    partial map of bytes; loads and stores refine the loads and stores of that map, and the locale
    \<open>byte_memory\<close> is interpreted on them. The host's file operations and random numbers are the
    record \<open>host\<close>, a parameter.
  \<^item> \<open>Arm_Run\<close>: the decoder, the conditions, every instruction handler, the dispatch table and the
    loop \<^verbatim>\<open>run\<close>, over a table of system calls. Every instruction but a system call keeps the memory
    invariant and the step counter (\<open>sane\<close>, an interpretation of \<open>keeps_rel\<close>); a system call may let the
    segments grow and stop the run after it (\<open>called\<close>, another interpretation), so \<^verbatim>\<open>run\<close> always ends;
    arithmetic, conditions, multiplication, branches, transfers and block transfers are compared with the
    architecture.
  \<^item> \<open>Arm_Sys\<close>: every system call of \<^verbatim>\<open>syscall_posix.c\<close> and the table \<^verbatim>\<open>systab\<close>. The operations of the
    host's system that they call are the record \<open>posix\<close>, a parameter, asked anew at every call. All calls
    are \<open>called\<close>; only \<^verbatim>\<open>exits\<close> changes the step counter and only \<^verbatim>\<open>brk\<close> the bounds of a segment. What a
    run of the emulator keeps, that it returns and how many instructions it executes is proved for this
    table.
  \<^item> \<open>Qsort\<close>: \<^verbatim>\<open>qsort.c\<close> on the bytes of the array, with \<^verbatim>\<open>long\<close> arithmetic that wraps at the size of a
    \<^verbatim>\<open>long\<close> (\<open>long_of\<close>) and the three loops of a partition as partial
    functions; the same algorithm on lists of elements; and the proof that the first computes the
    second. The locale \<open>total_cmp\<close> is what a comparison function promises, the locale \<open>sorter\<close> what a
    client of a sorting routine relies on; it is interpreted on \<^verbatim>\<open>qsort\<close> and used by the linker.
  \<^item> \<open>Link5\<close> and \<open>Link5_Asm\<close>: the constants and data of \<^verbatim>\<open>linkers/5l\<close>, the classes of operands
    (\<^verbatim>\<open>aclass\<close>, \<^verbatim>\<open>immrot\<close>, \<^verbatim>\<open>regoff\<close>) and every action of \<^verbatim>\<open>asmout\<close> with the encoders it calls, as
    computations on the record \<open>lnk\<close> of the linker's globals.
  \<^item> \<open>Link5_Exec\<close>: the words the encoder makes, run by the emulator of \<open>Arm_Run\<close>: operations,
    comparisons and branches, loads and stores, extensions and block transfers do what the assembly
    instruction means.
  \<^item> \<open>Link5_Optab\<close>: the table of rules, \<^verbatim>\<open>cmp\<close>, \<^verbatim>\<open>ocmp\<close>, \<^verbatim>\<open>buildop\<close> and \<^verbatim>\<open>oplook\<close>. \<open>ocmp\<close> interprets
    \<open>total_cmp\<close>; the search with ranges and caches finds the least rule that admits the operands.
  \<^item> \<open>Link5_Link\<close>: search, encoder and emulator together, from an instruction and its operands to the
    effect of the code.
  \<^item> \<open>Link5_Data\<close>: the symbol table (\<^verbatim>\<open>lookup\<close> of \<^verbatim>\<open>utils.c\<close>; the version of a symbol is a \<^verbatim>\<open>short\<close>) and the placement of variables (\<^verbatim>\<open>dodata\<close>
    of \<^verbatim>\<open>layout.c\<close>). The locale \<open>name_table\<close> says what a table of symbols promises, the locale \<open>placing\<close>
    what a loop over it does that gives out addresses; both are interpreted on the code.
  \<^item> \<open>Link5_Datgen\<close>: \<^verbatim>\<open>datagen.c\<close> and the loop of \<^verbatim>\<open>asmb\<close> that writes the data segment in blocks through the
    output buffer; compared with the bytes of the \<^verbatim>\<open>DATA\<close> instructions at their addresses.
  \<^item> \<open>Link5_Layout\<close>: \<^verbatim>\<open>dotext\<close> with the literal pools (\<^verbatim>\<open>addpool\<close>, \<^verbatim>\<open>checkpool\<close>, \<^verbatim>\<open>flushpool\<close>) and the loop of
    \<^verbatim>\<open>asmb\<close> over the instructions; the loop ends although its list grows. The locale
    \<open>text_state_invariant\<close> is a property of the list and of the linker's state that every round keeps;
    \<open>text_invariant\<close>, for properties of the list alone, is a sublocale of it.
  \<^item> \<open>Link5_Pools\<close>: interpretations of these locales that show the addresses of the instructions, the
    reach of every literal and that control does not run into a pool.
  \<^item> \<open>Link5_Text\<close>: what \<^verbatim>\<open>asmb\<close> writes is at the addresses of the layout; a large constant, put in a pool,
    encoded, loaded and run, arrives in its register; a jump arrives at the instruction it points to.

  \<^bold>\<open>Bounds and fuel.\<close> There is no fuel: loops are structural, have a termination proof or are partial
  functions whose termination is a lemma. \<^verbatim>\<open>ulong\<close> and \<^verbatim>\<open>uintptr\<close> are 64 bits wide in the emulator and the
  linker (host programs) and \<^verbatim>\<open>ulong\<close> is 32 bits wide in \<^verbatim>\<open>vlrt.c\<close> (compiled by the Plan 9 compilers); in \<^verbatim>\<open>qsort.c\<close> the size of a \<^verbatim>\<open>long\<close> is a parameter. The
  theorems on \<^verbatim>\<open>qsort\<close> are for arrays whose size in bytes fits a \<^verbatim>\<open>long\<close>, those on literals for programs below
  \<open>2^61\<close> bytes whose rules have at most 12 bytes and whose last instruction takes space.

  \<^bold>\<open>Not modelled.\<close> Floating-point conversions other than \<^verbatim>\<open>_d2v\<close>; the emulator's
  command interpreter, tracing, output and statistics (I/O), and the Plan 9 variant \<^verbatim>\<open>syscall.c\<close> of its system
  calls; of \<^verbatim>\<open>5l\<close>, the object-file reader, the rewriting
  passes, the header and the symbol table of the executable; the compilers, assemblers, other
  linkers, and the utilities around them.
\<close>

end
